(* ===== verification/Prelude.thy ===== *)
theory Prelude
  imports Main "HOL-Library.Word"
begin

text \<open>
  Shared vocabulary of the development: machine integer types, the result type of fallible
  C code with its sequencing combinator, counted \<open>for\<close> loops over an explicit state, and
  little-endian byte encodings of words over a byte-addressed memory.

  Conventions.  A C function that may stop the process (failed \<open>assert\<close>, \<open>exit\<close>, an access
  outside every object) returns \<open>'e + 'a\<close>: \<open>Inl\<close> carries how the process stopped and \<open>Inr\<close>
  the result.  \<open>and_then\<close> is the sequencing of two C statements, and \<open>for_each\<close> a counted
  loop whose body may stop.
\<close>

unbundle bit_operations_syntax

type_synonym u8 = "8 word"
type_synonym u16 = "16 word"
type_synonym u32 = "32 word"
type_synonym u64 = "64 word"

named_theorems bytes_simps "rewrite rules for byte memories and encodings"
named_theorems result_simps "inversion rules for results of sequenced statements"

section \<open>Results and sequencing\<close>

definition and_then :: "'e + 'a \<Rightarrow> ('a \<Rightarrow> 'e + 'b) \<Rightarrow> 'e + 'b" where
  "and_then r f = (case r of Inl e \<Rightarrow> Inl e | Inr x \<Rightarrow> f x)"

lemma and_then_Inl [simp]: "and_then (Inl e) f = Inl e"
  by (simp add: and_then_def)

lemma and_then_Inr [simp]: "and_then (Inr x) f = f x"
  by (simp add: and_then_def)

lemma and_then_eq_Inr [result_simps]:
  "and_then r f = Inr y \<longleftrightarrow> (\<exists>x. r = Inr x \<and> f x = Inr y)"
  by (cases r) simp_all

lemma and_then_eq_Inl [result_simps]:
  "and_then r f = Inl e \<longleftrightarrow> r = Inl e \<or> (\<exists>x. r = Inr x \<and> f x = Inl e)"
  by (cases r) simp_all

lemma and_then_assoc: "and_then (and_then r f) g = and_then r (\<lambda>x. and_then (f x) g)"
  by (cases r) simp_all

lemma and_then_cong [fundef_cong]:
  "r = r' \<Longrightarrow> (\<And>x. r' = Inr x \<Longrightarrow> f x = f' x) \<Longrightarrow> and_then r f = and_then r' f'"
  by (cases r') simp_all

text \<open>With this rule the simplifier runs a sequence of statements from the front, without looking ahead.\<close>

lemma and_then_weak_cong: "r = r' \<Longrightarrow> and_then r f = and_then r' f"
  by simp

lemma if_Inl_eq_Inr [result_simps]:
  "(if b then Inl e else r) = Inr y \<longleftrightarrow> \<not> b \<and> r = Inr y"
  by simp

lemma if_eq_Inl_Inr [result_simps]:
  "(if b then r else Inl e) = Inr y \<longleftrightarrow> b \<and> r = Inr y"
  by simp

section \<open>Counted loops\<close>

text \<open>
  \<open>for (i = lo; i < hi; ++i) body\<close> is \<open>for_each body [lo..<hi] s\<close>; a \<open>continue\<close> is a body that
  returns the state early.
\<close>

fun for_each :: "(nat \<Rightarrow> 's \<Rightarrow> 'e + 's) \<Rightarrow> nat list \<Rightarrow> 's \<Rightarrow> 'e + 's" where
  "for_each body [] s = Inr s"
| "for_each body (i # is) s = and_then (body i s) (for_each body is)"

lemma and_then_Inr_right [simp]: "and_then r Inr = r"
  by (cases r) simp_all

lemma for_each_single [simp]: "for_each body [i] = body i"
proof
  fix s
  have "for_each body [] = Inr" by (rule ext) simp
  then show "for_each body [i] s = body i s" by simp
qed

lemma for_each_append:
  "for_each body (xs @ ys) s = and_then (for_each body xs s) (for_each body ys)"
proof (induction xs arbitrary: s)
  case (Cons i xs)
  have "for_each body (xs @ ys) = (\<lambda>x. and_then (for_each body xs x) (for_each body ys))"
    by (rule ext) (rule Cons.IH)
  then show ?case by (simp add: and_then_assoc)
qed simp

text \<open>
  The loop rule: an invariant over the indices already done that every iteration extends holds
  of the whole range when the loop ends.
\<close>

lemma for_each_upt_invariant:
  assumes run: "for_each body [0..<n] s = Inr t"
    and start: "I 0 s"
    and step: "\<And>i u v. i < n \<Longrightarrow> I i u \<Longrightarrow> body i u = Inr v \<Longrightarrow> I (Suc i) v"
  shows "I n t"
  using run step
proof (induction n arbitrary: t)
  case 0
  with start show ?case by simp
next
  case (Suc n)
  from Suc.prems(1) obtain u where u: "for_each body [0..<n] s = Inr u"
    and last: "body n u = Inr t"
    by (auto simp: for_each_append result_simps)
  have "I n u" by (rule Suc.IH [OF u]) (use Suc.prems(2) in auto)
  with last Suc.prems(2) show ?case by blast
qed

text \<open>
  The same with what stops the loop: \<open>outcome E P r\<close> says that \<open>r\<close> is a result in \<open>P\<close> or a stop
  in \<open>E\<close>.
\<close>

definition outcome :: "('e \<Rightarrow> bool) \<Rightarrow> ('a \<Rightarrow> bool) \<Rightarrow> 'e + 'a \<Rightarrow> bool" where
  "outcome E P r \<longleftrightarrow> (case r of Inl e \<Rightarrow> E e | Inr x \<Rightarrow> P x)"

lemma outcome_simps [simp]: "outcome E P (Inl e) = E e" "outcome E P (Inr x) = P x"
  by (simp_all add: outcome_def)

lemma outcome_and_then:
  "outcome E Q r \<Longrightarrow> (\<And>x. Q x \<Longrightarrow> outcome E P (f x)) \<Longrightarrow> outcome E P (and_then r f)"
  by (cases r) auto

lemma outcome_mono:
  "outcome E P r \<Longrightarrow> (\<And>e. E e \<Longrightarrow> E' e) \<Longrightarrow> (\<And>x. P x \<Longrightarrow> P' x) \<Longrightarrow> outcome E' P' r"
  by (cases r) auto

lemma for_each_upt_outcome:
  assumes start: "I 0 s"
    and step: "\<And>i u. i < n \<Longrightarrow> I i u \<Longrightarrow> outcome E (I (Suc i)) (body i u)"
  shows "outcome E (I n) (for_each body [0..<n] s)"
  using step
proof (induction n)
  case 0
  with start show ?case by simp
next
  case (Suc n)
  have "outcome E (I n) (for_each body [0..<n] s)" by (rule Suc.IH) (use Suc.prems in auto)
  with Suc.prems show ?case
    by (auto simp: for_each_append intro: outcome_and_then)
qed

text \<open>A loop whose every iteration succeeds under the invariant succeeds.\<close>

lemma for_each_upt_total:
  assumes start: "I 0 s"
    and step: "\<And>i u. i < n \<Longrightarrow> I i u \<Longrightarrow> \<exists>v. body i u = Inr v \<and> I (Suc i) v"
  shows "\<exists>t. for_each body [0..<n] s = Inr t \<and> I n t"
  using step
proof (induction n)
  case 0
  with start show ?case by simp
next
  case (Suc n)
  then obtain u where "for_each body [0..<n] s = Inr u" "I n u"
    by (metis less_SucI)
  moreover from this Suc.prems obtain v where "body n u = Inr v" "I (Suc n) v"
    by blast
  ultimately show ?case by (auto simp: for_each_append)
qed

lemma sum_list_int_update:
  "k < length xs \<Longrightarrow> sum_list (xs[k := x]) = sum_list xs + x - (xs ! k :: int)"
  by (induction xs arbitrary: k) (auto split: nat.split)

section \<open>Little-endian bytes\<close>

definition byte_at :: "nat \<Rightarrow> 'a::len word \<Rightarrow> u8" where
  "byte_at i w = ucast (drop_bit (8 * i) w)"

definition le_bytes :: "nat \<Rightarrow> 'a::len word \<Rightarrow> u8 list" where
  "le_bytes k w = map (\<lambda>i. byte_at i w) [0..<k]"

fun of_le_bytes :: "u8 list \<Rightarrow> 'a::len word" where
  "of_le_bytes [] = 0"
| "of_le_bytes (b # bs) = ucast b OR push_bit 8 (of_le_bytes bs)"

lemma length_le_bytes [simp]: "length (le_bytes k w) = k"
  by (simp add: le_bytes_def)

lemma nth_le_bytes [simp]: "i < k \<Longrightarrow> le_bytes k w ! i = byte_at i w"
  by (simp add: le_bytes_def)

lemma bit_byte_at: "bit (byte_at i w) n \<longleftrightarrow> n < 8 \<and> bit w (8 * i + n)"
  by (auto simp: byte_at_def bit_simps)

lemma bit_of_le_bytes:
  "bit (of_le_bytes bs :: 'a::len word) n \<longleftrightarrow>
     n < LENGTH('a) \<and> n div 8 < length bs \<and> bit (bs ! (n div 8)) (n mod 8)"
proof (induction bs arbitrary: n)
  case Nil
  then show ?case by simp
next
  case (Cons b bs)
  show ?case
  proof (cases "n < 8")
    case True
    then show ?thesis by (auto simp: bit_simps)
  next
    case False
    then have "n div 8 = Suc ((n - 8) div 8)" "n mod 8 = (n - 8) mod 8"
      by (simp_all add: le_div_geq le_mod_geq)
    with False Cons.IH [of "n - 8"] show ?thesis
      by (auto simp: bit_simps dest: bit_imp_le_length)
  qed
qed

lemma of_le_bytes_le_bytes [simp]:
  fixes w :: "'a::len word"
  assumes "LENGTH('a) \<le> 8 * k"
  shows "of_le_bytes (le_bytes k w) = w"
proof (rule bit_word_eqI)
  fix n assume "n < LENGTH('a)"
  moreover from this assms have "n div 8 < k" by linarith
  ultimately show "bit (of_le_bytes (le_bytes k w) :: 'a word) n \<longleftrightarrow> bit w n"
    by (simp add: bit_of_le_bytes bit_byte_at)
qed

lemma le_bytes_of_le_bytes:
  fixes bs :: "u8 list"
  assumes "length bs = k" "8 * k \<le> LENGTH('a::len)"
  shows "le_bytes k (of_le_bytes bs :: 'a word) = bs"
proof (rule nth_equalityI)
  fix i assume "i < length (le_bytes k (of_le_bytes bs :: 'a word))"
  then have i: "i < k" by simp
  show "le_bytes k (of_le_bytes bs :: 'a word) ! i = bs ! i"
  proof (rule bit_word_eqI)
    fix n assume n: "n < LENGTH(8)"
    then have "8 * i + n < LENGTH('a)" using i assms(2) by simp
    with n i assms(1) show "bit (le_bytes k (of_le_bytes bs :: 'a word) ! i) n \<longleftrightarrow> bit (bs ! i) n"
      by (simp add: bit_byte_at bit_of_le_bytes)
  qed
qed (simp add: assms)

section \<open>Byte memory\<close>

type_synonym memory = "u64 \<Rightarrow> u8"

definition load_bytes :: "memory \<Rightarrow> u64 \<Rightarrow> nat \<Rightarrow> u8 list" where
  "load_bytes m a n = map (\<lambda>i. m (a + of_nat i)) [0..<n]"

definition store_bytes :: "memory \<Rightarrow> u64 \<Rightarrow> u8 list \<Rightarrow> memory" where
  "store_bytes m a bs = (\<lambda>x. if unat (x - a) < length bs then bs ! unat (x - a) else m x)"

definition load64 :: "memory \<Rightarrow> u64 \<Rightarrow> u64" where
  "load64 m a = of_le_bytes (load_bytes m a 8)"

definition store64 :: "memory \<Rightarrow> u64 \<Rightarrow> u64 \<Rightarrow> memory" where
  "store64 m a v = store_bytes m a (le_bytes 8 v)"

definition load32 :: "memory \<Rightarrow> u64 \<Rightarrow> u32" where
  "load32 m a = of_le_bytes (load_bytes m a 4)"

definition store32 :: "memory \<Rightarrow> u64 \<Rightarrow> u32 \<Rightarrow> memory" where
  "store32 m a v = store_bytes m a (le_bytes 4 v)"

lemma length_load_bytes [simp]: "length (load_bytes m a n) = n"
  by (simp add: load_bytes_def)

lemma nth_load_bytes [simp]: "i < n \<Longrightarrow> load_bytes m a n ! i = m (a + of_nat i)"
  by (simp add: load_bytes_def)

lemma load_bytes_cong:
  "(\<And>i. i < n \<Longrightarrow> m (a + of_nat i) = m' (a + of_nat i)) \<Longrightarrow> load_bytes m a n = load_bytes m' a n"
  by (simp add: load_bytes_def)

lemma load_store_bytes_same [bytes_simps]:
  "length bs \<le> 2 ^ 64 \<Longrightarrow> load_bytes (store_bytes m a bs) a (length bs) = bs"
  by (rule nth_equalityI) (simp_all add: store_bytes_def unat_of_nat)

lemma load_store64_same [bytes_simps]: "load64 (store64 m a v) a = v"
  using load_store_bytes_same [of "le_bytes 8 v" m a] by (simp add: load64_def store64_def)

lemma load_store32_same [bytes_simps]: "load32 (store32 m a v) a = v"
  using load_store_bytes_same [of "le_bytes 4 v" m a] by (simp add: load32_def store32_def)

text \<open>A store leaves every byte outside its range alone.\<close>

lemma store_bytes_outside:
  "length bs \<le> unat (x - a) \<Longrightarrow> store_bytes m a bs x = m x"
  by (simp add: store_bytes_def)

text \<open>
  Addresses are compared through their offset from a common base, so that no word
  arithmetic is left once both sides are written as base plus offset.
\<close>

lemma unat_of_nat_diff:
  assumes "p < 2 ^ 63" "q < 2 ^ 63"
  shows "unat (of_nat q - of_nat p :: u64) = (if p \<le> q then q - p else 2 ^ 64 + q - p)"
proof -
  have "unat (of_nat q :: u64) = q" "unat (of_nat p :: u64) = p"
    using assms by (simp_all add: unat_of_nat)
  with assms show ?thesis by (auto simp: unat_sub_if')
qed

lemma store_bytes_at:
  assumes "p + length bs < 2 ^ 63" "q < 2 ^ 63"
  shows "store_bytes m (b + of_nat p) bs (b + of_nat q) =
           (if p \<le> q \<and> q < p + length bs then bs ! (q - p) else m (b + of_nat q))"
proof -
  have "unat (b + of_nat q - (b + of_nat p)) = unat (of_nat q - of_nat p :: u64)"
    by simp
  with assms show ?thesis by (auto simp: store_bytes_def unat_of_nat_diff)
qed

lemma load_bytes_store_other:
  assumes "p + length bs < 2 ^ 63" "q + n < 2 ^ 63" "q + n \<le> p \<or> p + length bs \<le> q"
  shows "load_bytes (store_bytes m (b + of_nat p) bs) (b + of_nat q) n = load_bytes m (b + of_nat q) n"
proof (rule load_bytes_cong)
  fix i assume "i < n"
  with assms have "store_bytes m (b + of_nat p) bs (b + of_nat (q + i)) = m (b + of_nat (q + i))"
    by (subst store_bytes_at) auto
  then show "store_bytes m (b + of_nat p) bs (b + of_nat q + of_nat i) = m (b + of_nat q + of_nat i)"
    by (simp add: add.assoc)
qed

lemma load64_store_bytes_other:
  assumes "p + length bs < 2 ^ 63" "q + 8 < 2 ^ 63" "q + 8 \<le> p \<or> p + length bs \<le> q"
  shows "load64 (store_bytes m (b + of_nat p) bs) (b + of_nat q) = load64 m (b + of_nat q)"
  using assms by (simp add: load64_def load_bytes_store_other)

end
