(* ===== verification/VmsState.thy ===== *)
theory VmsState
  imports Prelude
begin

text \<open>
  The state of the virtual memory simulator (\<open>vms/src\<close>): the \<open>static\<close> variables of its
  files and the bytes of the mapping that backs its physical pages.  Every pointer of the code is
  a 64-bit address; an access is defined only inside the mapping of \<open>MAX_PAGES\<close> pages that
  \<open>vms_init\<close> obtained, anything else is \<open>Bad_access\<close>.
\<close>

abbreviation (input) PAGE_SIZE :: nat where "PAGE_SIZE \<equiv> 4096"
abbreviation (input) MAX_PAGES :: nat where "MAX_PAGES \<equiv> 256"
abbreviation (input) NUM_PTE_ENTRIES :: nat where "NUM_PTE_ENTRIES \<equiv> 512"

text \<open>What \<open>print_fatal_page_fault\<close> prints before the process exits.\<close>

record fault_report =
  fr_address :: u64
  fr_page_table :: u64
  fr_level :: nat
  fr_ppn :: u64
  fr_flags :: string

text \<open>
  How the process stops: a failed \<open>assert\<close>, an \<open>exit\<close> with its status, a memory access outside
  the mapping, an array index out of range, or \<open>exit(EFAULT)\<close> after the fatal page fault report.
\<close>

datatype vms_stop =
    Assert_failed
  | Exit int
  | Bad_access
  | Bad_index
  | Fatal_page_fault fault_report

type_synonym 'a vms_result = "vms_stop + 'a"

record vms_state =
  mem :: memory
  base_pointer :: u64
  allocated :: "int list"
  used_pages :: int
  root_page_table :: u64
  ref_track :: "int list"

text \<open>The values C gives the statics before \<open>main\<close> runs.\<close>

definition vms_start :: vms_state where
  "vms_start = \<lparr>mem = (\<lambda>_. 0), base_pointer = 0, allocated = replicate MAX_PAGES 0,
     used_pages = 0, root_page_table = 0, ref_track = replicate MAX_PAGES 0\<rparr>"

section \<open>Accesses\<close>

definition in_pool :: "vms_state \<Rightarrow> u64 \<Rightarrow> nat \<Rightarrow> bool" where
  "in_pool s a n \<longleftrightarrow> unat (a - base_pointer s) + n \<le> MAX_PAGES * PAGE_SIZE"

definition read64 :: "u64 \<Rightarrow> vms_state \<Rightarrow> u64 vms_result" where
  "read64 a s = (if in_pool s a 8 then Inr (load64 (mem s) a) else Inl Bad_access)"

definition write64 :: "u64 \<Rightarrow> u64 \<Rightarrow> vms_state \<Rightarrow> vms_state vms_result" where
  "write64 a v s =
     (if in_pool s a 8 then Inr (s\<lparr>mem := store64 (mem s) a v\<rparr>) else Inl Bad_access)"

definition read32 :: "u64 \<Rightarrow> vms_state \<Rightarrow> u32 vms_result" where
  "read32 a s = (if in_pool s a 4 then Inr (load32 (mem s) a) else Inl Bad_access)"

definition write32 :: "u64 \<Rightarrow> u32 \<Rightarrow> vms_state \<Rightarrow> vms_state vms_result" where
  "write32 a v s =
     (if in_pool s a 4 then Inr (s\<lparr>mem := store32 (mem s) a v\<rparr>) else Inl Bad_access)"

text \<open>\<open>memcpy(dst, src, n)\<close> and \<open>memset(dst, 0, n)\<close>.\<close>

definition memcpy :: "u64 \<Rightarrow> u64 \<Rightarrow> nat \<Rightarrow> vms_state \<Rightarrow> vms_state vms_result" where
  "memcpy dst src n s =
     (if in_pool s dst n \<and> in_pool s src n
      then Inr (s\<lparr>mem := store_bytes (mem s) dst (load_bytes (mem s) src n)\<rparr>)
      else Inl Bad_access)"

definition memset0 :: "u64 \<Rightarrow> nat \<Rightarrow> vms_state \<Rightarrow> vms_state vms_result" where
  "memset0 dst n s =
     (if in_pool s dst n then Inr (s\<lparr>mem := store_bytes (mem s) dst (replicate n 0)\<rparr>)
      else Inl Bad_access)"

text \<open>An \<open>int\<close> array of the code read at an \<open>int\<close> index, out of range is undefined behaviour.\<close>

definition array_get :: "int list \<Rightarrow> int \<Rightarrow> int vms_result" where
  "array_get xs i = (if 0 \<le> i \<and> i < int (length xs) then Inr (xs ! nat i) else Inl Bad_index)"

end
