(* ===== verification/Pte.thy ===== *)
theory Pte
  imports VmsState
begin

text \<open>
  Page table entries (\<open>vms/src/pte.c\<close>).  Each C function takes a pointer to an entry; its effect
  on the 64-bit value is a function on words here, and \<open>update_entry\<close>/\<open>read_entry\<close> apply it at an
  address.  The lemmas give every flag and the 44-bit physical page number bit by bit: setting one
  field changes no other, and the page number round-trips.
\<close>

definition PTE_CUSTOM :: u64 where "PTE_CUSTOM = push_bit 8 1"
definition PTE_WRITE :: u64 where "PTE_WRITE = push_bit 2 1"
definition PTE_READ :: u64 where "PTE_READ = push_bit 1 1"
definition PTE_VALID :: u64 where "PTE_VALID = push_bit 0 1"
abbreviation (input) PTE_PPN_START_BIT :: nat where "PTE_PPN_START_BIT \<equiv> 10"

section \<open>The values\<close>

definition pte_valid_clear :: "u64 \<Rightarrow> u64" where "pte_valid_clear e = e AND NOT PTE_VALID"
definition pte_valid_set :: "u64 \<Rightarrow> u64" where "pte_valid_set e = e OR PTE_VALID"
definition pte_valid :: "u64 \<Rightarrow> bool" where "pte_valid e \<longleftrightarrow> e AND PTE_VALID \<noteq> 0"

definition pte_read_clear :: "u64 \<Rightarrow> u64" where "pte_read_clear e = e AND NOT PTE_READ"
definition pte_read_set :: "u64 \<Rightarrow> u64" where "pte_read_set e = e OR PTE_READ"
definition pte_read :: "u64 \<Rightarrow> bool" where "pte_read e \<longleftrightarrow> e AND PTE_READ \<noteq> 0"

definition pte_write_clear :: "u64 \<Rightarrow> u64" where "pte_write_clear e = e AND NOT PTE_WRITE"
definition pte_write_set :: "u64 \<Rightarrow> u64" where "pte_write_set e = e OR PTE_WRITE"
definition pte_write :: "u64 \<Rightarrow> bool" where "pte_write e \<longleftrightarrow> e AND PTE_WRITE \<noteq> 0"

definition pte_custom_clear :: "u64 \<Rightarrow> u64" where "pte_custom_clear e = e AND NOT PTE_CUSTOM"
definition pte_custom_set :: "u64 \<Rightarrow> u64" where "pte_custom_set e = e OR PTE_CUSTOM"
definition pte_custom :: "u64 \<Rightarrow> bool" where "pte_custom e \<longleftrightarrow> e AND PTE_CUSTOM \<noteq> 0"

definition ppn_mask :: u64 where
  "ppn_mask = drop_bit PTE_PPN_START_BIT (push_bit 20 (NOT 0))"

definition pte_get_ppn :: "u64 \<Rightarrow> u64" where
  "pte_get_ppn e = drop_bit PTE_PPN_START_BIT (e AND ppn_mask)"

definition pte_set_ppn :: "u64 \<Rightarrow> u64 \<Rightarrow> u64" where
  "pte_set_ppn ppn e = (e AND NOT ppn_mask) OR drop_bit PTE_PPN_START_BIT (push_bit 20 ppn)"

section \<open>The functions on entry pointers\<close>

definition read_entry :: "(u64 \<Rightarrow> 'a) \<Rightarrow> u64 \<Rightarrow> vms_state \<Rightarrow> 'a vms_result" where
  "read_entry f entry s = and_then (read64 entry s) (\<lambda>e. Inr (f e))"

definition update_entry :: "(u64 \<Rightarrow> u64) \<Rightarrow> u64 \<Rightarrow> vms_state \<Rightarrow> vms_state vms_result" where
  "update_entry f entry s = and_then (read64 entry s) (\<lambda>e. write64 entry (f e) s)"

definition vms_pte_valid_clear :: "u64 \<Rightarrow> vms_state \<Rightarrow> vms_state vms_result" where
  "vms_pte_valid_clear = update_entry pte_valid_clear"
definition vms_pte_valid_set :: "u64 \<Rightarrow> vms_state \<Rightarrow> vms_state vms_result" where
  "vms_pte_valid_set = update_entry pte_valid_set"
definition vms_pte_valid :: "u64 \<Rightarrow> vms_state \<Rightarrow> bool vms_result" where
  "vms_pte_valid = read_entry pte_valid"
definition vms_pte_read_clear :: "u64 \<Rightarrow> vms_state \<Rightarrow> vms_state vms_result" where
  "vms_pte_read_clear = update_entry pte_read_clear"
definition vms_pte_read_set :: "u64 \<Rightarrow> vms_state \<Rightarrow> vms_state vms_result" where
  "vms_pte_read_set = update_entry pte_read_set"
definition vms_pte_read :: "u64 \<Rightarrow> vms_state \<Rightarrow> bool vms_result" where
  "vms_pte_read = read_entry pte_read"
definition vms_pte_write_clear :: "u64 \<Rightarrow> vms_state \<Rightarrow> vms_state vms_result" where
  "vms_pte_write_clear = update_entry pte_write_clear"
definition vms_pte_write_set :: "u64 \<Rightarrow> vms_state \<Rightarrow> vms_state vms_result" where
  "vms_pte_write_set = update_entry pte_write_set"
definition vms_pte_write :: "u64 \<Rightarrow> vms_state \<Rightarrow> bool vms_result" where
  "vms_pte_write = read_entry pte_write"
definition vms_pte_custom_clear :: "u64 \<Rightarrow> vms_state \<Rightarrow> vms_state vms_result" where
  "vms_pte_custom_clear = update_entry pte_custom_clear"
definition vms_pte_custom_set :: "u64 \<Rightarrow> vms_state \<Rightarrow> vms_state vms_result" where
  "vms_pte_custom_set = update_entry pte_custom_set"
definition vms_pte_custom :: "u64 \<Rightarrow> vms_state \<Rightarrow> bool vms_result" where
  "vms_pte_custom = read_entry pte_custom"
definition vms_pte_get_ppn :: "u64 \<Rightarrow> vms_state \<Rightarrow> u64 vms_result" where
  "vms_pte_get_ppn = read_entry pte_get_ppn"
definition vms_pte_set_ppn :: "u64 \<Rightarrow> u64 \<Rightarrow> vms_state \<Rightarrow> vms_state vms_result" where
  "vms_pte_set_ppn entry ppn = update_entry (pte_set_ppn ppn) entry"

lemmas vms_pte_defs =
  vms_pte_valid_clear_def vms_pte_valid_set_def vms_pte_valid_def
  vms_pte_read_clear_def vms_pte_read_set_def vms_pte_read_def
  vms_pte_write_clear_def vms_pte_write_set_def vms_pte_write_def
  vms_pte_custom_clear_def vms_pte_custom_set_def vms_pte_custom_def
  vms_pte_get_ppn_def vms_pte_set_ppn_def

section \<open>Bit by bit\<close>

named_theorems pte_bits "the bits of every entry operation"

lemma bit_pte_flag_masks:
  "bit PTE_VALID n \<longleftrightarrow> n = 0" "bit PTE_READ n \<longleftrightarrow> n = 1"
  "bit PTE_WRITE n \<longleftrightarrow> n = 2" "bit PTE_CUSTOM n \<longleftrightarrow> n = 8"
  unfolding PTE_VALID_def PTE_READ_def PTE_WRITE_def PTE_CUSTOM_def push_bit_of_1 bit_exp_iff
  by (auto simp: possible_bit_def)

lemma and_single_bit: "e AND push_bit n 1 \<noteq> 0 \<longleftrightarrow> bit (e :: 'a::len word) n"
  unfolding push_bit_of_1 by (simp add: and_exp_eq_0_iff_not_bit)

lemma pte_flag_bits [pte_bits]:
  "pte_valid e \<longleftrightarrow> bit e 0" "pte_read e \<longleftrightarrow> bit e 1"
  "pte_write e \<longleftrightarrow> bit e 2" "pte_custom e \<longleftrightarrow> bit e 8"
  unfolding pte_valid_def pte_read_def pte_write_def pte_custom_def
    PTE_VALID_def PTE_READ_def PTE_WRITE_def PTE_CUSTOM_def and_single_bit by (rule refl)+

lemma bit_pte_update [pte_bits]:
  "bit (pte_valid_set e) n \<longleftrightarrow> n = 0 \<or> bit e n"
  "bit (pte_read_set e) n \<longleftrightarrow> n = 1 \<or> bit e n"
  "bit (pte_write_set e) n \<longleftrightarrow> n = 2 \<or> bit e n"
  "bit (pte_custom_set e) n \<longleftrightarrow> n = 8 \<or> bit e n"
  "bit (pte_valid_clear e) n \<longleftrightarrow> n \<noteq> 0 \<and> bit e n"
  "bit (pte_read_clear e) n \<longleftrightarrow> n \<noteq> 1 \<and> bit e n"
  "bit (pte_write_clear e) n \<longleftrightarrow> n \<noteq> 2 \<and> bit e n"
  "bit (pte_custom_clear e) n \<longleftrightarrow> n \<noteq> 8 \<and> bit e n"
  by (auto simp: pte_valid_set_def pte_read_set_def pte_write_set_def pte_custom_set_def
      pte_valid_clear_def pte_read_clear_def pte_write_clear_def pte_custom_clear_def
      bit_pte_flag_masks bit_or_iff bit_and_iff bit_not_iff dest: bit_imp_le_length)

lemma bit_ppn_mask [pte_bits]: "bit ppn_mask n \<longleftrightarrow> 10 \<le> n \<and> n < 54"
  by (auto simp: ppn_mask_def bit_simps)

lemma bit_pte_get_ppn [pte_bits]: "bit (pte_get_ppn e) n \<longleftrightarrow> n < 44 \<and> bit e (n + 10)"
  by (auto simp: pte_get_ppn_def bit_simps bit_ppn_mask add.commute)

lemma bit_pte_set_ppn [pte_bits]:
  "bit (pte_set_ppn ppn e) n \<longleftrightarrow> (if 10 \<le> n \<and> n < 54 then bit ppn (n - 10) else bit e n)"
  by (auto simp: pte_set_ppn_def bit_simps bit_ppn_mask dest: bit_imp_le_length)

end
