(* ===== verification/PageTable.thy ===== *)
theory PageTable
  imports Pte
begin

text \<open>
  Page table indexing and page numbers (\<open>vms/src/page_table.c\<close>, and \<open>check_page_aligned\<close> of
  \<open>vms/src/pages.c\<close>).  The lemmas compute the index of a level as a slice of the virtual address
  and show that a page pointer survives the trip through an entry.
\<close>

abbreviation (input) INDEX_BITS :: nat where "INDEX_BITS \<equiv> 9"
abbreviation (input) OFFSET_BITS :: nat where "OFFSET_BITS \<equiv> 12"

definition check_page_aligned :: "u64 \<Rightarrow> unit vms_result" where
  "check_page_aligned p = (if p mod of_nat PAGE_SIZE = 0 then Inr () else Inl Assert_failed)"

definition vms_page_table_index :: "u64 \<Rightarrow> nat \<Rightarrow> u16" where
  "vms_page_table_index va level =
     (let start_bit = (INDEX_BITS * level + OFFSET_BITS) mod 256;
          mask = push_bit start_bit 0x1FF
      in ucast (drop_bit start_bit (mask AND va)))"

definition vms_page_table_pte_entry_from_index :: "u64 \<Rightarrow> nat \<Rightarrow> u64" where
  "vms_page_table_pte_entry_from_index page_table index = page_table + of_nat (8 * index)"

definition vms_page_table_pte_entry :: "u64 \<Rightarrow> u64 \<Rightarrow> nat \<Rightarrow> u64" where
  "vms_page_table_pte_entry page_table va level =
     vms_page_table_pte_entry_from_index page_table (unat (vms_page_table_index va level))"

definition vms_ppn_to_page :: "u64 \<Rightarrow> u64" where
  "vms_ppn_to_page ppn = push_bit OFFSET_BITS ppn"

definition vms_page_to_ppn :: "u64 \<Rightarrow> u64 vms_result" where
  "vms_page_to_ppn p =
     and_then (check_page_aligned p) (\<lambda>_.
       if p AND 0xF000000000000000 = 0 then Inr (drop_bit OFFSET_BITS p) else Inl Assert_failed)"

section \<open>Indices\<close>

lemma bit_0x1FF: "bit (0x1FF :: 'a::len word) n \<longleftrightarrow> n < 9 \<and> n < LENGTH('a)"
proof -
  have eq: "(0x1FF :: 'a word) = mask 9" by (simp add: mask_eq_exp_minus_1)
  show ?thesis unfolding eq bit_mask_iff by auto
qed

lemma bit_page_table_index:
  assumes "level \<le> 2"
  shows "bit (vms_page_table_index va level) n \<longleftrightarrow> n < 9 \<and> bit va (9 * level + 12 + n)"
  using assms
  unfolding vms_page_table_index_def Let_def bit_unsigned_iff bit_drop_bit_eq bit_push_bit_iff
    bit_and_iff o_def bit_0x1FF
  by (auto simp: add.commute dest: bit_imp_le_length)

lemma page_table_index_eq:
  assumes "level \<le> 2"
  shows "unat (vms_page_table_index va level) = unat va div 2 ^ (9 * level + 12) mod 2 ^ 9"
proof -
  have "unat (vms_page_table_index va level) = take_bit 9 (drop_bit (9 * level + 12) (unat va))"
    using bit_page_table_index [OF assms]
    by (intro bit_eqI) (auto simp: bit_simps dest: bit_imp_le_length)
  then show ?thesis by (simp add: take_bit_eq_mod drop_bit_eq_div)
qed

lemma page_table_index_less: "level \<le> 2 \<Longrightarrow> unat (vms_page_table_index va level) < 512"
  by (simp add: page_table_index_eq)

text \<open>
  A virtual address is its three table indices and its page offset: together they are the low 39
  bits, so two addresses with the same indices and offset differ only in bits the tables ignore.
\<close>

theorem va_split:
  "unat va mod 2 ^ 39 =
     unat (vms_page_table_index va 2) * 2 ^ 30 + unat (vms_page_table_index va 1) * 2 ^ 21 +
     unat (vms_page_table_index va 0) * 2 ^ 12 + unat (va AND 0xFFF)"
proof -
  have "va AND 0xFFF = take_bit 12 va"
    by (simp add: take_bit_eq_mask mask_eq_exp_minus_1 and.commute)
  then have "unat (va AND 0xFFF) = unat va mod 2 ^ 12"
    by (metis unsigned_take_bit_eq take_bit_eq_mod)
  moreover have "(n::nat) mod 2 ^ 39 = n div 2 ^ 30 mod 2 ^ 9 * 2 ^ 30 + n div 2 ^ 21 mod 2 ^ 9 * 2 ^ 21 +
      n div 2 ^ 12 mod 2 ^ 9 * 2 ^ 12 + n mod 2 ^ 12" for n
  proof -
    have "n mod (2 ^ 12 * 2 ^ 27) = 2 ^ 12 * (n div 2 ^ 12 mod 2 ^ 27) + n mod 2 ^ 12"
      by (rule mod_mult2_eq)
    moreover have "n div 2 ^ 12 mod (2 ^ 9 * 2 ^ 18) =
        2 ^ 9 * (n div 2 ^ 12 div 2 ^ 9 mod 2 ^ 18) + n div 2 ^ 12 mod 2 ^ 9"
      by (rule mod_mult2_eq)
    moreover have "n div 2 ^ 21 mod (2 ^ 9 * 2 ^ 9) =
        2 ^ 9 * (n div 2 ^ 21 div 2 ^ 9 mod 2 ^ 9) + n div 2 ^ 21 mod 2 ^ 9"
      by (rule mod_mult2_eq)
    ultimately show ?thesis by (simp add: div_mult2_eq [symmetric])
  qed
  ultimately show ?thesis by (simp add: page_table_index_eq)
qed

section \<open>Page numbers\<close>

lemma check_page_aligned_ok [simp]:
  "check_page_aligned p = Inr u \<longleftrightarrow> p mod 4096 = 0"
  by (simp add: check_page_aligned_def)

lemma page_aligned_bits: "(p :: u64) mod 4096 = 0 \<longleftrightarrow> (\<forall>n < 12. \<not> bit p n)"
proof -
  have "p mod 4096 = take_bit 12 p" by (simp add: take_bit_eq_mod)
  also have "\<dots> = 0 \<longleftrightarrow> (\<forall>n < 12. \<not> bit p n)"
    by (auto simp: bit_eq_iff bit_simps dest: bit_imp_le_length)
  finally show ?thesis .
qed

lemma less_exp_bits: "unat (p :: u64) < 2 ^ k \<Longrightarrow> k \<le> n \<Longrightarrow> \<not> bit p n"
proof -
  assume "unat p < 2 ^ k" "k \<le> n"
  then have "take_bit k (unat p) = unat p" by (simp add: take_bit_nat_eq_self_iff)
  then have "bit (unat p) n \<Longrightarrow> n < k" by (metis bit_take_bit_iff)
  with \<open>k \<le> n\<close> show ?thesis by (auto simp: bit_simps)
qed

lemma vms_page_to_ppn_ok:
  assumes "p mod 4096 = 0" "unat p < 2 ^ 60"
  shows "vms_page_to_ppn p = Inr (drop_bit 12 p)"
proof -
  have eq: "(0xF000000000000000 :: u64) = push_bit 60 (mask 4)"
    by (simp add: mask_eq_exp_minus_1)
  have "p AND 0xF000000000000000 = 0"
    unfolding eq using less_exp_bits [OF assms(2)]
    by (intro bit_word_eqI) (simp only: bit_and_iff bit_push_bit_iff, auto)
  with assms(1) show ?thesis by (simp add: vms_page_to_ppn_def check_page_aligned_def)
qed

lemma ppn_to_page_set_ppn:
  assumes "p mod 4096 = 0" "unat p < 2 ^ 56"
  shows "vms_ppn_to_page (pte_get_ppn (pte_set_ppn (drop_bit 12 p) e)) = p"
proof (rule bit_word_eqI)
  fix n assume "n < LENGTH(64)"
  then show "bit (vms_ppn_to_page (pte_get_ppn (pte_set_ppn (drop_bit 12 p) e))) n = bit p n"
    using assms(1) less_exp_bits [OF assms(2), of n]
    by (cases "n < 12"; cases "56 \<le> n")
       (auto simp: vms_ppn_to_page_def bit_simps pte_bits page_aligned_bits not_less)
qed

end
