(* ===== verification/Pages.thy ===== *)
theory Pages
  imports PageTable
begin

text \<open>
  The page allocator (\<open>vms/src/pages.c\<close>): \<open>allocated\<close> marks the pages in use, \<open>used_pages\<close> counts
  them.  \<open>vms_wf\<close> is the allocator's invariant; in it every free page is all zeroes, which is what
  lets the code treat a new page as an empty page table.  The second half views the pool page by
  page (\<open>content\<close>, \<open>ent\<close>) and gives the laws that separate the pages.
\<close>

section \<open>The operations\<close>

definition vms_get_page_pointer :: "int \<Rightarrow> vms_state \<Rightarrow> u64" where
  "vms_get_page_pointer index s = base_pointer s + word_of_int (index * int PAGE_SIZE)"

definition vms_get_page_index :: "u64 \<Rightarrow> vms_state \<Rightarrow> int" where
  "vms_get_page_index p s =
     sint (ucast ((p - base_pointer s) div of_nat PAGE_SIZE) :: u32)"

definition vms_init :: "int \<Rightarrow> u64 \<Rightarrow> int \<Rightarrow> vms_state \<Rightarrow> vms_state vms_result" where
  "vms_init sc_page_size mmap_result errno s =
     (if sc_page_size \<noteq> int PAGE_SIZE then Inl Assert_failed
      else if mmap_result = - 1 then Inl (Exit errno)
      else and_then (check_page_aligned mmap_result) (\<lambda>_.
        Inr (s\<lparr>base_pointer := mmap_result,
          mem := (\<lambda>a. if unat (a - mmap_result) < MAX_PAGES * PAGE_SIZE then 0 else mem s a)\<rparr>)))"

definition vms_new_page :: "vms_state \<Rightarrow> (u64 \<times> vms_state) vms_result" where
  "vms_new_page s =
     (case List.find (\<lambda>i. allocated s ! i = 0) [0..<MAX_PAGES] of
        Some i \<Rightarrow> Inr (vms_get_page_pointer (int i) s,
          s\<lparr>allocated := (allocated s)[i := 1], used_pages := used_pages s + 1\<rparr>)
      | None \<Rightarrow> Inl (Exit 12))"

definition vms_free_page :: "u64 \<Rightarrow> vms_state \<Rightarrow> vms_state vms_result" where
  "vms_free_page p s =
     and_then (check_page_aligned p) (\<lambda>_.
     let i = vms_get_page_index p s in
     and_then (array_get (allocated s) i) (\<lambda>a.
     if a = 0 then Inl Assert_failed
     else and_then (memset0 p PAGE_SIZE (s\<lparr>allocated := (allocated s)[nat i := 0]\<rparr>)) (\<lambda>s1.
       Inr (s1\<lparr>used_pages := used_pages s1 - 1\<rparr>))))"

definition vms_get_used_pages :: "vms_state \<Rightarrow> int" where
  "vms_get_used_pages s = used_pages s"

section \<open>Pages of the pool\<close>

definition page_ptr :: "vms_state \<Rightarrow> nat \<Rightarrow> u64" where
  "page_ptr s i = base_pointer s + of_nat (i * PAGE_SIZE)"

definition live :: "vms_state \<Rightarrow> u64 set" where
  "live s = page_ptr s ` {i. i < MAX_PAGES \<and> allocated s ! i \<noteq> 0}"

definition pool_pages :: "vms_state \<Rightarrow> u64 set" where
  "pool_pages s = page_ptr s ` {..<MAX_PAGES}"

definition content :: "vms_state \<Rightarrow> u64 \<Rightarrow> u8 list" where
  "content s p = load_bytes (mem s) p PAGE_SIZE"

definition ent :: "vms_state \<Rightarrow> u64 \<Rightarrow> nat \<Rightarrow> u64" where
  "ent s p k = load64 (mem s) (vms_page_table_pte_entry_from_index p k)"

text \<open>The allocator's invariant.\<close>

definition vms_wf :: "vms_state \<Rightarrow> bool" where
  "vms_wf s \<longleftrightarrow>
     base_pointer s mod 4096 = 0 \<and>
     unat (base_pointer s) + MAX_PAGES * PAGE_SIZE \<le> 2 ^ 56 \<and>
     length (allocated s) = MAX_PAGES \<and> length (ref_track s) = MAX_PAGES \<and>
     set (allocated s) \<subseteq> {0, 1} \<and>
     used_pages s = sum_list (allocated s) \<and>
     (\<forall>p \<in> pool_pages s - live s. content s p = replicate PAGE_SIZE 0)"

lemma vms_get_page_pointer_nat: "vms_get_page_pointer (int i) s = page_ptr s i"
proof -
  have "(word_of_int (int i * int PAGE_SIZE) :: u64) = of_nat (i * PAGE_SIZE)"
    by simp
  then show ?thesis by (simp add: vms_get_page_pointer_def page_ptr_def)
qed

lemma page_ptr_inj: "i < MAX_PAGES \<Longrightarrow> j < MAX_PAGES \<Longrightarrow> page_ptr s i = page_ptr s j \<longleftrightarrow> i = j"
proof
  assume "i < MAX_PAGES" "j < MAX_PAGES" "page_ptr s i = page_ptr s j"
  then have "unat (of_nat (i * 4096) :: u64) = unat (of_nat (j * 4096) :: u64)"
    by (simp add: page_ptr_def)
  moreover have "i * 4096 < 2 ^ LENGTH(64)" "j * 4096 < 2 ^ LENGTH(64)"
    using \<open>i < MAX_PAGES\<close> \<open>j < MAX_PAGES\<close> by simp_all
  ultimately show "i = j" by (simp add: unat_of_nat del: of_nat_mult)
qed simp

lemma live_pool: "live s \<subseteq> pool_pages s"
  by (auto simp: live_def pool_pages_def)

lemma page_ptr_live: "i < MAX_PAGES \<Longrightarrow> page_ptr s i \<in> live s \<longleftrightarrow> allocated s ! i \<noteq> 0"
  by (auto simp: live_def page_ptr_inj)

lemma get_page_index_page_ptr:
  assumes "i < MAX_PAGES"
  shows "vms_get_page_index (page_ptr s i) s = int i"
proof -
  have "(of_nat (i * 4096) :: u64) div of_nat 4096 = of_nat i"
  proof -
    have "unat ((of_nat (i * 4096) :: u64) div of_nat 4096) = i"
      using assms by (simp add: unat_div unat_of_nat del: of_nat_mult of_nat_numeral)
    also have "\<dots> = unat (of_nat i :: u64)" using assms by (simp add: unat_of_nat)
    finally show ?thesis by (rule unsigned_word_eqI)
  qed
  moreover have "sint (ucast (of_nat i :: u64) :: u32) = int i"
  proof -
    have "unat (ucast (of_nat i :: u64) :: u32) = unat (of_nat i :: u32)"
      using assms by (simp add: unsigned_ucast_eq unat_of_nat take_bit_eq_mod)
    then have "(ucast (of_nat i :: u64) :: u32) = of_nat i" by (rule unsigned_word_eqI)
    moreover have "sint (of_nat i :: u32) = int i"
      using assms by (simp add: signed_of_nat signed_take_bit_int_eq_self)
    ultimately show ?thesis by simp
  qed
  ultimately show ?thesis by (simp add: vms_get_page_index_def page_ptr_def)
qed

section \<open>Separation of the pages\<close>

lemma page_ptr_in_pool: "i < MAX_PAGES \<Longrightarrow> page_ptr s i \<in> pool_pages s"
  by (auto simp: pool_pages_def)

lemma in_pool_page:
  assumes "p \<in> pool_pages s" "d + n \<le> PAGE_SIZE"
  shows "in_pool s (p + of_nat d) n"
proof -
  from assms(1) obtain i where i: "i < 256" "p = page_ptr s i" by (auto simp: pool_pages_def)
  have "unat (of_nat (i * 4096 + d) :: u64) = i * 4096 + d"
    using i assms(2) by (simp add: unat_of_nat del: of_nat_mult of_nat_add)
  then have "unat (p + of_nat d - base_pointer s) = i * 4096 + d"
    by (simp add: i page_ptr_def)
  with i assms(2) show ?thesis by (simp add: in_pool_def)
qed

lemma load_store_page:
  assumes "p \<in> pool_pages s" "q \<in> pool_pages s"
    and "d + length bs \<le> PAGE_SIZE" "d' + n \<le> PAGE_SIZE"
    and "p \<noteq> q \<or> d' + n \<le> d \<or> d + length bs \<le> d'"
  shows "load_bytes (store_bytes m (p + of_nat d) bs) (q + of_nat d') n = load_bytes m (q + of_nat d') n"
proof -
  from assms(1,2) obtain i j where i: "i < 256" "p = page_ptr s i" and j: "j < 256" "q = page_ptr s j"
    by (auto simp: pool_pages_def)
  have p: "p + of_nat d = base_pointer s + of_nat (i * 4096 + d)"
    and q: "q + of_nat d' = base_pointer s + of_nat (j * 4096 + d')"
    by (simp_all add: i j page_ptr_def)
  have "j * 4096 + d' + n \<le> i * 4096 + d \<or> i * 4096 + d + length bs \<le> j * 4096 + d'"
  proof (cases "i = j")
    case True
    with assms(5) i j show ?thesis by auto
  next
    case False
    then have "i + 1 \<le> j \<or> j + 1 \<le> i" by arith
    with assms(3,4) show ?thesis by auto
  qed
  then show ?thesis
    unfolding p q using i j assms(3,4) by (intro load_bytes_store_other) auto
qed

lemma entry_ptr: "vms_page_table_pte_entry_from_index p k = p + of_nat (8 * k)"
  by (simp add: vms_page_table_pte_entry_from_index_def)

definition write_ent :: "u64 \<Rightarrow> nat \<Rightarrow> u64 \<Rightarrow> vms_state \<Rightarrow> vms_state" where
  "write_ent p k v s =
     s\<lparr>mem := store64 (mem s) (vms_page_table_pte_entry_from_index p k) v\<rparr>"

lemma read64_ent [simp]:
  assumes "p \<in> pool_pages s" "k < NUM_PTE_ENTRIES"
  shows "read64 (vms_page_table_pte_entry_from_index p k) s = Inr (ent s p k)"
  using in_pool_page [OF assms(1), of "8 * k" 8] assms(2)
  by (simp add: read64_def ent_def entry_ptr del: of_nat_mult)

lemma write64_ent [simp]:
  assumes "p \<in> pool_pages s" "k < NUM_PTE_ENTRIES"
  shows "write64 (vms_page_table_pte_entry_from_index p k) v s = Inr (write_ent p k v s)"
  using in_pool_page [OF assms(1), of "8 * k" 8] assms(2)
  by (simp add: write64_def write_ent_def entry_ptr del: of_nat_mult)

lemma write_ent_fields [simp]:
  "base_pointer (write_ent p k v s) = base_pointer s"
  "allocated (write_ent p k v s) = allocated s"
  "used_pages (write_ent p k v s) = used_pages s"
  "root_page_table (write_ent p k v s) = root_page_table s"
  "ref_track (write_ent p k v s) = ref_track s"
  by (simp_all add: write_ent_def)

lemma pool_pages_cong: "base_pointer s' = base_pointer s \<Longrightarrow> pool_pages s' = pool_pages s"
  by (simp add: pool_pages_def page_ptr_def)

lemma live_cong:
  "base_pointer s' = base_pointer s \<Longrightarrow> allocated s' = allocated s \<Longrightarrow> live s' = live s"
  by (simp add: live_def page_ptr_def)

lemma pool_write_ent [simp]: "pool_pages (write_ent p k v s) = pool_pages s"
  by (rule pool_pages_cong) simp

lemma live_write_ent [simp]: "live (write_ent p k v s) = live s"
  by (rule live_cong) simp_all

lemma content_write_ent [simp]:
  assumes "p \<in> pool_pages s" "q \<in> pool_pages s" "p \<noteq> q" "k < NUM_PTE_ENTRIES"
  shows "content (write_ent p k v s) q = content s q"
  using load_store_page [OF assms(1,2), of "8 * k" "le_bytes 8 v" 0 PAGE_SIZE "mem s"] assms(3,4)
  by (simp add: content_def write_ent_def entry_ptr store64_def)

lemma ent_write_ent [simp]:
  assumes "p \<in> pool_pages s" "q \<in> pool_pages s" "k < NUM_PTE_ENTRIES" "j < NUM_PTE_ENTRIES"
  shows "ent (write_ent p k v s) q j = (if p = q \<and> k = j then v else ent s q j)"
proof (cases "p = q \<and> k = j")
  case True
  then show ?thesis by (simp add: ent_def write_ent_def bytes_simps)
next
  case False
  then have "p \<noteq> q \<or> 8 * j + 8 \<le> 8 * k \<or> 8 * k + 8 \<le> 8 * j" by auto
  then have "load64 (store64 (mem s) (p + of_nat (8 * k)) v) (q + of_nat (8 * j)) =
      load64 (mem s) (q + of_nat (8 * j))"
    unfolding store64_def load64_def using assms(3,4)
    by (subst load_store_page [OF assms(1,2)]) simp_all
  with False show ?thesis by (auto simp: ent_def write_ent_def entry_ptr)
qed

lemma ent_content:
  assumes "k < NUM_PTE_ENTRIES"
  shows "ent s p k = of_le_bytes (take 8 (drop (8 * k) (content s p)))"
proof -
  have "load_bytes (mem s) (p + of_nat (8 * k)) 8 = take 8 (drop (8 * k) (content s p))"
    using assms by (intro nth_equalityI) (simp_all add: content_def add.assoc)
  then show ?thesis by (simp add: ent_def entry_ptr load64_def)
qed

lemma ent_cong: "content s' p = content s q \<Longrightarrow> k < NUM_PTE_ENTRIES \<Longrightarrow> ent s' p k = ent s q k"
  by (simp add: ent_content)

lemma of_le_bytes_zero: "set bs \<subseteq> {0} \<Longrightarrow> of_le_bytes bs = 0"
  by (induction bs) auto

lemma ent_zero_page:
  "content s p = replicate PAGE_SIZE 0 \<Longrightarrow> k < NUM_PTE_ENTRIES \<Longrightarrow> ent s p k = 0"
  by (simp add: ent_content of_le_bytes_zero)

section \<open>The allocator\<close>

lemma vms_wfD:
  assumes "vms_wf s"
  shows "length (allocated s) = MAX_PAGES" "length (ref_track s) = MAX_PAGES"
    and "set (allocated s) \<subseteq> {0, 1}" "used_pages s = sum_list (allocated s)"
    and "base_pointer s mod 4096 = 0"
    and "unat (base_pointer s) + MAX_PAGES * PAGE_SIZE \<le> 2 ^ 56"
  using assms by (simp_all add: vms_wf_def)

lemma vms_wf_zero:
  "vms_wf s \<Longrightarrow> p \<in> pool_pages s \<Longrightarrow> p \<notin> live s \<Longrightarrow> content s p = replicate PAGE_SIZE 0"
  by (simp add: vms_wf_def)

lemma sum_list_flags:
  "set xs \<subseteq> {0, 1 :: int} \<Longrightarrow> sum_list xs = int (card {i. i < length xs \<and> xs ! i \<noteq> 0})"
proof -
  assume "set xs \<subseteq> {0, 1}"
  then have "sum_list xs = int (length (filter (\<lambda>x. x \<noteq> 0) xs))"
    by (induction xs) auto
  then show ?thesis by (simp add: length_filter_conv_card)
qed

lemma finite_live [simp]: "finite (live s)"
  by (simp add: live_def)

lemma card_live: "card (live s) = card {i. i < MAX_PAGES \<and> allocated s ! i \<noteq> 0}"
proof -
  have "inj_on (page_ptr s) {i. i < MAX_PAGES \<and> allocated s ! i \<noteq> 0}"
    by (rule inj_onI) (simp add: page_ptr_inj)
  then show ?thesis by (simp add: card_image live_def)
qed

lemma used_pages_card: "vms_wf s \<Longrightarrow> used_pages s = int (card (live s))"
  using sum_list_flags [of "allocated s"] by (simp add: vms_wf_def card_live)

lemma used_pages_live: "vms_wf s \<Longrightarrow> vms_get_used_pages s = int (card (live s))"
  by (simp add: vms_get_used_pages_def used_pages_card)

lemma page_aligned_pool:
  assumes "vms_wf s" "p \<in> pool_pages s"
  shows "p mod 4096 = 0" "unat p < 2 ^ 56"
proof -
  from assms(2) obtain i where i: "i < 256" "p = page_ptr s i" by (auto simp: pool_pages_def)
  have u: "unat (of_nat (i * 4096) :: u64) = i * 4096"
    using i by (simp add: unat_of_nat del: of_nat_mult)
  have "unat (base_pointer s mod 4096) = 0" using vms_wfD(5) [OF assms(1)] by simp
  then have b: "unat (base_pointer s) + 1048576 \<le> 2 ^ 56" "unat (base_pointer s) mod 4096 = 0"
    using vms_wfD(6) [OF assms(1)] by (simp_all add: unat_mod)
  have p: "unat p = unat (base_pointer s) + i * 4096"
    using b i by (simp add: page_ptr_def unat_word_ariths u del: of_nat_mult)
  with b i show "unat p < 2 ^ 56" by simp
  have "unat (p mod 4096) = 0" using p b by (simp add: unat_mod)
  then show "p mod 4096 = 0" by (simp add: unat_eq_0)
qed

lemma page_ppn_roundtrip:
  assumes "vms_wf s" "p \<in> pool_pages s"
  shows "vms_page_to_ppn p = Inr (drop_bit 12 p)"
    and "vms_ppn_to_page (pte_get_ppn (pte_set_ppn (drop_bit 12 p) e)) = p"
  using page_aligned_pool [OF assms] by (simp_all add: vms_page_to_ppn_ok ppn_to_page_set_ppn)

text \<open>What \<open>vms_new_page\<close> does when it returns.\<close>

lemma vms_new_page_Inr:
  assumes "vms_new_page s = Inr (p, s')"
  obtains i where "i < MAX_PAGES" "allocated s ! i = 0" "\<And>j. j < i \<Longrightarrow> allocated s ! j \<noteq> 0"
    "p = page_ptr s i"
    "s' = s\<lparr>allocated := (allocated s)[i := 1], used_pages := used_pages s + 1\<rparr>"
proof -
  from assms obtain i where f: "List.find (\<lambda>i. allocated s ! i = 0) [0..<MAX_PAGES] = Some i"
    and "p = vms_get_page_pointer (int i) s"
    and s': "s' = s\<lparr>allocated := (allocated s)[i := 1], used_pages := used_pages s + 1\<rparr>"
    by (auto simp: vms_new_page_def split: option.splits)
  then have "p = page_ptr s i" by (simp add: vms_get_page_pointer_nat)
  moreover from f have "i < MAX_PAGES" "allocated s ! i = 0" "\<And>j. j < i \<Longrightarrow> allocated s ! j \<noteq> 0"
    by (auto simp: find_Some_iff)
  ultimately show thesis using s' that by blast
qed

lemma vms_new_page_spec:
  assumes "vms_wf s" and "vms_new_page s = Inr (p, s')"
  shows "p \<in> pool_pages s" "p \<notin> live s" "live s' = insert p (live s)" "vms_wf s'"
    and "mem s' = mem s" "base_pointer s' = base_pointer s" "ref_track s' = ref_track s"
    and "root_page_table s' = root_page_table s" "pool_pages s' = pool_pages s"
    and "content s' p = replicate PAGE_SIZE 0"
proof -
  from assms(2) obtain i where i: "i < MAX_PAGES" "allocated s ! i = 0" and p: "p = page_ptr s i"
    and s': "s' = s\<lparr>allocated := (allocated s)[i := 1], used_pages := used_pages s + 1\<rparr>"
    by (rule vms_new_page_Inr)
  note wf = vms_wfD [OF assms(1)]
  show pool: "p \<in> pool_pages s" and fresh: "p \<notin> live s"
    using i p by (simp_all add: page_ptr_in_pool page_ptr_live)
  have ptr: "page_ptr s' = page_ptr s" by (auto simp: s' page_ptr_def)
  then show pp: "pool_pages s' = pool_pages s" by (simp add: pool_pages_def)
  show lv: "live s' = insert p (live s)"
  proof -
    have "{j. j < MAX_PAGES \<and> allocated s' ! j \<noteq> 0} = insert i {j. j < MAX_PAGES \<and> allocated s ! j \<noteq> 0}"
      using i wf(1) by (auto simp: s' nth_list_update)
    then show ?thesis unfolding live_def ptr p by simp
  qed
  have "content s' = content s" by (rule ext) (simp add: s' content_def)
  moreover have "sum_list ((allocated s)[i := 1]) = sum_list (allocated s) + 1"
    using i wf(1) by (simp add: sum_list_int_update)
  ultimately show "vms_wf s'" "content s' p = replicate PAGE_SIZE 0"
    using assms(1) wf pool fresh lv pp set_update_subset_insert [of "allocated s" i 1]
    by (auto simp: vms_wf_def s')
  show "mem s' = mem s" "base_pointer s' = base_pointer s" "ref_track s' = ref_track s"
    "root_page_table s' = root_page_table s" by (simp_all add: s')
qed

lemma vms_new_page_total:
  assumes "vms_wf s"
  shows "vms_new_page s = Inl (Exit 12) \<longleftrightarrow> live s = pool_pages s"
    and "live s \<noteq> pool_pages s \<Longrightarrow> \<exists>p s'. vms_new_page s = Inr (p, s')"
proof -
  have "live s = pool_pages s \<longleftrightarrow> (\<forall>i < MAX_PAGES. allocated s ! i \<noteq> 0)"
  proof
    assume "live s = pool_pages s"
    then show "\<forall>i < MAX_PAGES. allocated s ! i \<noteq> 0" by (metis page_ptr_in_pool page_ptr_live)
  next
    assume "\<forall>i < MAX_PAGES. allocated s ! i \<noteq> 0"
    then show "live s = pool_pages s" by (auto simp: live_def pool_pages_def)
  qed
  also have "\<dots> \<longleftrightarrow> List.find (\<lambda>i. allocated s ! i = 0) [0..<MAX_PAGES] = None"
    by (auto simp: find_None_iff)
  finally have *: "live s = pool_pages s \<longleftrightarrow> \<dots>" .
  then show "vms_new_page s = Inl (Exit 12) \<longleftrightarrow> live s = pool_pages s"
    and "live s \<noteq> pool_pages s \<Longrightarrow> \<exists>p s'. vms_new_page s = Inr (p, s')"
    by (auto simp: vms_new_page_def split: option.splits)
qed

lemma card_pool_pages: "card (pool_pages s) = MAX_PAGES"
proof -
  have "inj_on (page_ptr s) {..<MAX_PAGES}" by (rule inj_onI) (simp add: page_ptr_inj)
  then show ?thesis by (simp add: card_image pool_pages_def)
qed

lemma live_bound: "card (live s) \<le> MAX_PAGES"
proof -
  have "finite (pool_pages s)" by (simp add: pool_pages_def)
  from card_mono [OF this live_pool] show ?thesis by (simp add: card_pool_pages)
qed

text \<open>What \<open>vms_free_page\<close> does on a page in use, and its two assertions.\<close>

lemma content_free:
  assumes "p \<in> pool_pages s" "q \<in> pool_pages s"
    and "mem s' = store_bytes (mem s) p (replicate PAGE_SIZE 0)"
  shows "content s' q = (if q = p then replicate PAGE_SIZE 0 else content s q)"
proof (cases "q = p")
  case True
  with load_store_bytes_same [of "replicate PAGE_SIZE 0" "mem s" p] assms(3) show ?thesis
    by (simp add: content_def)
next
  case False
  with load_store_page [OF assms(1,2), of 0 "replicate PAGE_SIZE 0" 0 PAGE_SIZE "mem s"] assms(3)
  show ?thesis by (simp add: content_def)
qed

lemma vms_free_page_spec:
  assumes "vms_wf s" and "p \<in> live s"
  shows "\<exists>s'. vms_free_page p s = Inr s' \<and> vms_wf s' \<and> live s' = live s - {p} \<and>
    used_pages s' = used_pages s - 1 \<and> ref_track s' = ref_track s \<and>
    root_page_table s' = root_page_table s \<and> base_pointer s' = base_pointer s \<and>
    (\<forall>q \<in> pool_pages s - {p}. content s' q = content s q)"
proof -
  from assms(2) obtain i where i: "i < MAX_PAGES" "allocated s ! i \<noteq> 0" and p: "p = page_ptr s i"
    by (auto simp: live_def)
  note wf = vms_wfD [OF assms(1)]
  have pool: "p \<in> pool_pages s" using i p by (simp add: page_ptr_in_pool)
  have one: "allocated s ! i = 1" using i wf(1,3) nth_mem [of i "allocated s"] by (metis empty_iff insert_iff subsetD)
  define s' where "s' = s\<lparr>allocated := (allocated s)[i := 0], used_pages := used_pages s - 1,
    mem := store_bytes (mem s) p (replicate PAGE_SIZE 0)\<rparr>"
  have run: "vms_free_page p s = Inr s'"
    using i wf(1) page_aligned_pool(1) [OF assms(1) pool] in_pool_page [OF pool, of 0 PAGE_SIZE]
    by (simp add: vms_free_page_def check_page_aligned_def get_page_index_page_ptr p array_get_def
        memset0_def in_pool_def s'_def)
  have ptr: "page_ptr s' = page_ptr s" by (auto simp: s'_def page_ptr_def)
  then have pp: "pool_pages s' = pool_pages s" by (simp add: pool_pages_def)
  have lv: "live s' = live s - {p}"
  proof -
    have "{j. j < MAX_PAGES \<and> allocated s' ! j \<noteq> 0} = {j. j < MAX_PAGES \<and> allocated s ! j \<noteq> 0} - {i}"
      using i wf(1) by (auto simp: s'_def nth_list_update)
    moreover have "inj_on (page_ptr s) {..<MAX_PAGES}" by (rule inj_onI) (simp add: page_ptr_inj)
    ultimately show ?thesis unfolding live_def ptr p
      using i by (subst inj_on_image_set_diff [symmetric, of _ _ _ "{i}", simplified]) auto
  qed
  have cont: "q \<in> pool_pages s \<Longrightarrow> content s' q = (if q = p then replicate PAGE_SIZE 0 else content s q)"
    for q by (rule content_free [OF pool]) (simp_all add: s'_def)
  have "sum_list ((allocated s)[i := 0]) = sum_list (allocated s) - 1"
    using i one wf(1) by (simp add: sum_list_int_update)
  then have "vms_wf s'"
    using assms(1) wf cont pp lv set_update_subset_insert [of "allocated s" i 0]
    by (auto simp: vms_wf_def s'_def)
  with run lv cont show ?thesis by (auto simp: s'_def)
qed

lemma vms_free_page_unaligned: "p mod 4096 \<noteq> 0 \<Longrightarrow> vms_free_page p s = Inl Assert_failed"
  by (simp add: vms_free_page_def check_page_aligned_def)

lemma vms_free_page_not_live:
  assumes "vms_wf s" "p \<in> pool_pages s" "p \<notin> live s"
  shows "vms_free_page p s = Inl Assert_failed"
proof -
  from assms(2) obtain i where i: "i < MAX_PAGES" "p = page_ptr s i" by (auto simp: pool_pages_def)
  with assms(3) have "allocated s ! i = 0" by (simp add: page_ptr_live)
  with i vms_wfD(1) [OF assms(1)] page_aligned_pool(1) [OF assms(1,2)] show ?thesis
    by (simp add: vms_free_page_def get_page_index_page_ptr array_get_def check_page_aligned_def)
qed

text \<open>\<open>vms_init\<close> establishes the invariant when \<open>mmap\<close> returns an aligned user-space address.\<close>

lemma vms_init_spec:
  assumes "p mod 4096 = 0" "unat p + MAX_PAGES * PAGE_SIZE \<le> 2 ^ 56"
  shows "\<exists>s. vms_init (int PAGE_SIZE) p err vms_start = Inr s \<and> vms_wf s \<and> live s = {} \<and>
    base_pointer s = p \<and> vms_get_used_pages s = 0 \<and> ref_track s = replicate MAX_PAGES 0"
proof -
  let ?s = "vms_start\<lparr>base_pointer := p, mem := (\<lambda>_. 0)\<rparr>"
  have "unat (- 1 :: u64) = 2 ^ 64 - 1"
    by (simp add: unsigned_minus_1_eq_mask mask_eq_exp_minus_1)
  with assms(2) have "p \<noteq> - 1" by auto
  then have "vms_init (int PAGE_SIZE) p err vms_start = Inr ?s"
    using assms(1) by (simp add: vms_init_def check_page_aligned_def vms_start_def fun_eq_iff)
  moreover have "live ?s = {}" by (auto simp: live_def vms_start_def)
  moreover have "vms_wf ?s"
    using assms by (auto simp: vms_wf_def vms_start_def content_def load_bytes_def map_replicate_const
        sum_list_replicate)
  ultimately show ?thesis by (auto simp: vms_get_used_pages_def vms_start_def)
qed

section \<open>The allocator as an interface\<close>

text \<open>
  What a client of the allocator may rely on: \<open>new_page\<close> hands out a page of the pool that is not
  in use and marks it, \<open>free_page\<close> gives back a page in use.  The lemmas of the interface are the
  ones the clients need: pages handed out in sequence are distinct, and giving back what was just
  handed out restores the pages in use.
\<close>

locale page_allocator =
  fixes new_page :: "'s \<Rightarrow> 'e + ('p \<times> 's)"
    and free_page :: "'p \<Rightarrow> 's \<Rightarrow> 'e + 's"
    and in_use :: "'s \<Rightarrow> 'p set"
    and inv :: "'s \<Rightarrow> bool"
  assumes new_fresh: "inv s \<Longrightarrow> new_page s = Inr (p, s') \<Longrightarrow> p \<notin> in_use s"
    and new_in_use: "inv s \<Longrightarrow> new_page s = Inr (p, s') \<Longrightarrow> in_use s' = insert p (in_use s)"
    and new_inv: "inv s \<Longrightarrow> new_page s = Inr (p, s') \<Longrightarrow> inv s'"
    and free_in_use: "inv s \<Longrightarrow> p \<in> in_use s \<Longrightarrow>
      \<exists>s'. free_page p s = Inr s' \<and> inv s' \<and> in_use s' = in_use s - {p}"
begin

fun new_pages :: "nat \<Rightarrow> 's \<Rightarrow> 'e + ('p list \<times> 's)" where
  "new_pages 0 s = Inr ([], s)"
| "new_pages (Suc n) s =
     and_then (new_page s) (\<lambda>(p, s1). and_then (new_pages n s1) (\<lambda>(ps, s2). Inr (p # ps, s2)))"

lemma new_pages_spec:
  assumes "inv s" "new_pages n s = Inr (ps, s')"
  shows "length ps = n \<and> distinct ps \<and> set ps \<inter> in_use s = {} \<and> in_use s' = set ps \<union> in_use s \<and> inv s'"
  using assms
proof (induction n arbitrary: s ps)
  case 0
  then show ?case by simp
next
  case (Suc n)
  from Suc.prems(2) obtain p s1 qs where p: "new_page s = Inr (p, s1)"
    and qs: "new_pages n s1 = Inr (qs, s')" and "ps = p # qs"
    by (auto simp: result_simps)
  moreover have "inv s1" by (rule new_inv [OF Suc.prems(1) p])
  ultimately show ?case
    using Suc.IH [of s1 qs] new_fresh [OF Suc.prems(1) p] new_in_use [OF Suc.prems(1) p] by auto
qed

lemma new_then_free:
  assumes "inv s" "new_page s = Inr (p, s1)"
  shows "\<exists>s2. free_page p s1 = Inr s2 \<and> inv s2 \<and> in_use s2 = in_use s"
proof -
  have "inv s1" "in_use s1 = insert p (in_use s)" "p \<notin> in_use s"
    using new_inv [OF assms] new_in_use [OF assms] new_fresh [OF assms] by auto
  with free_in_use [of s1 p] show ?thesis by auto
qed

end

interpretation vms_alloc: page_allocator vms_new_page vms_free_page live vms_wf
proof unfold_locales
  fix s p s' assume "vms_wf s" "vms_new_page s = Inr (p, s')"
  note new = vms_new_page_spec [OF this]
  show "p \<notin> live s" "live s' = insert p (live s)" "vms_wf s'" by (rule new)+
next
  fix s p assume "vms_wf s" "p \<in> live s"
  from vms_free_page_spec [OF this]
  show "\<exists>s'. vms_free_page p s = Inr s' \<and> vms_wf s' \<and> live s' = live s - {p}" by blast
qed

end
