(* ===== verification/AddressSpace.thy ===== *)
theory AddressSpace
  imports Pages
begin

text \<open>
  Address spaces as data in the pool: a three-level tree of page tables over data pages.
  \<open>wf_table n s t\<close> says that \<open>t\<close> is a live page from which \<open>n\<close> levels of entries lead to live
  pages, \<open>tree_pages\<close> collects those pages, \<open>is_tree\<close> says that none is reached twice, and
  \<open>walk\<close> is the translation of a virtual address with no handler.  All of them depend only on the
  contents of the pages of the tree, which is what the stability lemmas say.
\<close>

section \<open>Translation\<close>

definition pte_page :: "u64 \<Rightarrow> u64" where
  "pte_page e = vms_ppn_to_page (pte_get_ppn e)"

definition va_index :: "u64 \<Rightarrow> nat \<Rightarrow> nat" where
  "va_index va level = unat (vms_page_table_index va level)"

text \<open>An inner entry points to the next table when it is valid and neither readable nor writable.\<close>

definition inner_ok :: "u64 \<Rightarrow> bool" where
  "inner_ok e \<longleftrightarrow> pte_valid e \<and> \<not> pte_read e \<and> \<not> pte_write e"

definition leaf_ok :: "u64 \<Rightarrow> bool" where
  "leaf_ok e \<longleftrightarrow> pte_valid e \<and> (pte_read e \<or> pte_write e)"

text \<open>The level 0 table that maps an address, if every entry on the way is as it must be.\<close>

definition walk :: "vms_state \<Rightarrow> u64 \<Rightarrow> u64 \<Rightarrow> u64 option" where
  "walk s t2 va =
     (let e2 = ent s t2 (va_index va 2) in
      if \<not> inner_ok e2 then None
      else let t1 = pte_page e2; e1 = ent s t1 (va_index va 1) in
      if \<not> inner_ok e1 then None
      else let t0 = pte_page e1 in
      if leaf_ok (ent s t0 (va_index va 0)) then Some t0 else None)"

section \<open>Trees of page tables\<close>

fun wf_table :: "nat \<Rightarrow> vms_state \<Rightarrow> u64 \<Rightarrow> bool" where
  "wf_table 0 s p \<longleftrightarrow> p \<in> live s"
| "wf_table (Suc n) s t \<longleftrightarrow> t \<in> live s \<and>
     (\<forall>k < NUM_PTE_ENTRIES. pte_valid (ent s t k) \<longrightarrow> wf_table n s (pte_page (ent s t k)))"

definition valid_slots :: "vms_state \<Rightarrow> u64 \<Rightarrow> nat set" where
  "valid_slots s t = {k. k < NUM_PTE_ENTRIES \<and> pte_valid (ent s t k)}"

abbreviation (input) child :: "vms_state \<Rightarrow> u64 \<Rightarrow> nat \<Rightarrow> u64" where
  "child s t k \<equiv> pte_page (ent s t k)"

fun tree_pages :: "nat \<Rightarrow> vms_state \<Rightarrow> u64 \<Rightarrow> u64 set" where
  "tree_pages 0 s p = {p}"
| "tree_pages (Suc n) s t = insert t (\<Union>k \<in> valid_slots s t. tree_pages n s (child s t k))"

fun is_tree :: "nat \<Rightarrow> vms_state \<Rightarrow> u64 \<Rightarrow> bool" where
  "is_tree 0 s p \<longleftrightarrow> True"
| "is_tree (Suc n) s t \<longleftrightarrow>
     (\<forall>k \<in> valid_slots s t. is_tree n s (child s t k) \<and> t \<notin> tree_pages n s (child s t k)) \<and>
     (\<forall>j \<in> valid_slots s t. \<forall>k \<in> valid_slots s t. j \<noteq> k \<longrightarrow>
        tree_pages n s (child s t j) \<inter> tree_pages n s (child s t k) = {})"

fun tree_size :: "nat \<Rightarrow> vms_state \<Rightarrow> u64 \<Rightarrow> nat" where
  "tree_size 0 s p = 1"
| "tree_size (Suc n) s t = 1 + (\<Sum>k \<in> valid_slots s t. tree_size n s (child s t k))"

lemma valid_slotsD: "k \<in> valid_slots s t \<Longrightarrow> k < NUM_PTE_ENTRIES \<and> pte_valid (ent s t k)"
  by (simp add: valid_slots_def)

lemma wf_table_Suc:
  "wf_table (Suc n) s t \<longleftrightarrow> t \<in> live s \<and> (\<forall>k \<in> valid_slots s t. wf_table n s (child s t k))"
  by (auto simp: valid_slots_def)

lemma finite_valid_slots [simp]: "finite (valid_slots s t)"
  by (simp add: valid_slots_def)

lemma wf_table_live: "wf_table n s t \<Longrightarrow> t \<in> live s"
  by (cases n) auto

lemma wf_table_child: "wf_table (Suc n) s t \<Longrightarrow> k \<in> valid_slots s t \<Longrightarrow> wf_table n s (child s t k)"
  by (auto dest: valid_slotsD)

lemma tree_pages_root: "t \<in> tree_pages n s t"
  by (cases n) auto

lemma tree_pages_child:
  "k \<in> valid_slots s t \<Longrightarrow> x \<in> tree_pages n s (child s t k) \<Longrightarrow> x \<in> tree_pages (Suc n) s t"
  by auto

lemma tree_pages_live: "wf_table n s t \<Longrightarrow> tree_pages n s t \<subseteq> live s"
proof (induction n arbitrary: t)
  case (Suc n)
  then show ?case using wf_table_child [OF Suc.prems] by (auto simp: wf_table_live)
qed simp

lemma card_tree_pages: "is_tree n s t \<Longrightarrow> finite (tree_pages n s t) \<and> card (tree_pages n s t) = tree_size n s t"
proof (induction n arbitrary: t)
  case (Suc n)
  let ?C = "\<Union>k \<in> valid_slots s t. tree_pages n s (child s t k)"
  have "card ?C = (\<Sum>k \<in> valid_slots s t. card (tree_pages n s (child s t k)))"
    using Suc by (intro card_UN_disjoint) auto
  moreover have "finite ?C" "t \<notin> ?C" using Suc by auto
  ultimately show ?case using Suc by simp
qed simp

section \<open>Stability\<close>

text \<open>
  Two states that agree on the contents of a tree agree on the tree.
\<close>

definition same_content :: "u64 set \<Rightarrow> vms_state \<Rightarrow> vms_state \<Rightarrow> bool" where
  "same_content P s s' \<longleftrightarrow> (\<forall>p \<in> P. content s' p = content s p)"

lemma same_content_subset: "same_content Q s s' \<Longrightarrow> P \<subseteq> Q \<Longrightarrow> same_content P s s'"
  by (auto simp: same_content_def)

lemma same_content_ent:
  "same_content P s s' \<Longrightarrow> p \<in> P \<Longrightarrow> k < NUM_PTE_ENTRIES \<Longrightarrow> ent s' p k = ent s p k"
  by (auto simp: same_content_def intro: ent_cong)

lemma same_content_slots: "same_content P s s' \<Longrightarrow> p \<in> P \<Longrightarrow> valid_slots s' p = valid_slots s p"
  by (auto simp: valid_slots_def same_content_ent)

lemma tree_stable:
  assumes "same_content (tree_pages n s t) s s'"
  shows "tree_pages n s' t = tree_pages n s t" "is_tree n s' t = is_tree n s t"
    "tree_size n s' t = tree_size n s t"
proof -
  have "tree_pages n s' t = tree_pages n s t \<and> is_tree n s' t = is_tree n s t \<and>
      tree_size n s' t = tree_size n s t"
    using assms
  proof (induction n arbitrary: t)
    case (Suc n)
    have slots: "valid_slots s' t = valid_slots s t"
      using Suc.prems by (rule same_content_slots) simp
    have child: "child s' t k = child s t k" if "k \<in> valid_slots s t" for k
      using valid_slotsD [OF that] same_content_ent [OF Suc.prems, of t k] by simp
    have IH: "tree_pages n s' (child s t k) = tree_pages n s (child s t k)"
      "is_tree n s' (child s t k) = is_tree n s (child s t k)"
      "tree_size n s' (child s t k) = tree_size n s (child s t k)" if "k \<in> valid_slots s t" for k
      using Suc.IH [of "child s t k"] same_content_subset [OF Suc.prems] that by auto
    show ?case by (simp add: slots child IH)
  qed simp
  then show "tree_pages n s' t = tree_pages n s t" "is_tree n s' t = is_tree n s t"
    "tree_size n s' t = tree_size n s t" by auto
qed

lemma wf_table_stable:
  assumes "wf_table n s t" "same_content (tree_pages n s t) s s'" "live s \<subseteq> live s'"
  shows "wf_table n s' t"
  using assms
proof (induction n arbitrary: t)
  case (Suc n)
  have slots: "valid_slots s' t = valid_slots s t"
    using Suc.prems(2) by (rule same_content_slots) simp
  have "wf_table n s' (child s t k)" if "k \<in> valid_slots s t" for k
    using Suc.IH [OF wf_table_child [OF Suc.prems(1) that]] same_content_subset [OF Suc.prems(2)]
      that Suc.prems(3) by auto
  moreover have "child s' t k = child s t k" if "k \<in> valid_slots s t" for k
    using valid_slotsD [OF that] same_content_ent [OF Suc.prems(2), of t k] by simp
  ultimately show ?case
    using slots Suc.prems(1,3) unfolding wf_table_Suc by auto
qed auto

section \<open>Entry operations on a page of the pool\<close>

lemma page_index_write_ent [simp]:
  "vms_get_page_index p (write_ent t k v s) = vms_get_page_index p s"
  by (simp add: vms_get_page_index_def)

lemma read_entry_page [simp]:
  "t \<in> pool_pages s \<Longrightarrow> k < NUM_PTE_ENTRIES \<Longrightarrow>
     read_entry f (vms_page_table_pte_entry_from_index t k) s = Inr (f (ent s t k))"
  by (simp add: read_entry_def)

lemma update_entry_page [simp]:
  "t \<in> pool_pages s \<Longrightarrow> k < NUM_PTE_ENTRIES \<Longrightarrow>
     update_entry f (vms_page_table_pte_entry_from_index t k) s = Inr (write_ent t k (f (ent s t k)) s)"
  by (simp add: update_entry_def)

lemma store_bytes_twice:
  "length bs = length cs \<Longrightarrow> store_bytes (store_bytes m a bs) a cs = store_bytes m a cs"
  by (auto simp: store_bytes_def)

lemma write_ent_twice [simp]: "write_ent t k v (write_ent t k w s) = write_ent t k v s"
  by (simp add: write_ent_def store64_def store_bytes_twice)

lemma va_index_less [simp]: "level \<le> 2 \<Longrightarrow> va_index va level < NUM_PTE_ENTRIES"
  by (simp add: va_index_def page_table_index_less)

lemma pte_entry_index:
  "vms_page_table_pte_entry t va level = vms_page_table_pte_entry_from_index t (va_index va level)"
  by (simp add: vms_page_table_pte_entry_def va_index_def)

lemma live_in_pool: "p \<in> live s \<Longrightarrow> p \<in> pool_pages s"
  using live_pool by blast

text \<open>Two entries with the same bits outside the page number.\<close>

definition same_flags :: "u64 \<Rightarrow> u64 \<Rightarrow> bool" where
  "same_flags e e' \<longleftrightarrow> pte_set_ppn 0 e = pte_set_ppn 0 e'"

lemma same_flags_bits: "same_flags e e' \<longleftrightarrow> (\<forall>n. n < 10 \<or> 54 \<le> n \<longrightarrow> bit e n = bit e' n)"
  using bit_imp_le_length [of e] bit_imp_le_length [of e']
  by (auto simp: same_flags_def bit_eq_iff pte_bits not_le not_less)

lemma same_flags_iff:
  assumes "same_flags e e'"
  shows "pte_valid e = pte_valid e'" "pte_read e = pte_read e'" "pte_write e = pte_write e'"
    "pte_custom e = pte_custom e'" "inner_ok e = inner_ok e'" "leaf_ok e = leaf_ok e'"
  using assms by (auto simp: same_flags_bits pte_bits inner_ok_def leaf_ok_def)

lemma same_flags_set_ppn: "same_flags (pte_set_ppn ppn e) e"
  by (auto simp: same_flags_bits pte_bits)

section \<open>Inner pages and data pages\<close>

fun inner_pages :: "nat \<Rightarrow> vms_state \<Rightarrow> u64 \<Rightarrow> u64 set" where
  "inner_pages 0 s p = {}"
| "inner_pages (Suc n) s t = insert t (\<Union>k \<in> valid_slots s t. inner_pages n s (child s t k))"

fun leaf_pages :: "nat \<Rightarrow> vms_state \<Rightarrow> u64 \<Rightarrow> u64 set" where
  "leaf_pages 0 s p = {p}"
| "leaf_pages (Suc n) s t = (\<Union>k \<in> valid_slots s t. leaf_pages n s (child s t k))"

lemma inner_leaf_pages: "tree_pages n s t = inner_pages n s t \<union> leaf_pages n s t"
  by (induction n arbitrary: t) auto

lemma is_tree_inner_leaf: "is_tree n s t \<Longrightarrow> inner_pages n s t \<inter> leaf_pages n s t = {}"
proof (induction n arbitrary: t)
  case (Suc n)
  have "inner_pages n s (child s t j) \<inter> leaf_pages n s (child s t k) = {}"
    if "j \<in> valid_slots s t" "k \<in> valid_slots s t" for j k
  proof (cases "j = k")
    case True
    with Suc that show ?thesis by auto
  next
    case False
    with Suc.prems that have "tree_pages n s (child s t j) \<inter> tree_pages n s (child s t k) = {}"
      by auto
    then show ?thesis by (auto simp: inner_leaf_pages)
  qed
  moreover have "t \<notin> leaf_pages n s (child s t k)" if "k \<in> valid_slots s t" for k
    using Suc.prems that by (auto simp: inner_leaf_pages)
  ultimately show ?case by auto
qed simp

lemma inner_stable:
  assumes "same_content (inner_pages n s t) s s'"
  shows "inner_pages n s' t = inner_pages n s t" "leaf_pages n s' t = leaf_pages n s t"
    "tree_pages n s' t = tree_pages n s t" "is_tree n s' t = is_tree n s t"
proof -
  have "inner_pages n s' t = inner_pages n s t \<and> leaf_pages n s' t = leaf_pages n s t \<and>
      is_tree n s' t = is_tree n s t"
    using assms
  proof (induction n arbitrary: t)
    case (Suc n)
    have slots: "valid_slots s' t = valid_slots s t"
      using Suc.prems by (rule same_content_slots) simp
    have child: "child s' t k = child s t k" if "k \<in> valid_slots s t" for k
      using valid_slotsD [OF that] same_content_ent [OF Suc.prems, of t k] by simp
    have IH: "inner_pages n s' (child s t k) = inner_pages n s (child s t k)"
      "leaf_pages n s' (child s t k) = leaf_pages n s (child s t k)"
      "is_tree n s' (child s t k) = is_tree n s (child s t k)" if "k \<in> valid_slots s t" for k
      using Suc.IH [of "child s t k"] same_content_subset [OF Suc.prems] that by auto
    show ?case by (simp add: slots child IH inner_leaf_pages)
  qed simp
  then show "inner_pages n s' t = inner_pages n s t" "leaf_pages n s' t = leaf_pages n s t"
    "tree_pages n s' t = tree_pages n s t" "is_tree n s' t = is_tree n s t"
    by (auto simp: inner_leaf_pages)
qed

lemma wf_table_inner_stable:
  assumes "wf_table n s t" "same_content (inner_pages n s t) s s'" "live s \<subseteq> live s'"
  shows "wf_table n s' t"
  using assms
proof (induction n arbitrary: t)
  case (Suc n)
  have slots: "valid_slots s' t = valid_slots s t"
    using Suc.prems(2) by (rule same_content_slots) simp
  have "wf_table n s' (child s t k)" if "k \<in> valid_slots s t" for k
    using Suc.IH [OF wf_table_child [OF Suc.prems(1) that]] same_content_subset [OF Suc.prems(2)]
      that Suc.prems(3) by auto
  moreover have "child s' t k = child s t k" if "k \<in> valid_slots s t" for k
    using valid_slotsD [OF that] same_content_ent [OF Suc.prems(2), of t k] by simp
  ultimately show ?case
    using slots Suc.prems(1,3) unfolding wf_table_Suc by auto
qed auto

section \<open>The path of a walk\<close>

text \<open>The three levels a successful walk goes through, as slots of the tree.\<close>

lemma walk_path:
  assumes "walk s t2 va = Some t0"
  obtains t1 where "va_index va 2 \<in> valid_slots s t2" "t1 = child s t2 (va_index va 2)"
    "va_index va 1 \<in> valid_slots s t1" "t0 = child s t1 (va_index va 1)"
    "va_index va 0 \<in> valid_slots s t0" "leaf_ok (ent s t0 (va_index va 0))"
    "inner_ok (ent s t2 (va_index va 2))" "inner_ok (ent s t1 (va_index va 1))"
  using assms
  by (auto simp: walk_def Let_def valid_slots_def inner_ok_def leaf_ok_def split: if_splits)

lemma walk_cong:
  assumes "same_content (inner_pages 3 s t2) s s'"
  shows "walk s' t2 va = walk s t2 va"
proof -
  let ?e2 = "ent s t2 (va_index va 2)" and ?t1 = "child s t2 (va_index va 2)"
  have root: "t2 \<in> inner_pages 3 s t2" by (simp add: numeral_3_eq_3)
  have e2: "ent s' t2 (va_index va 2) = ?e2" by (rule same_content_ent [OF assms root]) simp
  show ?thesis
  proof (cases "inner_ok ?e2")
    case False
    then show ?thesis by (simp add: walk_def e2)
  next
    case True
    then have k2: "va_index va 2 \<in> valid_slots s t2" by (simp add: valid_slots_def inner_ok_def)
    then have t1: "?t1 \<in> inner_pages 3 s t2" by (auto simp: numeral_3_eq_3)
    have e1: "ent s' ?t1 (va_index va 1) = ent s ?t1 (va_index va 1)"
      by (rule same_content_ent [OF assms t1]) simp
    show ?thesis
    proof (cases "inner_ok (ent s ?t1 (va_index va 1))")
      case False
      then show ?thesis by (simp add: walk_def Let_def e2 e1 del: One_nat_def)
    next
      case True
      then have "va_index va 1 \<in> valid_slots s ?t1" by (simp add: valid_slots_def inner_ok_def)
      with k2 have t0: "child s ?t1 (va_index va 1) \<in> inner_pages 3 s t2"
        by (auto simp: numeral_3_eq_3)
      have "ent s' (child s ?t1 (va_index va 1)) (va_index va 0) =
          ent s (child s ?t1 (va_index va 1)) (va_index va 0)"
        by (rule same_content_ent [OF assms t0]) simp
      then show ?thesis by (simp add: walk_def Let_def e2 e1 del: One_nat_def)
    qed
  qed
qed

lemma walk_in_tree:
  assumes "walk s t2 va = Some t0"
  shows "t0 \<in> inner_pages 3 s t2" "child s t0 (va_index va 0) \<in> leaf_pages 3 s t2"
proof -
  from assms obtain t1 where "va_index va 2 \<in> valid_slots s t2" "t1 = child s t2 (va_index va 2)"
    "va_index va 1 \<in> valid_slots s t1" "t0 = child s t1 (va_index va 1)"
    "va_index va 0 \<in> valid_slots s t0" by (rule walk_path)
  then show "t0 \<in> inner_pages 3 s t2" "child s t0 (va_index va 0) \<in> leaf_pages 3 s t2"
    by (auto simp: numeral_3_eq_3)
qed

text \<open>In a tree, two addresses on the same data page have the same three indices.\<close>

lemma walk_leaf_inj:
  assumes tree: "is_tree 3 s t2" and w: "walk s t2 va = Some t0" "walk s t2 va' = Some t0'"
    and eq: "child s t0 (va_index va 0) = child s t0' (va_index va' 0)"
  shows "va_index va 2 = va_index va' 2 \<and> va_index va 1 = va_index va' 1 \<and> va_index va 0 = va_index va' 0"
proof -
  from w(1) obtain t1 where p: "va_index va 2 \<in> valid_slots s t2" "t1 = child s t2 (va_index va 2)"
    "va_index va 1 \<in> valid_slots s t1" "t0 = child s t1 (va_index va 1)"
    "va_index va 0 \<in> valid_slots s t0" by (rule walk_path)
  from w(2) obtain t1' where p': "va_index va' 2 \<in> valid_slots s t2" "t1' = child s t2 (va_index va' 2)"
    "va_index va' 1 \<in> valid_slots s t1'" "t0' = child s t1' (va_index va' 1)"
    "va_index va' 0 \<in> valid_slots s t0'" by (rule walk_path)
  have t: "is_tree (Suc (Suc (Suc 0))) s t2" using tree by (simp only: numeral_3_eq_3)
  let ?p = "child s t0 (va_index va 0)"
  have in1: "?p \<in> tree_pages (Suc 0) s t0" "?p \<in> tree_pages (Suc 0) s t0'"
    using tree_pages_child [OF p(5) tree_pages_root [of _ 0]]
      tree_pages_child [OF p'(5) tree_pages_root [of _ 0]] eq by (simp_all only:)
  have in2: "?p \<in> tree_pages (Suc (Suc 0)) s t1" "?p \<in> tree_pages (Suc (Suc 0)) s t1'"
    using tree_pages_child [OF p(3), folded p(4), OF in1(1)]
      tree_pages_child [OF p'(3), folded p'(4), OF in1(2)] by (simp_all only:)
  from in2 have 2: "va_index va 2 = va_index va' 2"
    using t p(1,2) p'(1,2) unfolding is_tree.simps(2) [of "Suc (Suc 0)"] by blast
  then have t1: "t1' = t1" using p(2) p'(2) by simp
  have tt: "is_tree (Suc (Suc 0)) s t1"
    using t p(1,2) unfolding is_tree.simps(2) [of "Suc (Suc 0)"] by blast
  have 1: "va_index va 1 = va_index va' 1"
    using tt p(3,4) p'(3,4) t1 in1 unfolding is_tree.simps(2) [of "Suc 0"] by blast
  then have t0: "t0' = t0" using p(4) p'(4) t1 by simp
  have "is_tree (Suc 0) s t0"
    using tt p(3,4) unfolding is_tree.simps(2) [of "Suc 0"] by blast
  with p(5) p'(5) t0 eq have "va_index va 0 = va_index va' 0" by (simp, metis)
  with 1 2 show ?thesis by simp
qed

lemma wf_table_iff: "wf_table n s t \<longleftrightarrow> tree_pages n s t \<subseteq> live s"
proof (induction n arbitrary: t)
  case (Suc n)
  then show ?case unfolding wf_table_Suc by (auto simp: Suc.IH)
qed simp

text \<open>Changing the root page table changes nothing else.\<close>

lemma root_update_simps [simp]:
  "vms_wf (s\<lparr>root_page_table := r\<rparr>) = vms_wf s"
  "live (s\<lparr>root_page_table := r\<rparr>) = live s" "pool_pages (s\<lparr>root_page_table := r\<rparr>) = pool_pages s"
  "content (s\<lparr>root_page_table := r\<rparr>) = content s" "ent (s\<lparr>root_page_table := r\<rparr>) = ent s"
proof -
  let ?s = "s\<lparr>root_page_table := r\<rparr>"
  show l: "live ?s = live s" by (rule live_cong) simp_all
  show p: "pool_pages ?s = pool_pages s" by (rule pool_pages_cong) simp
  show c: "content ?s = content s" by (rule ext) (simp add: content_def)
  show "ent ?s = ent s" by (intro ext) (simp add: ent_def)
  show "vms_wf ?s = vms_wf s" by (simp add: vms_wf_def l p c)
qed

lemma root_update_space [simp]:
  "wf_table n (s\<lparr>root_page_table := r\<rparr>) t = wf_table n s t"
  "walk (s\<lparr>root_page_table := r\<rparr>) t va = walk s t va"
  by (induction n arbitrary: t) (simp_all add: walk_def Let_def)

end
