(* ===== verification/Mmu.thy ===== *)
theory Mmu
  imports AddressSpace
begin

text \<open>
  The page fault handler (\<open>page_fault_handler\<close> of \<open>vms/src/vms.c\<close>) and the memory management unit
  that calls it (\<open>vms/src/mmu.c\<close>).  \<open>mmu_loop\<close> is the loop of \<open>mmu\<close>, one equation per iteration: a
  faulting entry is handed to the handler once and looked at again, a second fault at the same
  level is fatal.  \<open>walk\<close> is the specification of the translation: the three lookups with no
  handler.  The lemmas relate the two and give \<open>vms_read\<close> and \<open>vms_write\<close> on translated addresses.
\<close>

section \<open>The page fault handler\<close>

definition page_fault_handler :: "u64 \<Rightarrow> nat \<Rightarrow> u64 \<Rightarrow> vms_state \<Rightarrow> vms_state vms_result" where
  "page_fault_handler va level page_table s =
     (let pte_entry = vms_page_table_pte_entry page_table va level in
      and_then (vms_pte_custom pte_entry s) (\<lambda>custom.
      if \<not> custom then Inr s
      else and_then (vms_pte_get_ppn pte_entry s) (\<lambda>ppn.
      let current_page = vms_ppn_to_page ppn;
          page_idx = vms_get_page_index current_page s in
      and_then (vms_pte_write_set pte_entry s) (\<lambda>s.
      and_then (vms_pte_custom_clear pte_entry s) (\<lambda>s.
      and_then (array_get (ref_track s) page_idx) (\<lambda>refs.
      if refs = 0 then Inr s
      else and_then (vms_new_page s) (\<lambda>(new_page, s).
      and_then (memcpy new_page current_page PAGE_SIZE s) (\<lambda>s.
      and_then (vms_page_to_ppn new_page) (\<lambda>new_ppn.
      and_then (vms_pte_set_ppn pte_entry new_ppn s) (\<lambda>s.
      Inr (s\<lparr>ref_track := (ref_track s)[nat page_idx := ref_track s ! nat page_idx - 1]\<rparr>)))))))))))"

section \<open>The memory management unit\<close>

abbreviation (input) MMU_LEVELS :: nat where "MMU_LEVELS \<equiv> 3"
abbreviation (input) EFAULT :: int where "EFAULT \<equiv> 14"

definition should_generate_fault :: "nat \<Rightarrow> u64 \<Rightarrow> vms_state \<Rightarrow> bool vms_result" where
  "should_generate_fault level entry s =
     and_then (vms_pte_valid entry s) (\<lambda>valid.
     if \<not> valid then Inr True
     else and_then (vms_pte_read entry s) (\<lambda>r.
     and_then (vms_pte_write entry s) (\<lambda>w.
     if level \<noteq> 0 \<and> (r \<or> w) then Inr True
     else if level = 0 \<and> \<not> r \<and> \<not> w then Inr True
     else Inr False)))"

definition vms_get_root_page_table :: "vms_state \<Rightarrow> u64" where
  "vms_get_root_page_table s = root_page_table s"

definition vms_set_root_page_table :: "u64 \<Rightarrow> vms_state \<Rightarrow> vms_state vms_result" where
  "vms_set_root_page_table page_table s =
     and_then (check_page_aligned page_table) (\<lambda>_. Inr (s\<lparr>root_page_table := page_table\<rparr>))"

text \<open>\<open>print_fatal_page_fault\<close> followed by \<open>exit(EFAULT)\<close>, as at each of its three uses.\<close>

definition fault_flags :: "u64 \<Rightarrow> string" where
  "fault_flags e =
     (if pte_custom e then ''C'' else ''-'') @ (if pte_write e then ''W'' else ''-'') @
     (if pte_read e then ''R'' else ''-'') @ (if pte_valid e then ''V'' else ''-'')"

definition print_fatal_page_fault :: "u64 \<Rightarrow> nat \<Rightarrow> u64 \<Rightarrow> vms_state \<Rightarrow> 'a vms_result" where
  "print_fatal_page_fault va level page_table s =
     and_then (read64 (vms_page_table_pte_entry page_table va level) s) (\<lambda>e.
     Inl (Fatal_page_fault \<lparr>fr_address = va, fr_page_table = page_table, fr_level = level,
       fr_ppn = pte_get_ppn e, fr_flags = fault_flags e\<rparr>))"

definition exit_status :: "vms_stop \<Rightarrow> int option" where
  "exit_status r = (case r of Exit n \<Rightarrow> Some n | Fatal_page_fault _ \<Rightarrow> Some EFAULT | _ \<Rightarrow> None)"

function mmu_loop :: "u64 \<Rightarrow> nat \<Rightarrow> u64 \<Rightarrow> bool \<Rightarrow> vms_state \<Rightarrow> (u64 \<times> vms_state) vms_result" where
  "mmu_loop va level page_table faulted s =
     (let entry = vms_page_table_pte_entry page_table va level in
      and_then (should_generate_fault level entry s) (\<lambda>fault.
      if fault then
        (if \<not> faulted then
           and_then (page_fault_handler va level page_table s) (\<lambda>s.
           mmu_loop va level page_table True s)
         else print_fatal_page_fault va level page_table s)
      else if level \<noteq> 0 then
        and_then (vms_pte_get_ppn entry s) (\<lambda>ppn.
        mmu_loop va (level - 1) (vms_ppn_to_page ppn) False s)
      else Inr (entry, s)))"
  by pat_completeness auto
termination
  by (relation "measure (\<lambda>(va, level, page_table, faulted, s). 2 * level + (if faulted then 0 else 1))")
     auto

declare mmu_loop.simps [simp del]

definition mmu :: "u64 \<Rightarrow> vms_state \<Rightarrow> (u64 \<times> vms_state) vms_result" where
  "mmu va s = mmu_loop va (MMU_LEVELS - 1) (root_page_table s) False s"

definition translate_address :: "u64 \<Rightarrow> u64 \<Rightarrow> vms_state \<Rightarrow> u64 vms_result" where
  "translate_address va entry s =
     and_then (vms_pte_get_ppn entry s) (\<lambda>ppn. Inr (vms_ppn_to_page ppn OR (va AND 0xFFF)))"

definition get_base_page :: "u64 \<Rightarrow> u64" where
  "get_base_page entry = entry AND NOT 0xFFF"

definition vms_write :: "u64 \<Rightarrow> u32 \<Rightarrow> vms_state \<Rightarrow> vms_state vms_result" where
  "vms_write va value s =
     and_then (mmu va s) (\<lambda>(entry, s).
     and_then (vms_pte_write entry s) (\<lambda>w.
     and_then
       (if w then Inr s
        else let l0 = get_base_page entry in
          and_then (page_fault_handler va 0 l0 s) (\<lambda>s.
          and_then (vms_pte_write entry s) (\<lambda>w.
          if w then Inr s else print_fatal_page_fault va 0 l0 s)))
       (\<lambda>s. and_then (translate_address va entry s) (\<lambda>p. write32 p value s))))"

definition vms_read :: "u64 \<Rightarrow> vms_state \<Rightarrow> (u32 \<times> vms_state) vms_result" where
  "vms_read va s =
     and_then (mmu va s) (\<lambda>(entry, s).
     and_then (vms_pte_read entry s) (\<lambda>r.
     and_then
       (if r then Inr s
        else let l0 = get_base_page entry in
          and_then (page_fault_handler va 0 l0 s) (\<lambda>s.
          and_then (vms_pte_read entry s) (\<lambda>r.
          if r then Inr s else print_fatal_page_fault va 0 l0 s)))
       (\<lambda>s. and_then (translate_address va entry s) (\<lambda>p.
          and_then (read32 p s) (\<lambda>v. Inr (v, s))))))"

section \<open>The handler, case by case\<close>

lemma page_fault_handler_plain:
  assumes "t \<in> pool_pages s" "level \<le> 2" "\<not> pte_custom (ent s t (va_index va level))"
  shows "page_fault_handler va level t s = Inr s"
  using assms by (simp add: page_fault_handler_def Let_def pte_entry_index vms_pte_defs)

text \<open>The state in which an entry has been made writable and private.\<close>

definition own_entry :: "u64 \<Rightarrow> nat \<Rightarrow> vms_state \<Rightarrow> vms_state" where
  "own_entry t k s = write_ent t k (pte_custom_clear (pte_write_set (ent s t k))) s"

lemma own_entry_fields [simp]:
  "base_pointer (own_entry t k s) = base_pointer s" "allocated (own_entry t k s) = allocated s"
  "root_page_table (own_entry t k s) = root_page_table s" "ref_track (own_entry t k s) = ref_track s"
  "used_pages (own_entry t k s) = used_pages s"
  "pool_pages (own_entry t k s) = pool_pages s" "live (own_entry t k s) = live s"
  by (simp_all add: own_entry_def)

lemma page_fault_handler_owner:
  assumes t: "t \<in> pool_pages s" "level \<le> 2" "k = va_index va level"
    and c: "pte_custom (ent s t k)"
    and p: "array_get (ref_track s) (vms_get_page_index (pte_page (ent s t k)) s) = Inr 0"
  shows "page_fault_handler va level t s = Inr (own_entry t k s)"
  using assms
  by (simp add: page_fault_handler_def Let_def pte_entry_index vms_pte_defs own_entry_def
      pte_page_def)

lemma page_fault_handler_shared:
  assumes t: "t \<in> pool_pages s" "level \<le> 2" "k = va_index va level"
    and c: "pte_custom (ent s t k)"
    and p: "array_get (ref_track s) (vms_get_page_index (pte_page (ent s t k)) s) = Inr refs" "refs \<noteq> 0"
  shows "page_fault_handler va level t s =
    and_then (vms_new_page (own_entry t k s)) (\<lambda>(q, s1).
    and_then (memcpy q (pte_page (ent s t k)) PAGE_SIZE s1) (\<lambda>s2.
    and_then (vms_page_to_ppn q) (\<lambda>ppn.
    and_then (vms_pte_set_ppn (vms_page_table_pte_entry_from_index t k) ppn s2) (\<lambda>s3.
    let i = nat (vms_get_page_index (pte_page (ent s t k)) s) in
    Inr (s3\<lparr>ref_track := (ref_track s3)[i := ref_track s3 ! i - 1]\<rparr>)))))"
  using assms
  by (simp add: page_fault_handler_def Let_def pte_entry_index vms_pte_defs own_entry_def
      pte_page_def)

section \<open>The loop of \<open>mmu\<close> against the walk\<close>

lemma should_generate_fault_eq:
  assumes "t \<in> pool_pages s" "level \<le> 2"
  shows "should_generate_fault level (vms_page_table_pte_entry_from_index t (va_index va level)) s =
    Inr (\<not> (if level = 0 then leaf_ok else inner_ok) (ent s t (va_index va level)))"
  using assms
  by (auto simp: should_generate_fault_def vms_pte_defs leaf_ok_def inner_ok_def)

lemma mmu_loop_inner:
  assumes "t \<in> pool_pages s" "level \<le> 2" "level \<noteq> 0" "inner_ok (ent s t (va_index va level))"
  shows "mmu_loop va level t faulted s =
    mmu_loop va (level - 1) (pte_page (ent s t (va_index va level))) False s"
  using assms
  by (subst mmu_loop.simps)
     (simp add: Let_def should_generate_fault_eq pte_entry_index vms_pte_defs pte_page_def)

lemma mmu_loop_leaf:
  assumes "t \<in> pool_pages s" "leaf_ok (ent s t (va_index va 0))"
  shows "mmu_loop va 0 t faulted s = Inr (vms_page_table_pte_entry t va 0, s)"
  using assms by (subst mmu_loop.simps) (simp add: Let_def should_generate_fault_eq pte_entry_index)

definition fatal_report :: "u64 \<Rightarrow> nat \<Rightarrow> u64 \<Rightarrow> u64 \<Rightarrow> fault_report" where
  "fatal_report va level t e = \<lparr>fr_address = va, fr_page_table = t, fr_level = level,
     fr_ppn = pte_get_ppn e, fr_flags = fault_flags e\<rparr>"

lemma print_fatal_eq:
  assumes "t \<in> pool_pages s" "level \<le> 2"
  shows "print_fatal_page_fault va level t s =
    Inl (Fatal_page_fault (fatal_report va level t (ent s t (va_index va level))))"
  using assms by (simp add: print_fatal_page_fault_def pte_entry_index fatal_report_def)

lemma mmu_loop_fatal:
  assumes "t \<in> pool_pages s" "level \<le> 2"
    and "\<not> (if level = 0 then leaf_ok else inner_ok) (ent s t (va_index va level))"
    and "\<not> pte_custom (ent s t (va_index va level))"
  shows "mmu_loop va level t faulted s =
    Inl (Fatal_page_fault (fatal_report va level t (ent s t (va_index va level))))"
proof -
  have "mmu_loop va level t True s =
      Inl (Fatal_page_fault (fatal_report va level t (ent s t (va_index va level))))"
    using assms by (subst mmu_loop.simps) (simp add: Let_def should_generate_fault_eq print_fatal_eq pte_entry_index)
  then show ?thesis
    using assms page_fault_handler_plain [OF assms(1,2,4)]
    by (cases faulted; subst mmu_loop.simps) (simp_all add: Let_def should_generate_fault_eq print_fatal_eq pte_entry_index)
qed

text \<open>Where the walk of an address stops: the level and table of the entry that faults.\<close>

definition fault_point :: "vms_state \<Rightarrow> u64 \<Rightarrow> u64 \<Rightarrow> (nat \<times> u64) option" where
  "fault_point s t2 va =
     (let e2 = ent s t2 (va_index va 2) in
      if \<not> inner_ok e2 then Some (2, t2)
      else let t1 = pte_page e2; e1 = ent s t1 (va_index va 1) in
      if \<not> inner_ok e1 then Some (1, t1)
      else let t0 = pte_page e1 in
      if leaf_ok (ent s t0 (va_index va 0)) then None else Some (0, t0))"

lemma walk_fault_point: "walk s t va = None \<longleftrightarrow> fault_point s t va \<noteq> None"
  by (simp add: walk_def fault_point_def Let_def)

lemma wf_table_step:
  assumes "wf_table (Suc n) s t" "inner_ok (ent s t (va_index va level)) \<or> leaf_ok (ent s t (va_index va level))"
    "level \<le> 2"
  shows "wf_table n s (pte_page (ent s t (va_index va level)))"
  using assms by (auto simp: inner_ok_def leaf_ok_def)

lemma walk_tables:
  assumes "wf_table 3 s t2" "walk s t2 va = Some t0"
  shows "wf_table 1 s t0" "wf_table 0 s (pte_page (ent s t0 (va_index va 0)))"
    "leaf_ok (ent s t0 (va_index va 0))"
proof -
  let ?t1 = "pte_page (ent s t2 (va_index va 2))"
  have ok: "inner_ok (ent s t2 (va_index va 2))" "inner_ok (ent s ?t1 (va_index va 1))"
    "t0 = pte_page (ent s ?t1 (va_index va 1))" "leaf_ok (ent s t0 (va_index va 0))"
    using assms(2) by (auto simp: walk_def Let_def split: if_splits)
  have "wf_table (Suc (Suc (Suc 0))) s t2" using assms(1) by (simp only: numeral_3_eq_3)
  from wf_table_step [OF this, of va 2] ok(1) have "wf_table (Suc (Suc 0)) s ?t1" by simp
  from wf_table_step [OF this, of va 1] ok(2,3) have w0: "wf_table (Suc 0) s t0" by simp
  from wf_table_step [OF this, of va 0] ok(4)
  have "wf_table 0 s (pte_page (ent s t0 (va_index va 0)))" by simp
  then show "wf_table 1 s t0" "wf_table 0 s (pte_page (ent s t0 (va_index va 0)))"
    "leaf_ok (ent s t0 (va_index va 0))" using ok(4) w0 by auto
qed

lemma wf_table_3_entries:
  assumes "wf_table 3 s t2"
  shows "t2 \<in> pool_pages s"
    and "inner_ok (ent s t2 (va_index va 2)) \<Longrightarrow> child s t2 (va_index va 2) \<in> pool_pages s"
    and "inner_ok (ent s t2 (va_index va 2)) \<Longrightarrow>
      inner_ok (ent s (child s t2 (va_index va 2)) (va_index va 1)) \<Longrightarrow>
      child s (child s t2 (va_index va 2)) (va_index va 1) \<in> pool_pages s"
proof -
  have w: "wf_table (Suc (Suc (Suc 0))) s t2" using assms by (simp only: numeral_3_eq_3)
  show "t2 \<in> pool_pages s" by (rule live_in_pool [OF wf_table_live [OF assms]])
  assume i2: "inner_ok (ent s t2 (va_index va 2))"
  have w1: "wf_table (Suc (Suc 0)) s (child s t2 (va_index va 2))"
    using wf_table_step [OF w] i2 by simp
  then show "child s t2 (va_index va 2) \<in> pool_pages s" by (rule live_in_pool [OF wf_table_live])
  assume i1: "inner_ok (ent s (child s t2 (va_index va 2)) (va_index va 1))"
  have "wf_table (Suc 0) s (child s (child s t2 (va_index va 2)) (va_index va 1))"
    using wf_table_step [OF w1] i1 by simp
  then show "child s (child s t2 (va_index va 2)) (va_index va 1) \<in> pool_pages s"
    by (rule live_in_pool [OF wf_table_live])
qed

lemma mmu_walk:
  assumes wf: "wf_table 3 s (root_page_table s)" and w: "walk s (root_page_table s) va = Some t0"
  shows "mmu va s = Inr (vms_page_table_pte_entry t0 va 0, s)"
proof -
  let ?t2 = "root_page_table s" let ?t1 = "child s ?t2 (va_index va 2)"
  have ok: "inner_ok (ent s ?t2 (va_index va 2))" "inner_ok (ent s ?t1 (va_index va 1))"
    "t0 = child s ?t1 (va_index va 1)" "leaf_ok (ent s t0 (va_index va 0))"
    using w by (auto simp: walk_def Let_def split: if_splits)
  note pool = wf_table_3_entries(1) [OF wf] wf_table_3_entries(2-3) [OF wf, of va]
  have "mmu va s = mmu_loop va 2 ?t2 False s" by (simp add: mmu_def)
  also have "\<dots> = mmu_loop va 1 ?t1 False s"
    using mmu_loop_inner [of ?t2 s 2] pool ok by simp
  also have "\<dots> = mmu_loop va 0 t0 False s"
    using mmu_loop_inner [of ?t1 s 1] pool ok by simp
  also have "\<dots> = Inr (vms_page_table_pte_entry t0 va 0, s)"
    using mmu_loop_leaf pool ok by simp
  finally show ?thesis .
qed

lemma mmu_no_walk:
  assumes wf: "wf_table 3 s (root_page_table s)"
    and f: "fault_point s (root_page_table s) va = Some (l, t)"
    and c: "\<not> pte_custom (ent s t (va_index va l))"
  shows "mmu va s = Inl (Fatal_page_fault (fatal_report va l t (ent s t (va_index va l))))"
proof -
  let ?t2 = "root_page_table s" let ?t1 = "child s ?t2 (va_index va 2)"
  note pool = wf_table_3_entries(1) [OF wf] wf_table_3_entries(2-3) [OF wf, of va]
  have m: "mmu va s = mmu_loop va 2 ?t2 False s" by (simp add: mmu_def)
  show ?thesis
  proof (cases "inner_ok (ent s ?t2 (va_index va 2))")
    case False
    with f c mmu_loop_fatal [of ?t2 s 2 va] pool m show ?thesis
      by (simp add: fault_point_def Let_def)
  next
    case i2: True
    then have m1: "mmu va s = mmu_loop va 1 ?t1 False s"
      using mmu_loop_inner [of ?t2 s 2] pool m by simp
    show ?thesis
    proof (cases "inner_ok (ent s ?t1 (va_index va 1))")
      case False
      with i2 f c mmu_loop_fatal [of ?t1 s 1 va] pool m1 show ?thesis
        by (simp add: fault_point_def Let_def del: One_nat_def)
    next
      case i1: True
      then have m0: "mmu va s = mmu_loop va 0 (child s ?t1 (va_index va 1)) False s"
        using mmu_loop_inner [of ?t1 s 1] pool i2 m1 by simp
      from i1 i2 f have "l = 0" "t = child s ?t1 (va_index va 1)"
        "\<not> leaf_ok (ent s t (va_index va 0))"
        by (auto simp: fault_point_def Let_def split: if_splits)
      with c m0 mmu_loop_fatal [of t s 0 va] pool i1 i2 show ?thesis by simp
    qed
  qed
qed

section \<open>Physical addresses\<close>

definition page_offset :: "u64 \<Rightarrow> nat" where
  "page_offset va = unat va mod PAGE_SIZE"

lemma aligned_or_offset:
  assumes "(p :: u64) mod 4096 = 0" "d < 4096"
  shows "p OR of_nat d = p + of_nat d"
proof -
  have "unat (of_nat d :: u64) < 2 ^ 12" using assms(2) by (simp add: unat_of_nat)
  then have "\<not> bit (of_nat d :: u64) n" if "12 \<le> n" for n using that by (rule less_exp_bits)
  moreover have "\<not> bit p n" if "n < 12" for n
    using assms(1) that unfolding page_aligned_bits by blast
  ultimately have "p AND of_nat d = 0"
    by (intro bit_word_eqI) (metis bit_and_iff bit_0_eq bot_apply bot_bool_def not_le)
  then show ?thesis by (simp add: disjunctive_add_eq_or)
qed

lemma offset_bits: "va AND 0xFFF = of_nat (page_offset va)"
proof -
  have "va AND 0xFFF = take_bit 12 va"
    by (simp add: take_bit_eq_mask mask_eq_exp_minus_1 and.commute)
  also have "\<dots> = of_nat (take_bit 12 (unat va))"
    unfolding unsigned_take_bit_eq [symmetric] by simp
  finally show ?thesis by (simp add: page_offset_def take_bit_eq_mod)
qed

lemma page_offset_less [simp]: "page_offset va < 4096"
  by (simp add: page_offset_def)

lemma get_base_page_entry:
  assumes "t mod 4096 = 0" "k < NUM_PTE_ENTRIES"
  shows "get_base_page (vms_page_table_pte_entry_from_index t k) = t"
proof -
  have "unat (of_nat (8 * k) :: u64) < 2 ^ 12"
    using assms(2) by (simp add: unat_of_nat del: of_nat_mult)
  then have k: "\<not> bit (of_nat (8 * k) :: u64) n" if "12 \<le> n" for n using that by (rule less_exp_bits)
  have mask: "(0xFFF :: u64) = mask 12" by (simp add: mask_eq_exp_minus_1)
  have t: "\<not> bit t n" if "n < 12" for n
    using assms(1) that unfolding page_aligned_bits by blast
  have "get_base_page (t OR of_nat (8 * k)) = t"
    unfolding get_base_page_def mask
  proof (rule bit_word_eqI)
    fix n assume "n < LENGTH(64)"
    then show "bit ((t OR of_nat (8 * k)) AND NOT (mask 12)) n = bit t n"
      using k [of n] t [of n] unfolding bit_and_iff bit_or_iff bit_not_iff bit_mask_iff
      by (cases "n < 12") auto
  qed
  then show ?thesis
    using aligned_or_offset [OF assms(1), of "8 * k"] assms(2) by (simp add: entry_ptr del: of_nat_mult)
qed

lemma translate_address_page:
  assumes "vms_wf s" "t \<in> pool_pages s" "k < NUM_PTE_ENTRIES" "child s t k \<in> pool_pages s"
  shows "translate_address va (vms_page_table_pte_entry_from_index t k) s =
    Inr (child s t k + of_nat (page_offset va))"
  using assms page_aligned_pool [OF assms(1,4)]
  by (simp add: translate_address_def vms_pte_defs offset_bits aligned_or_offset pte_page_def)

section \<open>Reading and writing mapped addresses\<close>

definition leaf_entry :: "vms_state \<Rightarrow> u64 \<Rightarrow> u64 \<Rightarrow> u64" where
  "leaf_entry s t0 va = ent s t0 (va_index va 0)"

lemma walk_leaf:
  assumes "wf_table 3 s t2" "walk s t2 va = Some t0"
  shows "t0 \<in> pool_pages s" "t0 \<in> live s" "pte_page (leaf_entry s t0 va) \<in> live s"
    "pte_page (leaf_entry s t0 va) \<in> pool_pages s" "leaf_ok (leaf_entry s t0 va)"
  using walk_tables [OF assms] wf_table_live [of 1 s t0] live_pool
  by (auto simp: leaf_entry_def)

lemma vms_read_mapped:
  assumes wf: "vms_wf s" "wf_table 3 s (root_page_table s)"
    and w: "walk s (root_page_table s) va = Some t0"
    and r: "pte_read (leaf_entry s t0 va)" and off: "page_offset va + 4 \<le> PAGE_SIZE"
  shows "vms_read va s =
    Inr (load32 (mem s) (pte_page (leaf_entry s t0 va) + of_nat (page_offset va)), s)"
  using walk_leaf [OF wf(2) w] r off
    translate_address_page [OF wf(1), of t0 "va_index va 0" va]
    in_pool_page [of "pte_page (leaf_entry s t0 va)" s "page_offset va" 4]
  by (simp add: vms_read_def mmu_walk [OF wf(2) w] pte_entry_index vms_pte_defs leaf_entry_def read32_def)

lemma vms_write_mapped:
  assumes wf: "vms_wf s" "wf_table 3 s (root_page_table s)"
    and w: "walk s (root_page_table s) va = Some t0"
    and r: "pte_write (leaf_entry s t0 va)" and off: "page_offset va + 4 \<le> PAGE_SIZE"
  shows "vms_write va v s = Inr (s\<lparr>mem :=
    store32 (mem s) (pte_page (leaf_entry s t0 va) + of_nat (page_offset va)) v\<rparr>)"
  using walk_leaf [OF wf(2) w] r off
    translate_address_page [OF wf(1), of t0 "va_index va 0" va]
    in_pool_page [of "pte_page (leaf_entry s t0 va)" s "page_offset va" 4]
  by (simp add: vms_write_def mmu_walk [OF wf(2) w] pte_entry_index vms_pte_defs leaf_entry_def write32_def)

text \<open>The protection faults: a mapped page without the permission and without the custom bit.\<close>

lemma access_denied:
  assumes wf: "vms_wf s" "wf_table 3 s (root_page_table s)"
    and w: "walk s (root_page_table s) va = Some t0" and c: "\<not> pte_custom (leaf_entry s t0 va)"
  shows "\<not> pte_write (leaf_entry s t0 va) \<Longrightarrow>
      vms_write va v s = Inl (Fatal_page_fault (fatal_report va 0 t0 (leaf_entry s t0 va)))"
    and "\<not> pte_read (leaf_entry s t0 va) \<Longrightarrow>
      vms_read va s = Inl (Fatal_page_fault (fatal_report va 0 t0 (leaf_entry s t0 va)))"
  using walk_leaf [OF wf(2) w] c page_aligned_pool [OF wf(1), of t0]
    page_fault_handler_plain [of t0 s 0 va]
  by (simp_all add: vms_read_def vms_write_def mmu_walk [OF wf(2) w] pte_entry_index vms_pte_defs
      leaf_entry_def get_base_page_entry Let_def print_fatal_eq)

section \<open>A store to a data page\<close>

definition poke :: "u64 \<Rightarrow> nat \<Rightarrow> u32 \<Rightarrow> vms_state \<Rightarrow> vms_state" where
  "poke p d v s = s\<lparr>mem := store32 (mem s) (p + of_nat d) v\<rparr>"

definition peek :: "u64 \<Rightarrow> nat \<Rightarrow> vms_state \<Rightarrow> u32" where
  "peek p d s = load32 (mem s) (p + of_nat d)"

lemma poke_fields [simp]:
  "base_pointer (poke p d v s) = base_pointer s" "allocated (poke p d v s) = allocated s"
  "used_pages (poke p d v s) = used_pages s" "root_page_table (poke p d v s) = root_page_table s"
  "ref_track (poke p d v s) = ref_track s"
  by (simp_all add: poke_def)

lemma pool_poke [simp]: "pool_pages (poke p d v s) = pool_pages s"
  by (rule pool_pages_cong) simp

lemma live_poke [simp]: "live (poke p d v s) = live s"
  by (rule live_cong) simp_all

lemma content_poke [simp]:
  assumes "p \<in> pool_pages s" "q \<in> pool_pages s" "p \<noteq> q" "d + 4 \<le> PAGE_SIZE"
  shows "content (poke p d v s) q = content s q"
  using load_store_page [OF assms(1,2), of d "le_bytes 4 v" 0 PAGE_SIZE "mem s"] assms(3,4)
  by (simp add: content_def poke_def store32_def)

text \<open>The bytes of a page after a store of four bytes at \<open>d\<close>.\<close>

definition put32 :: "nat \<Rightarrow> u32 \<Rightarrow> u8 list \<Rightarrow> u8 list" where
  "put32 d v bs = take d bs @ le_bytes 4 v @ drop (d + 4) bs"

lemma length_put32 [simp]: "d + 4 \<le> length bs \<Longrightarrow> length (put32 d v bs) = length bs"
  by (simp add: put32_def)

lemma content_poke_same:
  assumes "d + 4 \<le> PAGE_SIZE"
  shows "content (poke p d v s) p = put32 d v (content s p)"
proof (rule nth_equalityI)
  show "length (content (poke p d v s) p) = length (put32 d v (content s p))"
    using assms by (simp add: content_def)
  fix i assume "i < length (content (poke p d v s) p)"
  then have i: "i < PAGE_SIZE" by (simp add: content_def)
  have "content (poke p d v s) p ! i = store_bytes (mem s) (p + of_nat d) (le_bytes 4 v) (p + of_nat i)"
    using i by (simp add: content_def poke_def store32_def)
  also have "\<dots> = (if d \<le> i \<and> i < d + 4 then le_bytes 4 v ! (i - d) else mem s (p + of_nat i))"
    using i assms by (subst store_bytes_at) auto
  also have "\<dots> = put32 d v (content s p) ! i"
    using i assms by (auto simp: put32_def nth_append content_def)
  finally show "content (poke p d v s) p ! i = put32 d v (content s p) ! i" .
qed

lemma peek_poke:
  assumes "p \<in> pool_pages s" "q \<in> pool_pages s" "d + 4 \<le> PAGE_SIZE" "d' + 4 \<le> PAGE_SIZE"
  shows "peek p d (poke p d v s) = v"
    and "p \<noteq> q \<or> d' + 4 \<le> d \<or> d + 4 \<le> d' \<Longrightarrow> peek q d' (poke p d v s) = peek q d' s"
  using load_store_page [OF assms(1,2), of d "le_bytes 4 v" d' 4 "mem s"] assms(3,4)
  by (simp_all add: peek_def poke_def bytes_simps) (simp add: load32_def store32_def)

lemma vms_wf_poke:
  assumes "vms_wf s" "p \<in> live s" "d + 4 \<le> PAGE_SIZE"
  shows "vms_wf (poke p d v s)"
proof -
  have "content (poke p d v s) q = content s q" if "q \<in> pool_pages s" "q \<notin> live s" for q
    using that assms live_in_pool [OF assms(2)] by (intro content_poke) auto
  with assms(1) show ?thesis by (auto simp: vms_wf_def)
qed

lemma poke_inner:
  assumes "vms_wf s" "wf_table n s t" "is_tree n s t" "p \<in> leaf_pages n s t" "d + 4 \<le> PAGE_SIZE"
  shows "same_content (inner_pages n s t) s (poke p d v s)"
proof -
  have "p \<in> live s" "inner_pages n s t \<subseteq> live s"
    using tree_pages_live [OF assms(2)] assms(4) by (auto simp: inner_leaf_pages)
  moreover have "p \<notin> inner_pages n s t" using is_tree_inner_leaf [OF assms(3)] assms(4) by blast
  ultimately show ?thesis
    using assms(5) live_pool [of s] unfolding same_content_def by (metis content_poke subsetD)
qed

end
