(* ===== verification/Fork.thy ===== *)
theory Fork
  imports Mmu
begin

text \<open>
  Copying an address space (\<open>copy\<close>, \<open>vms_fork_copy\<close> and \<open>vms_fork_copy_on_write\<close> of
  \<open>vms/src/vms.c\<close>).  The three nested loops are the three \<open>copy_l*_entry\<close> bodies under \<open>for_each\<close>.
  For the plain fork the proof follows the nesting: each level is a table whose valid slots are
  filled by copies made by the level below (\<open>copy_table\<close> over \<open>copy_slot\<close>), so one induction
  step, \<open>deep_copy_table\<close>, serves all levels.  The result is a new tree, disjoint from everything
  that was live, with the same flags and the same bytes.
\<close>

abbreviation (input) DEFAULT :: int where "DEFAULT \<equiv> 0"
abbreviation (input) COW :: int where "COW \<equiv> 1"

section \<open>The code\<close>

definition copy_l0_entry :: "int \<Rightarrow> u64 \<Rightarrow> u64 \<Rightarrow> nat \<Rightarrow> vms_state \<Rightarrow> vms_state vms_result" where
  "copy_l0_entry mode l0_original l0_forked k s =
     (let l0_entry_original = vms_page_table_pte_entry_from_index l0_original k;
          l0_entry_forked = vms_page_table_pte_entry_from_index l0_forked k in
      and_then (vms_pte_valid l0_entry_original s) (\<lambda>valid.
      if \<not> valid then Inr s
      else if DEFAULT = mode then
        and_then (vms_pte_get_ppn l0_entry_original s) (\<lambda>ppn.
        let p0 = vms_ppn_to_page ppn in
        and_then (vms_new_page s) (\<lambda>(p0_forked, s).
        and_then (memcpy p0_forked p0 PAGE_SIZE s) (\<lambda>s.
        and_then (read64 l0_entry_original s) (\<lambda>e.
        and_then (write64 l0_entry_forked e s) (\<lambda>s.
        and_then (vms_page_to_ppn p0_forked) (\<lambda>new_ppn.
        vms_pte_set_ppn l0_entry_forked new_ppn s))))))
      else if COW = mode then
        and_then (vms_pte_write l0_entry_original s) (\<lambda>w.
        and_then (vms_pte_custom l0_entry_original s) (\<lambda>c.
        if \<not> w \<and> \<not> c then
          and_then (read64 l0_entry_original s) (\<lambda>e. write64 l0_entry_forked e s)
        else
          and_then (vms_pte_write_clear l0_entry_forked s) (\<lambda>s.
          and_then (vms_pte_custom_set l0_entry_forked s) (\<lambda>s.
          and_then (vms_pte_write_clear l0_entry_original s) (\<lambda>s.
          and_then (vms_pte_custom_set l0_entry_original s) (\<lambda>s.
          and_then (vms_pte_get_ppn l0_entry_original s) (\<lambda>ppn.
          let page_num_ptr = vms_ppn_to_page ppn;
              page_idx = vms_get_page_index page_num_ptr s in
          and_then (array_get (ref_track s) page_idx) (\<lambda>refs.
          let s = s\<lparr>ref_track := (ref_track s)[nat page_idx := refs + 1]\<rparr> in
          and_then (read64 l0_entry_original s) (\<lambda>e. write64 l0_entry_forked e s)))))))))
      else Inr s))"

definition copy_l1_entry :: "int \<Rightarrow> u64 \<Rightarrow> u64 \<Rightarrow> nat \<Rightarrow> vms_state \<Rightarrow> vms_state vms_result" where
  "copy_l1_entry mode l1_original l1_forked j s =
     (let l1_entry_original = vms_page_table_pte_entry_from_index l1_original j;
          l1_entry_forked = vms_page_table_pte_entry_from_index l1_forked j in
      and_then (vms_pte_valid l1_entry_original s) (\<lambda>valid.
      if \<not> valid then Inr s
      else and_then (vms_pte_get_ppn l1_entry_original s) (\<lambda>ppn.
      let l0_original = vms_ppn_to_page ppn in
      and_then (vms_new_page s) (\<lambda>(l0_forked, s).
      and_then (for_each (copy_l0_entry mode l0_original l0_forked) [0..<NUM_PTE_ENTRIES] s) (\<lambda>s.
      and_then (read64 l1_entry_original s) (\<lambda>e.
      and_then (write64 l1_entry_forked e s) (\<lambda>s.
      and_then (vms_page_to_ppn l0_forked) (\<lambda>new_ppn.
      vms_pte_set_ppn l1_entry_forked new_ppn s))))))))"

definition copy_l2_entry :: "int \<Rightarrow> u64 \<Rightarrow> u64 \<Rightarrow> nat \<Rightarrow> vms_state \<Rightarrow> vms_state vms_result" where
  "copy_l2_entry mode old_l2 new_l2 i s =
     (let l2_entry_original = vms_page_table_pte_entry_from_index old_l2 i;
          l2_entry_forked = vms_page_table_pte_entry_from_index new_l2 i in
      and_then (vms_pte_valid l2_entry_original s) (\<lambda>valid.
      if \<not> valid then Inr s
      else and_then (vms_pte_get_ppn l2_entry_original s) (\<lambda>ppn.
      let l1_original = vms_ppn_to_page ppn in
      and_then (vms_new_page s) (\<lambda>(l1_forked, s).
      and_then (for_each (copy_l1_entry mode l1_original l1_forked) [0..<NUM_PTE_ENTRIES] s) (\<lambda>s.
      and_then (read64 l2_entry_original s) (\<lambda>e.
      and_then (write64 l2_entry_forked e s) (\<lambda>s.
      and_then (vms_page_to_ppn l1_forked) (\<lambda>new_ppn.
      vms_pte_set_ppn l2_entry_forked new_ppn s))))))))"

definition copy :: "int \<Rightarrow> vms_state \<Rightarrow> (u64 \<times> vms_state) vms_result" where
  "copy mode s =
     (let old_l2 = vms_get_root_page_table s in
      and_then (vms_new_page s) (\<lambda>(new_l2, s).
      and_then (for_each (copy_l2_entry mode old_l2 new_l2) [0..<NUM_PTE_ENTRIES] s) (\<lambda>s.
      Inr (new_l2, s))))"

definition vms_fork_copy :: "vms_state \<Rightarrow> (u64 \<times> vms_state) vms_result" where
  "vms_fork_copy = copy DEFAULT"

definition vms_fork_copy_on_write :: "vms_state \<Rightarrow> (u64 \<times> vms_state) vms_result" where
  "vms_fork_copy_on_write = copy COW"

section \<open>What a copy is\<close>

text \<open>
  The tree at \<open>u\<close> in \<open>s'\<close> mirrors the tree at \<open>t\<close> in \<open>s\<close>: same slots, same flags, same bytes.
\<close>

fun forked :: "nat \<Rightarrow> vms_state \<Rightarrow> u64 \<Rightarrow> vms_state \<Rightarrow> u64 \<Rightarrow> bool" where
  "forked 0 s p s' q \<longleftrightarrow> content s' q = content s p"
| "forked (Suc n) s t s' u \<longleftrightarrow>
     (\<forall>k < NUM_PTE_ENTRIES.
        if pte_valid (ent s t k)
        then same_flags (ent s' u k) (ent s t k) \<and> forked n s (child s t k) s' (child s' u k)
        else ent s' u k = 0)"

definition copied :: "nat \<Rightarrow> vms_state \<Rightarrow> u64 \<Rightarrow> vms_state \<Rightarrow> u64 \<Rightarrow> bool" where
  "copied n s p s' q \<longleftrightarrow>
     vms_wf s' \<and> base_pointer s' = base_pointer s \<and> root_page_table s' = root_page_table s \<and>
     ref_track s' = ref_track s \<and> same_content (live s) s s' \<and>
     live s' = live s \<union> tree_pages n s' q \<and> tree_pages n s' q \<inter> live s = {} \<and>
     is_tree n s' q \<and> forked n s p s' q"

lemma forked_SucD:
  assumes "forked (Suc n) s t s' u" "k \<in> valid_slots s t"
  shows "same_flags (ent s' u k) (ent s t k)" "forked n s (child s t k) s' (child s' u k)"
    "k \<in> valid_slots s' u"
proof -
  show f: "same_flags (ent s' u k) (ent s t k)" "forked n s (child s t k) s' (child s' u k)"
    using assms by (auto simp: valid_slots_def)
  show "k \<in> valid_slots s' u"
    using assms(2) same_flags_iff(1) [OF f(1)] by (simp add: valid_slots_def)
qed

lemma pte_valid_0 [simp]: "\<not> pte_valid 0"
  by (simp add: pte_bits)

lemma forked_slots: "forked (Suc n) s t s' u \<Longrightarrow> valid_slots s' u = valid_slots s t"
proof (rule set_eqI)
  fix k assume f: "forked (Suc n) s t s' u"
  show "k \<in> valid_slots s' u \<longleftrightarrow> k \<in> valid_slots s t"
    using f forked_SucD(3) [OF f, of k] by (cases "pte_valid (ent s t k)") (auto simp: valid_slots_def)
qed

lemma forked_stable_right:
  assumes "forked n s t s' u" "same_content (tree_pages n s' u) s' s''"
  shows "forked n s t s'' u"
  using assms
proof (induction n arbitrary: t u)
  case (Suc n)
  have e: "ent s'' u k = ent s' u k" if "k < NUM_PTE_ENTRIES" for k
    using same_content_ent [OF Suc.prems(2), of u k] that by simp
  have "forked n s (child s t k) s'' (child s' u k)" if "k \<in> valid_slots s t" for k
    using Suc.IH [OF forked_SucD(2) [OF Suc.prems(1) that]] same_content_subset [OF Suc.prems(2)]
      forked_SucD(3) [OF Suc.prems(1) that] by auto
  with Suc.prems(1) e show ?case by (auto simp: valid_slots_def)
qed (simp add: same_content_def)

lemma forked_stable_left:
  assumes "same_content (tree_pages n s t) s s1"
  shows "forked n s1 t s' u = forked n s t s' u"
  using assms
proof (induction n arbitrary: t u)
  case (Suc n)
  have e: "ent s1 t k = ent s t k" if "k < NUM_PTE_ENTRIES" for k
    using same_content_ent [OF Suc.prems, of t k] that by simp
  have "forked n s1 (child s t k) s' (child s' u k) = forked n s (child s t k) s' (child s' u k)"
    if "k \<in> valid_slots s t" for k
    using Suc.IH [of "child s t k"] same_content_subset [OF Suc.prems] that by auto
  with e show ?case by (auto simp: valid_slots_def)
qed (simp add: same_content_def)

lemma forked_size: "forked n s t s' u \<Longrightarrow> tree_size n s' u = tree_size n s t"
proof (induction n arbitrary: t u)
  case (Suc n)
  have "tree_size n s' (child s' u k) = tree_size n s (child s t k)" if "k \<in> valid_slots s t" for k
    by (rule Suc.IH [OF forked_SucD(2) [OF Suc.prems that]])
  then show ?case by (simp add: forked_slots [OF Suc.prems])
qed simp

section \<open>One level\<close>

text \<open>The shape common to the loops: copy the child of a valid slot, then link the copy.\<close>

definition copy_slot ::
  "(u64 \<Rightarrow> vms_state \<Rightarrow> (u64 \<times> vms_state) vms_result) \<Rightarrow> u64 \<Rightarrow> u64 \<Rightarrow> nat \<Rightarrow>
     vms_state \<Rightarrow> vms_state vms_result" where
  "copy_slot run t u k s =
     (let original = vms_page_table_pte_entry_from_index t k;
          fork = vms_page_table_pte_entry_from_index u k in
      and_then (vms_pte_valid original s) (\<lambda>valid.
      if \<not> valid then Inr s
      else and_then (vms_pte_get_ppn original s) (\<lambda>ppn.
      and_then (run (vms_ppn_to_page ppn) s) (\<lambda>(q, s).
      and_then (read64 original s) (\<lambda>e.
      and_then (write64 fork e s) (\<lambda>s.
      and_then (vms_page_to_ppn q) (\<lambda>new_ppn.
      vms_pte_set_ppn fork new_ppn s)))))))"

definition copy_table ::
  "(u64 \<Rightarrow> u64 \<Rightarrow> nat \<Rightarrow> vms_state \<Rightarrow> vms_state vms_result) \<Rightarrow> u64 \<Rightarrow>
     vms_state \<Rightarrow> (u64 \<times> vms_state) vms_result" where
  "copy_table body t s =
     and_then (vms_new_page s) (\<lambda>(u, s).
     and_then (for_each (body t u) [0..<NUM_PTE_ENTRIES] s) (\<lambda>s. Inr (u, s)))"

definition copy_page :: "u64 \<Rightarrow> vms_state \<Rightarrow> (u64 \<times> vms_state) vms_result" where
  "copy_page p0 s =
     and_then (vms_new_page s) (\<lambda>(p0_forked, s).
     and_then (memcpy p0_forked p0 PAGE_SIZE s) (\<lambda>s. Inr (p0_forked, s)))"

lemma copy_l0_entry_slot: "copy_l0_entry DEFAULT = copy_slot copy_page"
  by (intro ext) (simp add: copy_l0_entry_def copy_slot_def copy_page_def and_then_assoc Let_def
      split_def cong: if_cong)

lemma copy_l1_entry_slot: "copy_l1_entry mode = copy_slot (copy_table (copy_l0_entry mode))"
  by (intro ext) (simp add: copy_l1_entry_def copy_slot_def copy_table_def and_then_assoc Let_def
      split_def cong: if_cong)

lemma copy_l2_entry_slot: "copy_l2_entry mode = copy_slot (copy_table (copy_l1_entry mode))"
  by (intro ext) (simp add: copy_l2_entry_def copy_slot_def copy_table_def and_then_assoc Let_def
      split_def cong: if_cong)

lemma copy_table_root: "copy mode s = copy_table (copy_l2_entry mode) (root_page_table s) s"
  by (simp add: copy_def copy_table_def vms_get_root_page_table_def split_def)

text \<open>
  \<open>deep_copy n run\<close>: on every well-formed tree of \<open>n\<close> levels, \<open>run\<close> returns a copy, or stops
  with \<open>exit(ENOMEM)\<close> because the pool has not enough free pages for the tree.
\<close>

definition deep_copy :: "nat \<Rightarrow> (u64 \<Rightarrow> vms_state \<Rightarrow> (u64 \<times> vms_state) vms_result) \<Rightarrow> bool" where
  "deep_copy n run \<longleftrightarrow> (\<forall>s p. vms_wf s \<longrightarrow> wf_table n s p \<longrightarrow>
     outcome (\<lambda>e. e = Exit 12 \<and> MAX_PAGES < card (live s) + tree_size n s p)
       (\<lambda>(q, s'). copied n s p s' q) (run p s))"

lemma new_page_outcome:
  assumes "vms_wf s"
  shows "outcome (\<lambda>e. e = Exit 12 \<and> card (live s) = MAX_PAGES)
    (\<lambda>(p, s'). vms_new_page s = Inr (p, s')) (vms_new_page s)"
proof (cases "live s = pool_pages s")
  case True
  then have "card (live s) = MAX_PAGES" by (simp add: card_pool_pages)
  with True vms_new_page_total(1) [OF assms] show ?thesis by simp
next
  case False
  with vms_new_page_total(2) [OF assms] show ?thesis by auto
qed

lemma content_memcpy:
  assumes "dst \<in> pool_pages s" "src \<in> pool_pages s"
  shows "\<exists>s'. memcpy dst src PAGE_SIZE s = Inr s' \<and> base_pointer s' = base_pointer s \<and>
    allocated s' = allocated s \<and> used_pages s' = used_pages s \<and>
    root_page_table s' = root_page_table s \<and> ref_track s' = ref_track s \<and>
    (\<forall>q \<in> pool_pages s. content s' q = (if q = dst then content s src else content s q))"
proof -
  let ?s' = "s\<lparr>mem := store_bytes (mem s) dst (load_bytes (mem s) src PAGE_SIZE)\<rparr>"
  have "memcpy dst src PAGE_SIZE s = Inr ?s'"
    using in_pool_page [OF assms(1), of 0 PAGE_SIZE] in_pool_page [OF assms(2), of 0 PAGE_SIZE]
    by (simp add: memcpy_def)
  moreover have "content ?s' dst = content s src"
    using load_store_bytes_same [of "load_bytes (mem s) src PAGE_SIZE" "mem s" dst]
    by (simp add: content_def)
  moreover have "content ?s' q = content s q" if "q \<in> pool_pages s" "q \<noteq> dst" for q
    using load_store_page [OF assms(1) that(1), of 0 "load_bytes (mem s) src PAGE_SIZE" 0 PAGE_SIZE
        "mem s"] that(2) by (simp add: content_def)
  ultimately show ?thesis by auto
qed

lemma vms_wf_cong:
  assumes "vms_wf s" "base_pointer s' = base_pointer s" "allocated s' = allocated s"
    "used_pages s' = used_pages s" "length (ref_track s') = length (ref_track s)"
    and "\<And>q. q \<in> pool_pages s \<Longrightarrow> q \<notin> live s \<Longrightarrow> content s' q = content s q"
  shows "vms_wf s'"
proof -
  have "pool_pages s' = pool_pages s" "live s' = live s"
    using pool_pages_cong [OF assms(2)] live_cong [OF assms(2,3)] by simp_all
  with assms show ?thesis by (auto simp: vms_wf_def)
qed

lemma deep_copy_page: "deep_copy 0 copy_page"
  unfolding deep_copy_def
proof (intro allI impI)
  fix s p assume wf: "vms_wf s" and p: "wf_table 0 s p"
  have "outcome (\<lambda>e. e = Exit 12 \<and> card (live s) = MAX_PAGES) (\<lambda>(q, s'). copied 0 s p s' q) (copy_page p s)"
    unfolding copy_page_def
  proof (rule outcome_and_then [OF new_page_outcome [OF wf]])
    fix r assume "case r of (q, s') \<Rightarrow> vms_new_page s = Inr (q, s')"
    then obtain q s1 where r: "r = (q, s1)" and new: "vms_new_page s = Inr (q, s1)" by (cases r) auto
    note n = vms_new_page_spec [OF wf new]
    have q: "q \<in> pool_pages s1" and p1: "p \<in> pool_pages s1" "p \<noteq> q"
      using n p live_in_pool [of p s] by auto
    from content_memcpy [OF q p1(1)] obtain s2 where s2: "memcpy q p PAGE_SIZE s1 = Inr s2"
      "base_pointer s2 = base_pointer s1" "allocated s2 = allocated s1" "used_pages s2 = used_pages s1"
      "root_page_table s2 = root_page_table s1" "ref_track s2 = ref_track s1"
      and c: "\<And>x. x \<in> pool_pages s1 \<Longrightarrow> content s2 x = (if x = q then content s1 p else content s1 x)"
      by blast
    have cs: "content s1 x = content s x" for x using n(5) by (simp add: content_def)
    have "vms_wf s2"
      by (rule vms_wf_cong [OF n(4) s2(2,3,4)]) (use s2(6) c n(3) in auto)
    moreover have "live s2 = insert q (live s)" using live_cong [OF s2(2,3)] n(3) by simp
    moreover have "same_content (live s) s s2"
      using c cs n live_pool [of s] by (auto simp: same_content_def)
    ultimately show "outcome (\<lambda>e. e = Exit 12 \<and> card (live s) = MAX_PAGES) (\<lambda>(q, s'). copied 0 s p s' q)
        (case r of (p0_forked, s) \<Rightarrow>
          and_then (memcpy p0_forked p PAGE_SIZE s) (\<lambda>s. Inr (p0_forked, s)))"
      using r s2 n c q cs by (simp add: copied_def)
  qed
  then show "outcome (\<lambda>e. e = Exit 12 \<and> MAX_PAGES < card (live s) + tree_size 0 s p)
      (\<lambda>(q, s'). copied 0 s p s' q) (copy_page p s)"
    by (rule outcome_mono) auto
qed

section \<open>The loop over a table\<close>

text \<open>
  The state of the loop over the slots of \<open>t\<close> that started in \<open>s0\<close> with the empty table \<open>u\<close>,
  when the slots below \<open>i\<close> are done.
\<close>

definition done_slots :: "nat \<Rightarrow> vms_state \<Rightarrow> u64 \<Rightarrow> nat set" where
  "done_slots i s0 t = {k \<in> valid_slots s0 t. k < i}"

definition copy_progress :: "nat \<Rightarrow> vms_state \<Rightarrow> u64 \<Rightarrow> u64 \<Rightarrow> nat \<Rightarrow> vms_state \<Rightarrow> bool" where
  "copy_progress n s0 t u i s \<longleftrightarrow>
     vms_wf s \<and> base_pointer s = base_pointer s0 \<and> root_page_table s = root_page_table s0 \<and>
     ref_track s = ref_track s0 \<and> same_content (live s0 - {u}) s0 s \<and>
     live s = live s0 \<union> (\<Union>k \<in> done_slots i s0 t. tree_pages n s (child s u k)) \<and>
     (\<forall>k \<in> done_slots i s0 t.
        same_flags (ent s u k) (ent s0 t k) \<and> forked n s0 (child s0 t k) s (child s u k) \<and>
        is_tree n s (child s u k) \<and> tree_pages n s (child s u k) \<inter> live s0 = {}) \<and>
     (\<forall>k < NUM_PTE_ENTRIES. k \<notin> done_slots i s0 t \<longrightarrow> ent s u k = 0) \<and>
     (\<forall>j \<in> done_slots i s0 t. \<forall>k \<in> done_slots i s0 t. j \<noteq> k \<longrightarrow>
        tree_pages n s (child s u j) \<inter> tree_pages n s (child s u k) = {})"

lemma finite_done_slots [simp]: "finite (done_slots i s0 t)"
  by (simp add: done_slots_def)

lemma done_slots_Suc:
  "done_slots (Suc i) s0 t =
     (if i \<in> valid_slots s0 t then insert i (done_slots i s0 t) else done_slots i s0 t)"
  by (auto simp: done_slots_def less_Suc_eq)

lemma done_slots_self [simp]: "i \<notin> done_slots i s0 t"
  by (simp add: done_slots_def)

lemma copy_progress_card:
  assumes "copy_progress n s0 t u i s"
  shows "card (live s) = card (live s0) + (\<Sum>k \<in> done_slots i s0 t. tree_size n s0 (child s0 t k))"
proof -
  let ?D = "done_slots i s0 t" and ?T = "\<lambda>k. tree_pages n s (child s u k)"
  have T: "finite (?T k) \<and> card (?T k) = tree_size n s0 (child s0 t k)" if "k \<in> ?D" for k
    using assms that card_tree_pages [of n s "child s u k"]
      forked_size [of n s0 "child s0 t k" s "child s u k"] by (auto simp: copy_progress_def)
  have "card (\<Union>k \<in> ?D. ?T k) = (\<Sum>k \<in> ?D. card (?T k))"
    using assms T by (intro card_UN_disjoint) (auto simp: copy_progress_def)
  moreover have "card (live s) = card (live s0) + card (\<Union>k \<in> ?D. ?T k)"
  proof -
    have "live s = live s0 \<union> (\<Union>k \<in> ?D. ?T k)" "live s0 \<inter> (\<Union>k \<in> ?D. ?T k) = {}"
      using assms by (auto simp: copy_progress_def)
    moreover have "finite (\<Union>k \<in> ?D. ?T k)" using T by simp
    ultimately show ?thesis by (simp add: card_Un_disjoint)
  qed
  ultimately show ?thesis using T by simp
qed

text \<open>The table into which a level is copied: empty, live and not part of what is copied.\<close>

definition copy_start :: "nat \<Rightarrow> vms_state \<Rightarrow> u64 \<Rightarrow> u64 \<Rightarrow> bool" where
  "copy_start n s0 t u \<longleftrightarrow> vms_wf s0 \<and> wf_table (Suc n) s0 t \<and> u \<in> live s0 \<and>
     u \<notin> tree_pages (Suc n) s0 t \<and> (\<forall>k < NUM_PTE_ENTRIES. ent s0 u k = 0)"

lemma copy_progress_start: "copy_start n s0 t u \<Longrightarrow> copy_progress n s0 t u 0 s0"
  by (simp add: copy_start_def copy_progress_def done_slots_def same_content_def)

lemma copy_progress_skip:
  assumes "copy_progress n s0 t u i s" "i \<notin> valid_slots s0 t"
  shows "copy_progress n s0 t u (Suc i) s"
  using assms by (simp add: copy_progress_def done_slots_Suc)

text \<open>Linking a finished copy \<open>q\<close> of the child into slot \<open>i\<close>.\<close>

text \<open>One step of the loop: the copy of the subtree \<open>i\<close> is done, and the entry \<open>i\<close> is linked.\<close>

lemma copy_link_frame:
  assumes start: "copy_start n s0 t u" and prog: "copy_progress n s0 t u i s"
    and i: "i \<in> valid_slots s0 t" and cp: "copied n s (child s0 t i) s1 q"
  shows "x \<in> pool_pages s1 \<Longrightarrow> x \<noteq> u \<Longrightarrow> content (write_ent u i e s1) x = content s1 x"
    and "same_content (live s - {u}) s (write_ent u i e s1)"
    and "same_content (tree_pages n s1 q) s1 (write_ent u i e s1)"
    and "k < NUM_PTE_ENTRIES \<Longrightarrow> ent (write_ent u i e s1) u k = (if k = i then e else ent s u k)"
proof -
  let ?s2 = "write_ent u i e s1"
  note P = prog [unfolded copy_progress_def] and C = cp [unfolded copied_def]
    and S = start [unfolded copy_start_def]
  have i512: "i < NUM_PTE_ENTRIES" using i by (simp add: valid_slots_def)
  have pool: "pool_pages s1 = pool_pages s0" "pool_pages s = pool_pages s0"
    using P C by (auto intro!: pool_pages_cong)
  have ulive: "u \<in> live s" using S P by blast
  have u1: "u \<in> pool_pages s1" using S pool live_in_pool [of u s0] by auto
  have pages: "live s \<subseteq> pool_pages s1" "live s1 \<subseteq> pool_pages s1"
    using live_pool [of s] live_pool [of s1] pool by auto
  show off: "content ?s2 x = content s1 x" if "x \<in> pool_pages s1" "x \<noteq> u" for x
    using that u1 i512 by (intro content_write_ent) auto
  show "same_content (live s - {u}) s ?s2"
    unfolding same_content_def
  proof
    fix x assume "x \<in> live s - {u}"
    then have "content ?s2 x = content s1 x" "content s1 x = content s x"
      using off pages C by (auto simp: same_content_def)
    then show "content ?s2 x = content s x" by simp
  qed
  have "u \<notin> tree_pages n s1 q" "tree_pages n s1 q \<subseteq> pool_pages s1" using C ulive pages by blast+
  then show "same_content (tree_pages n s1 q) s1 ?s2" unfolding same_content_def using off by blast
  show "ent ?s2 u k = (if k = i then e else ent s u k)" if "k < NUM_PTE_ENTRIES" for k
  proof -
    have "ent s1 u k = ent s u k" using C ulive that by (intro same_content_ent) auto
    then show ?thesis using u1 i512 that by simp
  qed
qed

lemma copy_link_done:
  assumes start: "copy_start n s0 t u" and prog: "copy_progress n s0 t u i s"
    and i: "i \<in> valid_slots s0 t" and cp: "copied n s (child s0 t i) s1 q"
    and k: "k \<in> done_slots i s0 t"
  shows "ent (write_ent u i e s1) u k = ent s u k"
    "tree_pages n (write_ent u i e s1) (child s u k) = tree_pages n s (child s u k)"
    "is_tree n (write_ent u i e s1) (child s u k) = is_tree n s (child s u k)"
    "forked n s0 (child s0 t k) (write_ent u i e s1) (child s u k)"
    "tree_pages n s (child s u k) \<subseteq> live s - {u}"
proof -
  note P = prog [unfolded copy_progress_def] and S = start [unfolded copy_start_def]
    and F = copy_link_frame [OF start prog i cp, where e = e]
  have "k < NUM_PTE_ENTRIES" "k \<noteq> i" using k by (auto simp: done_slots_def valid_slots_def)
  then show "ent (write_ent u i e s1) u k = ent s u k" using F(4) [of k] by simp
  show sub: "tree_pages n s (child s u k) \<subseteq> live s - {u}" using P S k by blast
  have st: "same_content (tree_pages n s (child s u k)) s (write_ent u i e s1)"
    by (rule same_content_subset [OF F(2) sub])
  then show "tree_pages n (write_ent u i e s1) (child s u k) = tree_pages n s (child s u k)"
    "is_tree n (write_ent u i e s1) (child s u k) = is_tree n s (child s u k)"
    using tree_stable by blast+
  show "forked n s0 (child s0 t k) (write_ent u i e s1) (child s u k)"
    using P k forked_stable_right [OF _ st] by blast
qed

lemma copy_link_new:
  assumes start: "copy_start n s0 t u" and prog: "copy_progress n s0 t u i s"
    and i: "i \<in> valid_slots s0 t" and cp: "copied n s (child s0 t i) s1 q"
  shows "tree_pages n (write_ent u i e s1) q = tree_pages n s1 q" "is_tree n (write_ent u i e s1) q"
    "forked n s0 (child s0 t i) (write_ent u i e s1) q" "tree_pages n s1 q \<inter> live s = {}"
proof -
  note P = prog [unfolded copy_progress_def] and C = cp [unfolded copied_def]
    and S = start [unfolded copy_start_def] and F = copy_link_frame [OF start prog i cp, where e = e]
  show "tree_pages n (write_ent u i e s1) q = tree_pages n s1 q" "is_tree n (write_ent u i e s1) q"
    "tree_pages n s1 q \<inter> live s = {}"
    using tree_stable [OF F(3)] C by auto
  have "tree_pages n s0 (child s0 t i) \<subseteq> live s0"
    using S i by (intro tree_pages_live wf_table_child) auto
  then have "tree_pages n s0 (child s0 t i) \<subseteq> live s0 - {u}" using S tree_pages_child [OF i] by blast
  then have "same_content (tree_pages n s0 (child s0 t i)) s0 s" using P by (blast intro: same_content_subset)
  then have "forked n s0 (child s0 t i) s1 q" using C by (simp add: forked_stable_left)
  then show "forked n s0 (child s0 t i) (write_ent u i e s1) q" by (rule forked_stable_right [OF _ F(3)])
qed

lemma copy_progress_link:
  assumes start: "copy_start n s0 t u" and prog: "copy_progress n s0 t u i s"
    and i: "i \<in> valid_slots s0 t" and cp: "copied n s (child s0 t i) s1 q"
    and e: "pte_page e = q" "same_flags e (ent s0 t i)"
  shows "copy_progress n s0 t u (Suc i) (write_ent u i e s1)"
proof -
  let ?s2 = "write_ent u i e s1" and ?D = "done_slots i s0 t"
  note P = prog [unfolded copy_progress_def] and C = cp [unfolded copied_def]
    and F = copy_link_frame [OF start prog i cp, where e = e] and O = copy_link_done [OF start prog i cp]
    and N = copy_link_new [OF start prog i cp]
  have i512: "i < NUM_PTE_ENTRIES" using i by (simp add: valid_slots_def)
  have u: "u \<in> live s" using start prog unfolding copy_start_def copy_progress_def by blast
  have chi: "ent ?s2 u i = e" "child ?s2 u i = q" using F(4) [OF i512] e(1) by simp_all
  have lv: "live ?s2 = live s0 \<union> (\<Union>k \<in> done_slots (Suc i) s0 t. tree_pages n ?s2 (child ?s2 u k))"
  proof -
    have "live ?s2 = live s \<union> tree_pages n s1 q" using C by simp
    also have "live s = live s0 \<union> (\<Union>k \<in> ?D. tree_pages n s (child s u k))" using P by blast
    also have "(\<Union>k \<in> ?D. tree_pages n s (child s u k)) = (\<Union>k \<in> ?D. tree_pages n ?s2 (child ?s2 u k))"
      using O(1,2) by simp
    finally show ?thesis using i chi N(1) by (auto simp: done_slots_Suc)
  qed
  have wf: "vms_wf ?s2"
  proof (rule vms_wf_cong [of s1])
    fix x assume "x \<in> pool_pages s1" "x \<notin> live s1"
    then show "content ?s2 x = content s1 x" using F(1) C u by auto
  qed (use C in simp_all)
  have "same_content (live s0 - {u}) s0 ?s2"
    using P F(2) by (auto simp: same_content_def)
  moreover have "tree_pages n s1 q \<inter> live s0 = {}" using N(4) P by blast
  moreover have "tree_pages n s1 q \<inter> tree_pages n s (child s u k) = {}" if "k \<in> ?D" for k
    using N(4) O(5) [OF that] by blast
  ultimately show ?thesis
    unfolding copy_progress_def using wf lv P C i chi O N F(4) e
    by (auto simp: done_slots_Suc)
qed

lemma copy_progress_original:
  assumes "copy_start n s0 t u" "copy_progress n s0 t u i s"
  shows "t \<in> pool_pages s" "k < NUM_PTE_ENTRIES \<Longrightarrow> ent s t k = ent s0 t k"
    "k \<in> valid_slots s0 t \<Longrightarrow> wf_table n s (child s0 t k)"
proof -
  note S = assms(1) [unfolded copy_start_def] and P = assms(2) [unfolded copy_progress_def]
  have t: "t \<in> live s0" "t \<noteq> u" using S tree_pages_root [of t "Suc n" s0] wf_table_live by auto
  then have "t \<in> live s" using P by blast
  then show "t \<in> pool_pages s" by (rule live_in_pool)
  show "k < NUM_PTE_ENTRIES \<Longrightarrow> ent s t k = ent s0 t k"
    using P t by (intro same_content_ent [of "live s0 - {u}"]) auto
  assume k: "k \<in> valid_slots s0 t"
  have "wf_table n s0 (child s0 t k)" using S k by (intro wf_table_child) auto
  moreover have "tree_pages n s0 (child s0 t k) \<subseteq> live s0 - {u}"
    using tree_pages_live [OF calculation] tree_pages_child [OF k] S by blast
  moreover have "live s0 \<subseteq> live s" using P by blast
  ultimately show "wf_table n s (child s0 t k)"
    using P by (blast intro: wf_table_stable same_content_subset)
qed

text \<open>
  Shared with the copy-on-write fork: what the loop body does to an entry, split into the recursive
  call and the entry it then writes, and the room the remaining entries need.
\<close>

lemma copy_slot_invalid:
  "t \<in> pool_pages s \<Longrightarrow> k < NUM_PTE_ENTRIES \<Longrightarrow> \<not> pte_valid (ent s t k) \<Longrightarrow> copy_slot run t u k s = Inr s"
  by (simp add: copy_slot_def Let_def vms_pte_defs)

lemma copy_slot_valid:
  assumes "t \<in> pool_pages s" "k < NUM_PTE_ENTRIES" "pte_valid (ent s t k)"
    and "\<And>q s1. run (child s t k) s = Inr (q, s1) \<Longrightarrow> t \<in> pool_pages s1 \<and> u \<in> pool_pages s1 \<and>
      ent s1 t k = ent s t k \<and> q \<in> pool_pages s1 \<and> vms_wf s1"
  shows "copy_slot run t u k s = and_then (run (child s t k) s)
    (\<lambda>(q, s1). Inr (write_ent u k (pte_set_ppn (drop_bit 12 q) (ent s t k)) s1))"
proof (cases "run (child s t k) s")
  case (Inl e)
  then show ?thesis using assms(1-3) by (simp add: copy_slot_def Let_def vms_pte_defs pte_page_def)
next
  case (Inr r)
  obtain q s1 where r: "r = (q, s1)" by (cases r)
  with Inr assms(4) have tu: "t \<in> pool_pages s1" "u \<in> pool_pages s1" "ent s1 t k = ent s t k"
    "q \<in> pool_pages s1" "vms_wf s1" by blast+
  have "vms_page_to_ppn q = Inr (drop_bit 12 q)" by (rule page_ppn_roundtrip(1) [OF tu(5,4)])
  then show ?thesis
    using assms(1-3) Inr r tu by (simp add: copy_slot_def Let_def vms_pte_defs pte_page_def)
qed

lemma slots_room:
  fixes size :: "nat \<Rightarrow> nat"
  assumes "i \<in> valid_slots s t"
  shows "(\<Sum>k \<in> done_slots i s t. size k) + size i \<le> (\<Sum>k \<in> valid_slots s t. size k)"
proof -
  have "(\<Sum>k \<in> insert i (done_slots i s t). size k) \<le> (\<Sum>k \<in> valid_slots s t. size k)"
    using assms by (intro sum_mono2) (auto simp: done_slots_def)
  then show ?thesis by simp
qed

lemma copied_slot:
  assumes start: "copy_start n s0 t u" and prog: "copy_progress n s0 t u i s"
    and i: "i \<in> valid_slots s0 t" and cp: "copied n s (child s0 t i) s1 q"
  shows "t \<in> pool_pages s1 \<and> u \<in> pool_pages s1 \<and> ent s1 t i = ent s0 t i \<and> q \<in> pool_pages s1 \<and> vms_wf s1"
    "copy_progress n s0 t u (Suc i) (write_ent u i (pte_set_ppn (drop_bit 12 q) (ent s0 t i)) s1)"
proof -
  note P = prog [unfolded copy_progress_def] and S = start [unfolded copy_start_def]
    and C = cp [unfolded copied_def]
  have k: "i < NUM_PTE_ENTRIES" using i by (simp add: valid_slots_def)
  have pool: "pool_pages s1 = pool_pages s" using C by (intro pool_pages_cong) simp
  have "t \<in> live s" "u \<in> live s" using S P tree_pages_root [of t "Suc n" s0] wf_table_live by blast+
  moreover have "ent s t i = ent s0 t i" by (rule copy_progress_original(2) [OF start prog k])
  moreover have "q \<in> live s1" using C tree_pages_root by blast
  ultimately show all: "t \<in> pool_pages s1 \<and> u \<in> pool_pages s1 \<and> ent s1 t i = ent s0 t i \<and>
      q \<in> pool_pages s1 \<and> vms_wf s1"
    using pool live_in_pool [of t s] live_in_pool [of u s] live_in_pool [of q s1] C k
      same_content_ent [of "live s" s s1 t i] by auto
  note ppn = page_ppn_roundtrip [of s1 q]
  show "copy_progress n s0 t u (Suc i) (write_ent u i (pte_set_ppn (drop_bit 12 q) (ent s0 t i)) s1)"
    using all ppn by (intro copy_progress_link [OF start prog i cp]) (simp_all add: pte_page_def same_flags_set_ppn)
qed

lemma copy_slot_step:
  assumes run: "deep_copy n run" and start: "copy_start n s0 t u"
    and prog: "copy_progress n s0 t u i s" and i: "i < NUM_PTE_ENTRIES"
  shows "outcome (\<lambda>e. e = Exit 12 \<and>
      MAX_PAGES < card (live s0) + (\<Sum>k \<in> valid_slots s0 t. tree_size n s0 (child s0 t k)))
    (copy_progress n s0 t u (Suc i)) (copy_slot run t u i s)"
proof (cases "i \<in> valid_slots s0 t")
  case False
  with i copy_progress_original [OF start prog] copy_progress_skip [OF prog] show ?thesis
    by (simp add: copy_slot_invalid valid_slots_def)
next
  case True
  let ?p = "child s0 t i"
  note orig = copy_progress_original [OF start prog]
  note P = prog [unfolded copy_progress_def] and S = start [unfolded copy_start_def]
  have e: "ent s t i = ent s0 t i" "pte_valid (ent s t i)" using orig(2) [OF i] True by (simp_all add: valid_slots_def)
  have size: "tree_size n s ?p = tree_size n s0 ?p"
  proof (rule tree_stable(3))
    have "wf_table n s0 ?p" using S True by (intro wf_table_child) auto
    then have "tree_pages n s0 ?p \<subseteq> live s0 - {u}"
      using tree_pages_live tree_pages_child [OF True] S by blast
    with P show "same_content (tree_pages n s0 ?p) s0 s" by (blast intro: same_content_subset)
  qed
  have out: "outcome (\<lambda>e. e = Exit 12 \<and> MAX_PAGES < card (live s) + tree_size n s ?p)
      (\<lambda>(q, s'). copied n s ?p s' q) (run ?p s)"
    using run P orig(3) [OF True] unfolding deep_copy_def by blast
  have "copied n s ?p s1 q" if "run ?p s = Inr (q, s1)" for q s1 using out that by simp
  then have "copy_slot run t u i s = and_then (run ?p s)
      (\<lambda>(q, s1). Inr (write_ent u i (pte_set_ppn (drop_bit 12 q) (ent s0 t i)) s1))"
    unfolding e(1) [symmetric]
    by (intro copy_slot_valid [OF orig(1) i e(2)]) (unfold e(1), rule copied_slot(1) [OF start prog True])
  moreover have "card (live s) + tree_size n s ?p \<le>
      card (live s0) + (\<Sum>k \<in> valid_slots s0 t. tree_size n s0 (child s0 t k))"
    using slots_room [OF True, of "\<lambda>k. tree_size n s0 (child s0 t k)"]
    unfolding copy_progress_card [OF prog] size by linarith
  ultimately show ?thesis
    using out copied_slot(2) [OF start prog True]
    by (elim ssubst, cases "run ?p s") (simp_all split: prod.splits)
qed

lemma copied_if_done:
  assumes new: "vms_wf s" "vms_new_page s = Inr (u, s0)" and wf: "wf_table (Suc n) s t"
    and prog: "copy_progress n s0 t u NUM_PTE_ENTRIES s'"
  shows "copied (Suc n) s t s' u"
proof -
  note N = vms_new_page_spec [OF new] and P = prog [unfolded copy_progress_def]
  have same: "same_content UNIV s s0" using N(5) by (simp add: same_content_def content_def)
  have ent0: "ent s0 x k = ent s x k" for x k using N(5) by (simp add: ent_def)
  have slots: "valid_slots s0 t = valid_slots s t" by (simp add: valid_slots_def ent0)
  have D: "done_slots NUM_PTE_ENTRIES s0 t = valid_slots s t"
    by (auto simp: done_slots_def valid_slots_def ent0)
  have fl: "forked (Suc n) s t s' u"
  proof -
    have "forked n s (child s t k) s' (child s' u k)" if "k \<in> valid_slots s t" for k
    proof -
      have "forked n s0 (child s0 t k) s' (child s' u k)" using P that D by blast
      then show ?thesis
        using forked_stable_left [OF same_content_subset [OF same subset_UNIV]] by (simp add: ent0)
    qed
    with P D show ?thesis by (auto simp: valid_slots_def ent0)
  qed
  have su: "valid_slots s' u = valid_slots s t" by (rule forked_slots [OF fl])
  have "live s' = live s \<union> tree_pages (Suc n) s' u" using P N(3) by (auto simp: su D)
  moreover have "tree_pages (Suc n) s' u \<inter> live s = {}" using P N(2,3) by (auto simp: su D)
  moreover have "is_tree (Suc n) s' u" using P N(3) by (auto simp: su D)
  moreover have "same_content (live s) s s'"
    using P N(2,3) same by (auto simp: same_content_def)
  ultimately show ?thesis using P N fl by (simp add: copied_def)
qed

lemma deep_copy_table:
  assumes "deep_copy n run"
  shows "deep_copy (Suc n) (copy_table (copy_slot run))"
  unfolding deep_copy_def
proof (intro allI impI)
  fix s t assume wf: "vms_wf s" and t: "wf_table (Suc n) s t"
  let ?E = "\<lambda>e. e = Exit 12 \<and> MAX_PAGES < card (live s) + tree_size (Suc n) s t"
  have "outcome ?E (\<lambda>(u, s0). vms_new_page s = Inr (u, s0)) (vms_new_page s)"
    by (rule outcome_mono [OF new_page_outcome [OF wf]]) auto
  then show "outcome ?E (\<lambda>(q, s'). copied (Suc n) s t s' q) (copy_table (copy_slot run) t s)"
    unfolding copy_table_def
  proof (rule outcome_and_then)
    fix r assume "case r of (u, s0) \<Rightarrow> vms_new_page s = Inr (u, s0)"
    then obtain u s0 where r: "r = (u, s0)" and new: "vms_new_page s = Inr (u, s0)" by (cases r) auto
    note N = vms_new_page_spec [OF wf new]
    have same: "same_content (tree_pages (Suc n) s t) s s0"
      using N(5) by (simp add: same_content_def content_def)
    have start: "copy_start n s0 t u"
      using N tree_pages_live [OF t] tree_stable(1) [OF same] wf_table_stable [OF t same]
        ent_zero_page [of s0 u] by (auto simp: copy_start_def)
    have "outcome (\<lambda>e. e = Exit 12 \<and>
        MAX_PAGES < card (live s0) + (\<Sum>k \<in> valid_slots s0 t. tree_size n s0 (child s0 t k)))
      (copy_progress n s0 t u NUM_PTE_ENTRIES)
      (for_each (copy_slot run t u) [0..<NUM_PTE_ENTRIES] s0)"
      by (rule for_each_upt_outcome [where I = "copy_progress n s0 t u"])
         (rule copy_progress_start [OF start], rule copy_slot_step [OF assms start])
    moreover have "card (live s0) + (\<Sum>k \<in> valid_slots s0 t. tree_size n s0 (child s0 t k)) =
        card (live s) + tree_size (Suc n) s t"
      using N(2,3) tree_stable(3) [OF same] by simp
    ultimately have "outcome ?E (copy_progress n s0 t u NUM_PTE_ENTRIES)
        (for_each (copy_slot run t u) [0..<NUM_PTE_ENTRIES] s0)"
      by (simp only:)
    then show "outcome ?E (\<lambda>(q, s'). copied (Suc n) s t s' q)
        (case r of (u, s) \<Rightarrow>
          and_then (for_each (copy_slot run t u) [0..<NUM_PTE_ENTRIES] s) (\<lambda>s. Inr (u, s)))"
      unfolding r prod.case
      by (rule outcome_and_then) (simp add: copied_if_done [OF wf new t])
  qed
qed

lemma deep_copy_fork: "deep_copy 3 (copy_table (copy_l2_entry DEFAULT))"
proof -
  have "deep_copy (Suc (Suc (Suc 0))) (copy_table (copy_l2_entry DEFAULT))"
    unfolding copy_l2_entry_slot copy_l1_entry_slot copy_l0_entry_slot
    by (intro deep_copy_table deep_copy_page)
  then show ?thesis by (simp only: numeral_3_eq_3)
qed

lemma vms_fork_copy_outcome:
  assumes "vms_wf s" "wf_table 3 s (root_page_table s)"
  shows "outcome (\<lambda>e. e = Exit 12 \<and> MAX_PAGES < card (live s) + tree_size 3 s (root_page_table s))
    (\<lambda>(q, s'). copied 3 s (root_page_table s) s' q) (vms_fork_copy s)"
  using deep_copy_fork assms unfolding deep_copy_def vms_fork_copy_def copy_table_root by blast

end
