(* ===== verification/VmsMain.thy ===== *)
theory VmsMain
  imports Fork
begin

text \<open>
  The demonstration program \<open>vms/src/main.c\<close>: it builds a one-page address space by hand and
  writes and reads through it.  The lemmas are about the space it builds, for any virtual address:
  a three-level tree that maps exactly that page.
\<close>

section \<open>The program\<close>

definition link_table :: "u64 \<Rightarrow> u64 \<Rightarrow> nat \<Rightarrow> u64 \<Rightarrow> vms_state \<Rightarrow> vms_state vms_result" where
  "link_table table va level target s =
     (let entry = vms_page_table_pte_entry table va level in
      and_then (vms_page_to_ppn target) (\<lambda>ppn.
      and_then (vms_pte_set_ppn entry ppn s) (\<lambda>s.
      vms_pte_valid_set entry s)))"

definition build_space :: "u64 \<Rightarrow> vms_state \<Rightarrow> vms_state vms_result" where
  "build_space virtual_address s =
     and_then (vms_new_page s) (\<lambda>(l2, s).
     and_then (vms_new_page s) (\<lambda>(l1, s).
     and_then (vms_new_page s) (\<lambda>(l0, s).
     and_then (vms_new_page s) (\<lambda>(p0, s).
     and_then (link_table l2 virtual_address 2 l1 s) (\<lambda>s.
     and_then (link_table l1 virtual_address 1 l0 s) (\<lambda>s.
     and_then (link_table l0 virtual_address 0 p0 s) (\<lambda>s.
     let l0_entry = vms_page_table_pte_entry l0 virtual_address 0 in
     and_then (vms_pte_read_set l0_entry s) (\<lambda>s.
     and_then (vms_pte_write_set l0_entry s) (\<lambda>s.
     vms_set_root_page_table l2 s)))))))))"

text \<open>The two lines printed are the values read, \<open>sc_page_size\<close>, \<open>mmap_result\<close> and \<open>errno\<close> what
  the system calls of \<open>vms_init\<close> return.\<close>

definition vms_main :: "int \<Rightarrow> u64 \<Rightarrow> int \<Rightarrow> (u64 \<times> u32) list vms_result" where
  "vms_main sc_page_size mmap_result errno =
     and_then (vms_init sc_page_size mmap_result errno vms_start) (\<lambda>s.
     let virtual_address = 0xABC123 in
     and_then (build_space virtual_address s) (\<lambda>s.
     and_then (vms_write virtual_address 1 s) (\<lambda>s.
     and_then (vms_read virtual_address s) (\<lambda>(v1, s).
     and_then (vms_write virtual_address 2 s) (\<lambda>s.
     and_then (vms_read virtual_address s) (\<lambda>(v2, s).
     Inr [(virtual_address, v1), (virtual_address, v2)]))))))"

section \<open>The space it builds\<close>

lemma pte_get_ppn_flags [simp]:
  "pte_get_ppn (pte_valid_set e) = pte_get_ppn e" "pte_get_ppn (pte_read_set e) = pte_get_ppn e"
  "pte_get_ppn (pte_write_set e) = pte_get_ppn e" "pte_get_ppn (pte_custom_set e) = pte_get_ppn e"
  "pte_get_ppn (pte_write_clear e) = pte_get_ppn e" "pte_get_ppn (pte_custom_clear e) = pte_get_ppn e"
  by (rule bit_word_eqI, auto simp: pte_bits)+

definition table_entry :: "u64 \<Rightarrow> u64" where
  "table_entry p = pte_valid_set (pte_set_ppn (drop_bit 12 p) 0)"

definition data_entry :: "u64 \<Rightarrow> u64" where
  "data_entry p = pte_write_set (pte_read_set (table_entry p))"

lemma entry_flags:
  "pte_valid (table_entry p)" "inner_ok (table_entry p)" "\<not> pte_custom (table_entry p)"
  "pte_valid (data_entry p)" "leaf_ok (data_entry p)" "pte_read (data_entry p)"
  "pte_write (data_entry p)" "\<not> pte_custom (data_entry p)"
  by (simp_all add: table_entry_def data_entry_def inner_ok_def leaf_ok_def pte_bits)

lemma entry_page:
  assumes "vms_wf s" "p \<in> pool_pages s"
  shows "pte_page (table_entry p) = p" "pte_page (data_entry p) = p"
  using page_ppn_roundtrip(2) [OF assms, of 0]
  by (simp_all add: table_entry_def data_entry_def pte_page_def)

text \<open>\<open>maps_one s va l2 l1 l0 p0\<close>: the tables hold one chain of entries and nothing else.\<close>

definition maps_one :: "vms_state \<Rightarrow> u64 \<Rightarrow> u64 \<Rightarrow> u64 \<Rightarrow> u64 \<Rightarrow> u64 \<Rightarrow> bool" where
  "maps_one s va l2 l1 l0 p0 \<longleftrightarrow>
     vms_wf s \<and> {l2, l1, l0, p0} \<subseteq> live s \<and> distinct [l2, l1, l0, p0] \<and>
     (\<forall>k < NUM_PTE_ENTRIES. ent s l2 k = (if k = va_index va 2 then table_entry l1 else 0)) \<and>
     (\<forall>k < NUM_PTE_ENTRIES. ent s l1 k = (if k = va_index va 1 then table_entry l0 else 0)) \<and>
     (\<forall>k < NUM_PTE_ENTRIES. ent s l0 k = (if k = va_index va 0 then data_entry p0 else 0))"

lemma single_slot:
  assumes "\<forall>k < NUM_PTE_ENTRIES. ent s t k = (if k = i then e else 0)" "pte_valid e" "i < NUM_PTE_ENTRIES"
  shows "valid_slots s t = {i}" "ent s t i = e"
  using assms by (auto simp: valid_slots_def split: if_splits)

lemma maps_one_slots:
  assumes "maps_one s va l2 l1 l0 p0"
  shows "valid_slots s l2 = {va_index va 2}" "valid_slots s l1 = {va_index va 1}"
    "valid_slots s l0 = {va_index va 0}"
    "child s l2 (va_index va 2) = l1" "child s l1 (va_index va 1) = l0" "child s l0 (va_index va 0) = p0"
proof -
  note m = assms [unfolded maps_one_def]
  have 2: "valid_slots s l2 = {va_index va 2}" "ent s l2 (va_index va 2) = table_entry l1"
    by (rule single_slot [of s l2 "va_index va 2" "table_entry l1"]; use m entry_flags in simp)+
  have 1: "valid_slots s l1 = {va_index va 1}" "ent s l1 (va_index va 1) = table_entry l0"
    by (rule single_slot [of s l1 "va_index va 1" "table_entry l0"]; use m entry_flags in simp)+
  have 0: "valid_slots s l0 = {va_index va 0}" "ent s l0 (va_index va 0) = data_entry p0"
    by (rule single_slot [of s l0 "va_index va 0" "data_entry p0"]; use m entry_flags in simp)+
  show "valid_slots s l2 = {va_index va 2}" "valid_slots s l1 = {va_index va 1}"
    "valid_slots s l0 = {va_index va 0}" by (fact 2 1 0)+
  have "l1 \<in> pool_pages s" "l0 \<in> pool_pages s" "p0 \<in> pool_pages s" using m live_in_pool by auto
  then show "child s l2 (va_index va 2) = l1" "child s l1 (va_index va 1) = l0"
    "child s l0 (va_index va 0) = p0"
    using m 2 1 0 entry_page by auto
qed

lemma maps_one_space:
  assumes "maps_one s va l2 l1 l0 p0"
  shows "wf_table 3 s l2" "is_tree 3 s l2" "walk s l2 va = Some l0" "leaf_entry s l0 va = data_entry p0"
    "tree_size 3 s l2 = 4" "tree_pages 3 s l2 = {l2, l1, l0, p0}"
proof -
  note m = assms [unfolded maps_one_def] and sl = maps_one_slots [OF assms]
  show "wf_table 3 s l2" unfolding numeral_3_eq_3 wf_table_Suc using m sl by simp
  show "is_tree 3 s l2" "tree_size 3 s l2 = 4" "tree_pages 3 s l2 = {l2, l1, l0, p0}"
    unfolding numeral_3_eq_3 using m sl by auto
  show "walk s l2 va = Some l0" "leaf_entry s l0 va = data_entry p0"
    using m sl by (simp_all add: walk_def leaf_entry_def entry_flags)
qed

lemma link_table_ok:
  assumes "vms_wf s" "table \<in> pool_pages s" "target \<in> pool_pages s" "level \<le> 2"
    and "ent s table (va_index va level) = 0"
  shows "link_table table va level target s =
    Inr (write_ent table (va_index va level) (table_entry target) s)"
  using assms page_ppn_roundtrip(1) [OF assms(1,3)]
  by (simp add: link_table_def Let_def pte_entry_index vms_pte_defs table_entry_def)

lemma new_page_exists:
  assumes "vms_wf s" "card (live s) < MAX_PAGES"
  obtains p s' where "vms_new_page s = Inr (p, s')"
  using vms_new_page_total(2) [OF assms(1)] assms(2) card_pool_pages [of s] by fastforce

lemma vms_wf_write_ent:
  "vms_wf s \<Longrightarrow> p \<in> live s \<Longrightarrow> k < NUM_PTE_ENTRIES \<Longrightarrow> vms_wf (write_ent p k v s)"
  using live_in_pool [of p s] by (auto intro!: vms_wf_cong [of s] content_write_ent)

text \<open>The four allocations hand out distinct empty pages.\<close>

lemma new_page_step:
  assumes "vms_wf s" "card (live s) + Suc n \<le> MAX_PAGES"
  obtains p s' where "vms_new_page s = Inr (p, s')" "vms_wf s'" "card (live s') + n \<le> MAX_PAGES"
    "p \<notin> live s" "live s' = insert p (live s)" "\<And>k. k < NUM_PTE_ENTRIES \<Longrightarrow> ent s' p k = 0"
    "mem s' = mem s \<and> ref_track s' = ref_track s"
proof -
  obtain p s' where new: "vms_new_page s = Inr (p, s')"
    using new_page_exists [of s] assms by auto
  note N = vms_new_page_spec [OF assms(1) new]
  have "card (live s') = Suc (card (live s))" using N(2,3) by simp
  then show thesis using that [OF new] N assms(2) ent_zero_page [OF N(10)] by auto
qed

lemma new_pages_four:
  assumes "vms_wf s" "card (live s) + 4 \<le> MAX_PAGES"
  obtains l2 s1 l1 s2 l0 s3 p0 s4 where "vms_new_page s = Inr (l2, s1)" "vms_new_page s1 = Inr (l1, s2)"
    "vms_new_page s2 = Inr (l0, s3)" "vms_new_page s3 = Inr (p0, s4)" "vms_wf s4"
    "live s4 = {l2, l1, l0, p0} \<union> live s" "{l2, l1, l0, p0} \<inter> live s = {}" "distinct [l2, l1, l0, p0]"
    "\<And>k. k < NUM_PTE_ENTRIES \<Longrightarrow> ent s4 l2 k = 0 \<and> ent s4 l1 k = 0 \<and> ent s4 l0 k = 0"
    "ref_track s4 = ref_track s"
proof -
  have "card (live s) + Suc 3 \<le> MAX_PAGES" using assms(2) by simp
  then obtain l2 s1 where a1: "vms_new_page s = Inr (l2, s1)"
    "vms_wf s1" "card (live s1) + 3 \<le> MAX_PAGES" "l2 \<notin> live s" "live s1 = insert l2 (live s)"
    "\<And>k. k < NUM_PTE_ENTRIES \<Longrightarrow> ent s1 l2 k = 0" "mem s1 = mem s \<and> ref_track s1 = ref_track s"
    by (rule new_page_step [OF assms(1)]) (rule that)
  have "card (live s1) + Suc 2 \<le> MAX_PAGES" using a1(3) by simp
  then obtain l1 s2 where a2: "vms_new_page s1 = Inr (l1, s2)"
    "vms_wf s2" "card (live s2) + 2 \<le> MAX_PAGES" "l1 \<notin> live s1" "live s2 = insert l1 (live s1)"
    "\<And>k. k < NUM_PTE_ENTRIES \<Longrightarrow> ent s2 l1 k = 0" "mem s2 = mem s1 \<and> ref_track s2 = ref_track s1"
    by (rule new_page_step [OF a1(2)]) (rule that)
  have "card (live s2) + Suc 1 \<le> MAX_PAGES" using a2(3) by simp
  then obtain l0 s3 where a3: "vms_new_page s2 = Inr (l0, s3)"
    "vms_wf s3" "card (live s3) + 1 \<le> MAX_PAGES" "l0 \<notin> live s2" "live s3 = insert l0 (live s2)"
    "\<And>k. k < NUM_PTE_ENTRIES \<Longrightarrow> ent s3 l0 k = 0" "mem s3 = mem s2 \<and> ref_track s3 = ref_track s2"
    by (rule new_page_step [OF a2(2)]) (rule that)
  have "card (live s3) + Suc 0 \<le> MAX_PAGES" using a3(3) by simp
  then obtain p0 s4 where a4: "vms_new_page s3 = Inr (p0, s4)"
    "vms_wf s4" "card (live s4) + 0 \<le> MAX_PAGES" "p0 \<notin> live s3" "live s4 = insert p0 (live s3)"
    "\<And>k. k < NUM_PTE_ENTRIES \<Longrightarrow> ent s4 p0 k = 0" "mem s4 = mem s3 \<and> ref_track s4 = ref_track s3"
    by (rule new_page_step [OF a3(2)]) (rule that)
  have m: "mem s4 = mem s" "mem s3 = mem s" "mem s2 = mem s" "mem s1 = mem s" "ref_track s4 = ref_track s"
    using a1(7) a2(7) a3(7) a4(7) by simp_all
  show thesis
  proof (rule that [OF a1(1) a2(1) a3(1) a4(1) a4(2)])
    show "ent s4 l2 k = 0 \<and> ent s4 l1 k = 0 \<and> ent s4 l0 k = 0" if "k < NUM_PTE_ENTRIES" for k
      using a1(6) a2(6) a3(6) that m by (simp add: ent_def)
  qed (use a1(4,5) a2(4,5) a3(4,5) a4(4,5) m in auto)
qed

lemma build_links:
  fixes va defines "k2 \<equiv> va_index va 2" and "k1 \<equiv> va_index va 1" and "k0 \<equiv> va_index va 0"
  assumes wf: "vms_wf s" and lv: "{l2, l1, l0, p0} \<subseteq> live s" and ds: "distinct [l2, l1, l0, p0]"
    and z: "\<And>k. k < NUM_PTE_ENTRIES \<Longrightarrow> ent s l2 k = 0 \<and> ent s l1 k = 0 \<and> ent s l0 k = 0"
    and s1: "s1 = write_ent l2 k2 (table_entry l1) s"
    and s2: "s2 = write_ent l1 k1 (table_entry l0) s1"
    and s3: "s3 = write_ent l0 k0 (table_entry p0) s2"
    and s4: "s4 = write_ent l0 k0 (data_entry p0) s2"
  shows "link_table l2 va 2 l1 s = Inr s1" "link_table l1 va 1 l0 s1 = Inr s2"
    "link_table l0 va 0 p0 s2 = Inr s3"
    "vms_pte_read_set (vms_page_table_pte_entry l0 va 0) s3 =
       Inr (write_ent l0 k0 (pte_read_set (table_entry p0)) s2)"
    "vms_pte_write_set (vms_page_table_pte_entry l0 va 0)
       (write_ent l0 k0 (pte_read_set (table_entry p0)) s2) = Inr s4"
    "maps_one s4 va l2 l1 l0 p0" "live s4 = live s"
proof -
  have pl: "l2 \<in> pool_pages s" "l1 \<in> pool_pages s" "l0 \<in> pool_pages s" "p0 \<in> pool_pages s"
    using lv live_in_pool by blast+
  have p: "pool_pages s1 = pool_pages s" "live s1 = live s" "pool_pages s2 = pool_pages s"
    "live s2 = live s" "live s4 = live s" by (simp_all add: s1 s2 s4)
  then show "live s4 = live s" by simp
  have w1: "vms_wf s1" unfolding s1 k2_def using wf lv by (intro vms_wf_write_ent) auto
  have w2: "vms_wf s2" unfolding s2 k1_def using w1 lv p by (intro vms_wf_write_ent) auto
  have w4: "vms_wf s4" unfolding s4 k0_def using w2 lv p by (intro vms_wf_write_ent) auto
  have k: "k2 < NUM_PTE_ENTRIES" "k1 < NUM_PTE_ENTRIES" "k0 < NUM_PTE_ENTRIES"
    by (simp_all add: k2_def k1_def k0_def)
  show "link_table l2 va 2 l1 s = Inr s1"
    unfolding s1 k2_def using wf pl z by (intro link_table_ok) auto
  show "link_table l1 va 1 l0 s1 = Inr s2"
    unfolding s2 k1_def using w1 pl p z ds k by (intro link_table_ok) (auto simp: s1)
  show "link_table l0 va 0 p0 s2 = Inr s3"
    unfolding s3 k0_def using w2 pl p z ds k by (intro link_table_ok) (auto simp: s2 s1)
  show "vms_pte_read_set (vms_page_table_pte_entry l0 va 0) s3 =
      Inr (write_ent l0 k0 (pte_read_set (table_entry p0)) s2)"
    "vms_pte_write_set (vms_page_table_pte_entry l0 va 0)
       (write_ent l0 k0 (pte_read_set (table_entry p0)) s2) = Inr s4"
    using pl p k by (simp_all add: s3 s4 vms_pte_defs pte_entry_index data_entry_def flip: k0_def)
  show "maps_one s4 va l2 l1 l0 p0"
    unfolding maps_one_def k2_def [symmetric] k1_def [symmetric] k0_def [symmetric]
    using w4 p lv ds pl k z by (auto simp: s4 s2 s1)
qed

lemma build_space_ok:
  assumes "vms_wf s" "card (live s) + 4 \<le> MAX_PAGES"
  obtains s' l2 l1 l0 p0 where "build_space va s = Inr s'" "maps_one s' va l2 l1 l0 p0"
    "root_page_table s' = l2" "live s' = {l2, l1, l0, p0} \<union> live s" "{l2, l1, l0, p0} \<inter> live s = {}"
    "ref_track s' = ref_track s"
proof -
  obtain l2 s1 l1 s2 l0 s3 p0 s4 where a:
    "vms_new_page s = Inr (l2, s1)" "vms_new_page s1 = Inr (l1, s2)"
    "vms_new_page s2 = Inr (l0, s3)" "vms_new_page s3 = Inr (p0, s4)" and b: "vms_wf s4"
    "live s4 = {l2, l1, l0, p0} \<union> live s" "{l2, l1, l0, p0} \<inter> live s = {}" "distinct [l2, l1, l0, p0]"
    "\<And>k. k < NUM_PTE_ENTRIES \<Longrightarrow> ent s4 l2 k = 0 \<and> ent s4 l1 k = 0 \<and> ent s4 l0 k = 0"
    "ref_track s4 = ref_track s"
    by (rule new_pages_four [OF assms]) (rule that)
  have lv: "{l2, l1, l0, p0} \<subseteq> live s4" using b(2) by blast
  note l = build_links [OF b(1) lv b(4,5) refl refl refl refl, of va]
  let ?s5 = "write_ent l0 (va_index va 0) (data_entry p0) (write_ent l1 (va_index va 1) (table_entry l0)
    (write_ent l2 (va_index va 2) (table_entry l1) s4))"
  let ?s6 = "?s5\<lparr>root_page_table := l2\<rparr>"
  have "l2 \<in> pool_pages s4" using lv live_in_pool by blast
  then have "vms_set_root_page_table l2 ?s5 = Inr ?s6"
    using page_aligned_pool(1) [OF b(1)] by (simp add: vms_set_root_page_table_def check_page_aligned_def)
  then have "build_space va s = Inr ?s6"
    by (simp only: build_space_def a l(1-5) and_then_Inr prod.case Let_def)
  moreover have "maps_one ?s6 va l2 l1 l0 p0"
    using l(6) vms_wf_cong [of ?s5 ?s6] live_cong [of ?s6 ?s5]
    by (auto simp: maps_one_def ent_def content_def)
  moreover have "live ?s6 = {l2, l1, l0, p0} \<union> live s"
    using l(7) b(2) live_cong [of ?s6 ?s5] by simp
  ultimately show thesis using that b(3,6) by simp
qed

end
