(* ===== verification/VmsProps.thy ===== *)
theory VmsProps
  imports VmsMain
begin

text \<open>
  The properties of the virtual memory simulator: entries and indices, the page allocator, the
  translation, reads and writes through it, the demonstration program and the plain fork.  The
  witnesses run on \<open>demo_space\<close>, the state that \<open>main\<close> builds over a mapping at a fixed address.
\<close>

section \<open>A concrete address space\<close>

definition demo_pool :: vms_state where
  "demo_pool = projr (vms_init (int PAGE_SIZE) 0x100000 0 vms_start)"

definition demo_space :: vms_state where
  "demo_space = projr (build_space 0xABC123 demo_pool)"

lemma demo_pool: "vms_wf demo_pool" "live demo_pool = {}" "ref_track demo_pool = replicate MAX_PAGES 0"
proof -
  have "unat (0x100000 :: u64) + MAX_PAGES * PAGE_SIZE \<le> 2 ^ 56" by simp
  from vms_init_spec [OF _ this, of 0]
  obtain s where "vms_init (int PAGE_SIZE) 0x100000 0 vms_start = Inr s" "vms_wf s" "live s = {}"
    "ref_track s = replicate MAX_PAGES 0" by auto
  then show "vms_wf demo_pool" "live demo_pool = {}" "ref_track demo_pool = replicate MAX_PAGES 0"
    by (simp_all add: demo_pool_def)
qed

lemma demo_space_maps:
  obtains l2 l1 l0 p0 where "maps_one demo_space 0xABC123 l2 l1 l0 p0" "root_page_table demo_space = l2"
    "live demo_space = {l2, l1, l0, p0}" "ref_track demo_space = replicate MAX_PAGES 0"
proof -
  have "card (live demo_pool) + 4 \<le> MAX_PAGES" by (simp add: demo_pool)
  from demo_pool(1) this obtain s' l2 l1 l0 p0 where "build_space 0xABC123 demo_pool = Inr s'"
    "maps_one s' 0xABC123 l2 l1 l0 p0" "root_page_table s' = l2"
    "live s' = {l2, l1, l0, p0} \<union> live demo_pool" "{l2, l1, l0, p0} \<inter> live demo_pool = {}"
    "ref_track s' = ref_track demo_pool"
    by (rule build_space_ok) (rule that)
  then show thesis using that by (simp add: demo_space_def demo_pool(2,3))
qed

lemma offset_abc123: "page_offset 0xABC123 = 0x123"
  by (simp add: page_offset_def)

section \<open>Reading and writing\<close>

text \<open>A store to a mapped data page keeps the address space as it is.\<close>

lemma poke_space:
  assumes "vms_wf s" "wf_table 3 s t" "is_tree 3 s t" "p \<in> leaf_pages 3 s t" "d + 4 \<le> PAGE_SIZE"
  shows "vms_wf (poke p d v s)" "wf_table 3 (poke p d v s) t" "is_tree 3 (poke p d v s) t"
    "walk (poke p d v s) t va = walk s t va"
    "walk s t va = Some t0 \<Longrightarrow> leaf_entry (poke p d v s) t0 va = leaf_entry s t0 va"
proof -
  note same = poke_inner [OF assms]
  have "p \<in> live s" using tree_pages_live [OF assms(2)] assms(4) by (auto simp: inner_leaf_pages)
  then show "vms_wf (poke p d v s)" using assms(1,5) by (intro vms_wf_poke)
  show "wf_table 3 (poke p d v s) t"
    by (rule wf_table_inner_stable [OF assms(2) same]) simp
  show "is_tree 3 (poke p d v s) t" using inner_stable(4) [OF same] assms(3) by simp
  show "walk (poke p d v s) t va = walk s t va" by (rule walk_cong [OF same])
  show "leaf_entry (poke p d v s) t0 va = leaf_entry s t0 va" if "walk s t va = Some t0"
    unfolding leaf_entry_def by (rule same_content_ent [OF same walk_in_tree(1) [OF that]]) simp
qed

lemma vms_write_is_poke:
  assumes "vms_wf s" "wf_table 3 s (root_page_table s)" "walk s (root_page_table s) va = Some t0"
    "pte_write (leaf_entry s t0 va)" "page_offset va + 4 \<le> PAGE_SIZE"
  shows "vms_write va v s = Inr (poke (pte_page (leaf_entry s t0 va)) (page_offset va) v s)"
  using vms_write_mapped [OF assms] by (simp add: poke_def)

lemma vms_read_is_peek:
  assumes "vms_wf s" "wf_table 3 s (root_page_table s)" "walk s (root_page_table s) va = Some t0"
    "pte_read (leaf_entry s t0 va)" "page_offset va + 4 \<le> PAGE_SIZE"
  shows "vms_read va s = Inr (peek (pte_page (leaf_entry s t0 va)) (page_offset va) s, s)"
  using vms_read_mapped [OF assms] by (simp add: peek_def)

lemma walk_leaf_page:
  "walk s t va = Some t0 \<Longrightarrow> pte_page (leaf_entry s t0 va) \<in> leaf_pages 3 s t"
  using walk_in_tree(2) by (simp add: leaf_entry_def)

lemma write_then_read:
  assumes "vms_wf s" "wf_table 3 s (root_page_table s)" "is_tree 3 s (root_page_table s)"
    and "walk s (root_page_table s) va = Some t0"
    and "pte_read (leaf_entry s t0 va)" "pte_write (leaf_entry s t0 va)"
    and "page_offset va + 4 \<le> PAGE_SIZE"
  obtains s' where "vms_write va v s = Inr s'" "vms_read va s' = Inr (v, s')"
    "vms_wf s'" "wf_table 3 s' (root_page_table s')" "is_tree 3 s' (root_page_table s')"
    "walk s' (root_page_table s') va = Some t0" "leaf_entry s' t0 va = leaf_entry s t0 va"
proof -
  let ?p = "pte_page (leaf_entry s t0 va)" let ?s' = "poke ?p (page_offset va) v s"
  note sp = poke_space [OF assms(1,2,3) walk_leaf_page [OF assms(4)] assms(7)]
  have "?p \<in> pool_pages s" using walk_leaf [OF assms(2,4)] by simp
  then have "peek ?p (page_offset va) ?s' = v" using assms(7) by (intro peek_poke(1)) auto
  then have "vms_read va ?s' = Inr (v, ?s')"
    using vms_read_is_peek [of ?s' va t0] sp sp(5) [OF assms(4)] assms(4,5,7) by simp
  with vms_write_is_poke [OF assms(1,2,4,6,7)] show thesis
    using that sp sp(5) [OF assms(4)] assms(4) by simp
qed

text \<open>
  C2: What \<open>vms_write\<close> stores at a mapped, readable and writable address is what \<open>vms_read\<close>
  then returns there, for every address whose four bytes lie in one page.
\<close>

theorem vms_write_read:
  assumes "vms_wf s" "wf_table 3 s (root_page_table s)" "is_tree 3 s (root_page_table s)"
    and "walk s (root_page_table s) va = Some t0"
    and "pte_read (leaf_entry s t0 va)" "pte_write (leaf_entry s t0 va)"
    and "page_offset va + 4 \<le> PAGE_SIZE"
  shows "\<exists>s'. vms_write va v s = Inr s' \<and> vms_read va s' = Inr (v, s')"
  by (rule write_then_read [OF assms, of v]) blast

theorem vms_write_read_witness:
  "\<exists>s'. vms_write 0xABC123 7 demo_space = Inr s' \<and> vms_read 0xABC123 s' = Inr (7, s')"
proof -
  obtain l2 l1 l0 p0 where m: "maps_one demo_space 0xABC123 l2 l1 l0 p0"
    and r: "root_page_table demo_space = l2" by (rule demo_space_maps)
  have "vms_wf demo_space" using m by (simp add: maps_one_def)
  then show ?thesis
    using vms_write_read [of demo_space "0xABC123" l0 7] maps_one_space [OF m] r entry_flags offset_abc123
    by simp
qed

text \<open>
  A write through the translation changes no other mapped location: reading any mapped and
  readable address that differs in an index or whose bytes do not overlap gives the same value
  before and after.
\<close>

theorem vms_write_frame:
  assumes "vms_wf s" "wf_table 3 s (root_page_table s)" "is_tree 3 s (root_page_table s)"
    and "walk s (root_page_table s) va = Some t0" "pte_write (leaf_entry s t0 va)"
    and "walk s (root_page_table s) va' = Some t0'" "pte_read (leaf_entry s t0' va')"
    and "page_offset va + 4 \<le> PAGE_SIZE" "page_offset va' + 4 \<le> PAGE_SIZE"
    and "(\<exists>level \<le> 2. va_index va level \<noteq> va_index va' level) \<or>
      page_offset va' + 4 \<le> page_offset va \<or> page_offset va + 4 \<le> page_offset va'"
  shows "\<exists>s' w. vms_write va v s = Inr s' \<and> vms_read va' s = Inr (w, s) \<and> vms_read va' s' = Inr (w, s')"
proof -
  let ?p = "pte_page (leaf_entry s t0 va)" and ?q = "pte_page (leaf_entry s t0' va')"
  let ?s' = "poke ?p (page_offset va) v s"
  note sp = poke_space [OF assms(1,2,3) walk_leaf_page [OF assms(4)] assms(8)]
  have "?p \<noteq> ?q \<or> page_offset va' + 4 \<le> page_offset va \<or> page_offset va + 4 \<le> page_offset va'"
  proof (cases "?p = ?q")
    case True
    then have "va_index va 2 = va_index va' 2 \<and> va_index va 1 = va_index va' 1 \<and> va_index va 0 = va_index va' 0"
      using walk_leaf_inj [OF assms(3,4,6)] by (simp add: leaf_entry_def)
    then have "\<not> (\<exists>level \<le> 2. va_index va level \<noteq> va_index va' level)"
      by (metis One_nat_def le_SucE le_zero_eq numeral_2_eq_2)
    with assms(10) show ?thesis by simp
  qed simp
  then have "peek ?q (page_offset va') ?s' = peek ?q (page_offset va') s"
    using walk_leaf [OF assms(2,4)] walk_leaf [OF assms(2,6)] assms(8,9)
    by (intro peek_poke(2)) auto
  then have "vms_read va' ?s' = Inr (peek ?q (page_offset va') s, ?s')"
    using vms_read_is_peek [of ?s' va' t0'] sp sp(5) [OF assms(6)] assms(6,7,9) by simp
  with vms_write_is_poke [OF assms(1,2,4,5,8)] vms_read_is_peek [OF assms(1,2,6,7,9)] show ?thesis
    by blast
qed

section \<open>The translation\<close>

text \<open>
  C9: On a well-formed address space \<open>mmu\<close> computes the walk: a mapped address gives the address of
  its level 0 entry with no change of state, and an address whose walk stops at an entry without
  the custom bit ends the process with \<open>EFAULT\<close> and the report of exactly that entry.
\<close>

theorem mmu_is_walk:
  assumes "wf_table 3 s (root_page_table s)"
  shows "case fault_point s (root_page_table s) va of
      None \<Rightarrow> \<exists>t0. walk s (root_page_table s) va = Some t0 \<and>
        mmu va s = Inr (vms_page_table_pte_entry t0 va 0, s)
    | Some (l, t) \<Rightarrow> walk s (root_page_table s) va = None \<and>
        (let e = ent s t (va_index va l) in
         pte_custom e \<or> mmu va s = Inl (Fatal_page_fault (fatal_report va l t e)))"
proof (cases "fault_point s (root_page_table s) va")
  case None
  then obtain t0 where "walk s (root_page_table s) va = Some t0"
    using walk_fault_point by blast
  with None mmu_walk [OF assms] show ?thesis by simp
next
  case (Some lt)
  obtain l t where lt: "lt = (l, t)" by (cases lt)
  have "walk s (root_page_table s) va = None" using Some walk_fault_point by simp
  with mmu_no_walk [OF assms, of va l t] Some show ?thesis by (auto simp: lt Let_def)
qed

theorem mmu_is_walk_witness:
  "\<exists>t0. walk demo_space (root_page_table demo_space) 0xABC123 = Some t0 \<and>
     mmu 0xABC123 demo_space = Inr (vms_page_table_pte_entry t0 0xABC123 0, demo_space)"
proof -
  obtain l2 l1 l0 p0 where m: "maps_one demo_space 0xABC123 l2 l1 l0 p0"
    and r: "root_page_table demo_space = l2" by (rule demo_space_maps)
  note sp = maps_one_space [OF m]
  have "fault_point demo_space l2 0xABC123 = None"
    using walk_fault_point [of demo_space l2 "0xABC123"] sp(3) by (metis option.distinct(1))
  with mmu_is_walk [of demo_space "0xABC123"] sp r show ?thesis by simp
qed

text \<open>
  C11: Protection. Writing to a mapped page whose entry has neither the write nor the custom bit, or
  reading one without the read and the custom bit, stops the process with \<open>EFAULT\<close> and reports the
  level 0 entry, whatever the value and the offset.
\<close>

theorem protection_faults:
  assumes "vms_wf s" "wf_table 3 s (root_page_table s)"
    and "walk s (root_page_table s) va = Some t0" "\<not> pte_custom (leaf_entry s t0 va)"
  shows "(pte_write (leaf_entry s t0 va) \<or>
      vms_write va v s = Inl (Fatal_page_fault (fatal_report va 0 t0 (leaf_entry s t0 va)))) \<and>
    (pte_read (leaf_entry s t0 va) \<or>
      vms_read va s = Inl (Fatal_page_fault (fatal_report va 0 t0 (leaf_entry s t0 va)))) \<and>
    exit_status (Fatal_page_fault (fatal_report va 0 t0 (leaf_entry s t0 va))) = Some 14"
  using access_denied [OF assms] by (auto simp: exit_status_def)

text \<open>A read-only mapping of one page: the demonstration space with its write bit cleared.\<close>

definition demo_read_only :: vms_state where
  "demo_read_only = projr (and_then (mmu 0xABC123 demo_space) (\<lambda>(entry, s). vms_pte_write_clear entry s))"

lemma demo_read_only:
  obtains t0 where "vms_wf demo_read_only" "wf_table 3 demo_read_only (root_page_table demo_read_only)"
    "walk demo_read_only (root_page_table demo_read_only) 0xABC123 = Some t0"
    "\<not> pte_custom (leaf_entry demo_read_only t0 0xABC123)"
    "\<not> pte_write (leaf_entry demo_read_only t0 0xABC123)"
proof -
  let ?va = "0xABC123 :: u64"
  obtain l2 l1 l0 p0 where m: "maps_one demo_space ?va l2 l1 l0 p0"
    and r: "root_page_table demo_space = l2" by (rule demo_space_maps)
  note md = m [unfolded maps_one_def] and sp = maps_one_space [OF m] and sl = maps_one_slots [OF m]
  let ?e = "pte_write_clear (data_entry p0)"
  let ?s = "write_ent l0 (va_index ?va 0) ?e demo_space"
  have pl: "l0 \<in> pool_pages demo_space" "l1 \<in> pool_pages demo_space" "l2 \<in> pool_pages demo_space"
    using md live_in_pool by auto
  have "mmu ?va demo_space = Inr (vms_page_table_pte_entry l0 ?va 0, demo_space)"
    using mmu_walk [of demo_space ?va l0] sp r by simp
  then have d: "demo_read_only = ?s"
    using pl md by (simp add: demo_read_only_def pte_entry_index vms_pte_defs)
  have e: "pte_valid ?e" "leaf_ok ?e" "\<not> pte_custom ?e" "\<not> pte_write ?e" "pte_page ?e = p0"
    using sl md by (simp_all add: leaf_ok_def data_entry_def table_entry_def pte_bits pte_page_def)
  have ent: "ent ?s l2 k = ent demo_space l2 k" "ent ?s l1 k = ent demo_space l1 k"
    "ent ?s l0 k = (if k = va_index ?va 0 then ?e else 0)" if "k < NUM_PTE_ENTRIES" for k
    using pl md that by auto
  have sl': "valid_slots ?s l2 = {va_index ?va 2}" "valid_slots ?s l1 = {va_index ?va 1}"
    "valid_slots ?s l0 = {va_index ?va 0}"
    using sl(1,2) ent e(1) by (auto simp: valid_slots_def split: if_splits)
  have "wf_table 3 ?s l2"
    unfolding numeral_3_eq_3 wf_table_Suc using md sl sl' ent e(5) by simp
  moreover have "walk ?s l2 ?va = Some l0"
    using sl ent e(2) md by (simp add: walk_def entry_flags)
  moreover have "vms_wf ?s" using md by (intro vms_wf_write_ent) auto
  moreover have "leaf_entry ?s l0 ?va = ?e" using ent by (simp add: leaf_entry_def)
  moreover have "root_page_table ?s = l2" by (simp add: r)
  ultimately show thesis using that [of l0] e unfolding d by simp
qed

theorem protection_faults_witness:
  "\<exists>r. vms_write 0xABC123 7 demo_read_only = Inl (Fatal_page_fault r)"
proof -
  obtain t0 where d: "vms_wf demo_read_only" "wf_table 3 demo_read_only (root_page_table demo_read_only)"
    "walk demo_read_only (root_page_table demo_read_only) 0xABC123 = Some t0"
    "\<not> pte_custom (leaf_entry demo_read_only t0 0xABC123)"
    "\<not> pte_write (leaf_entry demo_read_only t0 0xABC123)" by (rule demo_read_only)
  from protection_faults [OF d(1-4), of 7] d(5) show ?thesis by blast
qed

section \<open>The plain fork\<close>

lemma forked_walk:
  assumes "forked 3 s t s' u"
  shows "walk s t va = None \<Longrightarrow> walk s' u va = None"
    and "walk s t va = Some t0 \<Longrightarrow> \<exists>u0. walk s' u va = Some u0 \<and>
      same_flags (leaf_entry s' u0 va) (leaf_entry s t0 va) \<and>
      content s' (pte_page (leaf_entry s' u0 va)) = content s (pte_page (leaf_entry s t0 va))"
proof -
  let ?k2 = "va_index va 2" and ?k1 = "va_index va 1" and ?k0 = "va_index va 0"
  let ?t1 = "child s t ?k2" and ?u1 = "child s' u ?k2"
  let ?t0 = "child s ?t1 ?k1" and ?u0 = "child s' ?u1 ?k1"
  have f2: "forked (Suc (Suc (Suc 0))) s t s' u" using assms by (simp only: numeral_3_eq_3)
  have not_inner: "\<not> inner_ok 0" "\<not> leaf_ok 0" by (simp_all add: inner_ok_def leaf_ok_def)
  have slot: "inner_ok (ent s x k) \<or> leaf_ok (ent s x k) \<Longrightarrow> k < NUM_PTE_ENTRIES \<Longrightarrow> k \<in> valid_slots s x" for x k
    by (auto simp: valid_slots_def inner_ok_def leaf_ok_def)
  have fl: "inner_ok (ent s' y k) = inner_ok (ent s x k) \<and> leaf_ok (ent s' y k) = leaf_ok (ent s x k)"
    if "forked (Suc n) s x s' y" "k < NUM_PTE_ENTRIES" for n x y k
  proof (cases "k \<in> valid_slots s x")
    case True
    then show ?thesis using forked_SucD(1) [OF that(1)] same_flags_iff(5,6) by blast
  next
    case False
    then have "ent s' y k = 0" "\<not> inner_ok (ent s x k)" "\<not> leaf_ok (ent s x k)"
      using that by (auto simp: valid_slots_def inner_ok_def leaf_ok_def)
    then show ?thesis using not_inner by simp
  qed
  have 2: "inner_ok (ent s' u ?k2) = inner_ok (ent s t ?k2)" using fl [OF f2] by simp
  have f1: "forked (Suc (Suc 0)) s ?t1 s' ?u1" if "inner_ok (ent s t ?k2)"
    by (rule forked_SucD(2) [OF f2 slot]) (use that in simp_all)
  have 1: "inner_ok (ent s' ?u1 ?k1) = inner_ok (ent s ?t1 ?k1)" if "inner_ok (ent s t ?k2)"
    using fl [OF f1 [OF that]] by simp
  have f0: "forked (Suc 0) s ?t0 s' ?u0" if "inner_ok (ent s t ?k2)" "inner_ok (ent s ?t1 ?k1)"
    by (rule forked_SucD(2) [OF f1 slot]) (use that in simp_all)
  have 0: "leaf_ok (ent s' ?u0 ?k0) = leaf_ok (ent s ?t0 ?k0)"
    if "inner_ok (ent s t ?k2)" "inner_ok (ent s ?t1 ?k1)"
    using fl [OF f0 [OF that]] by simp
  show "walk s t va = None \<Longrightarrow> walk s' u va = None"
    using 2 1 0 by (auto simp: walk_def Let_def split: if_splits)
  assume w: "walk s t va = Some t0"
  then have ok: "inner_ok (ent s t ?k2)" "inner_ok (ent s ?t1 ?k1)" "t0 = ?t0" "leaf_ok (ent s ?t0 ?k0)"
    by (auto simp: walk_def Let_def split: if_splits)
  then have w': "walk s' u va = Some ?u0" using 2 1 0 by (simp add: walk_def Let_def)
  have "?k0 \<in> valid_slots s ?t0" using slot [of ?t0 ?k0] ok by simp
  note leaf = forked_SucD(1,2) [OF f0 [OF ok(1,2)] this]
  then show "\<exists>u0. walk s' u va = Some u0 \<and> same_flags (leaf_entry s' u0 va) (leaf_entry s t0 va) \<and>
      content s' (pte_page (leaf_entry s' u0 va)) = content s (pte_page (leaf_entry s t0 va))"
    using w' ok(3) by (simp add: leaf_entry_def)
qed

text \<open>
  C4: \<open>vms_fork_copy\<close> duplicates the current address space. The new root heads a tree of pages none of
  which was in use before; every page that was in use keeps its bytes; and every virtual address is
  translated in the new space exactly when it was in the old one, with the same flags and to a page
  with the same bytes.
\<close>

theorem fork_copy_correct:
  assumes "vms_wf s" "wf_table 3 s (root_page_table s)" "vms_fork_copy s = Inr (new_l2, s')"
  shows "vms_wf s' \<and> wf_table 3 s' new_l2 \<and> is_tree 3 s' new_l2 \<and>
    tree_pages 3 s' new_l2 \<inter> live s = {} \<and> live s' = live s \<union> tree_pages 3 s' new_l2 \<and>
    root_page_table s' = root_page_table s \<and> (\<forall>p \<in> live s. content s' p = content s p) \<and>
    (\<forall>va. case walk s (root_page_table s) va of
        None \<Rightarrow> walk s' new_l2 va = None
      | Some t0 \<Rightarrow> \<exists>u0. walk s' new_l2 va = Some u0 \<and>
          same_flags (leaf_entry s' u0 va) (leaf_entry s t0 va) \<and>
          content s' (pte_page (leaf_entry s' u0 va)) = content s (pte_page (leaf_entry s t0 va)))"
proof -
  have "copied 3 s (root_page_table s) s' new_l2"
    using vms_fork_copy_outcome [OF assms(1,2)] assms(3) by simp
  note C = this [unfolded copied_def]
  then have f: "forked 3 s (root_page_table s) s' new_l2" by simp
  have "wf_table 3 s' new_l2" using C by (simp add: wf_table_iff)
  moreover have "case walk s (root_page_table s) va of
        None \<Rightarrow> walk s' new_l2 va = None
      | Some t0 \<Rightarrow> \<exists>u0. walk s' new_l2 va = Some u0 \<and>
          same_flags (leaf_entry s' u0 va) (leaf_entry s t0 va) \<and>
          content s' (pte_page (leaf_entry s' u0 va)) = content s (pte_page (leaf_entry s t0 va))" for va
    using forked_walk [OF f, of va] by (cases "walk s (root_page_table s) va") auto
  ultimately show ?thesis using C by (simp add: same_content_def)
qed

text \<open>
  C10: Resources of \<open>vms_fork_copy\<close>: it succeeds exactly when the pool has as many free pages as the
  current space has pages, it then uses that many more, and otherwise the process exits with
  \<open>ENOMEM\<close>.
\<close>

theorem fork_copy_resources:
  assumes "vms_wf s" "wf_table 3 s (root_page_table s)"
  shows "if vms_get_used_pages s + int (tree_size 3 s (root_page_table s)) \<le> int MAX_PAGES
    then \<exists>new_l2 s'. vms_fork_copy s = Inr (new_l2, s') \<and>
      vms_get_used_pages s' = vms_get_used_pages s + int (tree_size 3 s (root_page_table s))
    else vms_fork_copy s = Inl (Exit 12)"
proof -
  note out = vms_fork_copy_outcome [OF assms]
  have used: "vms_get_used_pages s = int (card (live s))"
    using used_pages_live [OF assms(1)] by simp
  show ?thesis
  proof (cases "vms_fork_copy s")
    case (Inl e)
    with out used show ?thesis by auto
  next
    case (Inr r)
    obtain u s' where r: "r = (u, s')" by (cases r)
    with Inr out have "copied 3 s (root_page_table s) s' u" by simp
    note C = this [unfolded copied_def]
    have sz: "tree_size 3 s' u = tree_size 3 s (root_page_table s)" using C forked_size by blast
    have "finite (tree_pages 3 s' u) \<and> card (tree_pages 3 s' u) = tree_size 3 s' u"
      using C card_tree_pages by blast
    moreover have "live s' = live s \<union> tree_pages 3 s' u" "live s \<inter> tree_pages 3 s' u = {}"
      using C by blast+
    ultimately have card: "card (live s') = card (live s) + tree_size 3 s (root_page_table s)"
      using sz by (simp add: card_Un_disjoint)
    have "card (live s') \<le> MAX_PAGES" by (rule live_bound)
    moreover have "vms_get_used_pages s' = int (card (live s'))"
      using used_pages_live C by simp
    ultimately show ?thesis using Inr r used card by auto
  qed
qed

lemma demo_fork:
  obtains new_l2 s' where "vms_fork_copy demo_space = Inr (new_l2, s')"
    "vms_wf demo_space" "wf_table 3 demo_space (root_page_table demo_space)"
    "tree_size 3 demo_space (root_page_table demo_space) = 4" "vms_get_used_pages demo_space = 4"
proof -
  obtain l2 l1 l0 p0 where m: "maps_one demo_space 0xABC123 l2 l1 l0 p0"
    and r: "root_page_table demo_space = l2" and lv: "live demo_space = {l2, l1, l0, p0}"
    by (rule demo_space_maps)
  have wf: "vms_wf demo_space" and "distinct [l2, l1, l0, p0]" using m by (auto simp: maps_one_def)
  then have card: "card (live demo_space) = 4" unfolding lv by simp
  then have "vms_get_used_pages demo_space = 4"
    using used_pages_live [OF wf] by simp
  moreover have t: "wf_table 3 demo_space (root_page_table demo_space)"
    "tree_size 3 demo_space (root_page_table demo_space) = 4" using maps_one_space [OF m] r by auto
  moreover have "\<exists>new_l2 s'. vms_fork_copy demo_space = Inr (new_l2, s')"
    using vms_fork_copy_outcome [OF wf t(1)] card t(2) by (cases "vms_fork_copy demo_space") auto
  ultimately show thesis using wf that by blast
qed

theorem fork_copy_correct_witness:
  "\<exists>new_l2 s'. vms_fork_copy demo_space = Inr (new_l2, s') \<and>
     tree_pages 3 s' new_l2 \<inter> live demo_space = {} \<and> walk s' new_l2 0xABC123 \<noteq> None"
proof -
  obtain u s' where f: "vms_fork_copy demo_space = Inr (u, s')" "vms_wf demo_space"
    "wf_table 3 demo_space (root_page_table demo_space)" by (rule demo_fork)
  obtain l2 l1 l0 p0 where m: "maps_one demo_space 0xABC123 l2 l1 l0 p0"
    and r: "root_page_table demo_space = l2" by (rule demo_space_maps)
  note c = fork_copy_correct [OF f(2,3,1)]
  have "case walk demo_space (root_page_table demo_space) 0xABC123 of
        None \<Rightarrow> walk s' u 0xABC123 = None
      | Some t0 \<Rightarrow> \<exists>u0. walk s' u 0xABC123 = Some u0 \<and>
          same_flags (leaf_entry s' u0 0xABC123) (leaf_entry demo_space t0 0xABC123) \<and>
          content s' (pte_page (leaf_entry s' u0 0xABC123)) =
            content demo_space (pte_page (leaf_entry demo_space t0 0xABC123))"
    using c by blast
  then have "walk s' u 0xABC123 \<noteq> None" using maps_one_space(3) [OF m] r by auto
  with c f(1) show ?thesis by blast
qed

theorem fork_copy_resources_witness:
  "\<exists>new_l2 s'. vms_fork_copy demo_space = Inr (new_l2, s') \<and> vms_get_used_pages s' = 8"
proof -
  obtain u s' where f: "vms_fork_copy demo_space = Inr (u, s')" "vms_wf demo_space"
    "wf_table 3 demo_space (root_page_table demo_space)"
    "tree_size 3 demo_space (root_page_table demo_space) = 4" "vms_get_used_pages demo_space = 4"
    by (rule demo_fork)
  from fork_copy_resources [OF f(2,3)] show ?thesis by (simp add: f(4,5))
qed

text \<open>Reading through a given root table; the value only.\<close>

definition read_in :: "u64 \<Rightarrow> u64 \<Rightarrow> vms_state \<Rightarrow> u32 vms_result" where
  "read_in root va s = map_sum id fst (vms_read va (s\<lparr>root_page_table := root\<rparr>))"

lemma read_in_mapped:
  assumes "vms_wf s" "wf_table 3 s root" "walk s root va = Some t0"
    "pte_read (leaf_entry s t0 va)" "page_offset va + 4 \<le> PAGE_SIZE"
  shows "read_in root va s = Inr (peek (pte_page (leaf_entry s t0 va)) (page_offset va) s)"
  using vms_read_is_peek [of "s\<lparr>root_page_table := root\<rparr>" va t0] assms
  by (simp add: read_in_def leaf_entry_def peek_def)

lemma peek_content:
  assumes "d + 4 \<le> PAGE_SIZE"
  shows "peek p d s = of_le_bytes (take 4 (drop d (content s p)))"
proof -
  have "load_bytes (mem s) (p + of_nat d) 4 = take 4 (drop d (content s p))"
    using assms by (intro nth_equalityI) (simp_all add: content_def add.assoc)
  then show ?thesis by (simp add: peek_def load32_def)
qed

text \<open>A write through one address space is not seen through another that shares no page with it.\<close>

lemma write_elsewhere:
  assumes "vms_wf s" "wf_table 3 s r1" "wf_table 3 s r2" "tree_pages 3 s r1 \<inter> tree_pages 3 s r2 = {}"
    and w: "walk s r1 va = Some t0" "pte_write (leaf_entry s t0 va)" "page_offset va + 4 \<le> PAGE_SIZE"
    and r: "walk s r2 va' = Some u0" "pte_read (leaf_entry s u0 va')" "page_offset va' + 4 \<le> PAGE_SIZE"
  shows "\<exists>s''. vms_write va v (s\<lparr>root_page_table := r1\<rparr>) = Inr s'' \<and> read_in r2 va' s'' = read_in r2 va' s"
proof -
  let ?p = "pte_page (leaf_entry s t0 va)" and ?q = "pte_page (leaf_entry s u0 va')"
  let ?s1 = "s\<lparr>root_page_table := r1\<rparr>" let ?s2 = "poke ?p (page_offset va) v ?s1"
  have p: "?p \<in> tree_pages 3 s r1" using walk_leaf_page [OF w(1)] by (simp add: inner_leaf_pages)
  then have pl: "?p \<in> live s" "?p \<notin> tree_pages 3 s r2" using tree_pages_live [OF assms(2)] assms(4) by blast+
  have same: "same_content (tree_pages 3 s r2) s ?s2"
    unfolding same_content_def
  proof
    fix x assume x: "x \<in> tree_pages 3 s r2"
    then have "x \<in> live s" using tree_pages_live [OF assms(3)] by blast
    then have pool: "x \<in> pool_pages ?s1" "?p \<in> pool_pages ?s1"
      using pl(1) live_in_pool [of _ s] by simp_all
    have "x \<noteq> ?p" using x pl(2) by blast
    then have "content ?s2 x = content ?s1 x" using pool w(3) by (intro content_poke) auto
    then show "content ?s2 x = content s x" by simp
  qed
  have same2: "same_content (inner_pages 3 s r2) s ?s2"
    by (rule same_content_subset [OF same]) (auto simp: inner_leaf_pages)
  have leaf2: "leaf_entry ?s2 u0 va' = leaf_entry s u0 va'"
    using same_content_ent [OF same2, of u0 "va_index va' 0"] walk_in_tree(1) [OF r(1)]
    by (simp add: leaf_entry_def)
  have "?q \<in> tree_pages 3 s r2" using walk_leaf_page [OF r(1)] by (simp add: inner_leaf_pages)
  then have "content ?s2 ?q = content s ?q" using same by (simp add: same_content_def)
  then have pk: "peek ?q (page_offset va') ?s2 = peek ?q (page_offset va') s"
    by (simp add: peek_content [OF r(3)])
  have wf_s2: "vms_wf ?s2" using assms(1) pl w(3) by (intro vms_wf_poke) auto
  have "read_in r2 va' ?s2 = Inr (peek ?q (page_offset va') ?s2)"
    using read_in_mapped [OF wf_s2 wf_table_stable [OF assms(3) same] _ _ r(3), of u0] leaf2
      walk_cong [OF same2, of va'] r by simp
  moreover have "read_in r2 va' s = Inr (peek ?q (page_offset va') s)"
    by (rule read_in_mapped [OF assms(1,3) r(1,2,3)])
  moreover have "vms_write va v ?s1 = Inr ?s2"
    using vms_write_is_poke [of ?s1 va t0 v] assms(1,2) w by (simp add: leaf_entry_def)
  ultimately show ?thesis using pk by auto
qed

text \<open>Both roots of a fork read the same.\<close>

lemma forked_reads:
  assumes "vms_wf s" "forked 3 s r s u" "wf_table 3 s r" "wf_table 3 s u"
    and x: "x = r \<or> x = u" "walk s x va = Some t0" "pte_read (leaf_entry s t0 va)"
    and "page_offset va + 4 \<le> PAGE_SIZE"
  shows "read_in u va s = read_in r va s"
proof -
  obtain t where t: "walk s r va = Some t"
    using x(1,2) forked_walk(1) [OF assms(2), of va] by (cases "walk s r va") auto
  from forked_walk(2) [OF assms(2) t] obtain v where v: "walk s u va = Some v"
    and sf: "same_flags (leaf_entry s v va) (leaf_entry s t va)"
    and ct: "content s (pte_page (leaf_entry s v va)) = content s (pte_page (leaf_entry s t va))"
    by blast
  have rd: "pte_read (leaf_entry s v va)" "pte_read (leaf_entry s t va)"
    using x t v same_flags_iff(2) [OF sf] by auto
  show ?thesis
    using read_in_mapped [OF assms(1,4) v rd(1) assms(8)] read_in_mapped [OF assms(1,3) t rd(2) assms(8)]
      peek_content [OF assms(8)] ct by simp
qed

text \<open>
  Right after a plain fork the child reads what the parent reads, and from then on the two are
  isolated: a write through either root table changes no value that can be read through the other.
\<close>

theorem fork_copy_isolated:
  assumes "vms_wf s" "wf_table 3 s (root_page_table s)" "vms_fork_copy s = Inr (new_l2, s')"
    and roots: "(r1, r2) = (root_page_table s, new_l2) \<or> (r1, r2) = (new_l2, root_page_table s)"
    and w: "walk s' r1 va = Some t0" "pte_write (leaf_entry s' t0 va)" "page_offset va + 4 \<le> PAGE_SIZE"
    and r: "walk s' r2 va' = Some u0" "pte_read (leaf_entry s' u0 va')" "page_offset va' + 4 \<le> PAGE_SIZE"
  shows "read_in new_l2 va' s' = read_in (root_page_table s) va' s' \<and>
    (\<exists>s''. vms_write va v (s'\<lparr>root_page_table := r1\<rparr>) = Inr s'' \<and>
      read_in r2 va' s'' = read_in r2 va' s')"
proof -
  let ?root = "root_page_table s"
  have "copied 3 s ?root s' new_l2" using vms_fork_copy_outcome [OF assms(1,2)] assms(3) by simp
  note C = this [unfolded copied_def]
  have old: "same_content (tree_pages 3 s ?root) s s'"
    using C tree_pages_live [OF assms(2)] same_content_subset by blast
  have f: "forked 3 s' ?root s' new_l2" using C forked_stable_left [OF old] by blast
  have wf: "wf_table 3 s' ?root" "wf_table 3 s' new_l2" "vms_wf s'"
    using C wf_table_stable [OF assms(2) old] by (auto simp: wf_table_iff)
  have sub: "tree_pages 3 s' ?root \<subseteq> live s"
    using tree_stable(1) [OF old] tree_pages_live [OF assms(2)] by simp
  have disj: "tree_pages 3 s' r1 \<inter> tree_pages 3 s' r2 = {}" using roots sub C by blast
  have wf12: "wf_table 3 s' r1" "wf_table 3 s' r2" using roots wf by auto
  have "r2 = ?root \<or> r2 = new_l2" using roots by blast
  with forked_reads [OF wf(3) f wf(1,2) _ r] write_elsewhere [OF wf(3) wf12 disj w r] show ?thesis by blast
qed


lemma demo_fork_walks:
  obtains u s' t0 u0 where "vms_fork_copy demo_space = Inr (u, s')" "vms_wf demo_space"
    "wf_table 3 demo_space (root_page_table demo_space)"
    "walk s' (root_page_table demo_space) 0xABC123 = Some t0"
    "pte_write (leaf_entry s' t0 0xABC123)" "pte_read (leaf_entry s' t0 0xABC123)"
    "walk s' u 0xABC123 = Some u0"
    "pte_write (leaf_entry s' u0 0xABC123)" "pte_read (leaf_entry s' u0 0xABC123)"
proof -
  let ?va = "0xABC123 :: u64" and ?root = "root_page_table demo_space"
  obtain u s' where f: "vms_fork_copy demo_space = Inr (u, s')" "vms_wf demo_space"
    "wf_table 3 demo_space ?root" by (rule demo_fork)
  obtain l2 l1 l0 p0 where m: "maps_one demo_space ?va l2 l1 l0 p0" and r: "?root = l2"
    by (rule demo_space_maps)
  have w: "walk demo_space ?root ?va = Some l0" and e: "leaf_entry demo_space l0 ?va = data_entry p0"
    using maps_one_space(3,4) [OF m] r by simp_all
  have C: "copied 3 demo_space ?root s' u" using vms_fork_copy_outcome [OF f(2,3)] f(1) by simp
  then have old: "same_content (tree_pages 3 demo_space ?root) demo_space s'"
    unfolding copied_def using tree_pages_live [OF f(3)] same_content_subset by blast
  then have old': "same_content (inner_pages 3 demo_space ?root) demo_space s'"
    by (rule same_content_subset) (auto simp: inner_leaf_pages)
  have w': "walk s' ?root ?va = Some l0" using walk_cong [OF old', of ?va] w by simp
  have e': "leaf_entry s' l0 ?va = data_entry p0"
    using same_content_ent [OF old', of l0 "va_index ?va 0"] walk_in_tree(1) [OF w] e
    by (simp add: leaf_entry_def)
  have fk: "forked 3 demo_space ?root s' u" using C by (simp add: copied_def)
  obtain u0 where u: "walk s' u ?va = Some u0"
    "same_flags (leaf_entry s' u0 ?va) (leaf_entry demo_space l0 ?va)"
    using forked_walk(2) [OF fk w] by blast
  show thesis
    using that [OF f(1,2,3) w'] u e e' same_flags_iff(2,3) [OF u(2)] entry_flags by simp
qed

theorem fork_copy_isolated_witness:
  "\<exists>new_l2 s' s''. vms_fork_copy demo_space = Inr (new_l2, s') \<and>
     vms_write 0xABC123 7 (s'\<lparr>root_page_table := new_l2\<rparr>) = Inr s'' \<and>
     read_in (root_page_table demo_space) 0xABC123 s'' = read_in (root_page_table demo_space) 0xABC123 s'"
proof -
  let ?root = "root_page_table demo_space"
  obtain u s' t0 u0 where d: "vms_fork_copy demo_space = Inr (u, s')" "vms_wf demo_space"
    "wf_table 3 demo_space ?root" "walk s' ?root 0xABC123 = Some t0"
    "pte_write (leaf_entry s' t0 0xABC123)" "pte_read (leaf_entry s' t0 0xABC123)"
    "walk s' u 0xABC123 = Some u0"
    "pte_write (leaf_entry s' u0 0xABC123)" "pte_read (leaf_entry s' u0 0xABC123)"
    by (rule demo_fork_walks)
  have "page_offset 0xABC123 + 4 \<le> PAGE_SIZE" by (simp add: offset_abc123)
  with fork_copy_isolated [of demo_space u s' u ?root "0xABC123" u0 "0xABC123" t0 7] d
  show ?thesis by blast
qed

lemma demo_space_next:
  "maps_one demo_space 0xABC127 l2 l1 l0 p0 = maps_one demo_space 0xABC123 l2 l1 l0 p0"
  "page_offset 0xABC127 = 0x127"
proof -
  have "va_index 0xABC127 2 = va_index 0xABC123 2" "va_index 0xABC127 1 = va_index 0xABC123 1"
    "va_index 0xABC127 0 = va_index 0xABC123 0"
    by (simp_all add: va_index_def vms_page_table_index_def)
  then show "maps_one demo_space 0xABC127 l2 l1 l0 p0 = maps_one demo_space 0xABC123 l2 l1 l0 p0"
    unfolding maps_one_def by (simp only:)
  show "page_offset 0xABC127 = 0x127" by (simp add: page_offset_def)
qed

theorem vms_write_frame_witness:
  "\<exists>s' w. vms_write 0xABC123 7 demo_space = Inr s' \<and> vms_read 0xABC127 demo_space = Inr (w, demo_space) \<and>
     vms_read 0xABC127 s' = Inr (w, s')"
proof -
  obtain l2 l1 l0 p0 where m: "maps_one demo_space 0xABC123 l2 l1 l0 p0"
    and r: "root_page_table demo_space = l2" by (rule demo_space_maps)
  then have m': "maps_one demo_space 0xABC127 l2 l1 l0 p0" by (simp only: demo_space_next)
  have "vms_wf demo_space" using m by (simp add: maps_one_def)
  then show ?thesis
    using vms_write_frame [of demo_space "0xABC123" l0 "0xABC127" l0 7] maps_one_space [OF m]
      maps_one_space(3,4) [OF m'] r entry_flags offset_abc123 demo_space_next(2)
    by simp
qed

section \<open>The demonstration program\<close>

text \<open>
  \<open>main\<close> prints the two values it wrote: whatever aligned user-space address \<open>mmap\<close> returns
  (the pool below \<open>2\<^sup>5\<^sup>6\<close>), the program builds the one-page space, and the reads after the two
  writes give 1 and 2.
\<close>

theorem vms_main_output:
  assumes "p mod 4096 = 0" "unat p + MAX_PAGES * PAGE_SIZE \<le> 2 ^ 56"
  shows "vms_main 4096 p err = Inr [(0xABC123, 1), (0xABC123, 2)]"
proof -
  let ?va = "0xABC123 :: u64"
  obtain s where i: "vms_init 4096 p err vms_start = Inr s" "vms_wf s" "live s = {}"
    using vms_init_spec [OF assms, of err] by auto
  then have "card (live s) + 4 \<le> MAX_PAGES" by simp
  with i(2) obtain s0 l2 l1 l0 p0 where b: "build_space ?va s = Inr s0" "maps_one s0 ?va l2 l1 l0 p0"
    "root_page_table s0 = l2" "live s0 = {l2, l1, l0, p0} \<union> live s" "{l2, l1, l0, p0} \<inter> live s = {}"
    "ref_track s0 = ref_track s"
    by (rule build_space_ok) (rule that)
  note sp = maps_one_space [OF b(2), folded b(3)]
  have wf: "vms_wf s0" using b(2) by (simp add: maps_one_def)
  have off: "page_offset ?va + 4 \<le> PAGE_SIZE" by (simp add: offset_abc123)
  have rw: "pte_read (leaf_entry s0 l0 ?va)" "pte_write (leaf_entry s0 l0 ?va)"
    using sp(4) entry_flags by simp_all
  obtain s1 where 1: "vms_write ?va 1 s0 = Inr s1" "vms_read ?va s1 = Inr (1, s1)"
    "vms_wf s1" "wf_table 3 s1 (root_page_table s1)" "is_tree 3 s1 (root_page_table s1)"
    "walk s1 (root_page_table s1) ?va = Some l0" "leaf_entry s1 l0 ?va = leaf_entry s0 l0 ?va"
    by (rule write_then_read [OF wf sp(1-3) rw off])
  obtain s2 where 2: "vms_write ?va 2 s1 = Inr s2" "vms_read ?va s2 = Inr (2, s2)"
    by (rule write_then_read [OF 1(3-6) _ _ off]) (use 1(7) rw in simp_all)
  show ?thesis
    by (simp only: vms_main_def Let_def i(1) b(1) 1(1,2) 2(1,2) and_then_Inr prod.case)
qed

theorem vms_main_output_witness:
  "vms_main 4096 0x7F0000000000 0 = Inr [(0xABC123, 1), (0xABC123, 2)]"
  by (rule vms_main_output) simp_all

section \<open>The page allocator\<close>

text \<open>
  C12: \<open>vms_new_page\<close> hands out the lowest page of the pool that is not in use, zeroed, and counts it;
  it changes the contents of no page, and it exits with \<open>ENOMEM\<close> exactly when every page is in use.
\<close>

theorem new_page_lowest_free:
  assumes "vms_wf s"
  shows "case vms_new_page s of
      Inl e \<Rightarrow> e = Exit 12 \<and> vms_get_used_pages s = int MAX_PAGES
    | Inr (p, s') \<Rightarrow> vms_get_used_pages s < int MAX_PAGES \<and>
        vms_get_used_pages s' = vms_get_used_pages s + 1 \<and> vms_wf s' \<and>
        (\<exists>i < MAX_PAGES. p = vms_get_page_pointer (int i) s \<and> vms_get_page_index p s' = int i \<and>
          p \<notin> live s \<and> (\<forall>j < i. vms_get_page_pointer (int j) s \<in> live s)) \<and>
        live s' = insert p (live s) \<and> content s' p = replicate PAGE_SIZE 0 \<and> mem s' = mem s"
proof (cases "vms_new_page s")
  case (Inl e)
  then have "live s = pool_pages s" "e = Exit 12"
    using vms_new_page_total [OF assms] by (metis Inl_Inr_False, metis Inl_Inr_False sum.inject(1))
  with Inl card_pool_pages [of s] used_pages_live [OF assms] show ?thesis
    by simp
next
  case (Inr r)
  obtain p s' where r: "r = (p, s')" by (cases r)
  with Inr have new: "vms_new_page s = Inr (p, s')" by simp
  note N = vms_new_page_spec [OF assms new]
  obtain i where i: "i < MAX_PAGES" "\<And>j. j < i \<Longrightarrow> allocated s ! j \<noteq> 0" "p = page_ptr s i"
    by (rule vms_new_page_Inr [OF new]) (rule that)
  have low: "page_ptr s j \<in> live s" if "j < i" for j
    using that i page_ptr_live [of j s] by simp
  have ptr: "page_ptr s' i = page_ptr s i" by (simp add: page_ptr_def N(6))
  have card: "card (live s') = Suc (card (live s))" using N(2,3) by simp
  have "card (live s') \<le> MAX_PAGES" by (rule live_bound)
  with card have u: "vms_get_used_pages s < int MAX_PAGES"
    "vms_get_used_pages s' = vms_get_used_pages s + 1"
    using used_pages_live assms N(4) by simp_all
  have "vms_get_page_index p s' = int i"
    using get_page_index_page_ptr [OF i(1), of s'] ptr i(3) by simp
  with low i(1,3) N(2) have
    "\<exists>i < MAX_PAGES. p = vms_get_page_pointer (int i) s \<and> vms_get_page_index p s' = int i \<and>
      p \<notin> live s \<and> (\<forall>j < i. vms_get_page_pointer (int j) s \<in> live s)"
    unfolding vms_get_page_pointer_nat by blast
  with new u N(3,4,5,10) show ?thesis by simp
qed

theorem new_page_lowest_free_witness:
  "vms_wf demo_pool \<and> (\<exists>p s'. vms_new_page demo_pool = Inr (p, s') \<and> live s' = {p})"
proof -
  have "vms_get_used_pages demo_pool = 0"
    using used_pages_live [OF demo_pool(1)] by (simp add: demo_pool(2))
  with new_page_lowest_free [OF demo_pool(1)] show ?thesis
    by (cases "vms_new_page demo_pool") (auto simp: demo_pool)
qed

text \<open>
  C13: \<open>vms_free_page\<close> undoes \<open>vms_new_page\<close>: after the two, the pages in use and the count are those
  from before, and giving the page back a second time fails the assertion.
\<close>

theorem new_then_free_page:
  assumes "vms_wf s" "vms_new_page s = Inr (p, s1)"
  shows "\<exists>s2. vms_free_page p s1 = Inr s2 \<and> vms_wf s2 \<and> live s2 = live s \<and>
    vms_get_used_pages s2 = vms_get_used_pages s \<and> vms_free_page p s2 = Inl Assert_failed"
proof -
  obtain s2 where f: "vms_free_page p s1 = Inr s2" "vms_wf s2" "live s2 = live s"
    using vms_alloc.new_then_free [OF assms] by blast
  note N = vms_new_page_spec [OF assms]
  have "p \<in> live s1" using N(3) by simp
  from vms_free_page_spec [OF N(4) this] have "base_pointer s2 = base_pointer s1"
    using f(1) by (metis sum.inject(2))
  then have "p \<in> pool_pages s2" using N(1,9) pool_pages_cong [of s2 s1] by simp
  with f(2,3) N(2) have "vms_free_page p s2 = Inl Assert_failed"
    by (intro vms_free_page_not_live) simp_all
  moreover have "vms_get_used_pages s2 = vms_get_used_pages s"
    using used_pages_live assms(1) f(2,3) by simp
  ultimately show ?thesis using f by blast
qed

theorem new_then_free_page_witness:
  "\<exists>p s1 s2. vms_new_page demo_pool = Inr (p, s1) \<and> vms_free_page p s1 = Inr s2 \<and>
     live s2 = {} \<and> vms_free_page p s2 = Inl Assert_failed"
proof -
  have "card (live demo_pool) < MAX_PAGES" by (simp add: demo_pool(2))
  with demo_pool(1) obtain p s1 where "vms_new_page demo_pool = Inr (p, s1)"
    by (rule new_page_exists)
  with new_then_free_page [OF demo_pool(1) this] show ?thesis by (auto simp: demo_pool(2))
qed

section \<open>Entries\<close>

definition pte_flags :: "u64 \<Rightarrow> bool \<times> bool \<times> bool \<times> bool" where
  "pte_flags e = (pte_valid e, pte_read e, pte_write e, pte_custom e)"

text \<open>
  The fields of an entry are independent: storing a page number keeps the four flags and reads
  back as its low 44 bits, and setting or clearing a flag changes that flag only.
\<close>

theorem pte_fields_independent:
  "pte_get_ppn (pte_set_ppn ppn e) = take_bit 44 ppn \<and> pte_flags (pte_set_ppn ppn e) = pte_flags e \<and>
   pte_flags (pte_valid_set e) = (True, pte_read e, pte_write e, pte_custom e) \<and>
   pte_flags (pte_valid_clear e) = (False, pte_read e, pte_write e, pte_custom e) \<and>
   pte_flags (pte_read_set e) = (pte_valid e, True, pte_write e, pte_custom e) \<and>
   pte_flags (pte_read_clear e) = (pte_valid e, False, pte_write e, pte_custom e) \<and>
   pte_flags (pte_write_set e) = (pte_valid e, pte_read e, True, pte_custom e) \<and>
   pte_flags (pte_write_clear e) = (pte_valid e, pte_read e, False, pte_custom e) \<and>
   pte_flags (pte_custom_set e) = (pte_valid e, pte_read e, pte_write e, True) \<and>
   pte_flags (pte_custom_clear e) = (pte_valid e, pte_read e, pte_write e, False) \<and>
   map (\<lambda>f. pte_get_ppn (f e)) [pte_valid_set, pte_valid_clear, pte_read_set, pte_read_clear,
       pte_write_set, pte_write_clear, pte_custom_set, pte_custom_clear] =
     replicate 8 (pte_get_ppn e)"
proof -
  have "pte_get_ppn (pte_set_ppn ppn e) = take_bit 44 ppn"
    by (rule bit_word_eqI) (auto simp: pte_bits bit_take_bit_iff)
  moreover have "pte_get_ppn (f e) = pte_get_ppn e"
    if "f \<in> {pte_valid_set, pte_valid_clear, pte_read_set, pte_read_clear,
      pte_write_set, pte_write_clear, pte_custom_set, pte_custom_clear}" for f
    using that by (auto intro!: bit_word_eqI simp: pte_bits)
  ultimately show ?thesis by (simp add: pte_flags_def pte_flag_bits bit_pte_update bit_pte_set_ppn numeral_eq_Suc)
qed

text \<open>
  The range check of \<open>vms_page_to_ppn\<close> is weaker than what an entry holds: an aligned page
  pointer with its top four bits clear passes it, and still comes back from the entry only when the
  four bits below are clear as well, i.e. when it is below \<open>2\<^sup>5\<^sup>6\<close>.
\<close>

theorem page_to_ppn_check_too_weak:
  "\<exists>ppn. vms_page_to_ppn 0x100000000000000 = Inr ppn \<and>
     vms_ppn_to_page (pte_get_ppn (pte_set_ppn ppn 0)) = 0"
proof -
  have "vms_page_to_ppn 0x100000000000000 = Inr (drop_bit 12 0x100000000000000)"
    by (rule vms_page_to_ppn_ok) simp_all
  moreover have "vms_ppn_to_page (pte_get_ppn (pte_set_ppn (drop_bit 12 0x100000000000000) 0)) = 0"
    by (simp add: vms_ppn_to_page_def pte_get_ppn_def pte_set_ppn_def ppn_mask_def)
  ultimately show ?thesis by blast
qed

end
