(* ===== verification/VmsCow.thy ===== *)
theory VmsCow
  imports VmsProps
begin

text \<open>
  Copy on write: what the fault handler does to an entry that \<open>vms_fork_copy_on_write\<close> marked
  (custom bit set, write bit clear).  \<open>update_leaf\<close> is about the address space: changing one level 0
  entry, to the same page or to a page the space does not use yet, leaves a well-formed tree in
  which every other address is translated as before.
\<close>

section \<open>Changing one level 0 entry\<close>

fun l0_tables :: "nat \<Rightarrow> vms_state \<Rightarrow> u64 \<Rightarrow> u64 set" where
  "l0_tables 0 s t = {}"
| "l0_tables (Suc 0) s t = {t}"
| "l0_tables (Suc (Suc n)) s t = (\<Union>k \<in> valid_slots s t. l0_tables (Suc n) s (child s t k))"

lemma l0_tables_inner: "l0_tables n s t \<subseteq> inner_pages n s t"
  by (induction n s t rule: l0_tables.induct) auto

lemma l0_tables_tree: "l0_tables n s t \<subseteq> tree_pages n s t"
  using l0_tables_inner inner_leaf_pages by blast

lemma l0_child_pages:
  "t0 \<in> l0_tables (Suc n) s t \<Longrightarrow> k \<in> valid_slots s t0 \<Longrightarrow> child s t0 k \<in> tree_pages (Suc n) s t"
proof (induction n arbitrary: t)
  case (Suc n)
  then obtain j where j: "j \<in> valid_slots s t" "t0 \<in> l0_tables (Suc n) s (child s t j)" by auto
  from tree_pages_child [OF j(1) Suc.IH [OF j(2) Suc.prems(2)]] show ?case .
qed auto

lemma is_tree_child: "is_tree (Suc n) s t \<Longrightarrow> k \<in> valid_slots s t \<Longrightarrow> is_tree n s (child s t k)"
  by simp

lemma is_tree_root: "is_tree (Suc n) s t \<Longrightarrow> k \<in> valid_slots s t \<Longrightarrow> t \<notin> tree_pages n s (child s t k)"
  by simp

lemma is_tree_disjoint:
  "is_tree (Suc n) s t \<Longrightarrow> j \<in> valid_slots s t \<Longrightarrow> k \<in> valid_slots s t \<Longrightarrow> j \<noteq> k \<Longrightarrow>
     tree_pages n s (child s t j) \<inter> tree_pages n s (child s t k) = {}"
  by simp

text \<open>The change: in table \<open>t0\<close> only, at slot \<open>k0\<close> only, to an entry for page \<open>q\<close>.\<close>

definition leaf_change :: "u64 \<Rightarrow> nat \<Rightarrow> u64 \<Rightarrow> vms_state \<Rightarrow> vms_state \<Rightarrow> bool" where
  "leaf_change t0 k0 q s s' \<longleftrightarrow>
     k0 \<in> valid_slots s t0 \<and> k0 \<in> valid_slots s' t0 \<and> child s' t0 k0 = q \<and>
     (\<forall>k < NUM_PTE_ENTRIES. k \<noteq> k0 \<longrightarrow> ent s' t0 k = ent s t0 k)"

lemma leaf_change_slots: "leaf_change t0 k0 q s s' \<Longrightarrow> valid_slots s' t0 = valid_slots s t0"
  unfolding leaf_change_def valid_slots_def by (rule set_eqI) (metis (mono_tags, lifting) mem_Collect_eq)

lemma update_leaf_table:
  assumes ch: "leaf_change t k0 q s s'" and tree: "is_tree (Suc 0) s t"
    and q: "q = child s t k0 \<or> q \<notin> tree_pages (Suc 0) s t"
  shows "is_tree (Suc 0) s' t \<and> tree_pages (Suc 0) s' t \<subseteq> insert q (tree_pages (Suc 0) s t)"
proof -
  have sl: "valid_slots s' t = valid_slots s t" by (rule leaf_change_slots [OF ch])
  have k0: "k0 \<in> valid_slots s t" using ch by (simp add: leaf_change_def)
  have c: "child s' t k = (if k = k0 then q else child s t k)" if "k \<in> valid_slots s t" for k
    using ch valid_slotsD [OF that] by (auto simp: leaf_change_def)
  have inj: "child s t j \<noteq> child s t k" if "j \<in> valid_slots s t" "k \<in> valid_slots s t" "j \<noteq> k" for j k
    using tree that by auto
  have q': "q \<noteq> t" "k \<noteq> k0 \<Longrightarrow> k \<in> valid_slots s t \<Longrightarrow> q \<noteq> child s t k" for k
    using q tree k0 inj [of k k0] by auto
  have t: "t \<noteq> child s' t k" if "k \<in> valid_slots s t" for k
    using tree that c [OF that] q'(1) by auto
  have "child s' t j \<noteq> child s' t k" if "j \<in> valid_slots s t" "k \<in> valid_slots s t" "j \<noteq> k" for j k
    using c [OF that(1)] c [OF that(2)] inj [OF that] q'(2) [OF _ that(1)] q'(2) [OF _ that(2)] that(3)
    by (metis (full_types))
  with t have "is_tree (Suc 0) s' t" by (simp add: sl)
  moreover have "child s' t k \<in> insert q (tree_pages (Suc 0) s t)" if "k \<in> valid_slots s t" for k
    using c [OF that] that by (cases "k = k0") auto
  then have "tree_pages (Suc 0) s' t \<subseteq> insert q (tree_pages (Suc 0) s t)" by (auto simp: sl)
  ultimately show ?thesis ..
qed

text \<open>A change of the table \<open>t0\<close> below one child leaves the trees of the other children alone.\<close>

lemma sibling_stable:
  assumes tree: "is_tree (Suc (Suc n)) s t" and j: "j \<in> valid_slots s t" "t0 \<in> l0_tables (Suc n) s (child s t j)"
    and k0: "k0 \<in> valid_slots s t0" and sc: "same_content (inner_pages (Suc (Suc n)) s t - {t0}) s s'"
    and q: "q = child s t0 k0 \<or> q \<notin> tree_pages (Suc (Suc n)) s t" and k: "k \<in> valid_slots s t" "k \<noteq> j"
  shows "is_tree (Suc n) s' (child s t k) \<and>
    tree_pages (Suc n) s' (child s t k) = tree_pages (Suc n) s (child s t k) \<and>
    q \<notin> tree_pages (Suc n) s (child s t k)"
proof -
  have dj: "tree_pages (Suc n) s (child s t k) \<inter> tree_pages (Suc n) s (child s t j) = {}"
    by (rule is_tree_disjoint [OF tree k(1) j(1) k(2)])
  have "t0 \<in> tree_pages (Suc n) s (child s t j)" using j(2) l0_tables_tree by blast
  then have "t0 \<notin> inner_pages (Suc n) s (child s t k)" using dj unfolding inner_leaf_pages by blast
  moreover have "inner_pages (Suc n) s (child s t k) \<subseteq> inner_pages (Suc (Suc n)) s t" using k(1) by auto
  ultimately have "same_content (inner_pages (Suc n) s (child s t k)) s s'"
    by (intro same_content_subset [OF sc]) blast
  note st = inner_stable(3,4) [OF this]
  have "q \<notin> tree_pages (Suc n) s (child s t k)"
    using q tree_pages_child [OF k(1), of q "Suc n"] l0_child_pages [OF j(2) k0] dj by blast
  with st is_tree_child [OF tree k(1)] show ?thesis by simp
qed

lemma update_leaf:
  assumes "is_tree (Suc n) s t" "t0 \<in> l0_tables (Suc n) s t" "leaf_change t0 k0 q s s'"
    and "same_content (inner_pages (Suc n) s t - {t0}) s s'"
    and "q = child s t0 k0 \<or> q \<notin> tree_pages (Suc n) s t"
  shows "is_tree (Suc n) s' t \<and> tree_pages (Suc n) s' t \<subseteq> insert q (tree_pages (Suc n) s t)"
  using assms
proof (induction n arbitrary: t)
  case 0
  then show ?case using update_leaf_table [of t k0 q s s'] by (simp del: is_tree.simps tree_pages.simps)
next
  case (Suc n)
  note tree = Suc.prems(1) and ch = Suc.prems(3)
  obtain j where j: "j \<in> valid_slots s t" "t0 \<in> l0_tables (Suc n) s (child s t j)"
    using Suc.prems(2) by auto
  have t0j: "t0 \<in> tree_pages (Suc n) s (child s t j)" using j(2) l0_tables_tree by blast
  then have tt: "t \<noteq> t0" using is_tree_root [OF tree j(1)] by blast
  have k0: "k0 \<in> valid_slots s t0" using ch by (simp add: leaf_change_def)
  have root: "same_content {t} s s'"
    by (rule same_content_subset [OF Suc.prems(4)]) (use tt in auto)
  have sl: "valid_slots s' t = valid_slots s t" by (rule same_content_slots [OF root]) simp
  have c: "child s' t k = child s t k" if "k \<in> valid_slots s t" for k
    using same_content_ent [OF root, of t k] valid_slotsD [OF that] by simp
  have qj: "q = child s t0 k0 \<or> q \<notin> tree_pages (Suc n) s (child s t j)"
    using Suc.prems(5) tree_pages_child [OF j(1)] by blast
  have sub: "inner_pages (Suc n) s (child s t k) \<subseteq> inner_pages (Suc (Suc n)) s t"
    if "k \<in> valid_slots s t" for k using that by auto
  have "inner_pages (Suc n) s (child s t j) - {t0} \<subseteq> inner_pages (Suc (Suc n)) s t - {t0}"
    using sub [OF j(1)] by (rule Diff_mono) simp
  note sc = same_content_subset [OF Suc.prems(4) this]
  have IH: "is_tree (Suc n) s' (child s t j)"
    "tree_pages (Suc n) s' (child s t j) \<subseteq> insert q (tree_pages (Suc n) s (child s t j))"
    using Suc.IH [OF is_tree_child [OF tree j(1)] j(2) ch sc qj] by (rule conjunct1, rule conjunct2)
  have other: "is_tree (Suc n) s' (child s t k) \<and>
      tree_pages (Suc n) s' (child s t k) = tree_pages (Suc n) s (child s t k) \<and>
      q \<notin> tree_pages (Suc n) s (child s t k)"
    if "k \<in> valid_slots s t" "k \<noteq> j" for k
    by (rule sibling_stable [OF tree j k0 Suc.prems(4,5) that])
  have qt: "q \<noteq> t" using Suc.prems(5) l0_child_pages [OF j(2) k0] is_tree_root [OF tree j(1)]
    tree_pages_root [of t "Suc (Suc n)" s] by blast
  have trees: "is_tree (Suc n) s' (child s t k) \<and> t \<notin> tree_pages (Suc n) s' (child s t k)"
    if "k \<in> valid_slots s t" for k
    using other [OF that] IH is_tree_root [OF tree that] qt by (cases "k = j") auto
  have disj: "tree_pages (Suc n) s' (child s t a) \<inter> tree_pages (Suc n) s' (child s t b) = {}"
    if "a \<in> valid_slots s t" "b \<in> valid_slots s t" "a \<noteq> b" for a b
    using other [OF that(1)] other [OF that(2)] IH(2) is_tree_disjoint [OF tree that] that(3)
    by (cases "a = j"; cases "b = j") blast+
  have "is_tree (Suc (Suc n)) s' t"
    unfolding is_tree.simps(2) [of "Suc n"] sl using trees disj c by simp
  moreover have "tree_pages (Suc n) s' (child s t k) \<subseteq> insert q (tree_pages (Suc (Suc n)) s t)"
    if "k \<in> valid_slots s t" for k
  proof -
    have "tree_pages (Suc n) s (child s t k) \<subseteq> tree_pages (Suc (Suc n)) s t"
      using tree_pages_child [OF that] by blast
    then show ?thesis using other [OF that] IH(2) by (cases "k = j") (blast, metis subset_insertI2)
  qed
  then have "tree_pages (Suc (Suc n)) s' t \<subseteq> insert q (tree_pages (Suc (Suc n)) s t)"
    unfolding tree_pages.simps(2) [of "Suc n" s'] sl using c tree_pages_root [of t "Suc (Suc n)" s]
    by (simp add: insert_subset UN_subset_iff del: tree_pages.simps)
  ultimately show ?case by blast
qed

lemma l0_upper:
  assumes "is_tree 3 s t2" "t0 \<in> l0_tables 3 s t2"
  shows "t2 \<noteq> t0" "k \<in> valid_slots s t2 \<Longrightarrow> child s t2 k \<noteq> t0"
proof -
  have tree: "is_tree (Suc (Suc (Suc 0))) s t2" using assms(1) by (simp only: numeral_3_eq_3)
  obtain j where j: "j \<in> valid_slots s t2" "t0 \<in> l0_tables (Suc (Suc 0)) s (child s t2 j)"
    using assms(2) by (auto simp: numeral_3_eq_3)
  have t0: "t0 \<in> tree_pages (Suc (Suc 0)) s (child s t2 j)" using j(2) l0_tables_tree by blast
  then show "t2 \<noteq> t0" using is_tree_root [OF tree j(1)] by blast
  assume k: "k \<in> valid_slots s t2"
  show "child s t2 k \<noteq> t0"
  proof (cases "k = j")
    case True
    from j(2) obtain i where i: "i \<in> valid_slots s (child s t2 j)" "t0 = child s (child s t2 j) i"
      by auto
    have "child s t2 j \<notin> tree_pages (Suc 0) s (child s (child s t2 j) i)"
      by (rule is_tree_root [OF is_tree_child [OF tree j(1)] i(1)])
    then show ?thesis using True i(2) tree_pages_root by metis
  next
    case False
    then show ?thesis using is_tree_disjoint [OF tree k j(1)] t0 tree_pages_root by blast
  qed
qed

lemma walk_l0: "walk s t2 va = Some t0 \<Longrightarrow> t0 \<in> l0_tables 3 s t2"
  by (erule walk_path) (auto simp: numeral_3_eq_3)

lemma walk_update:
  assumes tree: "is_tree 3 s t2" and t0: "t0 \<in> l0_tables 3 s t2" and ch: "leaf_change t0 k0 q s s'"
    and same: "same_content (inner_pages 3 s t2 - {t0}) s s'"
    and ok: "leaf_ok (ent s t0 k0)" "leaf_ok (ent s' t0 k0)"
  shows "walk s' t2 va = walk s t2 va"
proof -
  let ?t1 = "child s t2 (va_index va 2)" and ?x = "child s (child s t2 (va_index va 2)) (va_index va 1)"
  have "t2 \<in> inner_pages 3 s t2 - {t0}" using l0_upper(1) [OF tree t0] by (simp add: numeral_3_eq_3)
  from same_content_ent [OF same this] have e2: "ent s' t2 (va_index va 2) = ent s t2 (va_index va 2)"
    by simp
  show ?thesis
  proof (cases "inner_ok (ent s t2 (va_index va 2))")
    case False
    then show ?thesis by (simp add: walk_def e2)
  next
    case i2: True
    then have k2: "va_index va 2 \<in> valid_slots s t2" by (simp add: valid_slots_def inner_ok_def)
    then have "?t1 \<in> inner_pages 3 s t2 - {t0}"
      using l0_upper(2) [OF tree t0 k2] by (auto simp: numeral_3_eq_3)
    from same_content_ent [OF same this] have e1: "ent s' ?t1 (va_index va 1) = ent s ?t1 (va_index va 1)"
      by simp
    show ?thesis
    proof (cases "inner_ok (ent s ?t1 (va_index va 1))")
      case False
      then show ?thesis by (simp add: walk_def Let_def e2 e1 del: One_nat_def)
    next
      case i1: True
      then have "va_index va 1 \<in> valid_slots s ?t1" by (simp add: valid_slots_def inner_ok_def)
      with k2 have x: "?x \<in> inner_pages 3 s t2" by (auto simp: numeral_3_eq_3)
      have "leaf_ok (ent s' ?x (va_index va 0)) = leaf_ok (ent s ?x (va_index va 0))"
      proof (cases "?x = t0")
        case True
        then show ?thesis using ch ok by (cases "va_index va 0 = k0") (auto simp: leaf_change_def)
      next
        case False
        with same_content_ent [OF same, of ?x "va_index va 0"] x show ?thesis by simp
      qed
      then show ?thesis by (simp add: walk_def Let_def e2 e1 del: One_nat_def)
    qed
  qed
qed

section \<open>The handler on a shared page\<close>

definition page_refs :: "vms_state \<Rightarrow> u64 \<Rightarrow> int" where
  "page_refs s p = ref_track s ! nat (vms_get_page_index p s)"

definition drop_ref :: "vms_state \<Rightarrow> u64 \<Rightarrow> int list" where
  "drop_ref s p = (ref_track s)[nat (vms_get_page_index p s) := page_refs s p - 1]"

text \<open>
  The entry after the handler: writable, not custom, for \<open>q\<close>.
\<close>

definition owned :: "u64 \<Rightarrow> u64 \<Rightarrow> u64 \<Rightarrow> bool" where
  "owned e q e' \<longleftrightarrow> pte_write e' \<and> \<not> pte_custom e' \<and> pte_page e' = q \<and>
     pte_valid e' = pte_valid e \<and> pte_read e' = pte_read e"

definition cow_resolved :: "u64 \<Rightarrow> nat \<Rightarrow> vms_state \<Rightarrow> u64 \<Rightarrow> vms_state \<Rightarrow> bool" where
  "cow_resolved t k s q s' \<longleftrightarrow>
     (let p = child s t k in
      vms_wf s' \<and> base_pointer s' = base_pointer s \<and> root_page_table s' = root_page_table s \<and>
      owned (ent s t k) q (ent s' t k) \<and>
      (\<forall>j < NUM_PTE_ENTRIES. j \<noteq> k \<longrightarrow> ent s' t j = ent s t j) \<and>
      same_content (live s - {t}) s s' \<and> content s' q = content s p \<and>
      (if page_refs s p = 0 then q = p \<and> live s' = live s \<and> ref_track s' = ref_track s
       else q \<notin> live s \<and> live s' = insert q (live s) \<and> ref_track s' = drop_ref s p))"

lemma page_refs_get:
  assumes "vms_wf s" "p \<in> pool_pages s"
  shows "array_get (ref_track s) (vms_get_page_index p s) = Inr (page_refs s p)"
proof -
  obtain i where i: "i < MAX_PAGES" "p = page_ptr s i" using assms(2) by (auto simp: pool_pages_def)
  then show ?thesis
    using vms_wfD(2) [OF assms(1)] get_page_index_page_ptr [OF i(1)]
    by (simp add: array_get_def page_refs_def)
qed

lemma owned_own_entry: "owned e (pte_page e) (pte_custom_clear (pte_write_set e))"
  by (simp add: owned_def pte_page_def pte_flag_bits bit_pte_update)

lemma handler_owner:
  assumes wf: "vms_wf s" and t: "t \<in> live s" "k = va_index va 0"
    and c: "pte_custom (ent s t k)" and p: "child s t k \<in> live s" "child s t k \<noteq> t"
    and r: "page_refs s (child s t k) = 0"
  shows "page_fault_handler va 0 t s = Inr (own_entry t k s)"
    "cow_resolved t k s (child s t k) (own_entry t k s)"
proof -
  have pool: "t \<in> pool_pages s" "child s t k \<in> pool_pages s" using t(1) p(1) live_in_pool by blast+
  have k: "k < NUM_PTE_ENTRIES" using t(2) by simp
  show "page_fault_handler va 0 t s = Inr (own_entry t k s)"
    using page_fault_handler_owner [of t s 0 k va] pool c t(2) page_refs_get [OF wf pool(2)] r by simp
  have wf': "vms_wf (own_entry t k s)" unfolding own_entry_def using wf t(1) k by (rule vms_wf_write_ent)
  have cont: "content (own_entry t k s) q = content s q" if "q \<in> pool_pages s" "q \<noteq> t" for q
    unfolding own_entry_def using pool(1) that k by (intro content_write_ent) auto
  have "same_content (live s - {t}) s (own_entry t k s)"
    using cont live_in_pool unfolding same_content_def by blast
  then show "cow_resolved t k s (child s t k) (own_entry t k s)"
    using wf' pool k p(2) r cont [OF pool(2) p(2)] owned_own_entry
    by (simp add: cow_resolved_def own_entry_def)
qed

lemma owned_set_ppn:
  "owned e p e' \<Longrightarrow> pte_page (pte_set_ppn ppn e') = q \<Longrightarrow> owned e q (pte_set_ppn ppn e')"
  by (simp add: owned_def pte_flag_bits bit_pte_set_ppn)

text \<open>A new page filled with the contents of a live one.\<close>

lemma fresh_copy:
  assumes wf: "vms_wf s" and p: "p \<in> live s" and free: "card (live s) < MAX_PAGES"
  obtains q s1 s2 where "vms_new_page s = Inr (q, s1)" "memcpy q p PAGE_SIZE s1 = Inr s2" "vms_wf s2"
    "q \<in> pool_pages s" "q \<notin> live s" "live s2 = insert q (live s)" "pool_pages s2 = pool_pages s"
    "\<And>x. x \<in> pool_pages s \<Longrightarrow> content s2 x = (if x = q then content s p else content s x)"
    "base_pointer s2 = base_pointer s" "root_page_table s2 = root_page_table s" "ref_track s2 = ref_track s"
    "base_pointer s1 = base_pointer s" "ref_track s1 = ref_track s"
proof -
  obtain q s1 where new: "vms_new_page s = Inr (q, s1)" using new_page_exists [OF wf free] by auto
  note N = vms_new_page_spec [OF wf new, simplified]
  have pools: "q \<in> pool_pages s1" "p \<in> pool_pages s1" using N(1,9) live_in_pool [OF p] by simp_all
  obtain s2 where s2: "memcpy q p PAGE_SIZE s1 = Inr s2"
    "base_pointer s2 = base_pointer s1" "allocated s2 = allocated s1" "used_pages s2 = used_pages s1"
    "root_page_table s2 = root_page_table s1" "ref_track s2 = ref_track s1"
    and c2: "\<And>x. x \<in> pool_pages s1 \<Longrightarrow> content s2 x = (if x = q then content s1 p else content s1 x)"
    using content_memcpy [OF pools] by blast
  have c1: "content s1 x = content s x" for x using N(5) by (simp add: content_def)
  have "vms_wf s2" by (rule vms_wf_cong [OF N(4) s2(2,3,4)]) (use s2(6) c2 N(3) in auto)
  then show thesis
    using new s2 N live_cong [OF s2(2,3)] pool_pages_cong [OF s2(2)] c2 c1 by (intro that [of q s1 s2]) simp_all
qed

lemma own_entry_view:
  assumes "vms_wf s" "t \<in> live s" "k < NUM_PTE_ENTRIES"
  shows "vms_wf (own_entry t k s)"
    "j < NUM_PTE_ENTRIES \<Longrightarrow> ent (own_entry t k s) t j =
      (if j = k then pte_custom_clear (pte_write_set (ent s t k)) else ent s t j)"
    "x \<in> pool_pages s \<Longrightarrow> x \<noteq> t \<Longrightarrow> content (own_entry t k s) x = content s x"
  using assms live_in_pool [OF assms(2)] unfolding own_entry_def
  by (simp_all add: vms_wf_write_ent content_write_ent)

lemma handler_shared:
  assumes wf: "vms_wf s" and t: "t \<in> live s" "k = va_index va 0"
    and c: "pte_custom (ent s t k)" and p: "child s t k \<in> live s" "child s t k \<noteq> t"
    and r: "page_refs s (child s t k) \<noteq> 0" and free: "card (live s) < MAX_PAGES"
  shows "\<exists>q s'. page_fault_handler va 0 t s = Inr s' \<and> cow_resolved t k s q s'"
proof -
  let ?p = "child s t k" and ?s0 = "own_entry t k s"
  have pool: "t \<in> pool_pages s" "?p \<in> pool_pages s" using t(1) p(1) live_in_pool by blast+
  have k: "k < NUM_PTE_ENTRIES" using t(2) by simp
  note O = own_entry_view [OF wf t(1) k]
  have live0: "live ?s0 = live s" "pool_pages ?s0 = pool_pages s" by (simp_all add: own_entry_def)
  obtain q s1 s2 where new: "vms_new_page ?s0 = Inr (q, s1)" "memcpy q ?p PAGE_SIZE s1 = Inr s2" "vms_wf s2"
    "q \<in> pool_pages s" "q \<notin> live s" "live s2 = insert q (live s)" "pool_pages s2 = pool_pages s"
    "\<And>x. x \<in> pool_pages s \<Longrightarrow> content s2 x = (if x = q then content ?s0 ?p else content ?s0 x)"
    "base_pointer s2 = base_pointer s" "root_page_table s2 = root_page_table s" "ref_track s2 = ref_track s"
    by (rule fresh_copy [OF O(1), of ?p]) (use p(1) free live0 in \<open>simp_all add: own_entry_def\<close>)
  have ne: "q \<noteq> t" "q \<noteq> ?p" using new(5) t(1) p(1) by auto
  have e2: "ent s2 t j = (if j = k then pte_custom_clear (pte_write_set (ent s t k)) else ent s t j)"
    if "j < NUM_PTE_ENTRIES" for j
  proof -
    have "ent s2 t j = ent ?s0 t j" using that new(8) [OF pool(1)] ne by (intro ent_cong) auto
    then show ?thesis using O(2) [OF that] by simp
  qed
  let ?e = "pte_set_ppn (drop_bit 12 q) (ent s2 t k)"
  let ?s' = "(write_ent t k ?e s2)\<lparr>ref_track := drop_ref s ?p\<rparr>"
  have q_ppn: "vms_page_to_ppn q = Inr (drop_bit 12 q)" "pte_page ?e = q"
    using page_ppn_roundtrip [OF wf new(4)] by (simp_all add: pte_page_def)
  have set: "vms_pte_set_ppn (vms_page_table_pte_entry_from_index t k) (drop_bit 12 q) s2 = Inr (write_ent t k ?e s2)"
    using pool new(7) k by (simp add: vms_pte_defs)
  have run: "page_fault_handler va 0 t s = Inr ?s'"
    using page_fault_handler_shared [of t s 0 k va] pool t(2) c page_refs_get [OF wf pool(2)] r
      new(1,2,11) q_ppn(1) set by (simp add: Let_def drop_ref_def page_refs_def)
  have "vms_wf (write_ent t k ?e s2)" by (rule vms_wf_write_ent [OF new(3) _ k]) (simp add: new(6) t(1))
  then have wf': "vms_wf ?s'"
    by (rule vms_wf_cong)
       (use vms_wfD(2) [OF new(3)] vms_wfD(2) [OF wf] in \<open>simp_all add: drop_ref_def content_def\<close>)
  have lv': "live ?s' = insert q (live s)" using live_cong [of ?s' "write_ent t k ?e s2"] new(6) by simp
  have c': "content ?s' x = (if x = q then content s ?p else content s x)"
    if "x \<in> pool_pages s" "x \<noteq> t" for x
  proof -
    have "content ?s' x = content s2 x"
      using content_write_ent [of t s2 x k ?e] pool that new(7) k by (simp add: content_def)
    then show ?thesis using new(8) [OF that(1)] O(3) [OF pool(2) p(2)] O(3) [OF that] by simp
  qed
  have same: "same_content (live s - {t}) s ?s'"
    unfolding same_content_def using c' live_in_pool [of _ s] new(5) by auto
  have e': "ent ?s' t j = (if j = k then ?e else ent s t j)" if "j < NUM_PTE_ENTRIES" for j
  proof -
    have "ent ?s' t j = ent (write_ent t k ?e s2) t j" by (simp add: ent_def)
    then show ?thesis using pool new(7) k that e2 by simp
  qed
  have "owned (ent s t k) q ?e"
    using owned_set_ppn [OF owned_own_entry q_ppn(2) [unfolded e2 [OF k], simplified]] by (simp add: e2 [OF k])
  then have "cow_resolved t k s q ?s'"
    using wf' lv' same c' [OF new(4) ne(1)] e' k r new(5,9,10) by (simp add: cow_resolved_def)
  with run show ?thesis by blast
qed

lemma handler_resolves:
  assumes "vms_wf s" "t \<in> live s" "k = va_index va 0" "pte_custom (ent s t k)"
    and "child s t k \<in> live s" "child s t k \<noteq> t"
    and "page_refs s (child s t k) = 0 \<or> card (live s) < MAX_PAGES"
  obtains q s' where "page_fault_handler va 0 t s = Inr s'" "cow_resolved t k s q s'"
  using handler_owner [OF assms(1-6)] handler_shared [OF assms(1-6)] assms(7) that by blast

section \<open>The address space after the handler\<close>

lemma cow_resolved_space:
  assumes tree: "wf_table 3 s t2" "is_tree 3 s t2" and w: "walk s t2 va = Some t0"
    and cr: "cow_resolved t0 (va_index va 0) s q s'"
  shows "wf_table 3 s' t2" "is_tree 3 s' t2" "walk s' t2 va' = walk s t2 va'"
    "pte_page (leaf_entry s' t0 va) = q" "q \<in> live s'" "q \<noteq> t0"
proof -
  let ?k = "va_index va 0" let ?p = "child s t0 ?k"
  note C = cr [unfolded cow_resolved_def Let_def]
  have in_t: "t0 \<in> l0_tables (Suc (Suc (Suc 0))) s t2" "t0 \<in> l0_tables 3 s t2"
    using walk_l0 [OF w] by (simp_all add: numeral_3_eq_3)
  have leaf: "leaf_ok (ent s t0 ?k)" using walk_leaf(5) [OF tree(1) w] by (simp add: leaf_entry_def)
  then have slot: "?k \<in> valid_slots s t0" by (simp add: valid_slots_def leaf_ok_def)
  have live: "tree_pages 3 s t2 \<subseteq> live s" by (rule tree_pages_live [OF tree(1)])
  have own: "owned (ent s t0 ?k) q (ent s' t0 ?k)" using C by blast
  then have ch: "leaf_change t0 ?k q s s'" and leaf': "leaf_ok (ent s' t0 ?k)"
    using C slot by (auto simp: leaf_change_def owned_def valid_slots_def leaf_ok_def)
  have same: "same_content (inner_pages 3 s t2 - {t0}) s s'"
    by (rule same_content_subset [of "live s - {t0}"]) (use C live inner_leaf_pages in blast)+
  have q: "q = ?p \<or> q \<notin> tree_pages (Suc (Suc (Suc 0))) s t2"
    using C live by (auto simp: numeral_3_eq_3 split: if_splits)
  note up = update_leaf [of "Suc (Suc 0)", OF _ in_t(1) ch, folded numeral_3_eq_3,
      OF tree(2) same q [folded numeral_3_eq_3]]
  then show "is_tree 3 s' t2" by blast
  show q': "q \<in> live s'" "q \<noteq> t0"
    using C walk_leaf(2,3) [OF tree(1) w] is_tree_inner_leaf [OF tree(2)] walk_in_tree [OF w]
    by (auto simp: leaf_entry_def split: if_splits)
  have "live s \<subseteq> live s'" using C by (auto split: if_splits)
  then have "tree_pages 3 s' t2 \<subseteq> live s'" using up live q'(1) by blast
  then show "wf_table 3 s' t2" unfolding wf_table_iff .
  show "walk s' t2 va' = walk s t2 va'" by (rule walk_update [OF tree(2) in_t(2) ch same leaf leaf'])
  show "pte_page (leaf_entry s' t0 va) = q" using own by (simp add: owned_def leaf_entry_def)
qed

lemma vms_write_cow:
  assumes wf: "vms_wf s" "wf_table 3 s (root_page_table s)" and w: "walk s (root_page_table s) va = Some t0"
    and e: "\<not> pte_write (leaf_entry s t0 va)" and off: "page_offset va + 4 \<le> PAGE_SIZE"
    and h: "page_fault_handler va 0 t0 s = Inr s1" and cr: "cow_resolved t0 (va_index va 0) s q s1"
    and q: "q \<in> live s1"
  shows "vms_write va v s = Inr (poke q (page_offset va) v s1)"
proof -
  note C = cr [unfolded cow_resolved_def Let_def]
  have pp: "pool_pages s1 = pool_pages s" using C by (intro pool_pages_cong) simp
  have pool: "t0 \<in> pool_pages s" "t0 \<in> pool_pages s1" "q \<in> pool_pages s1"
    using walk_leaf(1) [OF wf(2) w] pp live_in_pool [OF q] by simp_all
  have base: "get_base_page (vms_page_table_pte_entry_from_index t0 (va_index va 0)) = t0"
    using page_aligned_pool(1) [OF wf(1) pool(1)] by (intro get_base_page_entry) simp_all
  have own: "pte_write (ent s1 t0 (va_index va 0))" "child s1 t0 (va_index va 0) = q"
    using C by (auto simp: owned_def)
  have tr: "translate_address va (vms_page_table_pte_entry_from_index t0 (va_index va 0)) s1 =
      Inr (q + of_nat (page_offset va))"
    using translate_address_page [of s1 t0 "va_index va 0" va] C pool own by simp
  show ?thesis
    using in_pool_page [OF pool(3), of "page_offset va" 4] off pool own e base h tr
    by (simp add: vms_write_def mmu_walk [OF wf(2) w] pte_entry_index vms_pte_defs leaf_entry_def
        Let_def write32_def poke_def)
qed

section \<open>Writing to a copy-on-write page\<close>

lemma cow_write_facts:
  assumes "vms_wf s" "wf_table 3 s (root_page_table s)" "is_tree 3 s (root_page_table s)"
    and "walk s (root_page_table s) va = Some t0" "e = leaf_entry s t0 va" "p = pte_page e"
    and "pte_custom e" "\<not> pte_write e" "page_offset va + 4 \<le> PAGE_SIZE"
    and "page_refs s p = 0 \<or> vms_get_used_pages s < int MAX_PAGES"
  obtains q s' where "vms_write va v s = Inr s'" "vms_read va s' = Inr (v, s')"
    "pte_page (leaf_entry s' t0 va) = q"
    "if page_refs s p = 0 then q = p \<and> live s' = live s \<and> ref_track s' = ref_track s
     else q \<notin> live s \<and> live s' = insert q (live s) \<and> ref_track s' = drop_ref s p"
    "\<And>d. d + 4 \<le> page_offset va \<or> page_offset va + 4 \<le> d \<and> d + 4 \<le> PAGE_SIZE \<Longrightarrow>
       peek q d s' = peek p d s"
    "same_content (live s - {t0, q}) s s'"
    "\<And>k. k < NUM_PTE_ENTRIES \<Longrightarrow> k \<noteq> va_index va 0 \<Longrightarrow> ent s' t0 k = ent s t0 k"
    "vms_wf s'" "wf_table 3 s' (root_page_table s)" "is_tree 3 s' (root_page_table s)"
    "\<And>va'. walk s' (root_page_table s) va' = walk s (root_page_table s) va'"
    "root_page_table s' = root_page_table s" "base_pointer s' = base_pointer s"
    "owned (leaf_entry s t0 va) q (leaf_entry s' t0 va)" "content s' q = put32 (page_offset va) v (content s p)"
proof -
  let ?root = "root_page_table s" and ?k = "va_index va 0" and ?d = "page_offset va"
  have p: "p = child s t0 ?k" "e = ent s t0 ?k" using assms(5,6) by (simp_all add: leaf_entry_def)
  have t0: "t0 \<in> live s" "child s t0 ?k \<in> live s" "child s t0 ?k \<noteq> t0"
    using walk_leaf(2,3) [OF assms(2,4)] is_tree_inner_leaf [OF assms(3)] walk_in_tree [OF assms(4)]
    by (auto simp: leaf_entry_def)
  have "page_refs s (child s t0 ?k) = 0 \<or> card (live s) < MAX_PAGES"
    using assms(10) used_pages_live [OF assms(1)] p by simp
  then obtain q s1 where h: "page_fault_handler va 0 t0 s = Inr s1" and cr: "cow_resolved t0 ?k s q s1"
    using handler_resolves [OF assms(1) t0(1) refl _ t0(2,3)] assms(7) p by blast
  note C = cr [unfolded cow_resolved_def Let_def] and sp = cow_resolved_space [OF assms(2,3,4) cr]
  let ?s' = "poke q ?d v s1"
  have run: "vms_write va v s = Inr ?s'"
    using vms_write_cow [OF assms(1,2,4) _ assms(9) h cr sp(5)] assms(5,8) by simp
  have root: "root_page_table s1 = ?root" and pp: "pool_pages s1 = pool_pages s"
    using C by (blast, intro pool_pages_cong, blast)
  have w1: "walk s1 ?root va = Some t0" using sp(3) assms(4) by simp
  have "q \<in> leaf_pages 3 s1 ?root" using walk_leaf_page [OF w1] sp(4) by simp
  from poke_space [where v = v, OF _ sp(1,2) this assms(9)] C
  have sp': "vms_wf ?s'" "wf_table 3 ?s' ?root" "is_tree 3 ?s' ?root" "walk ?s' ?root x = walk s1 ?root x"
    "walk s1 ?root x = Some y \<Longrightarrow> leaf_entry ?s' y x = leaf_entry s1 y x" for x y by blast+
  have pool: "t0 \<in> pool_pages s1" "q \<in> pool_pages s1" "\<And>x. x \<in> live s \<Longrightarrow> x \<in> pool_pages s1"
    using live_in_pool t0(1) sp(5) pp by blast+
  have leaf': "leaf_entry ?s' t0 va = leaf_entry s1 t0 va" by (rule sp'(5) [OF w1])
  have rd: "pte_read (leaf_entry s1 t0 va)"
    using C walk_leaf(5) [OF assms(2,4)] assms(5,8) p
    by (auto simp: leaf_entry_def owned_def leaf_ok_def)
  have read: "vms_read va ?s' = Inr (v, ?s')"
    using vms_read_is_peek [of ?s' va t0] sp'(1,2,4) w1 root leaf' rd sp(4) assms(9)
      peek_poke(1) [OF pool(2,2) assms(9,9)] by simp
  have other: "content ?s' x = content s x" if "x \<in> live s - {t0, q}" for x
    using content_poke [OF pool(2) pool(3), of x ?d v] that assms(9) C by (auto simp: same_content_def)
  have ents: "ent ?s' t0 k = ent s t0 k" if "k < NUM_PTE_ENTRIES" "k \<noteq> ?k" for k
    using ent_cong [OF content_poke [OF pool(2,1) sp(6) assms(9)], of k v] C that by simp
  have rest: "peek q d ?s' = peek p d s" if "d + 4 \<le> ?d \<or> ?d + 4 \<le> d \<and> d + 4 \<le> PAGE_SIZE" for d
  proof -
    have d: "d + 4 \<le> PAGE_SIZE" using that assms(9) by auto
    have "peek q d ?s' = peek q d s1"
      by (rule peek_poke(2) [OF pool(2,2) assms(9) d]) (use that in auto)
    then show ?thesis using C p(1) by (simp add: peek_content [OF d])
  qed
  have counts: "if page_refs s p = 0 then q = p \<and> live ?s' = live s \<and> ref_track ?s' = ref_track s
     else q \<notin> live s \<and> live ?s' = insert q (live s) \<and> ref_track ?s' = drop_ref s p"
    using C p(1) by simp
  have "same_content (live s - {t0, q}) s ?s'" using other by (simp add: same_content_def)
  moreover have "base_pointer ?s' = base_pointer s" "root_page_table ?s' = ?root" using C root by simp_all
  moreover have "owned (leaf_entry s t0 va) q (leaf_entry ?s' t0 va)"
    using C leaf' by (simp add: leaf_entry_def)
  moreover have "content ?s' q = put32 ?d v (content s p)"
    using content_poke_same [OF assms(9), of q v s1] C p(1) by simp
  ultimately show thesis
    using run read leaf' sp(4) rest ents sp' sp(3) by (intro that [OF _ _ _ counts]) simp_all
qed

text \<open>
  C5: A write to a page marked copy on write. If nobody else refers to the page, the entry becomes
  writable in place; otherwise, a free page provided, the entry moves to a fresh page that holds a
  copy, and the reference count of the old page drops by one.  Either way the value written is what
  is read back, the other bytes of the page are the old ones, every other page in use keeps its
  bytes (the shared page included), every other entry of the table is untouched and every address
  is mapped by the same table as before.
\<close>

theorem cow_write:
  assumes "vms_wf s" "wf_table 3 s (root_page_table s)" "is_tree 3 s (root_page_table s)"
    and "walk s (root_page_table s) va = Some t0" "e = leaf_entry s t0 va" "p = pte_page e"
    and "pte_custom e" "\<not> pte_write e" "page_offset va + 4 \<le> PAGE_SIZE"
    and "page_refs s p = 0 \<or> vms_get_used_pages s < int MAX_PAGES"
  shows "\<exists>q s'. vms_write va v s = Inr s' \<and> vms_read va s' = Inr (v, s') \<and>
    pte_page (leaf_entry s' t0 va) = q \<and>
    (if page_refs s p = 0 then q = p \<and> live s' = live s \<and> ref_track s' = ref_track s
     else q \<notin> live s \<and> live s' = insert q (live s) \<and> ref_track s' = drop_ref s p) \<and>
    (\<forall>d. d + 4 \<le> page_offset va \<or> page_offset va + 4 \<le> d \<and> d + 4 \<le> PAGE_SIZE \<longrightarrow>
       peek q d s' = peek p d s) \<and>
    (\<forall>x \<in> live s - {t0, q}. content s' x = content s x) \<and>
    (\<forall>k < NUM_PTE_ENTRIES. k \<noteq> va_index va 0 \<longrightarrow> ent s' t0 k = ent s t0 k) \<and>
    vms_wf s' \<and> wf_table 3 s' (root_page_table s) \<and> is_tree 3 s' (root_page_table s) \<and>
    (\<forall>va'. walk s' (root_page_table s) va' = walk s (root_page_table s) va')"
  by (rule cow_write_facts [OF assms, of v]) (auto simp: same_content_def)

text \<open>The demonstration space with its page marked copy on write and one more reference to every page.\<close>

definition demo_cow :: vms_state where
  "demo_cow = projr (and_then (mmu 0xABC123 demo_space) (\<lambda>(entry, s).
     and_then (vms_pte_write_clear entry s) (\<lambda>s. and_then (vms_pte_custom_set entry s) (\<lambda>s.
     Inr (s\<lparr>ref_track := replicate MAX_PAGES 1\<rparr>)))))"

lemma demo_cow:
  obtains t0 where "vms_wf demo_cow" "wf_table 3 demo_cow (root_page_table demo_cow)"
    "is_tree 3 demo_cow (root_page_table demo_cow)"
    "walk demo_cow (root_page_table demo_cow) 0xABC123 = Some t0"
    "pte_custom (leaf_entry demo_cow t0 0xABC123)" "\<not> pte_write (leaf_entry demo_cow t0 0xABC123)"
    "page_refs demo_cow (pte_page (leaf_entry demo_cow t0 0xABC123)) = 1"
    "vms_get_used_pages demo_cow < int MAX_PAGES"
proof -
  let ?va = "0xABC123 :: u64" let ?k = "va_index ?va 0"
  obtain l2 l1 l0 p0 where m: "maps_one demo_space ?va l2 l1 l0 p0"
    and r: "root_page_table demo_space = l2" and lv: "live demo_space = {l2, l1, l0, p0}"
    by (rule demo_space_maps)
  note md = m [unfolded maps_one_def] and sp = maps_one_space [OF m] and sl = maps_one_slots [OF m]
  let ?e = "pte_custom_set (pte_write_clear (data_entry p0))"
  let ?s1 = "write_ent l0 ?k ?e demo_space" let ?s = "?s1\<lparr>ref_track := replicate MAX_PAGES 1\<rparr>"
  have pl: "l0 \<in> pool_pages demo_space" using md live_in_pool by auto
  have "mmu ?va demo_space = Inr (vms_page_table_pte_entry l0 ?va 0, demo_space)"
    using mmu_walk [of demo_space ?va l0] sp r by simp
  then have d: "demo_cow = ?s"
    using pl md by (simp add: demo_cow_def pte_entry_index vms_pte_defs)
  have e: "pte_valid ?e" "leaf_ok ?e" "pte_custom ?e" "\<not> pte_write ?e" "pte_page ?e = p0"
    using sl md by (simp_all add: leaf_ok_def data_entry_def table_entry_def pte_bits pte_page_def)
  have ents: "ent ?s l0 k = (if k = ?k then ?e else ent demo_space l0 k)" if "k < NUM_PTE_ENTRIES" for k
    using pl that by (simp add: ent_def [of ?s] ent_def [of ?s1, symmetric])
  have k0: "?k \<in> valid_slots demo_space l0" using sl by simp
  have ch: "leaf_change l0 ?k p0 demo_space ?s"
    using ents e k0 by (simp add: leaf_change_def valid_slots_def)
  have same: "same_content (inner_pages 3 demo_space l2 - {l0}) demo_space ?s"
    unfolding same_content_def
  proof
    fix x assume x: "x \<in> inner_pages 3 demo_space l2 - {l0}"
    then have "x \<in> pool_pages demo_space" "l0 \<noteq> x"
      using tree_pages_live [OF sp(1)] live_in_pool by (auto simp: inner_leaf_pages)
    then have "content ?s1 x = content demo_space x" using pl by (intro content_write_ent) auto
    then show "content ?s x = content demo_space x" by (simp add: content_def)
  qed
  have in_t: "l0 \<in> l0_tables (Suc (Suc (Suc 0))) demo_space l2"
    using walk_l0 [OF sp(3)] by (simp add: numeral_3_eq_3)
  have p0: "p0 = child demo_space l0 ?k" using sl by simp
  note up = update_leaf [of "Suc (Suc 0)", OF _ in_t ch, folded numeral_3_eq_3, OF sp(2) same disjI1, OF p0]
  have live: "live ?s = live demo_space" by (rule live_cong) simp_all
  have t: "is_tree 3 ?s l2" "wf_table 3 ?s l2"
    using up sp(6) lv live unfolding wf_table_iff by auto
  have w: "walk ?s l2 ?va = Some l0"
    using walk_update [OF sp(2) walk_l0 [OF sp(3)] ch same] sp(3) walk_leaf(5) [OF sp(1,3)] ents e
    by (simp add: leaf_entry_def)
  have "vms_wf ?s1" using md by (intro vms_wf_write_ent) auto
  then have wf: "vms_wf ?s"
    by (rule vms_wf_cong) (use vms_wfD(2) [of demo_space] md in \<open>simp_all add: content_def\<close>)
  have le: "leaf_entry ?s l0 ?va = ?e" using ents by (simp add: leaf_entry_def)
  have "p0 \<in> pool_pages ?s" using lv live live_in_pool [of p0 ?s] by simp
  from page_refs_get [OF wf this] have refs: "page_refs ?s p0 = 1"
    by (auto simp: array_get_def split: if_splits)
  have "card (live ?s) \<le> 4" unfolding live lv using card_length [of "[l2, l1, l0, p0]"] by simp
  then have used: "vms_get_used_pages ?s < int MAX_PAGES"
    using used_pages_live [OF wf] by simp
  show thesis
    by (rule that [of l0]; unfold d) (use wf t w le e refs used r in simp_all)
qed

theorem cow_write_witness:
  "\<exists>q s'. vms_write 0xABC123 7 demo_cow = Inr s' \<and> vms_read 0xABC123 s' = Inr (7, s') \<and>
     q \<notin> live demo_cow \<and> live s' = insert q (live demo_cow)"
proof -
  obtain t0 where d: "vms_wf demo_cow" "wf_table 3 demo_cow (root_page_table demo_cow)"
    "is_tree 3 demo_cow (root_page_table demo_cow)"
    "walk demo_cow (root_page_table demo_cow) 0xABC123 = Some t0"
    "pte_custom (leaf_entry demo_cow t0 0xABC123)" "\<not> pte_write (leaf_entry demo_cow t0 0xABC123)"
    "page_refs demo_cow (pte_page (leaf_entry demo_cow t0 0xABC123)) = 1"
    "vms_get_used_pages demo_cow < int MAX_PAGES" by (rule demo_cow)
  have "page_offset 0xABC123 + 4 \<le> PAGE_SIZE" by (simp add: offset_abc123)
  from cow_write [OF d(1-4) refl refl d(5,6) this disjI2 [OF d(8)], of 7] d(7) show ?thesis by auto
qed

end
