(* ===== verification/CowFork.thy ===== *)
theory CowFork
  imports VmsCow
begin

text \<open>
  \<open>vms_fork_copy_on_write\<close> as a whole: the copy has tables of its own that mirror those of the
  original, both map the same data pages, every entry that could be written is marked in both, and
  \<open>ref_track\<close> counts one more sharer of each page behind such an entry.  Together with \<open>cow_write\<close>
  this isolates the two address spaces from each other.
\<close>

section \<open>Marking\<close>

text \<open>The entries the loop marks, and what it makes of them.\<close>

definition cow_slot :: "u64 \<Rightarrow> bool" where
  "cow_slot e \<longleftrightarrow> pte_write e \<or> pte_custom e"

definition cow_entry :: "u64 \<Rightarrow> u64" where
  "cow_entry e = (if cow_slot e then pte_custom_set (pte_write_clear e) else e)"

lemma cow_entry_fields [simp]:
  "pte_valid (cow_entry e) = pte_valid e" "pte_read (cow_entry e) = pte_read e"
  "pte_page (cow_entry e) = pte_page e" "\<not> pte_write (cow_entry e)"
  "pte_custom (cow_entry e) = cow_slot e"
  by (auto simp: cow_entry_def cow_slot_def pte_page_def pte_flag_bits bit_pte_update
      intro!: arg_cong [of _ _ vms_ppn_to_page])

lemma marked_ppn [simp]:
  "pte_get_ppn (pte_custom_set e) = pte_get_ppn e" "pte_get_ppn (pte_write_clear e) = pte_get_ppn e"
  by (rule bit_word_eqI, simp add: pte_bits)+

section \<open>What the fork leaves\<close>

text \<open>
  By levels of tables: \<open>marked\<close> for the original tables, \<open>mirror\<close> for the new ones, \<open>tables\<close> for
  how many there are and \<open>sharers\<close> for the number of marked entries for a page.
\<close>

fun marked :: "nat \<Rightarrow> vms_state \<Rightarrow> u64 \<Rightarrow> vms_state \<Rightarrow> bool" where
  "marked 0 s p s' \<longleftrightarrow> True"
| "marked (Suc 0) s t s' \<longleftrightarrow> (\<forall>k < NUM_PTE_ENTRIES.
     ent s' t k = (if pte_valid (ent s t k) then cow_entry (ent s t k) else ent s t k))"
| "marked (Suc (Suc n)) s t s' \<longleftrightarrow> (\<forall>k < NUM_PTE_ENTRIES. ent s' t k = ent s t k) \<and>
     (\<forall>k \<in> valid_slots s t. marked (Suc n) s (child s t k) s')"

fun mirror :: "nat \<Rightarrow> vms_state \<Rightarrow> u64 \<Rightarrow> vms_state \<Rightarrow> u64 \<Rightarrow> bool" where
  "mirror 0 s p s' q \<longleftrightarrow> q = p"
| "mirror (Suc 0) s t s' u \<longleftrightarrow> (\<forall>k < NUM_PTE_ENTRIES.
     ent s' u k = (if pte_valid (ent s t k) then cow_entry (ent s t k) else 0))"
| "mirror (Suc (Suc n)) s t s' u \<longleftrightarrow> (\<forall>k < NUM_PTE_ENTRIES.
     if pte_valid (ent s t k)
     then same_flags (ent s' u k) (ent s t k) \<and> mirror (Suc n) s (child s t k) s' (child s' u k)
     else ent s' u k = 0)"

fun tables :: "nat \<Rightarrow> vms_state \<Rightarrow> u64 \<Rightarrow> nat" where
  "tables 0 s p = 0"
| "tables (Suc n) s t = 1 + (\<Sum>k \<in> valid_slots s t. tables n s (child s t k))"

fun sharers :: "nat \<Rightarrow> vms_state \<Rightarrow> u64 \<Rightarrow> u64 \<Rightarrow> int" where
  "sharers 0 s p x = 0"
| "sharers (Suc 0) s t x = (\<Sum>k \<in> valid_slots s t. if cow_slot (ent s t k) \<and> child s t k = x then 1 else 0)"
| "sharers (Suc (Suc n)) s t x = (\<Sum>k \<in> valid_slots s t. sharers (Suc n) s (child s t k) x)"

definition shared_copy :: "nat \<Rightarrow> vms_state \<Rightarrow> u64 \<Rightarrow> vms_state \<Rightarrow> u64 \<Rightarrow> bool" where
  "shared_copy n s t s' u \<longleftrightarrow>
     vms_wf s' \<and> base_pointer s' = base_pointer s \<and> root_page_table s' = root_page_table s \<and>
     (\<forall>x \<in> pool_pages s. page_refs s' x = page_refs s x + sharers n s t x) \<and>
     same_content (live s - l0_tables n s t) s s' \<and>
     live s' = live s \<union> inner_pages n s' u \<and> inner_pages n s' u \<inter> live s = {} \<and>
     card (live s') = card (live s) + tables n s t \<and>
     marked n s t s' \<and> mirror n s t s' u \<and> is_tree n s' u"

text \<open>All of these depend on the contents of the tables only.\<close>

lemma inner_pages_child:
  "k \<in> valid_slots s t \<Longrightarrow> inner_pages n s (child s t k) \<subseteq> inner_pages (Suc n) s t"
  by auto

lemma shared_stable:
  assumes "same_content (inner_pages n s t) s s1"
  shows "tables n s1 t = tables n s t" "l0_tables n s1 t = l0_tables n s t" "sharers n s1 t = sharers n s t"
    "marked n s1 t s' = marked n s t s'" "mirror n s1 t s' u = mirror n s t s' u"
proof -
  have "tables n s1 t = tables n s t \<and> l0_tables n s1 t = l0_tables n s t \<and> sharers n s1 t = sharers n s t \<and>
      marked n s1 t s' = marked n s t s' \<and> (\<forall>u. mirror n s1 t s' u = mirror n s t s' u)"
    using assms
  proof (induction n s t rule: l0_tables.induct)
    case (2 s t)
    have e: "ent s1 t k = ent s t k" if "k < NUM_PTE_ENTRIES" for k
      using same_content_ent [OF 2, of t k] that by simp
    have "valid_slots s1 t = valid_slots s t" by (rule same_content_slots [OF 2]) simp
    then show ?case using e by (simp add: fun_eq_iff valid_slots_def)
  next
    case (3 n s t)
    have e: "ent s1 t k = ent s t k" if "k < NUM_PTE_ENTRIES" for k
      using same_content_ent [OF 3(2), of t k] that by simp
    have sl: "valid_slots s1 t = valid_slots s t" by (rule same_content_slots [OF 3(2)]) simp
    have IH: "tables (Suc n) s1 (child s t k) = tables (Suc n) s (child s t k)"
      "l0_tables (Suc n) s1 (child s t k) = l0_tables (Suc n) s (child s t k)"
      "sharers (Suc n) s1 (child s t k) = sharers (Suc n) s (child s t k)"
      "marked (Suc n) s1 (child s t k) s' = marked (Suc n) s (child s t k) s'"
      "mirror (Suc n) s1 (child s t k) s' v = mirror (Suc n) s (child s t k) s' v"
      if k: "k \<in> valid_slots s t" for k v
    proof -
      have "same_content (inner_pages (Suc n) s (child s t k)) s s1"
        by (rule same_content_subset [OF 3(2) inner_pages_child [OF k]])
      from 3(1) [OF k this] show "tables (Suc n) s1 (child s t k) = tables (Suc n) s (child s t k)"
        "l0_tables (Suc n) s1 (child s t k) = l0_tables (Suc n) s (child s t k)"
        "sharers (Suc n) s1 (child s t k) = sharers (Suc n) s (child s t k)"
        "marked (Suc n) s1 (child s t k) s' = marked (Suc n) s (child s t k) s'"
        "mirror (Suc n) s1 (child s t k) s' v = mirror (Suc n) s (child s t k) s' v" by blast+
    qed
    have c: "child s1 t k = child s t k" if "k \<in> valid_slots s t" for k
      using e valid_slotsD [OF that] by simp
    have "tables (Suc (Suc n)) s1 t = tables (Suc (Suc n)) s t"
      by (simp only: tables.simps(2) [of "Suc n"] sl c IH cong: sum.cong)
    moreover have "l0_tables (Suc (Suc n)) s1 t = l0_tables (Suc (Suc n)) s t"
      by (simp only: l0_tables.simps(3) sl c IH cong: SUP_cong)
    moreover have "sharers (Suc (Suc n)) s1 t = sharers (Suc (Suc n)) s t"
      by (rule ext) (simp only: sharers.simps(3) sl c IH cong: sum.cong)
    moreover have "marked (Suc (Suc n)) s1 t s' = marked (Suc (Suc n)) s t s'"
    proof -
      have "(\<forall>k < NUM_PTE_ENTRIES. ent s' t k = ent s1 t k) \<longleftrightarrow> (\<forall>k < NUM_PTE_ENTRIES. ent s' t k = ent s t k)"
        using e by simp
      then show ?thesis by (simp only: marked.simps(3) sl c IH cong: ball_cong)
    qed
    moreover have "mirror (Suc (Suc n)) s1 t s' u = mirror (Suc (Suc n)) s t s' u" for u
      unfolding mirror.simps(3) using e IH(5) by (simp add: valid_slots_def cong: conj_cong)
    ultimately show ?case by blast
  qed (simp add: fun_eq_iff)
  then show "tables n s1 t = tables n s t" "l0_tables n s1 t = l0_tables n s t" "sharers n s1 t = sharers n s t"
    "marked n s1 t s' = marked n s t s'" "mirror n s1 t s' u = mirror n s t s' u" by auto
qed

lemma marked_stable: "marked n s t s' \<Longrightarrow> same_content (inner_pages n s t) s' s'' \<Longrightarrow> marked n s t s''"
proof (induction n s t s' rule: marked.induct)
  case (2 s t s')
  then show ?case using same_content_ent [OF 2(2), of t] by simp
next
  case (3 n s t s')
  have "marked (Suc n) s (child s t k) s''" if k: "k \<in> valid_slots s t" for k
    using 3(2) k by (intro 3(1) [OF k] same_content_subset [OF 3(3)]) auto
  then show ?case using 3(2) same_content_ent [OF 3(3), of t] by simp
qed simp

lemma mirror_slot:
  assumes "mirror (Suc n) s t s' u" "k < NUM_PTE_ENTRIES"
  shows "pte_valid (ent s' u k) = pte_valid (ent s t k)"
    "pte_valid (ent s t k) \<Longrightarrow> mirror n s (child s t k) s' (child s' u k)"
proof -
  have "pte_valid (ent s' u k) = pte_valid (ent s t k) \<and>
      (pte_valid (ent s t k) \<longrightarrow> mirror n s (child s t k) s' (child s' u k))"
  proof (cases n)
    case 0
    then have "ent s' u k = (if pte_valid (ent s t k) then cow_entry (ent s t k) else 0)" using assms by simp
    then show ?thesis by (simp add: 0)
  next
    case (Suc m)
    with assms have "if pte_valid (ent s t k)
        then same_flags (ent s' u k) (ent s t k) \<and> mirror (Suc m) s (child s t k) s' (child s' u k)
        else ent s' u k = 0" unfolding Suc mirror.simps(3) by blast
    then show ?thesis unfolding Suc by (cases "pte_valid (ent s t k)") (auto dest: same_flags_iff(1))
  qed
  then show "pte_valid (ent s' u k) = pte_valid (ent s t k)"
    "pte_valid (ent s t k) \<Longrightarrow> mirror n s (child s t k) s' (child s' u k)" by blast+
qed

lemma mirror_slots: "mirror (Suc n) s t s' u \<Longrightarrow> valid_slots s' u = valid_slots s t"
  using mirror_slot(1) by (auto simp: valid_slots_def)

lemma mirror_stable:
  "mirror n s t s' u \<Longrightarrow> same_content (inner_pages n s' u) s' s'' \<Longrightarrow> mirror n s t s'' u"
proof (induction n s t s' u rule: mirror.induct)
  case (2 s t s' u)
  then show ?case using same_content_ent [OF 2(2), of u] by simp
next
  case (3 n s t s' u)
  have e: "ent s'' u k = ent s' u k" if "k < NUM_PTE_ENTRIES" for k
    using same_content_ent [OF 3(3), of u k] that by simp
  have "mirror (Suc n) s (child s t k) s'' (child s' u k)" if k: "k < NUM_PTE_ENTRIES" "pte_valid (ent s t k)" for k
  proof (rule 3(1) [OF k])
    show "mirror (Suc n) s (child s t k) s' (child s' u k)" by (rule mirror_slot(2) [OF 3(2) k])
    have "k \<in> valid_slots s' u" using mirror_slots [OF 3(2)] k by (simp add: valid_slots_def)
    then show "same_content (inner_pages (Suc n) s' (child s' u k)) s' s''"
      by (rule same_content_subset [OF 3(3) inner_pages_child])
  qed
  note m = this
  show ?case
    unfolding mirror.simps(3)
  proof (intro allI impI)
    fix k assume k: "k < NUM_PTE_ENTRIES"
    then have "if pte_valid (ent s t k)
        then same_flags (ent s' u k) (ent s t k) \<and> mirror (Suc n) s (child s t k) s' (child s' u k)
        else ent s' u k = 0" using 3(2) unfolding mirror.simps(3) by blast
    then show "if pte_valid (ent s t k)
        then same_flags (ent s'' u k) (ent s t k) \<and> mirror (Suc n) s (child s t k) s'' (child s'' u k)
        else ent s'' u k = 0" using m [OF k] by (simp only: e [OF k] split: if_splits) blast+
  qed
qed simp

lemma mirror_leaf_pages: "mirror n s t s' u \<Longrightarrow> leaf_pages n s' u = leaf_pages n s t"
proof (induction n arbitrary: t u)
  case (Suc n)
  have "leaf_pages n s' (child s' u k) = leaf_pages n s (child s t k)" if "k \<in> valid_slots s t" for k
    using mirror_slot(2) [OF Suc.prems] that by (intro Suc.IH) (simp add: valid_slots_def)
  then show ?case by (simp add: mirror_slots [OF Suc.prems])
qed simp

section \<open>The loop over a level 0 table\<close>

lemma page_refs_update:
  assumes "vms_wf s" "p \<in> pool_pages s" "x \<in> pool_pages s"
  shows "page_refs (s\<lparr>ref_track := (ref_track s)[nat (vms_get_page_index p s) := page_refs s p + 1]\<rparr>) x =
    page_refs s x + (if p = x then 1 else 0)"
proof -
  obtain i j where ij: "i < MAX_PAGES" "p = page_ptr s i" "j < MAX_PAGES" "x = page_ptr s j"
    using assms(2,3) by (auto simp: pool_pages_def)
  have idx: "vms_get_page_index p s = int i" "vms_get_page_index x s = int j"
    using ij get_page_index_page_ptr by simp_all
  have "p = x" if "i = j" using that ij(2,4) by simp
  moreover have "i = j" if "p = x" using that idx by simp
  moreover have "vms_get_page_index x (s\<lparr>ref_track := r\<rparr>) = int j" for r
    using idx(2) by (simp add: vms_get_page_index_def)
  ultimately show ?thesis
    using idx ij(1,3) vms_wfD(2) [OF assms(1)] by (simp add: page_refs_def nth_list_update)
qed

lemma ref_track_frame [simp]:
  "pool_pages (s\<lparr>ref_track := r\<rparr>) = pool_pages s" "live (s\<lparr>ref_track := r\<rparr>) = live s"
  "ent (s\<lparr>ref_track := r\<rparr>) = ent s" "content (s\<lparr>ref_track := r\<rparr>) = content s"
  by (auto intro!: pool_pages_cong live_cong simp: fun_eq_iff ent_def content_def)

text \<open>One round changes the entry in both tables, and the count of the page.\<close>

definition l0_round :: "u64 \<Rightarrow> u64 \<Rightarrow> nat \<Rightarrow> vms_state \<Rightarrow> vms_state \<Rightarrow> bool" where
  "l0_round t u k s s' \<longleftrightarrow>
     (let e = ent s t k; v = pte_valid e in
      base_pointer s' = base_pointer s \<and> root_page_table s' = root_page_table s \<and>
      allocated s' = allocated s \<and> used_pages s' = used_pages s \<and>
      length (ref_track s') = length (ref_track s) \<and>
      (\<forall>x \<in> pool_pages s - {t, u}. content s' x = content s x) \<and>
      (\<forall>j < NUM_PTE_ENTRIES. ent s' t j = (if v \<and> j = k then cow_entry e else ent s t j)) \<and>
      (\<forall>j < NUM_PTE_ENTRIES. ent s' u j = (if v \<and> j = k then cow_entry e else ent s u j)) \<and>
      (\<forall>x \<in> pool_pages s. page_refs s' x =
         page_refs s x + (if v \<and> cow_slot e \<and> pte_page e = x then 1 else 0)))"

text \<open>The three stores of the round that marks an entry, and the count of the page it maps.\<close>

lemma l0_round_marks:
  fixes w
  assumes wf: "vms_wf s" and t: "t \<in> pool_pages s" "u \<in> pool_pages s" "t \<noteq> u" and k: "k < NUM_PTE_ENTRIES"
    and p: "pte_valid (ent s t k) \<Longrightarrow> child s t k \<in> pool_pages s" and e: "pte_valid (ent s t k)" "cow_slot (ent s t k)"
  defines "s1 \<equiv> write_ent t k (cow_entry (ent s t k)) (write_ent u k w s)"
  shows "l0_round t u k s (write_ent u k (cow_entry (ent s t k))
    (s1\<lparr>ref_track := (ref_track s1)[nat (vms_get_page_index (child s t k) s) := page_refs s (child s t k) + 1]\<rparr>))"
proof -
  let ?c = "cow_entry (ent s t k)" and ?p = "child s t k"
  let ?s2 = "s1\<lparr>ref_track := (ref_track s1)[nat (vms_get_page_index ?p s) := page_refs s ?p + 1]\<rparr>"
  let ?s3 = "write_ent u k ?c ?s2"
  have pool: "pool_pages s1 = pool_pages s" "pool_pages ?s2 = pool_pages s" "pool_pages (write_ent u k w s) = pool_pages s"
    by (intro pool_pages_cong, simp add: s1_def)+
  have e2: "ent ?s2 x j = ent s1 x j" "content ?s2 x = content s1 x" for x j
    by (simp_all add: ent_def content_def)
  have et: "ent ?s3 t j = (if j = k then ?c else ent s t j)" if "j < NUM_PTE_ENTRIES" for j
    using t k that pool e2 by (simp add: s1_def)
  have eu: "ent ?s3 u j = (if j = k then ?c else ent s u j)" if "j < NUM_PTE_ENTRIES" for j
    using t k that pool e2 by (simp add: s1_def)
  have ct: "content ?s3 x = content s x" if x: "x \<in> pool_pages s - {t, u}" for x
  proof -
    have "content ?s3 x = content ?s2 x" using x t k pool by (intro content_write_ent) auto
    also have "\<dots> = content (write_ent u k w s) x"
      unfolding e2 unfolding s1_def using x t k pool by (intro content_write_ent) auto
    also have "\<dots> = content s x" using x t k by (intro content_write_ent) auto
    finally show ?thesis .
  qed
  have "page_refs ?s3 x = page_refs s x + (if ?p = x then 1 else 0)" if "x \<in> pool_pages s" for x
    using page_refs_update [OF wf _ that, of ?p] p e by (simp add: page_refs_def vms_get_page_index_def s1_def)
  then show ?thesis unfolding l0_round_def Let_def using et eu ct e by (simp add: s1_def)
qed

lemma copy_l0_entry_cow:
  assumes wf: "vms_wf s" and t: "t \<in> pool_pages s" "u \<in> pool_pages s" "t \<noteq> u" and k: "k < NUM_PTE_ENTRIES"
    and p: "pte_valid (ent s t k) \<Longrightarrow> child s t k \<in> pool_pages s"
  shows "\<exists>s'. copy_l0_entry COW t u k s = Inr s' \<and> l0_round t u k s s'"
proof -
  let ?e = "ent s t k" and ?p = "child s t k"
  have off: "content (write_ent u k v s) x = content s x" if "x \<in> pool_pages s - {t, u}" for x v
    using that t k by (intro content_write_ent) auto
  consider "\<not> pte_valid ?e" | "pte_valid ?e" "\<not> cow_slot ?e" | "pte_valid ?e" "cow_slot ?e" by blast
  then show ?thesis
  proof cases
    case 1
    then have "copy_l0_entry COW t u k s = Inr s" using t k by (simp add: copy_l0_entry_def Let_def vms_pte_defs)
    moreover have "l0_round t u k s s" using 1 by (simp add: l0_round_def Let_def)
    ultimately show ?thesis by blast
  next
    case 2
    then have ce: "cow_entry ?e = ?e" "\<not> pte_write ?e" "\<not> pte_custom ?e" by (auto simp: cow_entry_def cow_slot_def)
    have "copy_l0_entry COW t u k s = Inr (write_ent u k ?e s)"
      using 2 t k ce by (simp add: copy_l0_entry_def Let_def vms_pte_defs)
    moreover have "l0_round t u k s (write_ent u k ?e s)"
      using 2 t k ce off by (auto simp: l0_round_def Let_def page_refs_def)
    ultimately show ?thesis by blast
  next
    case 3
    let ?w = "pte_custom_set (pte_write_clear (ent s u k))" and ?c = "cow_entry ?e"
    let ?s1 = "write_ent t k ?c (write_ent u k ?w s)"
    let ?s2 = "?s1\<lparr>ref_track := (ref_track ?s1)[nat (vms_get_page_index ?p s) := page_refs s ?p + 1]\<rparr>"
    have c: "?c = pte_custom_set (pte_write_clear ?e)" using 3 by (simp add: cow_entry_def)
    have pool: "pool_pages ?s1 = pool_pages s" by (intro pool_pages_cong) simp
    have pg: "array_get (ref_track s) (vms_get_page_index ?p s) = Inr (page_refs s ?p)"
      by (rule page_refs_get [OF wf p]) (use 3 in simp)
    have "copy_l0_entry COW t u k s = Inr (write_ent u k ?c ?s2)"
      using 3 t k pg c by (auto simp: copy_l0_entry_def Let_def vms_pte_defs cow_slot_def pte_page_def)
    moreover have "l0_round t u k s (write_ent u k ?c ?s2)" by (rule l0_round_marks [OF wf t k p 3])
    ultimately show ?thesis by blast
  qed
qed

text \<open>The state of the loop when the slots below \<open>i\<close> are done, from \<open>s0\<close> with an empty table \<open>u\<close>.\<close>

definition l0_progress :: "vms_state \<Rightarrow> u64 \<Rightarrow> u64 \<Rightarrow> nat \<Rightarrow> vms_state \<Rightarrow> bool" where
  "l0_progress s0 t u i s \<longleftrightarrow>
     base_pointer s = base_pointer s0 \<and> root_page_table s = root_page_table s0 \<and>
     allocated s = allocated s0 \<and> used_pages s = used_pages s0 \<and>
     length (ref_track s) = length (ref_track s0) \<and>
     (\<forall>x \<in> pool_pages s0 - {t, u}. content s x = content s0 x) \<and>
     (\<forall>k < NUM_PTE_ENTRIES. ent s t k = (if k \<in> done_slots i s0 t then cow_entry (ent s0 t k) else ent s0 t k)) \<and>
     (\<forall>k < NUM_PTE_ENTRIES. ent s u k = (if k \<in> done_slots i s0 t then cow_entry (ent s0 t k) else 0)) \<and>
     (\<forall>x \<in> pool_pages s0. page_refs s x = page_refs s0 x +
        (\<Sum>k \<in> done_slots i s0 t. if cow_slot (ent s0 t k) \<and> child s0 t k = x then 1 else 0))"

lemma l0_progress_step:
  assumes wf: "vms_wf s0" "wf_table (Suc 0) s0 t" and u: "u \<in> live s0" "t \<noteq> u"
    and prog: "l0_progress s0 t u i s" and i: "i < NUM_PTE_ENTRIES"
  shows "\<exists>s'. copy_l0_entry COW t u i s = Inr s' \<and> l0_progress s0 t u (Suc i) s'"
proof -
  note P = prog [unfolded l0_progress_def]
  have pool: "pool_pages s = pool_pages s0" using P by (intro pool_pages_cong) simp
  have t: "t \<in> live s0" using wf(2) by simp
  then have tu: "t \<in> pool_pages s" "u \<in> pool_pages s" using u live_in_pool [of _ s0] pool by simp_all
  have wfs: "vms_wf s" by (rule vms_wf_cong [OF wf(1)]) (use P t u in auto)
  have e: "ent s t i = ent s0 t i" "ent s u i = 0" using P i by simp_all
  have "child s t i \<in> pool_pages s" if "pte_valid (ent s t i)"
    using wf(2) i that e(1) live_in_pool [of "child s0 t i" s0] pool by simp
  from copy_l0_entry_cow [OF wfs tu u(2) i this] obtain s' where
    run: "copy_l0_entry COW t u i s = Inr s'" and r: "l0_round t u i s s'" by blast
  note R = r [unfolded l0_round_def Let_def e(1)]
  have v: "pte_valid (ent s0 t i) \<longleftrightarrow> i \<in> valid_slots s0 t" using i by (simp add: valid_slots_def)
  have "l0_progress s0 t u (Suc i) s'"
  proof (cases "i \<in> valid_slots s0 t")
    case True
    then show ?thesis
      using P R pool v unfolding l0_progress_def done_slots_Suc by (simp add: algebra_simps)
  next
    case False
    then show ?thesis
      using P R pool v unfolding l0_progress_def done_slots_Suc by simp
  qed
  with run show ?thesis by blast
qed

definition shares :: "nat \<Rightarrow> (u64 \<Rightarrow> vms_state \<Rightarrow> (u64 \<times> vms_state) vms_result) \<Rightarrow> bool" where
  "shares n run \<longleftrightarrow> (\<forall>s t. vms_wf s \<longrightarrow> wf_table n s t \<longrightarrow> is_tree n s t \<longrightarrow>
     outcome (\<lambda>e. e = Exit 12 \<and> MAX_PAGES < card (live s) + tables n s t)
       (\<lambda>(u, s'). shared_copy n s t s' u) (run t s))"

text \<open>A fresh page is an empty table, and nothing else changes.\<close>

lemma fresh_table:
  assumes "vms_wf s" "wf_table n s t" "vms_new_page s = Inr (u, s0)"
  shows "vms_wf s0" "u \<in> live s0" "u \<notin> live s" "live s0 = insert u (live s)" "card (live s0) = Suc (card (live s))"
    "wf_table n s0 t" "ent s0 = ent s" "content s0 = content s" "page_refs s0 = page_refs s"
    "pool_pages s0 = pool_pages s" "base_pointer s0 = base_pointer s" "root_page_table s0 = root_page_table s"
    "k < NUM_PTE_ENTRIES \<Longrightarrow> ent s0 u k = 0"
proof -
  note N = vms_new_page_spec [OF assms(1,3)]
  have c: "ent s0 = ent s" "content s0 = content s" using N(5) by (auto simp: ent_def content_def intro!: ext)
  then show "ent s0 = ent s" "content s0 = content s" by blast+
  show "vms_wf s0" "u \<in> live s0" "u \<notin> live s" "live s0 = insert u (live s)" "pool_pages s0 = pool_pages s"
    "base_pointer s0 = base_pointer s" "root_page_table s0 = root_page_table s" using N by simp_all
  show "card (live s0) = Suc (card (live s))" using N(2,3) by simp
  show "page_refs s0 = page_refs s" using N(6,7) by (simp add: fun_eq_iff page_refs_def vms_get_page_index_def)
  show "wf_table n s0 t"
    by (rule wf_table_stable [OF assms(2)]) (use N c in \<open>auto simp: same_content_def\<close>)
  show "k < NUM_PTE_ENTRIES \<Longrightarrow> ent s0 u k = 0" using N(10) by (rule ent_zero_page)
qed

lemma l0_loop_copy:
  assumes wf: "vms_wf s" "wf_table (Suc 0) s t" "is_tree (Suc 0) s t" and new: "vms_new_page s = Inr (u, s0)"
    and prog: "l0_progress s0 t u NUM_PTE_ENTRIES s'"
  shows "shared_copy (Suc 0) s t s' u"
proof -
  note F = fresh_table [OF wf(1,2) new] and P = prog [unfolded l0_progress_def]
  have D: "done_slots NUM_PTE_ENTRIES s0 t = valid_slots s t"
    by (auto simp: done_slots_def valid_slots_def F(7))
  have lv: "live s' = live s0" using P by (intro live_cong) simp_all
  have t: "t \<in> live s" using wf(2) by simp
  have "vms_wf s'" by (rule vms_wf_cong [OF F(1)]) (use P t F(2,4) in auto)
  moreover have m: "mirror (Suc 0) s t s' u" using P by (simp add: D F(7) valid_slots_def)
  moreover have "marked (Suc 0) s t s'" using P by (auto simp: D F(7) valid_slots_def)
  moreover have "same_content (live s - {t}) s s'"
    using P F(3,8,10) live_pool [of s] by (auto simp: same_content_def)
  moreover have "is_tree (Suc 0) s' u"
  proof -
    have c: "child s' u k = child s t k" if "k \<in> valid_slots s t" for k
      using m that by (simp add: valid_slots_def)
    have "child s t k \<in> live s" if "k \<in> valid_slots s t" for k
      using wf(2) that by (simp add: valid_slots_def)
    then show ?thesis using wf(3) c F(3) by (auto simp: mirror_slots [OF m])
  qed
  ultimately show ?thesis
    using P F(3,4,5,7,9,10,11,12) lv by (simp add: shared_copy_def D)
qed

lemma shares_l0: "shares (Suc 0) (copy_table (copy_l0_entry COW))"
  unfolding shares_def
proof (intro allI impI)
  fix s t assume wf: "vms_wf s" "wf_table (Suc 0) s t" "is_tree (Suc 0) s t"
  let ?E = "\<lambda>e. e = Exit 12 \<and> MAX_PAGES < card (live s) + tables (Suc 0) s t"
  have "outcome ?E (\<lambda>(u, s0). vms_new_page s = Inr (u, s0)) (vms_new_page s)"
    by (rule outcome_mono [OF new_page_outcome [OF wf(1)]]) auto
  then show "outcome ?E (\<lambda>(u, s'). shared_copy (Suc 0) s t s' u) (copy_table (copy_l0_entry COW) t s)"
    unfolding copy_table_def
  proof (rule outcome_and_then)
    fix r assume "case r of (u, s0) \<Rightarrow> vms_new_page s = Inr (u, s0)"
    then obtain u s0 where r: "r = (u, s0)" and new: "vms_new_page s = Inr (u, s0)" by (cases r) auto
    note F = fresh_table [OF wf(1,2) new]
    have start: "l0_progress s0 t u 0 s0" using F(13) by (simp add: l0_progress_def done_slots_def)
    have "t \<noteq> u" using wf(2) F(3) by auto
    have "outcome ?E (l0_progress s0 t u NUM_PTE_ENTRIES) (for_each (copy_l0_entry COW t u) [0..<NUM_PTE_ENTRIES] s0)"
    proof (rule for_each_upt_outcome [where I = "l0_progress s0 t u", OF start])
      fix i v assume "i < NUM_PTE_ENTRIES" "l0_progress s0 t u i v"
      with l0_progress_step [OF F(1,6,2) \<open>t \<noteq> u\<close>, of i v]
      show "outcome ?E (l0_progress s0 t u (Suc i)) (copy_l0_entry COW t u i v)" by auto
    qed
    then show "outcome ?E (\<lambda>(u, s'). shared_copy (Suc 0) s t s' u)
        (case r of (u, s) \<Rightarrow>
          and_then (for_each (copy_l0_entry COW t u) [0..<NUM_PTE_ENTRIES] s) (\<lambda>s. Inr (u, s)))"
      unfolding r prod.case by (rule outcome_and_then) (simp add: l0_loop_copy [OF wf new])
  qed
qed

section \<open>The loop over an upper table\<close>

text \<open>
  The state of the loop over the slots of \<open>t\<close>, whose children have \<open>n\<close> levels, that started in \<open>s0\<close>
  with the empty table \<open>u\<close>, when the slots below \<open>i\<close> are done.
\<close>

definition share_progress :: "nat \<Rightarrow> vms_state \<Rightarrow> u64 \<Rightarrow> u64 \<Rightarrow> nat \<Rightarrow> vms_state \<Rightarrow> bool" where
  "share_progress n s0 t u i s \<longleftrightarrow>
     vms_wf s \<and> base_pointer s = base_pointer s0 \<and> root_page_table s = root_page_table s0 \<and>
     (\<forall>x \<in> pool_pages s0. page_refs s x =
        page_refs s0 x + (\<Sum>k \<in> done_slots i s0 t. sharers n s0 (child s0 t k) x)) \<and>
     same_content (live s0 - {u} - (\<Union>k \<in> done_slots i s0 t. l0_tables n s0 (child s0 t k))) s0 s \<and>
     live s = live s0 \<union> (\<Union>k \<in> done_slots i s0 t. inner_pages n s (child s u k)) \<and>
     card (live s) = card (live s0) + (\<Sum>k \<in> done_slots i s0 t. tables n s0 (child s0 t k)) \<and>
     (\<forall>k \<in> done_slots i s0 t.
        same_flags (ent s u k) (ent s0 t k) \<and> marked n s0 (child s0 t k) s \<and>
        mirror n s0 (child s0 t k) s (child s u k) \<and> is_tree n s (child s u k) \<and>
        inner_pages n s (child s u k) \<inter> live s0 = {}) \<and>
     (\<forall>k < NUM_PTE_ENTRIES. k \<notin> done_slots i s0 t \<longrightarrow> ent s u k = 0) \<and>
     (\<forall>j \<in> done_slots i s0 t. \<forall>k \<in> done_slots i s0 t. j \<noteq> k \<longrightarrow>
        inner_pages n s (child s u j) \<inter> inner_pages n s (child s u k) = {})"

definition share_start :: "nat \<Rightarrow> vms_state \<Rightarrow> u64 \<Rightarrow> u64 \<Rightarrow> bool" where
  "share_start n s0 t u \<longleftrightarrow> copy_start n s0 t u \<and> is_tree (Suc n) s0 t"

lemma share_progress_start: "share_start n s0 t u \<Longrightarrow> share_progress n s0 t u 0 s0"
  by (simp add: share_start_def copy_start_def share_progress_def done_slots_def same_content_def)

lemma share_progress_skip:
  assumes "share_progress n s0 t u i s" "i \<notin> valid_slots s0 t"
  shows "share_progress n s0 t u (Suc i) s"
proof -
  have d: "done_slots (Suc i) s0 t = done_slots i s0 t" using assms(2) by (simp add: done_slots_Suc)
  show ?thesis using assms(1) unfolding share_progress_def d .
qed

text \<open>The tables still to be copied are as they were.\<close>

lemma share_todo:
  assumes "share_start n s0 t u" "i \<in> valid_slots s0 t"
  shows "tree_pages n s0 (child s0 t i) \<subseteq>
    live s0 - {u} - (\<Union>k \<in> done_slots i s0 t. tree_pages n s0 (child s0 t k))"
proof -
  note S = assms(1) [unfolded share_start_def copy_start_def]
  have "tree_pages n s0 (child s0 t i) \<subseteq> live s0"
    using S assms(2) by (intro tree_pages_live wf_table_child) auto
  moreover have "u \<notin> tree_pages n s0 (child s0 t i)" using S tree_pages_child [OF assms(2)] by blast
  moreover have "tree_pages n s0 (child s0 t i) \<inter> tree_pages n s0 (child s0 t k) = {}"
    if "k \<in> done_slots i s0 t" for k
    using S that assms(2) by (intro is_tree_disjoint) (auto simp: done_slots_def)
  ultimately show ?thesis by blast
qed

lemma share_progress_original:
  assumes "share_start n s0 t u" "share_progress n s0 t u i s"
  shows "t \<in> live s" "t \<noteq> u" "k < NUM_PTE_ENTRIES \<Longrightarrow> ent s t k = ent s0 t k"
    "i \<in> valid_slots s0 t \<Longrightarrow> same_content (tree_pages n s0 (child s0 t i)) s0 s"
    "i \<in> valid_slots s0 t \<Longrightarrow> wf_table n s (child s0 t i) \<and> is_tree n s (child s0 t i)"
proof -
  note S = assms(1) [unfolded share_start_def copy_start_def] and P = assms(2) [unfolded share_progress_def]
  have PS: "same_content (live s0 - {u} - (\<Union>k \<in> done_slots i s0 t. l0_tables n s0 (child s0 t k))) s0 s"
    using P by blast
  have t: "t \<in> live s0" "t \<noteq> u" using S tree_pages_root [of t "Suc n" s0] wf_table_live by auto
  then show "t \<in> live s" "t \<noteq> u" using P by blast+
  have "t \<notin> l0_tables n s0 (child s0 t k)" if "k \<in> done_slots i s0 t" for k
  proof -
    have "k \<in> valid_slots s0 t" using that by (simp add: done_slots_def)
    then have "t \<notin> tree_pages n s0 (child s0 t k)" using S by (intro is_tree_root) blast
    then show ?thesis using l0_tables_tree by blast
  qed
  with t have "t \<in> live s0 - {u} - (\<Union>k \<in> done_slots i s0 t. l0_tables n s0 (child s0 t k))" by blast
  then show "k < NUM_PTE_ENTRIES \<Longrightarrow> ent s t k = ent s0 t k" by (rule same_content_ent [OF PS])
  assume i: "i \<in> valid_slots s0 t"
  have "tree_pages n s0 (child s0 t i) \<subseteq>
      live s0 - {u} - (\<Union>k \<in> done_slots i s0 t. l0_tables n s0 (child s0 t k))"
    using share_todo [OF assms(1) i] l0_tables_tree by blast
  then show same: "same_content (tree_pages n s0 (child s0 t i)) s0 s"
    by (rule same_content_subset [OF PS])
  have "wf_table n s0 (child s0 t i)" "is_tree n s0 (child s0 t i)" "live s0 \<subseteq> live s"
    using S i P by (auto intro: wf_table_child)
  then show "wf_table n s (child s0 t i) \<and> is_tree n s (child s0 t i)"
    using wf_table_stable [OF _ same] tree_stable(2) [OF same] by blast
qed

text \<open>Linking a finished copy \<open>q\<close> of the child into slot \<open>i\<close>.\<close>

text \<open>One step of the loop: the copy of the subtree \<open>i\<close> is done, and the entry \<open>i\<close> is linked.\<close>

lemma share_link_copy:
  assumes start: "share_start n s0 t u" and prog: "share_progress n s0 t u i s"
    and i: "i \<in> valid_slots s0 t" and cp: "shared_copy n s (child s0 t i) s1 q"
  shows "vms_wf s1 \<and> base_pointer s1 = base_pointer s \<and> root_page_table s1 = root_page_table s \<and>
    live s1 = live s \<union> inner_pages n s1 q"
    and "inner_pages n s1 q \<inter> live s = {}" "card (live s1) = card (live s) + tables n s0 (child s0 t i)"
    and "same_content (live s - l0_tables n s0 (child s0 t i)) s s1"
    and "x \<in> pool_pages s0 \<Longrightarrow> page_refs s1 x = page_refs s x + sharers n s0 (child s0 t i) x"
    and "marked n s0 (child s0 t i) s1" "mirror n s0 (child s0 t i) s1 q" "is_tree n s1 q"
proof -
  have "same_content (inner_pages n s0 (child s0 t i)) s0 s"
    using share_progress_original(4) [OF start prog i] by (rule same_content_subset) (simp add: inner_leaf_pages)
  note C = cp [unfolded shared_copy_def shared_stable [OF this]]
  show "vms_wf s1 \<and> base_pointer s1 = base_pointer s \<and> root_page_table s1 = root_page_table s \<and>
      live s1 = live s \<union> inner_pages n s1 q" using C by blast
  show "inner_pages n s1 q \<inter> live s = {}" "card (live s1) = card (live s) + tables n s0 (child s0 t i)"
    "same_content (live s - l0_tables n s0 (child s0 t i)) s s1"
    "marked n s0 (child s0 t i) s1" "mirror n s0 (child s0 t i) s1 q" "is_tree n s1 q" using C by blast+
  have "pool_pages s = pool_pages s0" using prog by (auto simp: share_progress_def intro!: pool_pages_cong)
  then show "page_refs s1 x = page_refs s x + sharers n s0 (child s0 t i) x" if "x \<in> pool_pages s0" for x
    using C that by blast
qed

lemma share_link_pages:
  assumes start: "share_start n s0 t u" and prog: "share_progress n s0 t u i s"
    and i: "i \<in> valid_slots s0 t" and cp: "shared_copy n s (child s0 t i) s1 q"
  shows "pool_pages s1 = pool_pages s0" "u \<in> live s0" "u \<in> live s" "live s \<subseteq> pool_pages s1" "live s1 \<subseteq> pool_pages s1"
    "live s0 \<subseteq> live s" "u \<notin> l0_tables n s0 (child s0 t i)"
    "tree_pages n s0 (child s0 t i) \<subseteq> live s0 - {u} - (\<Union>k \<in> done_slots i s0 t. tree_pages n s0 (child s0 t k))"
proof -
  note P = prog [unfolded share_progress_def] and S = start [unfolded share_start_def copy_start_def]
    and C = share_link_copy(1) [OF start prog i cp]
  show pool: "pool_pages s1 = pool_pages s0" using P C by (auto intro!: pool_pages_cong)
  show "u \<in> live s0" using S by blast
  then show "u \<in> live s" using P by blast
  show "live s0 \<subseteq> live s" using P by blast
  have "pool_pages s = pool_pages s1" using C by (auto intro!: pool_pages_cong)
  then show "live s \<subseteq> pool_pages s1" "live s1 \<subseteq> pool_pages s1" using live_pool [of s] live_pool [of s1] by auto
  show todo: "tree_pages n s0 (child s0 t i) \<subseteq>
      live s0 - {u} - (\<Union>k \<in> done_slots i s0 t. tree_pages n s0 (child s0 t k))"
    by (rule share_todo [OF start i])
  have "l0_tables n s0 (child s0 t i) \<subseteq> tree_pages n s0 (child s0 t i)"
    using l0_tables_tree by (auto simp: inner_leaf_pages)
  then show "u \<notin> l0_tables n s0 (child s0 t i)" using todo by blast
qed

lemma share_link_frame:
  assumes start: "share_start n s0 t u" and prog: "share_progress n s0 t u i s"
    and i: "i \<in> valid_slots s0 t" and cp: "shared_copy n s (child s0 t i) s1 q"
  shows "x \<in> pool_pages s1 \<Longrightarrow> x \<noteq> u \<Longrightarrow> content (write_ent u i e s1) x = content s1 x"
    and "same_content (live s - {u} - l0_tables n s0 (child s0 t i)) s (write_ent u i e s1)"
    and "same_content (inner_pages n s1 q) s1 (write_ent u i e s1)"
    and "k < NUM_PTE_ENTRIES \<Longrightarrow> ent (write_ent u i e s1) u k = (if k = i then e else ent s u k)"
proof -
  let ?s2 = "write_ent u i e s1" and ?L = "l0_tables n s0 (child s0 t i)"
  note C = share_link_copy [OF start prog i cp] and G = share_link_pages [OF start prog i cp]
  have i512: "i < NUM_PTE_ENTRIES" using i by (simp add: valid_slots_def)
  have u1: "u \<in> pool_pages s1" using G(3,4) by blast
  show off: "content ?s2 x = content s1 x" if "x \<in> pool_pages s1" "x \<noteq> u" for x
    using that u1 i512 by (intro content_write_ent) auto
  show "same_content (live s - {u} - ?L) s ?s2"
    unfolding same_content_def
  proof
    fix x assume x: "x \<in> live s - {u} - ?L"
    then have "content ?s2 x = content s1 x" using off G(4) by blast
    moreover have "content s1 x = content s x" using C(4) x by (auto simp: same_content_def)
    ultimately show "content ?s2 x = content s x" by simp
  qed
  have "u \<notin> inner_pages n s1 q" "inner_pages n s1 q \<subseteq> pool_pages s1" using C(1,2) G(3,5) by blast+
  then show "same_content (inner_pages n s1 q) s1 ?s2"
    unfolding same_content_def using off by blast
  show "ent ?s2 u k = (if k = i then e else ent s u k)" if "k < NUM_PTE_ENTRIES" for k
  proof -
    have "u \<in> live s - ?L" using G(3,7) by blast
    then have "ent s1 u k = ent s u k" using C(4) that same_content_ent by blast
    then show ?thesis using u1 i512 that by simp
  qed
qed

text \<open>The subtrees linked before are unchanged.\<close>

lemma share_link_done:
  assumes start: "share_start n s0 t u" and prog: "share_progress n s0 t u i s"
    and i: "i \<in> valid_slots s0 t" and cp: "shared_copy n s (child s0 t i) s1 q"
    and k: "k \<in> done_slots i s0 t"
  shows "child (write_ent u i e s1) u k = child s u k" "ent (write_ent u i e s1) u k = ent s u k"
    "inner_pages n (write_ent u i e s1) (child s u k) = inner_pages n s (child s u k)"
    "is_tree n (write_ent u i e s1) (child s u k) = is_tree n s (child s u k)"
    "marked n s0 (child s0 t k) (write_ent u i e s1)"
    "mirror n s0 (child s0 t k) (write_ent u i e s1) (child s u k)"
proof -
  let ?s2 = "write_ent u i e s1" and ?L = "l0_tables n s0 (child s0 t i)"
  note P = prog [unfolded share_progress_def] and S = start [unfolded share_start_def copy_start_def]
    and G = share_link_pages [OF start prog i cp] and F = share_link_frame [OF start prog i cp, where e = e]
  have kk: "k < NUM_PTE_ENTRIES" "k \<noteq> i" using k by (auto simp: done_slots_def valid_slots_def)
  then show entk: "ent ?s2 u k = ent s u k" using F(4) [of k] by simp
  then show "child ?s2 u k = child s u k" by simp
  have L: "?L \<subseteq> tree_pages n s0 (child s0 t i)" using l0_tables_tree by (auto simp: inner_leaf_pages)
  have "inner_pages n s (child s u k) \<subseteq> live s" "inner_pages n s (child s u k) \<inter> live s0 = {}"
    using P k by blast+
  then have "inner_pages n s (child s u k) \<subseteq> live s - {u} - ?L" using G(2,8) L by blast
  then have st: "same_content (inner_pages n s (child s u k)) s ?s2"
    by (rule same_content_subset [OF F(2)])
  then show "inner_pages n ?s2 (child s u k) = inner_pages n s (child s u k)"
    "is_tree n ?s2 (child s u k) = is_tree n s (child s u k)"
    using inner_stable by blast+
  show "mirror n s0 (child s0 t k) ?s2 (child s u k)"
    using P k by (intro mirror_stable [OF _ st]) auto
  have "tree_pages n s0 (child s0 t k) \<subseteq> live s0"
    using S k by (intro tree_pages_live wf_table_child) (auto simp: done_slots_def)
  moreover have "u \<notin> tree_pages n s0 (child s0 t k)"
    using S k tree_pages_child [of k s0 t u n] by (auto simp: done_slots_def)
  moreover have "tree_pages n s0 (child s0 t k) \<inter> ?L = {}" using G(8) k L by blast
  moreover have "inner_pages n s0 (child s0 t k) \<subseteq> tree_pages n s0 (child s0 t k)" by (auto simp: inner_leaf_pages)
  ultimately have "inner_pages n s0 (child s0 t k) \<subseteq> live s - {u} - ?L" using G(6) by blast
  then have "same_content (inner_pages n s0 (child s0 t k)) s ?s2" by (rule same_content_subset [OF F(2)])
  moreover have "marked n s0 (child s0 t k) s" using P k by blast
  ultimately show "marked n s0 (child s0 t k) ?s2" using marked_stable by blast
qed

text \<open>The subtree linked now is the one copied.\<close>

lemma share_link_new:
  assumes start: "share_start n s0 t u" and prog: "share_progress n s0 t u i s"
    and i: "i \<in> valid_slots s0 t" and cp: "shared_copy n s (child s0 t i) s1 q"
    and e: "pte_page e = q"
  shows "child (write_ent u i e s1) u i = q" "inner_pages n (write_ent u i e s1) q = inner_pages n s1 q"
    "is_tree n (write_ent u i e s1) q" "marked n s0 (child s0 t i) (write_ent u i e s1)"
    "mirror n s0 (child s0 t i) (write_ent u i e s1) q"
proof -
  let ?s2 = "write_ent u i e s1" and ?p = "child s0 t i"
  note C = share_link_copy [OF start prog i cp] and G = share_link_pages [OF start prog i cp]
    and F = share_link_frame [OF start prog i cp, where e = e]
  have "i < NUM_PTE_ENTRIES" using i by (simp add: valid_slots_def)
  then show "child ?s2 u i = q" using F(4) [of i] e by simp
  show "inner_pages n ?s2 q = inner_pages n s1 q" "is_tree n ?s2 q" using inner_stable [OF F(3)] C(8) by simp_all
  show "mirror n s0 ?p ?s2 q" by (rule mirror_stable [OF C(7) F(3)])
  have "inner_pages n s0 ?p \<subseteq> pool_pages s1 - {u}" using G(4,6,8) by (auto simp: inner_leaf_pages)
  then have "same_content (inner_pages n s0 ?p) s1 ?s2" using F(1) by (auto simp: same_content_def)
  then show "marked n s0 ?p ?s2" using C(6) marked_stable by blast
qed

lemma share_link_apart:
  assumes start: "share_start n s0 t u" and prog: "share_progress n s0 t u i s"
    and i: "i \<in> valid_slots s0 t" and cp: "shared_copy n s (child s0 t i) s1 q"
    and e: "pte_page e = q"
    and jk: "j \<in> insert i (done_slots i s0 t)" "k \<in> insert i (done_slots i s0 t)" "j \<noteq> k"
  shows "inner_pages n (write_ent u i e s1) (child (write_ent u i e s1) u j) \<inter>
    inner_pages n (write_ent u i e s1) (child (write_ent u i e s1) u k) = {}"
proof -
  let ?s2 = "write_ent u i e s1" and ?D = "done_slots i s0 t"
  note P = prog [unfolded share_progress_def] and C = share_link_copy [OF start prog i cp]
    and N = share_link_new [OF start prog i cp e] and O = share_link_done [OF start prog i cp]
  have I: "inner_pages n ?s2 (child ?s2 u i) = inner_pages n s1 q" using N(1,2) by simp
  have K: "inner_pages n ?s2 (child ?s2 u l) = inner_pages n s (child s u l)" if "l \<in> ?D" for l
    unfolding O(1) [OF that] by (rule O(3) [OF that])
  have new: "inner_pages n s1 q \<inter> inner_pages n s (child s u l) = {}" if "l \<in> ?D" for l
    using C(2) P that by blast
  have old: "inner_pages n s (child s u j) \<inter> inner_pages n s (child s u k) = {}" if "j \<in> ?D" "k \<in> ?D"
    using P that jk(3) by blast
  consider "j = i" "k \<in> ?D" | "j \<in> ?D" "k = i" | "j \<in> ?D" "k \<in> ?D" using jk by blast
  then show ?thesis
  proof cases
    case 1
    then show ?thesis using new I K by simp
  next
    case 2
    then show ?thesis using new [of j] I K by (simp add: Int_commute)
  next
    case 3
    then show ?thesis using old K by simp
  qed
qed

lemma share_link_live:
  assumes start: "share_start n s0 t u" and prog: "share_progress n s0 t u i s"
    and i: "i \<in> valid_slots s0 t" and cp: "shared_copy n s (child s0 t i) s1 q"
    and e: "pte_page e = q"
  shows "live (write_ent u i e s1) = live s0 \<union>
      (\<Union>k \<in> insert i (done_slots i s0 t). inner_pages n (write_ent u i e s1) (child (write_ent u i e s1) u k))"
    and "card (live (write_ent u i e s1)) = card (live s0) + tables n s0 (child s0 t i) +
      (\<Sum>k \<in> done_slots i s0 t. tables n s0 (child s0 t k))"
proof -
  let ?s2 = "write_ent u i e s1" and ?D = "done_slots i s0 t"
  note P = prog [unfolded share_progress_def] and C = share_link_copy [OF start prog i cp]
    and N = share_link_new [OF start prog i cp e] and O = share_link_done [OF start prog i cp]
  have "(\<Union>k \<in> insert i ?D. inner_pages n ?s2 (child ?s2 u k)) =
      inner_pages n s1 q \<union> (\<Union>k \<in> ?D. inner_pages n s (child s u k))"
    using N(1,2) O(1,3) by simp
  moreover have L: "live ?s2 = live s1" by (intro live_cong) simp_all
  moreover have "live s1 = live s \<union> inner_pages n s1 q" using C(1) by blast
  moreover have "live s = live s0 \<union> (\<Union>k \<in> ?D. inner_pages n s (child s u k))" using P by blast
  ultimately show "live ?s2 = live s0 \<union> (\<Union>k \<in> insert i ?D. inner_pages n ?s2 (child ?s2 u k))"
    by (simp only: Un_ac)
  have "card (live s) = card (live s0) + (\<Sum>k \<in> ?D. tables n s0 (child s0 t k))" using P by blast
  then show "card (live ?s2) = card (live s0) + tables n s0 (child s0 t i) + (\<Sum>k \<in> ?D. tables n s0 (child s0 t k))"
    using L C(3) by simp
qed

lemma share_progress_link:
  assumes start: "share_start n s0 t u" and prog: "share_progress n s0 t u i s"
    and i: "i \<in> valid_slots s0 t" and cp: "shared_copy n s (child s0 t i) s1 q"
    and e: "pte_page e = q" "same_flags e (ent s0 t i)"
  shows "share_progress n s0 t u (Suc i) (write_ent u i e s1)"
proof -
  let ?s2 = "write_ent u i e s1" and ?D = "done_slots i s0 t"
  note P = prog [unfolded share_progress_def] and C = share_link_copy [OF start prog i cp]
    and G = share_link_pages [OF start prog i cp] and F = share_link_frame [OF start prog i cp, where e = e]
    and N = share_link_new [OF start prog i cp e(1)] and O = share_link_done [OF start prog i cp]
    and V = share_link_live [OF start prog i cp e(1)]
  have i512: "i < NUM_PTE_ENTRIES" and D': "done_slots (Suc i) s0 t = insert i ?D"
    using i by (simp_all add: valid_slots_def done_slots_Suc)
  show ?thesis
    unfolding share_progress_def D'
  proof (intro conjI)
    show "vms_wf ?s2"
    proof (rule vms_wf_cong [of s1])
      fix x assume "x \<in> pool_pages s1" "x \<notin> live s1"
      then show "content ?s2 x = content s1 x" using F(1) C(1) G(3) by auto
    qed (use C(1) in simp_all)
    show "base_pointer ?s2 = base_pointer s0" "root_page_table ?s2 = root_page_table s0" using C(1) P by simp_all
    show "\<forall>x \<in> pool_pages s0. page_refs ?s2 x =
        page_refs s0 x + (\<Sum>k \<in> insert i ?D. sharers n s0 (child s0 t k) x)"
      using P C(5) by (simp add: page_refs_def)
    have "same_content (live s0 - {u} - (\<Union>k \<in> insert i ?D. l0_tables n s0 (child s0 t k))) s ?s2"
      by (rule same_content_subset [OF F(2)]) (use G(6) in auto)
    then show "same_content (live s0 - {u} - (\<Union>k \<in> insert i ?D. l0_tables n s0 (child s0 t k))) s0 ?s2"
      using P by (auto simp: same_content_def)
    show "live ?s2 = live s0 \<union> (\<Union>k \<in> insert i ?D. inner_pages n ?s2 (child ?s2 u k))" by (rule V(1))
    show "card (live ?s2) = card (live s0) + (\<Sum>k \<in> insert i ?D. tables n s0 (child s0 t k))" using V(2) by simp
    have "same_flags (ent ?s2 u i) (ent s0 t i)" "inner_pages n s1 q \<inter> live s0 = {}"
      using F(4) [OF i512] e(2) C(2) G(6) by auto
    moreover have "same_flags (ent s u k) (ent s0 t k) \<and> is_tree n s (child s u k) \<and>
        inner_pages n s (child s u k) \<inter> live s0 = {}" if "k \<in> ?D" for k
      using P that by blast
    ultimately show "\<forall>k \<in> insert i ?D. same_flags (ent ?s2 u k) (ent s0 t k) \<and> marked n s0 (child s0 t k) ?s2 \<and>
        mirror n s0 (child s0 t k) ?s2 (child ?s2 u k) \<and> is_tree n ?s2 (child ?s2 u k) \<and>
        inner_pages n ?s2 (child ?s2 u k) \<inter> live s0 = {}"
      using N O by simp
    show "\<forall>k < NUM_PTE_ENTRIES. k \<notin> insert i ?D \<longrightarrow> ent ?s2 u k = 0" using P F(4) by auto
    show "\<forall>j \<in> insert i ?D. \<forall>k \<in> insert i ?D. j \<noteq> k \<longrightarrow>
        inner_pages n ?s2 (child ?s2 u j) \<inter> inner_pages n ?s2 (child ?s2 u k) = {}"
      using share_link_apart [OF start prog i cp e(1)] by blast
  qed
qed

lemma shared_slot:
  assumes start: "share_start n s0 t u" and prog: "share_progress n s0 t u i s"
    and i: "i \<in> valid_slots s0 t" and cp: "shared_copy n s (child s0 t i) s1 q"
  shows "t \<in> pool_pages s1 \<and> u \<in> pool_pages s1 \<and> ent s1 t i = ent s0 t i \<and> q \<in> pool_pages s1 \<and> vms_wf s1"
    "share_progress n s0 t u (Suc i) (write_ent u i (pte_set_ppn (drop_bit 12 q) (ent s0 t i)) s1)"
proof -
  let ?p = "child s0 t i"
  note orig = share_progress_original [OF start prog] and C = cp [unfolded shared_copy_def]
  have k: "i < NUM_PTE_ENTRIES" using i by (simp add: valid_slots_def)
  have u: "u \<in> live s" using prog start by (auto simp: share_progress_def share_start_def copy_start_def)
  have pool: "pool_pages s1 = pool_pages s" using C by (intro pool_pages_cong) simp
  have "t \<notin> tree_pages n s0 ?p" using start i by (intro is_tree_root) (simp_all add: share_start_def)
  then have "t \<in> live s - l0_tables n s ?p"
    using orig(1) l0_tables_tree tree_stable(1) [OF orig(4) [OF i]] by blast
  then have "ent s1 t i = ent s t i" using C k same_content_ent by blast
  moreover have q: "q \<in> pool_pages s1"
  proof (cases n)
    case 0
    then show ?thesis using orig(5) [OF i] C live_in_pool [of ?p s] pool by simp
  next
    case (Suc m)
    then show ?thesis using C by (intro live_in_pool) auto
  qed
  ultimately show all: "t \<in> pool_pages s1 \<and> u \<in> pool_pages s1 \<and> ent s1 t i = ent s0 t i \<and>
      q \<in> pool_pages s1 \<and> vms_wf s1"
    using pool live_in_pool [OF orig(1)] live_in_pool [OF u] orig(3) [OF k] C by simp
  note ppn = page_ppn_roundtrip [of s1 q]
  show "share_progress n s0 t u (Suc i) (write_ent u i (pte_set_ppn (drop_bit 12 q) (ent s0 t i)) s1)"
    using all ppn by (intro share_progress_link [OF start prog i cp]) (simp_all add: pte_page_def same_flags_set_ppn)
qed

lemma share_slot_step:
  assumes run: "shares n run" and start: "share_start n s0 t u"
    and prog: "share_progress n s0 t u i s" and i: "i < NUM_PTE_ENTRIES"
  shows "outcome (\<lambda>e. e = Exit 12 \<and>
      MAX_PAGES < card (live s0) + (\<Sum>k \<in> valid_slots s0 t. tables n s0 (child s0 t k)))
    (share_progress n s0 t u (Suc i)) (copy_slot run t u i s)"
proof (cases "i \<in> valid_slots s0 t")
  case False
  with i share_progress_original(1,3) [OF start prog] share_progress_skip [OF prog] live_in_pool [of t s]
  show ?thesis by (simp add: copy_slot_invalid valid_slots_def)
next
  case True
  let ?p = "child s0 t i"
  note orig = share_progress_original [OF start prog]
  have e: "ent s t i = ent s0 t i" "pte_valid (ent s t i)" using orig(3) [OF i] True by (simp_all add: valid_slots_def)
  have size: "tables n s ?p = tables n s0 ?p"
    by (rule shared_stable(1), rule same_content_subset [OF orig(4) [OF True]]) (simp add: inner_leaf_pages)
  have "vms_wf s" using prog by (simp add: share_progress_def)
  then have out: "outcome (\<lambda>e. e = Exit 12 \<and> MAX_PAGES < card (live s) + tables n s ?p)
      (\<lambda>(q, s'). shared_copy n s ?p s' q) (run ?p s)"
    using run orig(5) [OF True] unfolding shares_def by blast
  have "shared_copy n s ?p s1 q" if "run ?p s = Inr (q, s1)" for q s1 using out that by simp
  then have "copy_slot run t u i s = and_then (run ?p s)
      (\<lambda>(q, s1). Inr (write_ent u i (pte_set_ppn (drop_bit 12 q) (ent s0 t i)) s1))"
    unfolding e(1) [symmetric]
    by (intro copy_slot_valid [OF live_in_pool [OF orig(1)] i e(2)])
       (unfold e(1), rule shared_slot(1) [OF start prog True])
  moreover have "card (live s) = card (live s0) + (\<Sum>k \<in> done_slots i s0 t. tables n s0 (child s0 t k))"
    using prog unfolding share_progress_def by blast
  then have "card (live s) + tables n s ?p \<le> card (live s0) + (\<Sum>k \<in> valid_slots s0 t. tables n s0 (child s0 t k))"
    using slots_room [OF True, of "\<lambda>k. tables n s0 (child s0 t k)"] unfolding size by linarith
  ultimately show ?thesis
    using out shared_slot(2) [OF start prog True]
    by (elim ssubst, cases "run ?p s") (simp_all split: prod.splits)
qed

text \<open>New tables over the data pages of the children of a tree make a tree.\<close>

lemma tree_of_copies:
  assumes orig: "is_tree (Suc n) s t" and su: "valid_slots s' u = valid_slots s t"
    and ch: "\<And>k. k \<in> valid_slots s t \<Longrightarrow> is_tree n s' (child s' u k)"
    and leaf: "\<And>k. k \<in> valid_slots s t \<Longrightarrow> leaf_pages n s' (child s' u k) = leaf_pages n s (child s t k)"
    and live: "\<And>k. k \<in> valid_slots s t \<Longrightarrow> leaf_pages n s (child s t k) \<subseteq> live s"
    and inner: "\<And>k j. k \<in> valid_slots s t \<Longrightarrow> j \<in> valid_slots s t \<Longrightarrow> k \<noteq> j \<Longrightarrow>
      inner_pages n s' (child s' u k) \<inter> inner_pages n s' (child s' u j) = {}"
    and u: "u \<notin> live s"
    and new: "\<And>k. k \<in> valid_slots s t \<Longrightarrow> inner_pages n s' (child s' u k) \<inter> insert u (live s) = {}"
  shows "is_tree (Suc n) s' u"
  unfolding is_tree.simps(2) su
proof (intro conjI ballI impI)
  fix k assume k: "k \<in> valid_slots s t"
  show "is_tree n s' (child s' u k)" by (rule ch [OF k])
  show "u \<notin> tree_pages n s' (child s' u k)"
    unfolding inner_leaf_pages leaf [OF k] using new [OF k] live [OF k] u by blast
  fix j assume j: "j \<in> valid_slots s t" "k \<noteq> j"
  have "leaf_pages n s (child s t k) \<inter> leaf_pages n s (child s t j) = {}"
    using is_tree_disjoint [OF orig k j] inner_leaf_pages by blast
  with inner [OF k j] show "tree_pages n s' (child s' u k) \<inter> tree_pages n s' (child s' u j) = {}"
    unfolding inner_leaf_pages leaf [OF k] leaf [OF j(1)]
    using new [OF k] new [OF j(1)] live [OF k] live [OF j(1)] by blast
qed

lemma shared_if_done:
  assumes wf: "vms_wf s" "wf_table (Suc (Suc m)) s t" "is_tree (Suc (Suc m)) s t"
    and new: "vms_new_page s = Inr (u, s0)" and start: "share_start (Suc m) s0 t u"
    and prog: "share_progress (Suc m) s0 t u NUM_PTE_ENTRIES s'"
  shows "shared_copy (Suc (Suc m)) s t s' u"
proof -
  let ?n = "Suc m"
  note F = fresh_table [OF wf(1,2) new] and P = prog [unfolded share_progress_def]
  have same: "same_content X s s0" for X using F(8) by (simp add: same_content_def)
  have slots: "valid_slots s0 t = valid_slots s t" by (simp add: valid_slots_def F(7))
  have D: "done_slots NUM_PTE_ENTRIES s0 t = valid_slots s t"
    by (auto simp: done_slots_def valid_slots_def F(7))
  note St = shared_stable [OF same]
  have ch: "child s0 t k = child s t k" for k by (simp add: F(7))
  note P' = P [unfolded D ch F(7) St]
  have upper: "ent s' t k = ent s t k" if "k < NUM_PTE_ENTRIES" for k
    using share_progress_original(3) [OF start prog that] by (simp add: F(7))
  have mir: "mirror (Suc ?n) s t s' u"
    unfolding mirror.simps(3) using P' by (auto simp only: valid_slots_def mem_Collect_eq if_split)
  have su: "valid_slots s' u = valid_slots s t" by (rule mirror_slots [OF mir])
  have inner: "inner_pages (Suc ?n) s' u = insert u (\<Union>k \<in> valid_slots s t. inner_pages ?n s' (child s' u k))"
    by (simp only: inner_pages.simps(2) su)
  have leaf: "leaf_pages ?n s' (child s' u k) = leaf_pages ?n s (child s t k)" if "k \<in> valid_slots s t" for k
    using P' that by (intro mirror_leaf_pages) blast
  have leaf_live: "leaf_pages ?n s (child s t k) \<subseteq> live s" if "k \<in> valid_slots s t" for k
    using tree_pages_live [OF wf_table_child [OF wf(2) that]] by (simp add: inner_leaf_pages del: inner_pages.simps leaf_pages.simps)
  have new_pages: "inner_pages ?n s' (child s' u k) \<inter> insert u (live s) = {}" if "k \<in> valid_slots s t" for k
    using P' that F(4) by blast
  have tree: "is_tree (Suc ?n) s' u"
    by (rule tree_of_copies [OF wf(3) su _ leaf leaf_live _ F(3)]) (use P' new_pages in blast)+
  show ?thesis
    unfolding shared_copy_def
  proof (intro conjI)
    show "vms_wf s'" "base_pointer s' = base_pointer s" "root_page_table s' = root_page_table s"
      using P F(11,12) by auto
    show "\<forall>x \<in> pool_pages s. page_refs s' x = page_refs s x + sharers (Suc ?n) s t x"
      using P' unfolding sharers.simps(3) F(9,10) by blast
    have "same_content (live s - (\<Union>k \<in> valid_slots s t. l0_tables ?n s (child s t k))) s0 s'"
      using P' F(3,4) by (auto simp: same_content_def)
    then show "same_content (live s - l0_tables (Suc ?n) s t) s s'"
      unfolding l0_tables.simps(3) using F(8) by (simp add: same_content_def)
    show "live s' = live s \<union> inner_pages (Suc ?n) s' u" unfolding inner using P' F(4) by blast
    show "inner_pages (Suc ?n) s' u \<inter> live s = {}" unfolding inner using new_pages F(3) by blast
    have "card (live s') = Suc (card (live s)) + (\<Sum>k \<in> valid_slots s t. tables ?n s (child s t k))"
      using P' F(5) by metis
    then show "card (live s') = card (live s) + tables (Suc ?n) s t" by (simp only: tables.simps(2) add_Suc_shift)
    show "marked (Suc ?n) s t s'" unfolding marked.simps(3) using P' upper by blast
  qed (rule mir tree)+
qed

lemma shares_table:
  assumes "shares (Suc m) run"
  shows "shares (Suc (Suc m)) (copy_table (copy_slot run))"
  unfolding shares_def
proof (intro allI impI)
  fix s t assume wf: "vms_wf s" "wf_table (Suc (Suc m)) s t" "is_tree (Suc (Suc m)) s t"
  let ?n = "Suc m" let ?E = "\<lambda>e. e = Exit 12 \<and> MAX_PAGES < card (live s) + tables (Suc ?n) s t"
  have "outcome ?E (\<lambda>(u, s0). vms_new_page s = Inr (u, s0)) (vms_new_page s)"
    by (rule outcome_mono [OF new_page_outcome [OF wf(1)]]) auto
  then show "outcome ?E (\<lambda>(u, s'). shared_copy (Suc ?n) s t s' u) (copy_table (copy_slot run) t s)"
    unfolding copy_table_def
  proof (rule outcome_and_then)
    fix r assume "case r of (u, s0) \<Rightarrow> vms_new_page s = Inr (u, s0)"
    then obtain u s0 where r: "r = (u, s0)" and new: "vms_new_page s = Inr (u, s0)" by (cases r) auto
    note F = fresh_table [OF wf(1,2) new]
    have same: "same_content X s s0" for X using F(8) by (simp add: same_content_def)
    have start: "share_start ?n s0 t u"
      using F(1,2,3,6,13) wf(3) tree_pages_live [OF wf(2)] tree_stable [OF same]
      unfolding share_start_def copy_start_def by blast
    have "outcome (\<lambda>e. e = Exit 12 \<and>
        MAX_PAGES < card (live s0) + (\<Sum>k \<in> valid_slots s0 t. tables ?n s0 (child s0 t k)))
      (share_progress ?n s0 t u NUM_PTE_ENTRIES)
      (for_each (copy_slot run t u) [0..<NUM_PTE_ENTRIES] s0)"
      by (rule for_each_upt_outcome [where I = "share_progress ?n s0 t u"])
         (rule share_progress_start [OF start], rule share_slot_step [OF assms start])
    moreover have "card (live s0) + (\<Sum>k \<in> valid_slots s0 t. tables ?n s0 (child s0 t k)) =
        card (live s) + tables (Suc ?n) s t"
      using F(5) by (simp only: tables.simps(2) [of ?n] shared_stable(1) [OF same] valid_slots_def F(7))
    ultimately have "outcome ?E (share_progress ?n s0 t u NUM_PTE_ENTRIES)
        (for_each (copy_slot run t u) [0..<NUM_PTE_ENTRIES] s0)"
      by (simp only:)
    then show "outcome ?E (\<lambda>(u, s'). shared_copy (Suc ?n) s t s' u)
        (case r of (u, s) \<Rightarrow>
          and_then (for_each (copy_slot run t u) [0..<NUM_PTE_ENTRIES] s) (\<lambda>s. Inr (u, s)))"
      unfolding r prod.case
      by (rule outcome_and_then) (simp add: shared_if_done [OF wf new start] del: One_nat_def)
  qed
qed

lemma vms_fork_cow_outcome:
  assumes "vms_wf s" "wf_table 3 s (root_page_table s)" "is_tree 3 s (root_page_table s)"
  shows "outcome (\<lambda>e. e = Exit 12 \<and> MAX_PAGES < card (live s) + tables 3 s (root_page_table s))
    (\<lambda>(u, s'). shared_copy 3 s (root_page_table s) s' u) (vms_fork_copy_on_write s)"
proof -
  have "shares (Suc (Suc (Suc 0))) (copy_table (copy_l2_entry COW))"
    unfolding copy_l2_entry_slot copy_l1_entry_slot by (intro shares_table shares_l0)
  then have "shares 3 (copy_table (copy_l2_entry COW))" by (simp only: numeral_3_eq_3)
  with assms show ?thesis unfolding shares_def vms_fork_copy_on_write_def copy_table_root by blast
qed

section \<open>The two spaces after the fork\<close>

text \<open>Marking changes no page, no slot and no link of the original tree.\<close>

lemma marked_slots:
  assumes "marked (Suc n) s t s'" "k < NUM_PTE_ENTRIES"
  shows "pte_valid (ent s' t k) = pte_valid (ent s t k)" "child s' t k = child s t k"
    "k \<in> valid_slots s t \<Longrightarrow> marked n s (child s t k) s'"
  using assms by (cases n; simp add: valid_slots_def)+

lemma marked_valid_slots: "marked (Suc n) s t s' \<Longrightarrow> valid_slots s' t = valid_slots s t"
  using marked_slots(1) by (auto simp: valid_slots_def)

lemma marked_tree:
  "marked n s t s' \<Longrightarrow> tree_pages n s' t = tree_pages n s t \<and> inner_pages n s' t = inner_pages n s t \<and>
     l0_tables n s' t = l0_tables n s t \<and> leaf_pages n s' t = leaf_pages n s t \<and> is_tree n s' t = is_tree n s t"
proof (induction n arbitrary: t)
  case (Suc n)
  note sl = marked_valid_slots [OF Suc.prems]
  have c: "child s' t k = child s t k" if "k \<in> valid_slots s t" for k
    using marked_slots(2) [OF Suc.prems] that by (simp add: valid_slots_def)
  have IH: "tree_pages n s' (child s t k) = tree_pages n s (child s t k)"
    "inner_pages n s' (child s t k) = inner_pages n s (child s t k)"
    "l0_tables n s' (child s t k) = l0_tables n s (child s t k)"
    "leaf_pages n s' (child s t k) = leaf_pages n s (child s t k)"
    "is_tree n s' (child s t k) = is_tree n s (child s t k)" if "k \<in> valid_slots s t" for k
    using Suc.IH [OF marked_slots(3) [OF Suc.prems _ that]] that by (auto simp: valid_slots_def)
  have "l0_tables (Suc n) s' t = l0_tables (Suc n) s t" using sl c IH(3) by (cases n) simp_all
  then show ?case using sl c IH by simp
qed simp

text \<open>Walks of the original: the pages that cannot be read are no longer mapped once marked.\<close>

lemma leaf_ok_cow: "leaf_ok (cow_entry e) \<longleftrightarrow> pte_valid e \<and> pte_read e"
  by (simp add: leaf_ok_def)

lemma marked_walk:
  assumes "marked 3 s t s'"
  shows "walk s' t va = (case walk s t va of None \<Rightarrow> None
      | Some t0 \<Rightarrow> if pte_read (leaf_entry s t0 va) then Some t0 else None)"
    and "walk s t va = Some t0 \<Longrightarrow> leaf_entry s' t0 va = cow_entry (leaf_entry s t0 va)"
proof -
  let ?k2 = "va_index va 2" and ?k1 = "va_index va 1" and ?k0 = "va_index va 0"
  let ?t1 = "child s t ?k2" let ?t0 = "child s ?t1 ?k1"
  have m2: "marked (Suc (Suc (Suc 0))) s t s'" using assms by (simp only: numeral_3_eq_3)
  then have e2: "ent s' t ?k2 = ent s t ?k2" by simp
  have m1: "marked (Suc (Suc 0)) s ?t1 s'" if "inner_ok (ent s t ?k2)"
    using marked_slots(3) [OF m2, of ?k2] that by (simp add: valid_slots_def inner_ok_def)
  then have e1: "ent s' ?t1 ?k1 = ent s ?t1 ?k1" if "inner_ok (ent s t ?k2)" using that by simp
  have m0: "marked (Suc 0) s ?t0 s'" if "inner_ok (ent s t ?k2)" "inner_ok (ent s ?t1 ?k1)"
    using marked_slots(3) [OF m1 [OF that(1)], of ?k1] that(2) by (simp add: valid_slots_def inner_ok_def)
  then have e0: "ent s' ?t0 ?k0 =
      (if pte_valid (ent s ?t0 ?k0) then cow_entry (ent s ?t0 ?k0) else ent s ?t0 ?k0)"
    if "inner_ok (ent s t ?k2)" "inner_ok (ent s ?t1 ?k1)" using that by simp
  show "walk s' t va = (case walk s t va of None \<Rightarrow> None
      | Some t0 \<Rightarrow> if pte_read (leaf_entry s t0 va) then Some t0 else None)"
    using e2 e1 e0 by (auto simp: walk_def Let_def leaf_entry_def leaf_ok_def)
  assume w: "walk s t va = Some t0"
  then have "inner_ok (ent s t ?k2)" "inner_ok (ent s ?t1 ?k1)" "t0 = ?t0" "leaf_ok (ent s ?t0 ?k0)"
    by (auto simp: walk_def Let_def split: if_splits)
  then show "leaf_entry s' t0 va = cow_entry (leaf_entry s t0 va)"
    using e0 by (simp add: leaf_entry_def leaf_ok_def)
qed

text \<open>Walks of the copy go through its own tables to the same entries.\<close>

lemma mirror_walk:
  assumes "mirror 3 s t s' u" "marked 3 s t s'"
  shows "walk s' t va = None \<Longrightarrow> walk s' u va = None"
    and "walk s' t va = Some t0 \<Longrightarrow> \<exists>u0. walk s' u va = Some u0 \<and> leaf_entry s' u0 va = leaf_entry s' t0 va"
proof -
  let ?k2 = "va_index va 2" and ?k1 = "va_index va 1" and ?k0 = "va_index va 0"
  let ?t1 = "child s t ?k2" let ?t0 = "child s ?t1 ?k1"
  let ?u1 = "child s' u ?k2" let ?u0 = "child s' ?u1 ?k1"
  have ok0: "\<not> inner_ok 0" "\<not> leaf_ok 0" by (simp_all add: inner_ok_def leaf_ok_def)
  have slot: "inner_ok (ent s x k) \<Longrightarrow> pte_valid (ent s x k)" for x k by (simp add: inner_ok_def)
  have up: "inner_ok (ent s' y k) = inner_ok (ent s x k)"
    if "mirror (Suc (Suc n)) s x s' y" "k < NUM_PTE_ENTRIES" for n x y k
  proof (cases "pte_valid (ent s x k)")
    case True
    then have "same_flags (ent s' y k) (ent s x k)" using that unfolding mirror.simps(3) by simp
    then show ?thesis by (rule same_flags_iff(5))
  next
    case False
    then have "ent s' y k = 0" using that unfolding mirror.simps(3) by simp
    then show ?thesis using False ok0 by (simp add: inner_ok_def)
  qed
  have r2: "mirror (Suc (Suc (Suc 0))) s t s' u" using assms(1) by (simp only: numeral_3_eq_3)
  have i2: "inner_ok (ent s' u ?k2) = inner_ok (ent s t ?k2)" using up [OF r2] by simp
  have r1: "mirror (Suc (Suc 0)) s ?t1 s' ?u1" if "inner_ok (ent s t ?k2)"
    by (rule mirror_slot(2) [OF r2 _ slot [OF that]]) simp
  have i1: "inner_ok (ent s' ?u1 ?k1) = inner_ok (ent s ?t1 ?k1)" if "inner_ok (ent s t ?k2)"
    using up [OF r1 [OF that]] by simp
  have r0: "mirror (Suc 0) s ?t0 s' ?u0" if "inner_ok (ent s t ?k2)" "inner_ok (ent s ?t1 ?k1)"
    by (rule mirror_slot(2) [OF r1 [OF that(1)] _ slot [OF that(2)]]) simp
  then have e0: "ent s' ?u0 ?k0 = (if pte_valid (ent s ?t0 ?k0) then cow_entry (ent s ?t0 ?k0) else 0)"
    if "inner_ok (ent s t ?k2)" "inner_ok (ent s ?t1 ?k1)" using that by simp
  have wu: "walk s' u va = (if inner_ok (ent s t ?k2) \<and> inner_ok (ent s ?t1 ?k1) \<and>
      pte_valid (ent s ?t0 ?k0) \<and> pte_read (ent s ?t0 ?k0) then Some ?u0 else None)"
    using i2 i1 e0 ok0 by (auto simp: walk_def Let_def leaf_ok_cow)
  have wt: "walk s' t va = (if inner_ok (ent s t ?k2) \<and> inner_ok (ent s ?t1 ?k1) \<and>
      pte_valid (ent s ?t0 ?k0) \<and> pte_read (ent s ?t0 ?k0) then Some ?t0 else None)"
    unfolding marked_walk(1) [OF assms(2)] by (auto simp: walk_def Let_def leaf_entry_def leaf_ok_def)
  show "walk s' t va = None \<Longrightarrow> walk s' u va = None" using wu wt by (auto split: if_splits)
  assume w: "walk s' t va = Some t0"
  then have ok: "inner_ok (ent s t ?k2)" "inner_ok (ent s ?t1 ?k1)" "pte_valid (ent s ?t0 ?k0)"
    "pte_read (ent s ?t0 ?k0)" "t0 = ?t0" using wt by (auto split: if_splits)
  then have "walk s t va = Some t0" by (simp add: walk_def leaf_ok_def)
  from marked_walk(2) [OF assms(2) this]
  show "\<exists>u0. walk s' u va = Some u0 \<and> leaf_entry s' u0 va = leaf_entry s' t0 va"
    using wu e0 ok by (simp add: leaf_entry_def)
qed

text \<open>In a tree one entry at most leads to a page, so \<open>ref_track\<close> grows by one at most.\<close>

lemma sharers_absent: "x \<notin> leaf_pages n s t \<Longrightarrow> sharers n s t x = 0"
proof (induction n s t x rule: sharers.induct)
  case (2 s t x)
  then show ?case by (auto intro!: sum.neutral)
next
  case (3 n s t x)
  then show ?case unfolding sharers.simps(3) by (intro sum.neutral ballI 3(1)) auto
qed simp

lemma finite_slots [simp]: "finite (valid_slots s t)"
  by (simp add: valid_slots_def)

lemma sharers_child:
  assumes "is_tree (Suc (Suc n)) s t" "k \<in> valid_slots s t" "x \<in> leaf_pages (Suc n) s (child s t k)"
  shows "sharers (Suc (Suc n)) s t x = sharers (Suc n) s (child s t k) x"
proof -
  have "sharers (Suc n) s (child s t j) x = 0" if "j \<in> valid_slots s t" "j \<noteq> k" for j
  proof (rule sharers_absent)
    show "x \<notin> leaf_pages (Suc n) s (child s t j)"
      using is_tree_disjoint [OF assms(1) that(1) assms(2) that(2)] assms(3) unfolding inner_leaf_pages by blast
  qed
  then have "(\<Sum>j \<in> valid_slots s t. sharers (Suc n) s (child s t j) x) =
      (\<Sum>j \<in> valid_slots s t. if j = k then sharers (Suc n) s (child s t k) x else 0)"
    by (intro sum.cong) auto
  then show ?thesis using assms(2) by simp
qed

lemma sharers_page:
  assumes tree: "is_tree 3 s t2" and w: "walk s t2 va = Some t0"
  shows "sharers 3 s t2 (pte_page (leaf_entry s t0 va)) = (if cow_slot (leaf_entry s t0 va) then 1 else 0)"
proof -
  let ?k0 = "va_index va 0" let ?x = "child s t0 ?k0"
  obtain t1 where p: "va_index va 2 \<in> valid_slots s t2" "t1 = child s t2 (va_index va 2)"
    "va_index va 1 \<in> valid_slots s t1" "t0 = child s t1 (va_index va 1)" "?k0 \<in> valid_slots s t0"
    using w by (rule walk_path)
  have t2: "is_tree (Suc (Suc (Suc 0))) s t2" using tree by (simp only: numeral_3_eq_3)
  have t1: "is_tree (Suc (Suc 0)) s t1" using is_tree_child [OF t2 p(1)] p(2) by simp
  have t0: "is_tree (Suc 0) s t0" using is_tree_child [OF t1 p(3)] p(4) by simp
  have in0: "?x \<in> leaf_pages (Suc 0) s t0" using p(5) by auto
  then have in1: "?x \<in> leaf_pages (Suc (Suc 0)) s t1" using p(3,4) by auto
  have "sharers 3 s t2 ?x = sharers (Suc (Suc 0)) s t1 ?x"
    using sharers_child [OF t2 p(1) in1 [unfolded p(2)]] unfolding numeral_3_eq_3 p(2) by simp
  also have "\<dots> = sharers (Suc 0) s t0 ?x"
    using sharers_child [OF t1 p(3) in0 [unfolded p(4)]] unfolding p(4) by simp
  also have "\<dots> = (\<Sum>k \<in> valid_slots s t0. if k = ?k0 then if cow_slot (ent s t0 ?k0) then 1 else 0 else 0)"
    unfolding sharers.simps(2)
  proof (rule sum.cong [OF refl])
    fix k assume k: "k \<in> valid_slots s t0"
    have "child s t0 k \<noteq> ?x" if "k \<noteq> ?k0" using is_tree_disjoint [OF t0 k p(5) that] by simp
    then show "(if cow_slot (ent s t0 k) \<and> child s t0 k = ?x then 1 else 0) =
        (if k = ?k0 then if cow_slot (ent s t0 ?k0) then 1 else 0 else (0::int))" by auto
  qed
  also have "\<dots> = (if cow_slot (ent s t0 ?k0) then 1 else 0)" using p(5) by simp
  finally show ?thesis by (simp add: leaf_entry_def)
qed

lemma cow_spaces:
  assumes "wf_table 3 s t" "is_tree 3 s t" and cp: "shared_copy 3 s t s' u"
  shows "wf_table 3 s' t" "is_tree 3 s' t" "wf_table 3 s' u" "is_tree 3 s' u"
    "inner_pages 3 s' t \<inter> inner_pages 3 s' u = {}" "inner_pages 3 s' t = inner_pages 3 s t"
    "leaf_pages 3 s' u = leaf_pages 3 s t" "leaf_pages 3 s' t = leaf_pages 3 s t"
    "p \<in> leaf_pages 3 s t \<Longrightarrow> content s' p = content s p"
proof -
  note C = cp [unfolded shared_copy_def]
  have m: "marked 3 s t s'" and r: "mirror 3 s t s' u" and old: "tree_pages 3 s t \<subseteq> live s"
    using C assms(1) by (simp_all add: wf_table_iff)
  note M = marked_tree [OF m]
  have lv: "live s' = live s \<union> inner_pages 3 s' u" and new: "inner_pages 3 s' u \<inter> live s = {}"
    using C by blast+
  show "is_tree 3 s' t" "is_tree 3 s' u" "inner_pages 3 s' t = inner_pages 3 s t"
    "leaf_pages 3 s' t = leaf_pages 3 s t" using M C assms(2) by blast+
  show "wf_table 3 s' t" unfolding wf_table_iff using M old lv by blast
  show leaf: "leaf_pages 3 s' u = leaf_pages 3 s t" by (rule mirror_leaf_pages [OF r])
  have "leaf_pages 3 s t \<subseteq> live s" using old unfolding inner_leaf_pages by blast
  then show "wf_table 3 s' u" unfolding wf_table_iff inner_leaf_pages leaf using lv by blast
  have "inner_pages 3 s' t \<subseteq> live s" using M old unfolding inner_leaf_pages by blast
  then show "inner_pages 3 s' t \<inter> inner_pages 3 s' u = {}" using new by blast
  assume p: "p \<in> leaf_pages 3 s t"
  then have "p \<notin> l0_tables 3 s t" using is_tree_inner_leaf [OF assms(2)] l0_tables_inner [of 3 s t] by blast
  moreover have "p \<in> live s" using p old unfolding inner_leaf_pages by blast
  ultimately have "p \<in> live s - l0_tables 3 s t" by blast
  moreover have "same_content (live s - l0_tables 3 s t) s s'" using C by blast
  ultimately show "content s' p = content s p" unfolding same_content_def by blast
qed

section \<open>The copy-on-write fork\<close>

text \<open>What each address is mapped to afterwards.\<close>

lemma shared_walks:
  assumes wf: "wf_table 3 s root" "is_tree 3 s root" and cp: "shared_copy 3 s root s' u"
  shows "case walk s root va of
      None \<Rightarrow> walk s' root va = None \<and> walk s' u va = None
    | Some t0 \<Rightarrow> let e = leaf_entry s t0 va in
        page_refs s' (pte_page e) = page_refs s (pte_page e) + (if cow_slot e then 1 else 0) \<and>
        (if pte_read e
         then \<exists>u0. walk s' root va = Some t0 \<and> leaf_entry s' t0 va = cow_entry e \<and>
                walk s' u va = Some u0 \<and> leaf_entry s' u0 va = cow_entry e
         else walk s' root va = None \<and> walk s' u va = None)"
proof -
  note C = cp [unfolded shared_copy_def]
  have m: "marked 3 s root s'" and mi: "mirror 3 s root s' u" using C by blast+
  show ?thesis
  proof (cases "walk s root va")
    case (Some t0)
    have "page_refs s' x = page_refs s x + sharers 3 s root x" if "x \<in> pool_pages s" for x
      using C that by blast
    with marked_walk [OF m, of va] mirror_walk [OF mi m, of va] sharers_page [OF wf(2) Some]
      walk_leaf(4) [OF wf(1) Some] Some
    show ?thesis by (auto simp: Let_def)
  qed (use marked_walk(1) [OF m, of va] mirror_walk(1) [OF mi m, of va] in simp)
qed

lemma shared_used:
  assumes "vms_wf s" "shared_copy n s t s' u"
  shows "vms_get_used_pages s' = vms_get_used_pages s + int (tables n s t)"
    "vms_get_used_pages s + int (tables n s t) \<le> int MAX_PAGES"
proof -
  have "vms_wf s'" "card (live s') = card (live s) + tables n s t" using assms(2) unfolding shared_copy_def by blast+
  then show "vms_get_used_pages s' = vms_get_used_pages s + int (tables n s t)"
    "vms_get_used_pages s + int (tables n s t) \<le> int MAX_PAGES"
    using live_bound [of s'] used_pages_live assms(1) by simp_all
qed

text \<open>
  C6: \<open>vms_fork_copy_on_write\<close> needs one free page for each table of the current space, not for its
  data pages, and exits with \<open>ENOMEM\<close> if there are fewer.  The new root heads tables of its own over
  the same data pages, and the bytes of every page but the level 0 tables are as before.  In both
  spaces an address that could be read is mapped to the page it was mapped to, by an entry that is
  marked (custom set, write clear) if it was writable or already marked, and \<open>ref_track\<close> counts one
  more for exactly the pages behind marked entries.  An address that could be written but not read
  is mapped in neither until the fault handler resolves its first access.
\<close>

theorem cow_fork_correct:
  assumes "vms_wf s" "wf_table 3 s root" "is_tree 3 s root" "root = root_page_table s"
  shows "if vms_get_used_pages s + int (tables 3 s root) \<le> int MAX_PAGES
    then \<exists>u s'. vms_fork_copy_on_write s = Inr (u, s') \<and>
      vms_get_used_pages s' = vms_get_used_pages s + int (tables 3 s root) \<and>
      vms_wf s' \<and> root_page_table s' = root \<and>
      (\<forall>x \<in> {root, u}. wf_table 3 s' x \<and> is_tree 3 s' x \<and> leaf_pages 3 s' x = leaf_pages 3 s root) \<and>
      inner_pages 3 s' u \<inter> live s = {} \<and> live s' = live s \<union> inner_pages 3 s' u \<and>
      (\<forall>p \<in> live s - l0_tables 3 s root. content s' p = content s p) \<and>
      (\<forall>va. case walk s root va of
          None \<Rightarrow> walk s' root va = None \<and> walk s' u va = None
        | Some t0 \<Rightarrow> let e = leaf_entry s t0 va in
            page_refs s' (pte_page e) = page_refs s (pte_page e) + (if cow_slot e then 1 else 0) \<and>
            (if pte_read e
             then \<exists>u0. walk s' root va = Some t0 \<and> leaf_entry s' t0 va = cow_entry e \<and>
                    walk s' u va = Some u0 \<and> leaf_entry s' u0 va = cow_entry e
             else walk s' root va = None \<and> walk s' u va = None))
    else vms_fork_copy_on_write s = Inl (Exit 12)"
proof -
  note out = vms_fork_cow_outcome [OF assms(1), folded assms(4), OF assms(2,3)]
  show ?thesis
  proof (cases "vms_fork_copy_on_write s")
    case (Inl e)
    with out show ?thesis by (auto simp: used_pages_live [OF assms(1)])
  next
    case (Inr r)
    obtain u s' where r: "r = (u, s')" by (cases r)
    with Inr out have cp: "shared_copy 3 s root s' u" by simp
    note C = cp [unfolded shared_copy_def] and S = cow_spaces [OF assms(2,3) cp]
      and cnt = shared_used [OF assms(1) cp] and W = shared_walks [OF assms(2,3) cp]
    show ?thesis
      unfolding if_P [OF cnt(2)]
      by (intro exI [of _ u] exI [of _ s'] conjI allI W) (use Inr r C S cnt assms(4) in \<open>auto simp: same_content_def\<close>)
  qed
qed

lemma demo_facts:
  obtains l0 where "vms_wf demo_space" "wf_table 3 demo_space (root_page_table demo_space)"
    "is_tree 3 demo_space (root_page_table demo_space)"
    "walk demo_space (root_page_table demo_space) 0xABC123 = Some l0"
    "pte_read (leaf_entry demo_space l0 0xABC123)" "pte_write (leaf_entry demo_space l0 0xABC123)"
    "tables 3 demo_space (root_page_table demo_space) = 3" "vms_get_used_pages demo_space = 4"
    "page_refs demo_space (pte_page (leaf_entry demo_space l0 0xABC123)) = 0"
proof -
  obtain l2 l1 l0 p0 where m: "maps_one demo_space 0xABC123 l2 l1 l0 p0"
    and r: "root_page_table demo_space = l2" and refs: "ref_track demo_space = replicate MAX_PAGES 0"
    by (rule demo_space_maps)
  note sp = maps_one_space [OF m] and sl = maps_one_slots [OF m]
  obtain u s' where d: "vms_fork_copy demo_space = Inr (u, s')" "vms_wf demo_space"
    "vms_get_used_pages demo_space = 4" by (rule demo_fork)
  have "tables 3 demo_space l2 = 3" unfolding numeral_3_eq_3 using sl by simp
  moreover have "page_refs demo_space (pte_page (leaf_entry demo_space l0 0xABC123)) = 0"
    using page_refs_get [OF d(2) walk_leaf(4) [OF sp(1,3)]] refs by (auto simp: array_get_def split: if_splits)
  ultimately show thesis using that [of l0] d(2,3) sp r entry_flags by simp
qed

theorem cow_fork_correct_witness:
  "\<exists>u s' u0. vms_fork_copy_on_write demo_space = Inr (u, s') \<and> vms_get_used_pages s' = 7 \<and>
     walk s' u 0xABC123 = Some u0 \<and> pte_custom (leaf_entry s' u0 0xABC123) \<and>
     \<not> pte_write (leaf_entry s' u0 0xABC123)"
proof -
  obtain l0 where d: "vms_wf demo_space" "wf_table 3 demo_space (root_page_table demo_space)"
    "is_tree 3 demo_space (root_page_table demo_space)"
    "walk demo_space (root_page_table demo_space) 0xABC123 = Some l0"
    "pte_read (leaf_entry demo_space l0 0xABC123)" "pte_write (leaf_entry demo_space l0 0xABC123)"
    "tables 3 demo_space (root_page_table demo_space) = 3" "vms_get_used_pages demo_space = 4"
    by (rule demo_facts)
  have "vms_get_used_pages demo_space + int (tables 3 demo_space (root_page_table demo_space)) \<le> int MAX_PAGES"
    by (simp add: d(7,8))
  with cow_fork_correct [OF d(1-3) refl] obtain u s' where f: "vms_fork_copy_on_write demo_space = Inr (u, s')"
    "vms_get_used_pages s' = 7"
    "\<forall>va. case walk demo_space (root_page_table demo_space) va of
          None \<Rightarrow> walk s' (root_page_table demo_space) va = None \<and> walk s' u va = None
        | Some t0 \<Rightarrow> let e = leaf_entry demo_space t0 va in
            page_refs s' (pte_page e) = page_refs demo_space (pte_page e) + (if cow_slot e then 1 else 0) \<and>
            (if pte_read e
             then \<exists>u0. walk s' (root_page_table demo_space) va = Some t0 \<and> leaf_entry s' t0 va = cow_entry e \<and>
                    walk s' u va = Some u0 \<and> leaf_entry s' u0 va = cow_entry e
             else walk s' (root_page_table demo_space) va = None \<and> walk s' u va = None)"
    by (auto simp: d(7,8))
  from f(3) [rule_format, of "0xABC123"] d(4-6)
  obtain u0 where "walk s' u 0xABC123 = Some u0"
    "leaf_entry s' u0 0xABC123 = cow_entry (leaf_entry demo_space l0 0xABC123)"
    by (auto simp: Let_def)
  with f(1,2) d(6) show ?thesis by (auto simp: cow_slot_def)
qed

end
