(* ===== verification/CowIsolation.thy ===== *)
theory CowIsolation
  imports CowFork
begin

text \<open>
  Isolation after \<open>vms_fork_copy_on_write\<close>: the first space to write a shared page gets a page of its
  own from \<open>page_fault_handler\<close>, the second then takes over the old page in place, and neither sees
  what the other writes.
\<close>

section \<open>Changing level 0 tables leaves the upper ones\<close>

lemma l0_not_root:
  assumes "is_tree (Suc (Suc n)) s t"
  shows "t \<notin> l0_tables (Suc (Suc n)) s t"
proof
  assume "t \<in> l0_tables (Suc (Suc n)) s t"
  then obtain k where k: "k \<in> valid_slots s t" "t \<in> l0_tables (Suc n) s (child s t k)" by auto
  then show False using is_tree_root [OF assms k(1)] l0_tables_tree by blast
qed

lemma inner_pages_upper:
  assumes "is_tree (Suc n) s t" "same_content (inner_pages (Suc n) s t - l0_tables (Suc n) s t) s s'"
  shows "inner_pages (Suc n) s' t = inner_pages (Suc n) s t \<and> l0_tables (Suc n) s' t = l0_tables (Suc n) s t"
  using assms
proof (induction n arbitrary: t)
  case (Suc n)
  note tree = Suc.prems(1)
  have root: "same_content {t} s s'"
    by (rule same_content_subset [OF Suc.prems(2)]) (use l0_not_root [OF tree] in auto)
  then have sl: "valid_slots s' t = valid_slots s t" by (rule same_content_slots) simp
  have c: "child s' t k = child s t k" if "k \<in> valid_slots s t" for k
    using same_content_ent [OF root, of t k] valid_slotsD [OF that] by simp
  have "inner_pages (Suc n) s' (child s t k) = inner_pages (Suc n) s (child s t k) \<and>
      l0_tables (Suc n) s' (child s t k) = l0_tables (Suc n) s (child s t k)" if k: "k \<in> valid_slots s t" for k
  proof (rule Suc.IH [OF is_tree_child [OF tree k]])
    have "x \<notin> l0_tables (Suc n) s (child s t j)"
      if x: "x \<in> inner_pages (Suc n) s (child s t k)" "x \<notin> l0_tables (Suc n) s (child s t k)"
        and j: "j \<in> valid_slots s t" for x j
      using is_tree_disjoint [OF tree k j] l0_tables_tree [of "Suc n" s "child s t j"] x inner_leaf_pages
      by (cases "j = k") blast+
    then have "inner_pages (Suc n) s (child s t k) - l0_tables (Suc n) s (child s t k) \<subseteq>
        inner_pages (Suc (Suc n)) s t - l0_tables (Suc (Suc n)) s t"
      unfolding l0_tables.simps(3) using inner_pages_child [OF k, of "Suc n"] by blast
    then show "same_content (inner_pages (Suc n) s (child s t k) - l0_tables (Suc n) s (child s t k)) s s'"
      by (rule same_content_subset [OF Suc.prems(2)])
  qed
  then show ?case using sl c by (simp only: inner_pages.simps(2) [of "Suc n"] l0_tables.simps(3) cong: SUP_cong)
qed simp

section \<open>Writing through one of two spaces that share data pages\<close>

text \<open>\<open>apart s r1 r2\<close>: no table of the space at \<open>r1\<close> is a page of the space at \<open>r2\<close>.\<close>

definition apart :: "vms_state \<Rightarrow> u64 \<Rightarrow> u64 \<Rightarrow> bool" where
  "apart s r1 r2 \<longleftrightarrow> vms_wf s \<and> wf_table 3 s r1 \<and> is_tree 3 s r1 \<and> wf_table 3 s r2 \<and> is_tree 3 s r2 \<and>
     inner_pages 3 s r1 \<inter> tree_pages 3 s r2 = {}"

lemma same_content_reads:
  assumes "vms_wf s" "wf_table 3 s r" "vms_wf s'" "same_content (tree_pages 3 s r) s s'"
    and "walk s r va = Some t0" "pte_read (leaf_entry s t0 va)" "page_offset va + 4 \<le> PAGE_SIZE"
    and "live s \<subseteq> live s'"
  shows "read_in r va s' = read_in r va s"
proof -
  have i: "same_content (inner_pages 3 s r) s s'"
    by (rule same_content_subset [OF assms(4)]) (simp add: inner_leaf_pages)
  have e: "leaf_entry s' t0 va = leaf_entry s t0 va"
    using same_content_ent [OF i walk_in_tree(1) [OF assms(5)]] by (simp add: leaf_entry_def)
  have "pte_page (leaf_entry s t0 va) \<in> tree_pages 3 s r"
    using walk_leaf_page [OF assms(5)] by (simp add: inner_leaf_pages)
  then have "peek (pte_page (leaf_entry s t0 va)) (page_offset va) s' =
      peek (pte_page (leaf_entry s t0 va)) (page_offset va) s"
    using assms(4) by (simp add: peek_content [OF assms(7)] same_content_def)
  then show ?thesis
    using read_in_mapped [OF assms(3) wf_table_stable [OF assms(2,4,8)], of va t0]
      read_in_mapped [OF assms(1,2,5,6,7)] walk_cong [OF i, of va] assms(5-7) e by simp
qed

lemma root_update_reads [simp]:
  "leaf_entry (s\<lparr>root_page_table := r\<rparr>) t0 va = leaf_entry s t0 va"
  "page_refs (s\<lparr>root_page_table := r\<rparr>) p = page_refs s p"
  "drop_ref (s\<lparr>root_page_table := r\<rparr>) p = drop_ref s p"
  "peek p d (s\<lparr>root_page_table := r\<rparr>) = peek p d s"
  "same_content X (s\<lparr>root_page_table := r\<rparr>) s' = same_content X s s'"
  by (simp_all add: leaf_entry_def page_refs_def vms_get_page_index_def drop_ref_def peek_def same_content_def)

lemma root_update_tree [simp]: "is_tree n (s\<lparr>root_page_table := r\<rparr>) t = is_tree n s t"
  by (rule tree_stable(2)) (simp add: same_content_def)

lemma read_in_self: "root_page_table s = r \<Longrightarrow> vms_read va s = Inr (v, s) \<Longrightarrow> read_in r va s = Inr v"
proof -
  assume "root_page_table s = r"
  then have "s\<lparr>root_page_table := r\<rparr> = s" by (cases s) simp
  then show "vms_read va s = Inr (v, s) \<Longrightarrow> read_in r va s = Inr v" by (simp add: read_in_def)
qed

text \<open>The first to write gets a page of its own; the pages of the other space keep their bytes.\<close>

lemma first_write:
  assumes ap: "apart s r1 r2" and w: "walk s r1 va = Some t0"
    and e: "pte_custom (leaf_entry s t0 va)" "\<not> pte_write (leaf_entry s t0 va)" "page_offset va + 4 \<le> PAGE_SIZE"
    and refs: "page_refs s (pte_page (leaf_entry s t0 va)) \<noteq> 0" "vms_get_used_pages s < int MAX_PAGES"
  obtains q s1 where "vms_write va v (s\<lparr>root_page_table := r1\<rparr>) = Inr s1" "read_in r1 va s1 = Inr v"
    "apart s1 r1 r2" "same_content (tree_pages 3 s r2) s s1" "q \<notin> live s" "live s1 = insert q (live s)"
    "ref_track s1 = drop_ref s (pte_page (leaf_entry s t0 va))" "base_pointer s1 = base_pointer s"
    "walk s1 r1 va = Some t0" "pte_page (leaf_entry s1 t0 va) = q"
    "pte_read (leaf_entry s1 t0 va) = pte_read (leaf_entry s t0 va)"
proof -
  note A = ap [unfolded apart_def]
  let ?s = "s\<lparr>root_page_table := r1\<rparr>" let ?e = "leaf_entry s t0 va"
  obtain q s1 where run: "vms_write va v ?s = Inr s1" "vms_read va s1 = Inr (v, s1)"
      "pte_page (leaf_entry s1 t0 va) = q"
    and cnt: "q \<notin> live s" "live s1 = insert q (live s)" "ref_track s1 = drop_ref s (pte_page ?e)"
    and same: "same_content (live s - {t0, q}) s s1" and own: "owned ?e q (leaf_entry s1 t0 va)"
    and sp: "vms_wf s1" "wf_table 3 s1 r1" "is_tree 3 s1 r1" "\<And>va'. walk s1 r1 va' = walk s r1 va'"
      "root_page_table s1 = r1" "base_pointer s1 = base_pointer s"
    by (rule cow_write_facts [of ?s va t0 ?e "pte_page ?e" v])
       (use A w e refs in \<open>simp_all add: vms_get_used_pages_def\<close>)
  have t0: "t0 \<in> l0_tables 3 s r1" by (rule walk_l0 [OF w])
  then have t0i: "t0 \<in> inner_pages 3 s r1" using l0_tables_inner by blast
  have live: "tree_pages 3 s r1 \<subseteq> live s" "tree_pages 3 s r2 \<subseteq> live s" using A by (simp_all add: wf_table_iff)
  have s2: "same_content (tree_pages 3 s r2) s s1"
    by (rule same_content_subset [OF same]) (use A live t0i cnt(1) in blast)
  have "inner_pages 3 s r1 - l0_tables 3 s r1 \<subseteq> live s - {t0, q}"
    using live(1) t0 cnt(1) unfolding inner_leaf_pages by blast
  then have "inner_pages 3 s1 r1 = inner_pages 3 s r1"
    using A same_content_subset [OF same] inner_pages_upper [of "Suc (Suc 0)" s r1 s1]
    by (simp only: numeral_3_eq_3)
  moreover have "wf_table 3 s1 r2" by (rule wf_table_stable [OF _ s2]) (use A cnt in auto)
  ultimately have "apart s1 r1 r2" using A sp tree_stable [OF s2] by (simp add: apart_def)
  then show thesis
    using that run(1) read_in_self [OF sp(5) run(2)] s2 cnt sp(4,6) w run(3) own by (simp add: owned_def)
qed

text \<open>The last to refer to the page writes it in place; the other space does not see it.\<close>

lemma second_write:
  assumes ap: "apart s r1 r2" and w: "walk s r2 va = Some u0"
    and e: "pte_custom (leaf_entry s u0 va)" "\<not> pte_write (leaf_entry s u0 va)" "page_offset va + 4 \<le> PAGE_SIZE"
    and refs: "page_refs s (pte_page (leaf_entry s u0 va)) = 0"
    and w1: "walk s r1 va' = Some t0" "pte_read (leaf_entry s t0 va')" "page_offset va' + 4 \<le> PAGE_SIZE"
    and q: "pte_page (leaf_entry s t0 va') \<noteq> pte_page (leaf_entry s u0 va)"
      "pte_page (leaf_entry s t0 va') \<notin> inner_pages 3 s r2"
  obtains s2 where "vms_write va v (s\<lparr>root_page_table := r2\<rparr>) = Inr s2" "read_in r2 va s2 = Inr v"
    "read_in r1 va' s2 = read_in r1 va' s" "live s2 = live s" "vms_wf s2"
proof -
  note A = ap [unfolded apart_def]
  let ?s = "s\<lparr>root_page_table := r2\<rparr>" let ?e = "leaf_entry s u0 va" let ?p = "pte_page ?e"
    and ?q = "pte_page (leaf_entry s t0 va')"
  obtain s2 where run: "vms_write va v ?s = Inr s2" "vms_read va s2 = Inr (v, s2)"
    and cnt: "live s2 = live s" and same: "same_content (live s - {u0, ?p}) s s2"
    and sp: "vms_wf s2" "root_page_table s2 = r2"
    by (rule cow_write_facts [of ?s va u0 ?e ?p v]) (use A w e refs in simp_all)
  have u0: "u0 \<in> inner_pages 3 s r2" and p: "?p \<in> leaf_pages 3 s r2"
    using walk_in_tree [OF w] by (simp_all add: leaf_entry_def)
  have live: "tree_pages 3 s r1 \<subseteq> live s" using A by (simp add: wf_table_iff)
  have i: "same_content (inner_pages 3 s r1) s s2"
    by (rule same_content_subset [OF same]) (use A live u0 p inner_leaf_pages in blast)
  have ql: "?q \<in> live s" using walk_leaf(3) [OF _ w1(1)] A by blast
  then have "content s2 ?q = content s ?q" using same q u0 by (auto simp: same_content_def)
  then have pk: "peek ?q (page_offset va') s2 = peek ?q (page_offset va') s"
    by (simp add: peek_content [OF w1(3)])
  have e': "leaf_entry s2 t0 va' = leaf_entry s t0 va'"
    using same_content_ent [OF i walk_in_tree(1) [OF w1(1)]] by (simp add: leaf_entry_def)
  have wf: "wf_table 3 s2 r1" using live inner_stable(3) [OF i] cnt by (simp add: wf_table_iff del: tree_pages.simps)
  have "read_in r1 va' s2 = read_in r1 va' s"
    using read_in_mapped [OF sp(1) wf, of va' t0] read_in_mapped [of s r1 va' t0] A w1 e' pk
      walk_cong [OF i, of va'] by simp
  then show thesis using that run(1) read_in_self [OF sp(2) run(2)] cnt sp(1) by blast
qed

lemma page_refs_drop:
  assumes "vms_wf s" "p \<in> pool_pages s" "ref_track s' = drop_ref s p" "base_pointer s' = base_pointer s"
  shows "page_refs s' p = page_refs s p - 1"
proof -
  obtain i where "i < MAX_PAGES" "p = page_ptr s i" using assms(2) by (auto simp: pool_pages_def)
  then have "nat (vms_get_page_index p s) < length (ref_track s)"
    using vms_wfD(2) [OF assms(1)] get_page_index_page_ptr by simp
  moreover have "vms_get_page_index p s' = vms_get_page_index p s"
    using assms(4) by (simp add: vms_get_page_index_def)
  ultimately show ?thesis using assms(3) by (simp add: page_refs_def drop_ref_def)
qed

section \<open>Both spaces of a fork\<close>

lemma shared_apart:
  assumes "wf_table 3 s t" "is_tree 3 s t" "shared_copy 3 s t s' u"
    and roots: "(r1, r2) = (t, u) \<or> (r1, r2) = (u, t)"
  shows "apart s' r1 r2"
proof -
  note S = cow_spaces [OF assms(1-3)]
  have wf: "vms_wf s'" using assms(3) by (simp add: shared_copy_def)
  have "inner_pages 3 s' r1 \<inter> leaf_pages 3 s' r2 = {}"
    using roots is_tree_inner_leaf [OF S(2)] is_tree_inner_leaf [OF S(4)] S(7,8) by auto
  then have "inner_pages 3 s' r1 \<inter> tree_pages 3 s' r2 = {}" unfolding inner_leaf_pages using roots S(5) by blast
  then show ?thesis using S(1-4) wf roots by (auto simp: apart_def)
qed

lemma shared_leaf:
  assumes "shared_copy 3 s t s' u" "walk s t va = Some t0" "pte_read (leaf_entry s t0 va)" "r = t \<or> r = u"
  obtains y where "walk s' r va = Some y" "leaf_entry s' y va = cow_entry (leaf_entry s t0 va)"
proof -
  have m: "marked 3 s t s'" "mirror 3 s t s' u" using assms(1) by (simp_all add: shared_copy_def)
  have t: "walk s' t va = Some t0" using marked_walk(1) [OF m(1), of va] assms(2,3) by simp
  show thesis
    using that assms(4) t marked_walk(2) [OF m(1) assms(2)] mirror_walk(2) [OF m(2,1) t] by metis
qed

lemma shared_reads:
  assumes wf: "vms_wf s" "wf_table 3 s t" "is_tree 3 s t" and cp: "shared_copy 3 s t s' u"
    and w: "walk s t va = Some t0" "pte_read (leaf_entry s t0 va)" "page_offset va + 4 \<le> PAGE_SIZE"
    and r: "r = t \<or> r = u"
  shows "read_in r va s' = read_in t va s"
proof -
  note S = cow_spaces [OF wf(2,3) cp]
  let ?p = "pte_page (leaf_entry s t0 va)"
  obtain y where y: "walk s' r va = Some y" "leaf_entry s' y va = cow_entry (leaf_entry s t0 va)"
    by (rule shared_leaf [OF cp w(1,2) r])
  have "content s' ?p = content s ?p" by (rule S(9) [OF walk_leaf_page [OF w(1)]])
  moreover have "vms_wf s'" "wf_table 3 s' r" using cp S(1,3) r by (auto simp: shared_copy_def)
  ultimately show ?thesis
    using read_in_mapped [of s' r va y] read_in_mapped [OF wf(1,2) w] y w peek_content [OF w(3)] by simp
qed

text \<open>The two writes of one address after the fork, from one space and then from the other.\<close>

lemma shared_once:
  assumes "wf_table 3 s t" "is_tree 3 s t" "shared_copy 3 s t s' u"
    and "walk s t va = Some t0" "cow_slot (leaf_entry s t0 va)" "page_refs s (pte_page (leaf_entry s t0 va)) = 0"
  shows "page_refs s' (pte_page (leaf_entry s t0 va)) = 1"
    "pte_page (leaf_entry s t0 va) \<in> live s'" "pte_page (leaf_entry s t0 va) \<in> pool_pages s'"
proof -
  let ?p = "pte_page (leaf_entry s t0 va)"
  have p: "?p \<in> pool_pages s" "?p \<in> live s" using walk_leaf(3,4) [OF assms(1,4)] by simp_all
  then show "?p \<in> live s'" "?p \<in> pool_pages s'" using assms(3) live_in_pool [of ?p s'] by (auto simp: shared_copy_def)
  show "page_refs s' ?p = 1"
    using assms(3,5,6) p(1) sharers_page [OF assms(2,4)] by (simp add: shared_copy_def)
qed

lemma isolated_first:
  assumes wf: "wf_table 3 s root" "is_tree 3 s root" and cp: "shared_copy 3 s root s' u"
    and free: "vms_get_used_pages s' < int MAX_PAGES" and roots: "(r1, r2) = (root, u) \<or> (r1, r2) = (u, root)"
    and w: "walk s root va = Some t0" "pte_read (leaf_entry s t0 va)" "cow_slot (leaf_entry s t0 va)"
    and refs: "page_offset va + 4 \<le> PAGE_SIZE" "page_refs s (pte_page (leaf_entry s t0 va)) = 0"
  obtains q s1 y1 y2 where "vms_write va v (s'\<lparr>root_page_table := r1\<rparr>) = Inr s1" "read_in r1 va s1 = Inr v"
    "apart s1 r1 r2" "same_content (tree_pages 3 s' r2) s' s1" "q \<notin> live s'" "live s1 = insert q (live s')"
    "walk s1 r1 va = Some y1" "pte_page (leaf_entry s1 y1 va) = q" "pte_read (leaf_entry s1 y1 va)"
    "walk s1 r2 va = Some y2" "leaf_entry s1 y2 va = cow_entry (leaf_entry s t0 va)"
    "page_refs s1 (pte_page (leaf_entry s t0 va)) = 0" "q \<noteq> pte_page (leaf_entry s t0 va)" "q \<notin> inner_pages 3 s1 r2"
proof -
  let ?e = "leaf_entry s t0 va" let ?p = "pte_page ?e"
  have wf': "vms_wf s'" using cp by (simp add: shared_copy_def)
  have ap: "apart s' r1 r2" by (rule shared_apart [OF wf cp roots])
  have r: "r1 = root \<or> r1 = u" "r2 = root \<or> r2 = u" using roots by auto
  note R = shared_once [OF wf cp w(1,3) refs(2)]
  obtain y1 where y1: "walk s' r1 va = Some y1" "leaf_entry s' y1 va = cow_entry ?e"
    by (rule shared_leaf [OF cp w(1,2) r(1)])
  obtain y2 where y2: "walk s' r2 va = Some y2" "leaf_entry s' y2 va = cow_entry ?e"
    by (rule shared_leaf [OF cp w(1,2) r(2)])
  obtain q s1 where s1: "vms_write va v (s'\<lparr>root_page_table := r1\<rparr>) = Inr s1" "read_in r1 va s1 = Inr v"
      "apart s1 r1 r2" "same_content (tree_pages 3 s' r2) s' s1" "q \<notin> live s'" "live s1 = insert q (live s')"
      "ref_track s1 = drop_ref s' (pte_page (leaf_entry s' y1 va))" "base_pointer s1 = base_pointer s'"
      "walk s1 r1 va = Some y1" "pte_page (leaf_entry s1 y1 va) = q"
      "pte_read (leaf_entry s1 y1 va) = pte_read (leaf_entry s' y1 va)"
    by (rule first_write [OF ap y1(1) _ _ refs(1) _ free, of v]) (use y1(2) w(3) R(1) in simp_all)
  have i2: "same_content (inner_pages 3 s' r2) s' s1"
    by (rule same_content_subset [OF s1(4)]) (simp add: inner_leaf_pages)
  have "walk s1 r2 va = Some y2" "leaf_entry s1 y2 va = cow_entry ?e"
    using walk_cong [OF i2, of va] same_content_ent [OF i2 walk_in_tree(1) [OF y2(1)]] y2
    by (simp_all add: leaf_entry_def)
  moreover have "page_refs s1 ?p = 0" using page_refs_drop [OF wf' R(3)] s1(7,8) y1(2) R(1) by simp
  moreover have "q \<notin> inner_pages 3 s1 r2"
    using inner_stable(1) [OF i2] s1(5) ap unfolding apart_def wf_table_iff inner_leaf_pages by blast
  moreover have "q \<noteq> ?p" using s1(5) R(2) by blast
  moreover have "pte_read (leaf_entry s1 y1 va)" using s1(11) y1(2) w(2) by simp
  ultimately show thesis using that s1 by blast
qed

lemma isolated_reads:
  assumes wf: "vms_wf s" "wf_table 3 s root" "is_tree 3 s root" and cp: "shared_copy 3 s root s' u"
    and r: "r = root \<or> r = u" and s1: "vms_wf s1" "same_content (tree_pages 3 s' r) s' s1" "live s' \<subseteq> live s1"
    and x: "walk s root va = Some x" "pte_read (leaf_entry s x va)" "page_offset va + 4 \<le> PAGE_SIZE"
  shows "read_in r va s1 = read_in root va s"
proof -
  obtain y where y: "walk s' r va = Some y" "leaf_entry s' y va = cow_entry (leaf_entry s x va)"
    by (rule shared_leaf [OF cp x(1,2) r])
  have "vms_wf s'" "wf_table 3 s' r" using cp cow_spaces(1,3) [OF wf(2,3) cp] r by (auto simp: shared_copy_def)
  then have "read_in r va s1 = read_in r va s'"
    using same_content_reads [OF _ _ s1(1,2) y(1) _ x(3) s1(3)] x(2) y(2) by simp
  then show ?thesis using shared_reads [OF wf cp x r] by simp
qed

text \<open>
  C7: After a copy-on-write fork the two spaces are isolated although they share their pages.  When
  one of them, whichever it is, writes a page that was writable before the fork and not shared, it reads
  back what it wrote and uses one page more, and all that can be read through the other space is what
  was read before the fork.  When the other then writes the same address, no page is used, and each
  space reads its own value.
\<close>

theorem cow_fork_isolated:
  assumes "vms_wf s" "wf_table 3 s root" "is_tree 3 s root" "root = root_page_table s"
    and "vms_fork_copy_on_write s = Inr (u, s')" "vms_get_used_pages s' < int MAX_PAGES"
    and "(r1, r2) = (root, u) \<or> (r1, r2) = (u, root)"
    and "walk s root va = Some t0" "e = leaf_entry s t0 va" "pte_read e" "pte_write e"
    and "page_offset va + 4 \<le> PAGE_SIZE" "page_refs s (pte_page e) = 0"
  shows "\<exists>s1 s2. vms_write va v (s'\<lparr>root_page_table := r1\<rparr>) = Inr s1 \<and>
    vms_write va w (s1\<lparr>root_page_table := r2\<rparr>) = Inr s2 \<and>
    read_in r1 va s1 = Inr v \<and> vms_get_used_pages s1 = vms_get_used_pages s' + 1 \<and>
    (\<forall>va' x. walk s root va' = Some x \<and> pte_read (leaf_entry s x va') \<and> page_offset va' + 4 \<le> PAGE_SIZE \<longrightarrow>
       read_in r2 va' s1 = read_in root va' s) \<and>
    read_in r1 va s2 = Inr v \<and> read_in r2 va s2 = Inr w \<and> vms_get_used_pages s2 = vms_get_used_pages s1"
proof -
  have cp: "shared_copy 3 s root s' u"
    using vms_fork_cow_outcome [OF assms(1), folded assms(4), OF assms(2,3)] assms(5) by simp
  have wf': "vms_wf s'" and r2: "r2 = root \<or> r2 = u" using cp assms(7) by (auto simp: shared_copy_def)
  have slot: "cow_slot (leaf_entry s t0 va)" "pte_read (leaf_entry s t0 va)"
    using assms(9-11) by (simp_all add: cow_slot_def)
  obtain q s1 y1 y2 where s1: "vms_write va v (s'\<lparr>root_page_table := r1\<rparr>) = Inr s1" "read_in r1 va s1 = Inr v"
      "apart s1 r1 r2" "same_content (tree_pages 3 s' r2) s' s1" "q \<notin> live s'" "live s1 = insert q (live s')"
      "walk s1 r1 va = Some y1" "pte_page (leaf_entry s1 y1 va) = q" "pte_read (leaf_entry s1 y1 va)"
      "walk s1 r2 va = Some y2" "leaf_entry s1 y2 va = cow_entry (leaf_entry s t0 va)"
      "page_refs s1 (pte_page (leaf_entry s t0 va)) = 0" "q \<noteq> pte_page (leaf_entry s t0 va)" "q \<notin> inner_pages 3 s1 r2"
    by (rule isolated_first [OF assms(2,3) cp assms(6,7,8) slot(2,1) assms(12), of v]) (use assms(9,13) in simp_all)
  obtain s2 where s2: "vms_write va w (s1\<lparr>root_page_table := r2\<rparr>) = Inr s2"
      "read_in r2 va s2 = Inr w" "read_in r1 va s2 = read_in r1 va s1" "live s2 = live s1" "vms_wf s2"
    by (rule second_write [OF s1(3,10) _ _ assms(12) _ s1(7,9) assms(12), of w]) (use s1(8,11-14) slot in simp_all)
  have A1: "vms_wf s1" "live s' \<subseteq> live s1" using s1(3,6) by (auto simp: apart_def)
  note other = isolated_reads [OF assms(1-3) cp r2 A1(1) s1(4) A1(2)]
  have "vms_get_used_pages s1 = vms_get_used_pages s' + 1" "vms_get_used_pages s2 = vms_get_used_pages s1"
    using s1(5,6) s2(4,5) A1(1) wf' by (simp_all add: used_pages_live)
  then show ?thesis using s1(1,2) s2(1-3) other by auto
qed

theorem cow_fork_isolated_witness:
  "\<exists>u s' s1 s2. vms_fork_copy_on_write demo_space = Inr (u, s') \<and>
     vms_write 0xABC123 7 (s'\<lparr>root_page_table := u\<rparr>) = Inr s1 \<and>
     vms_write 0xABC123 8 (s1\<lparr>root_page_table := root_page_table demo_space\<rparr>) = Inr s2 \<and>
     read_in u 0xABC123 s2 = Inr 7 \<and> read_in (root_page_table demo_space) 0xABC123 s2 = Inr 8"
proof -
  obtain l0 where d: "vms_wf demo_space" "wf_table 3 demo_space (root_page_table demo_space)"
    "is_tree 3 demo_space (root_page_table demo_space)"
    "walk demo_space (root_page_table demo_space) 0xABC123 = Some l0"
    "pte_read (leaf_entry demo_space l0 0xABC123)" "pte_write (leaf_entry demo_space l0 0xABC123)"
    "tables 3 demo_space (root_page_table demo_space) = 3" "vms_get_used_pages demo_space = 4"
    "page_refs demo_space (pte_page (leaf_entry demo_space l0 0xABC123)) = 0" by (rule demo_facts)
  have c: "card (live demo_space) = 4"
    using used_pages_live [OF d(1)] d(8) by simp
  have out: "outcome (\<lambda>e. False) (\<lambda>(u, s'). shared_copy 3 demo_space (root_page_table demo_space) s' u)
      (vms_fork_copy_on_write demo_space)"
    by (rule outcome_mono [OF vms_fork_cow_outcome [OF d(1-3)]]) (simp_all add: c d(7))
  then obtain u s' where f: "vms_fork_copy_on_write demo_space = Inr (u, s')"
    and cp: "shared_copy 3 demo_space (root_page_table demo_space) s' u"
    by (cases "vms_fork_copy_on_write demo_space") auto
  have "card (live s') = 7" "vms_wf s'" using cp c d(7) unfolding shared_copy_def by linarith+
  then have "vms_get_used_pages s' = 7"
    using used_pages_live [of s'] by simp
  then have used: "vms_get_used_pages s' < int MAX_PAGES" by simp
  have off: "page_offset 0xABC123 + 4 \<le> PAGE_SIZE" by (simp add: offset_abc123)
  from cow_fork_isolated [OF d(1-3) refl f used disjI2 [OF refl] d(4) refl d(5,6) off d(9), of 7 8] f
  show ?thesis by auto
qed

end
