(* ===== verification/VmsSpaces.thy ===== *)
theory VmsSpaces
  imports CowIsolation
begin

text \<open>
  Any number of address spaces in one pool, made from one another by the two fork functions in any
  order, and written through \<open>vms_write\<close>.  \<open>spaces_ok\<close> is the invariant that ties \<open>ref_track\<close> to the
  number of spaces that map a page; every operation keeps it.
\<close>

section \<open>What a write does to its space\<close>

definition write_effect :: "vms_state \<Rightarrow> u64 \<Rightarrow> u64 \<Rightarrow> u32 \<Rightarrow> u64 \<Rightarrow> u64 \<Rightarrow> vms_state \<Rightarrow> bool" where
  "write_effect s r va v t0 q s' \<longleftrightarrow>
     (let e = leaf_entry s t0 va; p = pte_page e in
      vms_wf s' \<and> wf_table 3 s' r \<and> is_tree 3 s' r \<and> base_pointer s' = base_pointer s \<and>
      same_content (live s - {t0, q}) s s' \<and>
      (\<forall>k < NUM_PTE_ENTRIES. k \<noteq> va_index va 0 \<longrightarrow> ent s' t0 k = ent s t0 k) \<and>
      (\<forall>va'. walk s' r va' = walk s r va') \<and>
      pte_page (leaf_entry s' t0 va) = q \<and> pte_valid (leaf_entry s' t0 va) \<and>
      pte_read (leaf_entry s' t0 va) = pte_read e \<and> pte_write (leaf_entry s' t0 va) \<and>
      \<not> pte_custom (leaf_entry s' t0 va) \<and>
      content s' q = put32 (page_offset va) v (content s p) \<and>
      (if page_refs s p = 0 then q = p \<and> live s' = live s \<and> ref_track s' = ref_track s
       else q \<notin> live s \<and> live s' = insert q (live s) \<and> ref_track s' = drop_ref s p))"

lemma write_effect_owned:
  assumes wf: "vms_wf s" "wf_table 3 s r" "is_tree 3 s r" and w: "walk s r va = Some t0"
    and e: "pte_write (leaf_entry s t0 va)" "\<not> pte_custom (leaf_entry s t0 va)"
      "page_refs s (pte_page (leaf_entry s t0 va)) = 0" "page_offset va + 4 \<le> PAGE_SIZE"
  shows "\<exists>s'. vms_write va v (s\<lparr>root_page_table := r\<rparr>) = Inr s' \<and>
    write_effect s r va v t0 (pte_page (leaf_entry s t0 va)) s'"
proof -
  let ?s = "s\<lparr>root_page_table := r\<rparr>" let ?p = "pte_page (leaf_entry s t0 va)" and ?d = "page_offset va"
  let ?s' = "poke ?p ?d v ?s"
  have wf': "vms_wf ?s" "wf_table 3 ?s r" "is_tree 3 ?s r" "walk ?s r va = Some t0" using wf w by simp_all
  have leaf: "?p \<in> leaf_pages 3 ?s r" using walk_leaf_page [OF wf'(4)] by (simp add: leaf_entry_def)
  note sp = poke_space [OF wf'(1-3) leaf e(4), where v = v]
  have p: "?p \<in> pool_pages ?s" "t0 \<in> pool_pages ?s" "t0 \<noteq> ?p"
    using walk_leaf [OF wf(2) w] is_tree_inner_leaf [OF wf'(3)] leaf walk_in_tree(1) [OF wf'(4)] by auto
  have run: "vms_write va v ?s = Inr ?s'"
    using vms_write_is_poke [of ?s va t0 v] wf' e by simp
  have c: "content ?s' x = content s x" if "x \<in> live s - {t0, ?p}" for x
    using content_poke [OF p(1), of x ?d v] that live_in_pool [of x s] e(4) by auto
  have ents: "ent ?s' t0 k = ent s t0 k" if "k < NUM_PTE_ENTRIES" for k
    using ent_cong [OF content_poke [OF p(1,2) p(3) [symmetric] e(4)], of k v] that by simp
  have "content ?s' ?p = put32 ?d v (content s ?p)" using content_poke_same [OF e(4), of ?p v ?s] by simp
  moreover have "leaf_entry ?s' t0 va = leaf_entry s t0 va" using ents by (simp add: leaf_entry_def)
  moreover have "same_content (live s - {t0, ?p}) s ?s'" using c by (simp add: same_content_def)
  ultimately have "write_effect s r va v t0 ?p ?s'"
    using sp ents e walk_leaf(5) [OF wf(2) w] by (simp add: write_effect_def Let_def leaf_ok_def)
  with run show ?thesis by blast
qed

lemma write_effect_cow:
  assumes wf: "vms_wf s" "wf_table 3 s r" "is_tree 3 s r" and w: "walk s r va = Some t0"
    and e: "pte_custom (leaf_entry s t0 va)" "\<not> pte_write (leaf_entry s t0 va)" "page_offset va + 4 \<le> PAGE_SIZE"
    and free: "page_refs s (pte_page (leaf_entry s t0 va)) = 0 \<or> card (live s) < MAX_PAGES"
  shows "\<exists>s' q. vms_write va v (s\<lparr>root_page_table := r\<rparr>) = Inr s' \<and> write_effect s r va v t0 q s'"
proof -
  let ?s = "s\<lparr>root_page_table := r\<rparr>" let ?e = "leaf_entry s t0 va"
  have used: "page_refs s (pte_page ?e) = 0 \<or> vms_get_used_pages ?s < int MAX_PAGES"
    using free used_pages_live [OF wf(1)] by (simp add: vms_get_used_pages_def)
  show ?thesis
  proof (rule cow_write_facts [of ?s va t0 ?e "pte_page ?e" v])
    fix q s'
    assume run: "vms_write va v ?s = Inr s'" and eq: "pte_page (leaf_entry s' t0 va) = q"
      and cnt: "if page_refs ?s (pte_page ?e) = 0 then q = pte_page ?e \<and> live s' = live ?s \<and> ref_track s' = ref_track ?s
        else q \<notin> live ?s \<and> live s' = insert q (live ?s) \<and> ref_track s' = drop_ref ?s (pte_page ?e)"
      and same: "same_content (live ?s - {t0, q}) ?s s'"
      and ents: "\<And>k. k < NUM_PTE_ENTRIES \<Longrightarrow> k \<noteq> va_index va 0 \<Longrightarrow> ent s' t0 k = ent ?s t0 k"
      and sp: "vms_wf s'" "wf_table 3 s' (root_page_table ?s)" "is_tree 3 s' (root_page_table ?s)"
        "\<And>va'. walk s' (root_page_table ?s) va' = walk ?s (root_page_table ?s) va'"
        "base_pointer s' = base_pointer ?s"
      and own: "owned (leaf_entry ?s t0 va) q (leaf_entry s' t0 va)"
      and c: "content s' q = put32 (page_offset va) v (content ?s (pte_page ?e))"
    have "write_effect s r va v t0 q s'"
      using eq cnt same ents sp own c walk_leaf(5) [OF wf(2) w]
      by (cases "page_refs s (pte_page ?e) = 0") (simp_all add: write_effect_def Let_def owned_def leaf_ok_def)
    with run show ?thesis by blast
  qed (use wf w e used in simp_all)
qed

text \<open>Without a free page the copy cannot be made.\<close>

lemma write_cow_full:
  assumes wf: "vms_wf s" "wf_table 3 s r" and w: "walk s r va = Some t0"
    and e: "pte_custom (leaf_entry s t0 va)" "\<not> pte_write (leaf_entry s t0 va)"
    and full: "page_refs s (pte_page (leaf_entry s t0 va)) \<noteq> 0" "card (live s) = MAX_PAGES"
  shows "vms_write va v (s\<lparr>root_page_table := r\<rparr>) = Inl (Exit 12)"
proof -
  let ?s = "s\<lparr>root_page_table := r\<rparr>" let ?k = "va_index va 0" let ?own = "own_entry t0 ?k ?s"
  have wf': "vms_wf ?s" "wf_table 3 ?s r" "walk ?s r va = Some t0" using wf w by simp_all
  have pool: "t0 \<in> pool_pages s" "child s t0 ?k \<in> pool_pages s"
    using walk_leaf(1,4) [OF wf(2) w] by (simp_all add: leaf_entry_def)
  have t0: "t0 \<in> live s" by (rule walk_leaf(2) [OF wf(2) w])
  have "vms_wf ?own" unfolding own_entry_def
    by (rule vms_wf_write_ent) (use wf(1) t0 in simp_all)
  moreover have "live ?own = pool_pages ?own"
  proof -
    have "finite (pool_pages s)" by (simp add: pool_pages_def)
    then have "live s = pool_pages s" using card_subset_eq [OF _ live_pool] full(2) card_pool_pages [of s] by metis
    then show ?thesis by (simp add: own_entry_def)
  qed
  ultimately have "vms_new_page ?own = Inl (Exit 12)" using vms_new_page_total(1) by blast
  then have h: "page_fault_handler va 0 t0 ?s = Inl (Exit 12)"
    using page_fault_handler_shared [of t0 ?s 0 ?k va] pool e(1) page_refs_get [OF wf'(1), of "child s t0 ?k"] full(1)
    by (simp add: leaf_entry_def)
  have base: "get_base_page (vms_page_table_pte_entry_from_index t0 ?k) = t0"
    using page_aligned_pool(1) [OF wf(1) pool(1)] by (intro get_base_page_entry) simp_all
  show ?thesis
    using mmu_walk [of ?s va t0] wf' e(2) pool base h
    by (simp add: vms_write_def pte_entry_index vms_pte_defs leaf_entry_def Let_def)
qed

section \<open>Where the data pages are\<close>

text \<open>Every entry of a level 0 table satisfies \<open>P\<close>.\<close>

definition all_leaves :: "(u64 \<Rightarrow> bool) \<Rightarrow> vms_state \<Rightarrow> u64 \<Rightarrow> bool" where
  "all_leaves P s r \<longleftrightarrow> (\<forall>t \<in> l0_tables 3 s r. \<forall>k \<in> valid_slots s t. P (ent s t k))"

lemma all_leavesD: "all_leaves P s r \<Longrightarrow> t \<in> l0_tables 3 s r \<Longrightarrow> k \<in> valid_slots s t \<Longrightarrow> P (ent s t k)"
  by (simp add: all_leaves_def)

lemma all_leaves_walk: "all_leaves P s r \<Longrightarrow> walk s r va = Some t \<Longrightarrow> P (leaf_entry s t va)"
  unfolding leaf_entry_def by (erule all_leavesD [OF _ walk_l0]) (auto elim: walk_path)

lemma leaf_pages_l0: "leaf_pages (Suc n) s t = (\<Union>t0 \<in> l0_tables (Suc n) s t. \<Union>k \<in> valid_slots s t0. {child s t0 k})"
proof (induction n arbitrary: t)
  case (Suc n)
  have "leaf_pages (Suc (Suc n)) s t = (\<Union>k \<in> valid_slots s t. leaf_pages (Suc n) s (child s t k))"
    by (rule leaf_pages.simps(2))
  then show ?case unfolding Suc l0_tables.simps(3) by blast
qed auto

lemma leaf_pages_all: "leaf_pages 3 s r = {child s t k |t k. t \<in> l0_tables 3 s r \<and> k \<in> valid_slots s t}"
  using leaf_pages_l0 [of "Suc (Suc 0)"] by (auto simp only: numeral_3_eq_3)

text \<open>The page of an address, for every space.\<close>

definition page_view :: "vms_state \<Rightarrow> u64 \<Rightarrow> u64 \<Rightarrow> u8 list option" where
  "page_view s r va = map_option (\<lambda>t. content s (pte_page (leaf_entry s t va))) (walk s r va)"

text \<open>A space whose pages keep their bytes is as it was.\<close>

lemma space_frame:
  assumes "wf_table 3 s r" "is_tree 3 s r" and same: "same_content (tree_pages 3 s r) s s'" and "live s \<subseteq> live s'"
  shows "wf_table 3 s' r" "is_tree 3 s' r" "tree_pages 3 s' r = tree_pages 3 s r"
    "inner_pages 3 s' r = inner_pages 3 s r" "leaf_pages 3 s' r = leaf_pages 3 s r"
    "l0_tables 3 s' r = l0_tables 3 s r" "page_view s' r = page_view s r"
    "t \<in> l0_tables 3 s r \<Longrightarrow> valid_slots s' t = valid_slots s t"
    "t \<in> l0_tables 3 s r \<Longrightarrow> k < NUM_PTE_ENTRIES \<Longrightarrow> ent s' t k = ent s t k"
proof -
  have i: "same_content (inner_pages 3 s r) s s'"
    by (rule same_content_subset [OF same]) (simp add: inner_leaf_pages)
  show "wf_table 3 s' r" by (rule wf_table_stable [OF assms(1) same assms(4)])
  show "is_tree 3 s' r" using inner_stable(4) [OF i] assms(2) by simp
  show "tree_pages 3 s' r = tree_pages 3 s r" "inner_pages 3 s' r = inner_pages 3 s r"
    "leaf_pages 3 s' r = leaf_pages 3 s r" by (rule inner_stable [OF i])+
  show "l0_tables 3 s' r = l0_tables 3 s r" by (rule shared_stable(2) [OF i])
  have "leaf_entry s' t va = leaf_entry s t va" if "walk s r va = Some t" for va t
    using same_content_ent [OF i walk_in_tree(1) [OF that]] by (simp add: leaf_entry_def)
  moreover have "content s' (pte_page (leaf_entry s t va)) = content s (pte_page (leaf_entry s t va))"
    if "walk s r va = Some t" for va t
    using same walk_leaf_page [OF that] unfolding same_content_def inner_leaf_pages by blast
  ultimately have views: "walk s r va = Some t \<Longrightarrow> leaf_entry s' t va = leaf_entry s t va \<and>
      content s' (pte_page (leaf_entry s t va)) = content s (pte_page (leaf_entry s t va))" for va t by blast
  show "page_view s' r = page_view s r"
  proof (intro ext)
    fix va
    show "page_view s' r va = page_view s r va"
      using views [of va] walk_cong [OF i, of va] by (cases "walk s r va") (simp_all add: page_view_def)
  qed
  assume t: "t \<in> l0_tables 3 s r"
  then have ti: "t \<in> inner_pages 3 s r" using l0_tables_inner by blast
  then show "valid_slots s' t = valid_slots s t" by (rule same_content_slots [OF i])
  show "k < NUM_PTE_ENTRIES \<Longrightarrow> ent s' t k = ent s t k" by (rule same_content_ent [OF i ti])
qed

lemma all_leaves_frame:
  assumes "wf_table 3 s r" "is_tree 3 s r" "same_content (tree_pages 3 s r) s s'" "live s \<subseteq> live s'"
  shows "all_leaves P s' r = all_leaves P s r"
  using space_frame(6,8,9) [OF assms] valid_slotsD by (auto simp: all_leaves_def)

text \<open>After a write to \<open>va\<close> the space has the new page in the place of the old one.\<close>

lemma leaf_pages_change:
  assumes "is_tree (Suc n) s t" "t0 \<in> l0_tables (Suc n) s t" and ch: "leaf_change t0 k0 q s s'"
    and "same_content (inner_pages (Suc n) s t - {t0}) s s'"
  shows "leaf_pages (Suc n) s' t = insert q (leaf_pages (Suc n) s t - {child s t0 k0})"
  using assms
proof (induction n arbitrary: t)
  case 0
  then have t: "t = t0" by simp
  have k0: "k0 \<in> valid_slots s t" using ch t by (simp add: leaf_change_def)
  have sl: "valid_slots s' t = valid_slots s t" unfolding t by (rule leaf_change_slots [OF ch])
  have c: "child s' t k = (if k = k0 then q else child s t k)" if "k \<in> valid_slots s t" for k
    using ch t valid_slotsD [OF that] by (auto simp: leaf_change_def)
  have inj: "child s t k \<noteq> child s t k0" if "k \<in> valid_slots s t" "k \<noteq> k0" for k
    using is_tree_disjoint [OF 0(1) that(1) k0 that(2)] by simp
  have "leaf_pages (Suc 0) s' t = (\<Union>k \<in> valid_slots s t. {if k = k0 then q else child s t k})"
    using sl c by simp
  also have "\<dots> = insert q (\<Union>k \<in> valid_slots s t - {k0}. {child s t k})"
    using k0 by (auto split: if_splits)
  also have "(\<Union>k \<in> valid_slots s t - {k0}. {child s t k}) = leaf_pages (Suc 0) s t - {child s t k0}"
    using inj by auto
  finally show ?case by (simp add: t)
next
  case (Suc n)
  note tree = Suc.prems(1)
  obtain j where j: "j \<in> valid_slots s t" "t0 \<in> l0_tables (Suc n) s (child s t j)"
    using Suc.prems(2) by auto
  have t0j: "t0 \<in> tree_pages (Suc n) s (child s t j)" using j(2) l0_tables_tree by blast
  then have tt: "t \<noteq> t0" using is_tree_root [OF tree j(1)] by blast
  have k0: "k0 \<in> valid_slots s t0" using ch by (simp add: leaf_change_def)
  have root: "same_content {t} s s'" by (rule same_content_subset [OF Suc.prems(4)]) (use tt in auto)
  have sl: "valid_slots s' t = valid_slots s t" by (rule same_content_slots [OF root]) simp
  have c: "child s' t k = child s t k" if "k \<in> valid_slots s t" for k
    using same_content_ent [OF root, of t k] valid_slotsD [OF that] by simp
  have IH: "leaf_pages (Suc n) s' (child s t j) = insert q (leaf_pages (Suc n) s (child s t j) - {child s t0 k0})"
    by (rule Suc.IH [OF is_tree_child [OF tree j(1)] j(2) ch])
       (rule same_content_subset [OF Suc.prems(4)], use inner_pages_child [OF j(1), of "Suc n"] in blast)
  have other: "leaf_pages (Suc n) s' (child s t k) = leaf_pages (Suc n) s (child s t k) - {child s t0 k0}"
    if k: "k \<in> valid_slots s t" "k \<noteq> j" for k
  proof -
    have dj: "tree_pages (Suc n) s (child s t k) \<inter> tree_pages (Suc n) s (child s t j) = {}"
      by (rule is_tree_disjoint [OF tree k(1) j(1) k(2)])
    have "inner_pages (Suc n) s (child s t k) \<subseteq> inner_pages (Suc (Suc n)) s t - {t0}"
      using inner_pages_child [OF k(1), of "Suc n"] dj t0j unfolding inner_leaf_pages by blast
    from inner_stable(2) [OF same_content_subset [OF Suc.prems(4) this]]
    have "leaf_pages (Suc n) s' (child s t k) = leaf_pages (Suc n) s (child s t k)" .
    moreover have "child s t0 k0 \<notin> leaf_pages (Suc n) s (child s t k)"
      using dj l0_child_pages [OF j(2) k0] unfolding inner_leaf_pages by blast
    ultimately show ?thesis by blast
  qed
  have "leaf_pages (Suc (Suc n)) s' t = (\<Union>k \<in> valid_slots s t. leaf_pages (Suc n) s' (child s t k))"
    by (simp only: leaf_pages.simps(2) [of "Suc n"] sl c cong: SUP_cong)
  also have "\<dots> = insert q ((\<Union>k \<in> valid_slots s t. leaf_pages (Suc n) s (child s t k)) - {child s t0 k0})"
    using IH other j(1) by blast
  finally show ?case by (simp only: leaf_pages.simps(2) [of "Suc n"])
qed

section \<open>The invariant\<close>

definition mapped_by :: "vms_state \<Rightarrow> u64 list \<Rightarrow> u64 \<Rightarrow> nat set" where
  "mapped_by s rs p = {i. i < length rs \<and> p \<in> leaf_pages 3 s (rs ! i)}"

text \<open>An entry can be read, is either writable or marked, and a writable one has its page for itself.\<close>

definition leaf_entry_ok :: "vms_state \<Rightarrow> u64 \<Rightarrow> bool" where
  "leaf_entry_ok s e \<longleftrightarrow> pte_read e \<and> pte_write e \<noteq> pte_custom e \<and> (pte_write e \<longrightarrow> page_refs s (pte_page e) = 0)"

definition space_ok :: "vms_state \<Rightarrow> u64 \<Rightarrow> bool" where
  "space_ok s r \<longleftrightarrow> wf_table 3 s r \<and> is_tree 3 s r \<and> all_leaves (leaf_entry_ok s) s r"

definition spaces_ok :: "vms_state \<Rightarrow> u64 list \<Rightarrow> bool" where
  "spaces_ok s rs \<longleftrightarrow> vms_wf s \<and> (\<forall>i < length rs. space_ok s (rs ! i)) \<and>
     (\<forall>i < length rs. \<forall>j < length rs. i \<noteq> j \<longrightarrow> inner_pages 3 s (rs ! i) \<inter> tree_pages 3 s (rs ! j) = {}) \<and>
     (\<forall>p. mapped_by s rs p \<noteq> {} \<longrightarrow> page_refs s p + 1 = int (card (mapped_by s rs p))) \<and>
     (\<forall>p \<in> pool_pages s - live s. page_refs s p = 0)"

lemma finite_mapped_by [simp]: "finite (mapped_by s rs p)"
  by (simp add: mapped_by_def)

lemma page_refs_frame:
  "base_pointer s' = base_pointer s \<Longrightarrow> ref_track s' = ref_track s \<Longrightarrow> page_refs s' p = page_refs s p"
  by (simp add: page_refs_def vms_get_page_index_def)

lemma page_refs_drop_other:
  assumes "vms_wf s" "p \<in> pool_pages s" "x \<in> pool_pages s" "x \<noteq> p"
    and "ref_track s' = drop_ref s p" "base_pointer s' = base_pointer s"
  shows "page_refs s' x = page_refs s x"
proof -
  obtain i j where ij: "i < MAX_PAGES" "p = page_ptr s i" "j < MAX_PAGES" "x = page_ptr s j"
    using assms(2,3) by (auto simp: pool_pages_def)
  then have "vms_get_page_index p s = int i" "vms_get_page_index x s = int j" "i \<noteq> j"
    using get_page_index_page_ptr assms(4) by auto
  moreover have "vms_get_page_index x s' = vms_get_page_index x s"
    using assms(6) by (simp add: vms_get_page_index_def)
  ultimately show ?thesis using assms(5) by (simp add: page_refs_def drop_ref_def)
qed

lemma write_effect_refs:
  assumes "vms_wf s" "wf_table 3 s r" "walk s r va = Some t0" and we: "write_effect s r va v t0 q s'"
    and x: "x \<in> pool_pages s"
  defines "p \<equiv> pte_page (leaf_entry s t0 va)"
  shows "page_refs s' x = (if page_refs s p \<noteq> 0 \<and> x = p then page_refs s x - 1 else page_refs s x)"
proof -
  note W = we [unfolded write_effect_def Let_def, folded p_def]
  have p: "p \<in> pool_pages s" unfolding p_def by (rule walk_leaf(4) [OF assms(2,3)])
  show ?thesis
  proof (cases "page_refs s p = 0")
    case True
    then show ?thesis using W page_refs_frame [of s' s x] by simp
  next
    case False
    then have "ref_track s' = drop_ref s p" "base_pointer s' = base_pointer s" using W by simp_all
    then show ?thesis
      using False page_refs_drop [OF assms(1) p] page_refs_drop_other [OF assms(1) p x] by (cases "x = p") simp_all
  qed
qed

text \<open>Two addresses on the same page.\<close>

definition same_page :: "u64 \<Rightarrow> u64 \<Rightarrow> bool" where
  "same_page va va' \<longleftrightarrow> va_index va' 2 = va_index va 2 \<and> va_index va' 1 = va_index va 1 \<and> va_index va' 0 = va_index va 0"

lemma same_page_walk: "same_page va va' \<Longrightarrow> walk s r va' = walk s r va \<and> leaf_entry s t va' = leaf_entry s t va"
  by (simp add: same_page_def walk_def leaf_entry_def Let_def del: One_nat_def)

lemma write_effect_space:
  assumes wf: "wf_table 3 s r" "is_tree 3 s r" and w: "walk s r va = Some t0" and we: "write_effect s r va v t0 q s'"
  defines "p \<equiv> pte_page (leaf_entry s t0 va)"
  shows "inner_pages 3 s' r = inner_pages 3 s r" "leaf_pages 3 s' r = insert q (leaf_pages 3 s r - {p})"
    "l0_tables 3 s' r = l0_tables 3 s r" "t \<in> l0_tables 3 s r \<Longrightarrow> valid_slots s' t = valid_slots s t"
    "t \<in> l0_tables 3 s r \<Longrightarrow> k < NUM_PTE_ENTRIES \<Longrightarrow> t \<noteq> t0 \<or> k \<noteq> va_index va 0 \<Longrightarrow> ent s' t k = ent s t k"
proof -
  let ?k = "va_index va 0"
  note W = we [unfolded write_effect_def Let_def, folded p_def]
  have live: "tree_pages 3 s r \<subseteq> live s" using wf(1) by (simp add: wf_table_iff)
  have t0: "t0 \<in> l0_tables 3 s r" by (rule walk_l0 [OF w])
  have q: "q \<notin> inner_pages 3 s r"
  proof (cases "page_refs s p = 0")
    case True
    then have "q \<in> leaf_pages 3 s r" using W walk_leaf_page [OF w] by (simp add: p_def)
    then show ?thesis using is_tree_inner_leaf [OF wf(2)] by blast
  next
    case False
    then have "q \<notin> live s" using W by simp
    then show ?thesis using live unfolding inner_leaf_pages by blast
  qed
  have sub: "inner_pages 3 s r - {t0} \<subseteq> live s - {t0, q}" using live q unfolding inner_leaf_pages by blast
  have same0: "same_content (live s - {t0, q}) s s'" using W by blast
  have same: "same_content (inner_pages 3 s r - {t0}) s s'" by (rule same_content_subset [OF same0 sub])
  have up: "same_content (inner_pages 3 s r - l0_tables 3 s r) s s'"
    by (rule same_content_subset [OF same]) (use t0 in blast)
  show "inner_pages 3 s' r = inner_pages 3 s r" "l0_tables 3 s' r = l0_tables 3 s r"
    using inner_pages_upper [of "Suc (Suc 0)" s r s'] wf(2) up by (simp_all only: numeral_3_eq_3)
  have slot: "?k \<in> valid_slots s t0" "?k < NUM_PTE_ENTRIES" using w by (auto elim: walk_path)
  have ents: "ent s' t0 k = ent s t0 k" if "k < NUM_PTE_ENTRIES" "k \<noteq> ?k" for k using W that by blast
  have own: "pte_valid (ent s' t0 ?k)" "child s' t0 ?k = q" using W by (simp_all add: leaf_entry_def)
  have ch: "leaf_change t0 ?k q s s'"
    using slot own ents by (auto simp: leaf_change_def valid_slots_def)
  show "leaf_pages 3 s' r = insert q (leaf_pages 3 s r - {p})"
    using leaf_pages_change [of "Suc (Suc 0)" s r t0 ?k q s'] wf(2) t0 ch same
    unfolding p_def leaf_entry_def by (simp only: numeral_3_eq_3)
  assume t: "t \<in> l0_tables 3 s r"
  then have ti: "t \<in> inner_pages 3 s r" using l0_tables_inner by blast
  show "valid_slots s' t = valid_slots s t"
  proof (cases "t = t0")
    case True
    then show ?thesis using leaf_change_slots [OF ch] by simp
  next
    case False
    then show ?thesis using ti by (intro same_content_slots [OF same]) blast
  qed
  show "ent s' t k = ent s t k" if "k < NUM_PTE_ENTRIES" "t \<noteq> t0 \<or> k \<noteq> ?k"
  proof (cases "t = t0")
    case True
    then show ?thesis using ents that by simp
  next
    case False
    then show ?thesis using ti that(1) by (intro same_content_ent [OF same]) blast+
  qed
qed

text \<open>Seen through its own space a write changes the bytes at the address, and nothing else.\<close>

lemma write_effect_view:
  assumes wf: "wf_table 3 s r" "is_tree 3 s r" and w: "walk s r va = Some t0" and we: "write_effect s r va v t0 q s'"
  shows "page_view s' r va' =
    (if same_page va va' then map_option (put32 (page_offset va) v) (page_view s r va') else page_view s r va')"
proof -
  let ?p = "pte_page (leaf_entry s t0 va)"
  note W = we [unfolded write_effect_def Let_def] and S = write_effect_space [OF wf w we]
  have walks: "walk s' r va' = walk s r va'" using W by blast
  show ?thesis
  proof (cases "same_page va va'")
    case True
    then show ?thesis using same_page_walk [OF True, of s r t0] same_page_walk [OF True, of s' r t0] W w
      by (simp add: page_view_def)
  next
    case False
    show ?thesis
    proof (cases "walk s r va'")
      case (Some t)
      let ?x = "pte_page (leaf_entry s t va')"
      have ne: "?x \<noteq> ?p"
        using walk_leaf_inj [OF wf(2) Some w] False by (auto simp: same_page_def leaf_entry_def)
      have "t \<noteq> t0 \<or> va_index va' 0 \<noteq> va_index va 0" using ne by (auto simp: leaf_entry_def)
      then have e: "leaf_entry s' t va' = leaf_entry s t va'"
        using S(5) [OF walk_l0 [OF Some], of "va_index va' 0"] by (simp add: leaf_entry_def)
      have leaf: "?x \<in> leaf_pages 3 s r" by (rule walk_leaf_page [OF Some])
      have xl: "?x \<in> live s" by (rule walk_leaf(3) [OF wf(1) Some])
      have "?x \<noteq> t0" using leaf walk_in_tree(1) [OF w] is_tree_inner_leaf [OF wf(2)] by blast
      moreover have "?x \<noteq> q" using W ne xl by (auto split: if_splits)
      moreover have "same_content (live s - {t0, q}) s s'" using W by blast
      ultimately have "content s' ?x = content s ?x" using xl by (simp add: same_content_def)
      then show ?thesis using False Some walks e by (simp add: page_view_def)
    qed (use False walks in \<open>simp add: page_view_def\<close>)
  qed
qed

text \<open>The pages of the other spaces are not touched.\<close>

lemma spaces_okD:
  assumes "spaces_ok s rs" "i < length rs"
  shows "vms_wf s" "wf_table 3 s (rs ! i)" "is_tree 3 s (rs ! i)" "all_leaves (leaf_entry_ok s) s (rs ! i)"
    "j < length rs \<Longrightarrow> i \<noteq> j \<Longrightarrow> inner_pages 3 s (rs ! i) \<inter> tree_pages 3 s (rs ! j) = {}"
    "mapped_by s rs p \<noteq> {} \<Longrightarrow> page_refs s p + 1 = int (card (mapped_by s rs p))"
    "p \<in> pool_pages s \<Longrightarrow> p \<notin> live s \<Longrightarrow> page_refs s p = 0"
  using assms by (auto simp: spaces_ok_def space_ok_def)

lemma sole_mapper:
  assumes ok: "spaces_ok s rs" and i: "i < length rs" "p \<in> leaf_pages 3 s (rs ! i)" "page_refs s p = 0"
    and j: "j < length rs" "j \<noteq> i"
  shows "p \<notin> tree_pages 3 s (rs ! j)"
proof -
  have m: "i \<in> mapped_by s rs p" using i by (simp add: mapped_by_def)
  then have "int (card (mapped_by s rs p)) = 1" using spaces_okD(6) [OF ok i(1), of p] i(3) by auto
  then have "card (mapped_by s rs p) = 1" by simp
  then obtain k where "mapped_by s rs p = {k}" using card_1_singletonE by blast
  then have "j \<notin> mapped_by s rs p" using m j(2) by auto
  then have "p \<notin> leaf_pages 3 s (rs ! j)" using j(1) by (simp add: mapped_by_def)
  moreover have "p \<notin> inner_pages 3 s (rs ! j)"
    using spaces_okD(5) [OF ok j(1) i(1) j(2)] i(2) unfolding inner_leaf_pages by blast
  ultimately show ?thesis unfolding inner_leaf_pages by blast
qed

lemma write_effect_others:
  assumes ok: "spaces_ok s rs" and i: "i < length rs" and w: "walk s (rs ! i) va = Some t0"
    and we: "write_effect s (rs ! i) va v t0 q s'" and j: "j < length rs" "j \<noteq> i"
  shows "same_content (tree_pages 3 s (rs ! j)) s s'"
proof -
  note W = we [unfolded write_effect_def Let_def] and D = spaces_okD [OF ok i]
  have live: "tree_pages 3 s (rs ! j) \<subseteq> live s" using spaces_okD(2) [OF ok j(1)] by (simp add: wf_table_iff)
  have "t0 \<notin> tree_pages 3 s (rs ! j)" using D(5) [OF j(1)] j(2) walk_in_tree(1) [OF w] by blast
  moreover have "q \<notin> tree_pages 3 s (rs ! j)"
  proof (cases "page_refs s (pte_page (leaf_entry s t0 va)) = 0")
    case True
    then show ?thesis using W sole_mapper [OF ok i walk_leaf_page [OF w] True j] by simp
  next
    case False
    then show ?thesis using W live by auto
  qed
  ultimately have "tree_pages 3 s (rs ! j) \<subseteq> live s - {t0, q}" using live by blast
  moreover have "same_content (live s - {t0, q}) s s'" using W by blast
  ultimately show ?thesis by (rule same_content_subset [rotated])
qed

section \<open>A write keeps the invariant\<close>

lemma write_live:
  assumes "write_effect s r va v t0 q s'"
  shows "live s \<subseteq> live s'" "live s' \<subseteq> insert q (live s)" "pool_pages s' = pool_pages s" "vms_wf s'"
  using assms by (auto simp: write_effect_def Let_def split: if_splits intro!: pool_pages_cong)

lemma write_mapped_by:
  assumes ok: "spaces_ok s rs" and i: "i < length rs" and w: "walk s (rs ! i) va = Some t0"
    and we: "write_effect s (rs ! i) va v t0 q s'"
  defines "p \<equiv> pte_page (leaf_entry s t0 va)"
  shows "mapped_by s' rs x = (if x = q then insert i (mapped_by s rs x)
    else if x = p then mapped_by s rs x - {i} else mapped_by s rs x)"
proof -
  have D: "leaf_pages 3 s' (rs ! j) = leaf_pages 3 s (rs ! j)" if "j < length rs" "j \<noteq> i" for j
    by (rule space_frame(5) [OF spaces_okD(2,3) [OF ok that(1)] write_effect_others [OF ok i w we that]
        write_live(1) [OF we]])
  have I: "leaf_pages 3 s' (rs ! i) = insert q (leaf_pages 3 s (rs ! i) - {p})"
    unfolding p_def by (rule write_effect_space(2) [OF spaces_okD(2,3) [OF ok i] w we])
  have "j \<in> mapped_by s' rs x \<longleftrightarrow> j \<in> (if x = q then insert i (mapped_by s rs x)
    else if x = p then mapped_by s rs x - {i} else mapped_by s rs x)" for j
    using D [of j] I i by (cases "j = i") (auto simp: mapped_by_def)
  then show ?thesis by blast
qed

lemma write_counts:
  assumes ok: "spaces_ok s rs" and i: "i < length rs" and w: "walk s (rs ! i) va = Some t0"
    and we: "write_effect s (rs ! i) va v t0 q s'" and m: "mapped_by s' rs x \<noteq> {}"
  shows "page_refs s' x + 1 = int (card (mapped_by s' rs x))"
proof -
  let ?p = "pte_page (leaf_entry s t0 va)"
  note W = we [unfolded write_effect_def Let_def] and M = write_mapped_by [OF ok i w we, of x]
  note L = write_live [OF we] and D = spaces_okD [OF ok i]
  have pm: "i \<in> mapped_by s rs ?p" using i walk_leaf_page [OF w] by (simp add: mapped_by_def)
  have live: "p \<in> live s" if "j < length rs" "p \<in> leaf_pages 3 s (rs ! j)" for p j
    using spaces_okD(2) [OF ok that(1)] that(2) unfolding wf_table_iff inner_leaf_pages by blast
  have "x \<in> live s'"
  proof (cases "x = q")
    case True
    then show ?thesis using W live [OF i walk_leaf_page [OF w]] by (auto split: if_splits)
  next
    case False
    then have "mapped_by s rs x \<noteq> {}" using m M by (auto split: if_splits)
    then show ?thesis using live L(1) by (auto simp: mapped_by_def)
  qed
  then have xp: "x \<in> pool_pages s" using live_in_pool L(3) by metis
  note R = write_effect_refs [OF D(1,2) w we xp]
  show ?thesis
  proof (cases "page_refs s ?p = 0")
    case True
    then have "q = ?p" using W by simp
    then have "mapped_by s' rs x = mapped_by s rs x" using M pm by auto
    then show ?thesis using R True D(6) m by simp
  next
    case False
    then have q: "q \<notin> live s" using W by simp
    then have none: "mapped_by s rs q = {}" using live by (auto simp: mapped_by_def)
    have pq: "q \<noteq> ?p" using pm none by auto
    consider "x = q" | "x = ?p" | "x \<noteq> q" "x \<noteq> ?p" by blast
    then show ?thesis
    proof cases
      case 1
      then show ?thesis using M R pq none D(7) [OF xp] q by simp
    next
      case 2
      have "page_refs s ?p + 1 = int (card (mapped_by s rs ?p))" using D(6) pm by blast
      moreover have "card (mapped_by s rs ?p - {i}) = card (mapped_by s rs ?p) - 1"
        using pm by simp
      moreover have "mapped_by s rs ?p \<noteq> {}" using pm by blast
      then have "0 < card (mapped_by s rs ?p)" by (simp add: card_gt_0_iff)
      moreover have "mapped_by s' rs x = mapped_by s rs ?p - {i}" using M 2 pq by simp
      moreover have "page_refs s' x = page_refs s ?p - 1" using R 2 False by simp
      ultimately show ?thesis by simp
    next
      case 3
      then show ?thesis using M R D(6) m by simp
    qed
  qed
qed

lemma write_entries:
  assumes ok: "spaces_ok s rs" and i: "i < length rs" and w: "walk s (rs ! i) va = Some t0"
    and we: "write_effect s (rs ! i) va v t0 q s'" and j: "j < length rs"
  shows "all_leaves (leaf_entry_ok s') s' (rs ! j)"
proof -
  let ?p = "pte_page (leaf_entry s t0 va)"
  note W = we [unfolded write_effect_def Let_def] and D = spaces_okD [OF ok i] and Dj = spaces_okD [OF ok j]
  note L = write_live [OF we]
  have kept: "leaf_entry_ok s' (ent s t k)" if "t \<in> l0_tables 3 s (rs ! j)" "k \<in> valid_slots s t" for t k
  proof -
    have e: "leaf_entry_ok s (ent s t k)" by (rule all_leavesD [OF Dj(4) that])
    have "child s t k \<in> leaf_pages 3 s (rs ! j)" using that by (auto simp: leaf_pages_all)
    then have "child s t k \<in> live s" using Dj(2) unfolding wf_table_iff inner_leaf_pages by blast
    then have "child s t k \<in> pool_pages s" by (rule live_in_pool)
    from write_effect_refs [OF D(1,2) w we this] e show ?thesis by (auto simp: leaf_entry_ok_def)
  qed
  show ?thesis
  proof (cases "j = i")
    case False
    note F = space_frame [OF Dj(2,3) write_effect_others [OF ok i w we j False] L(1)]
    show ?thesis using kept F(6,8,9) valid_slotsD by (auto simp: all_leaves_def)
  next
    case True
    note S = write_effect_space [OF D(2,3) w we]
    have new: "leaf_entry_ok s' (ent s' t0 (va_index va 0))"
    proof -
      have e: "leaf_entry_ok s (leaf_entry s t0 va)" by (rule all_leaves_walk [OF D(4) w])
      have "q \<in> live s'" using W walk_leaf(3) [OF D(2) w] by (auto split: if_splits)
      then have qp: "q \<in> pool_pages s" using live_in_pool L(3) by metis
      have "page_refs s' q = 0"
        using write_effect_refs [OF D(1,2) w we qp] W D(7) [OF qp] walk_leaf(3) [OF D(2) w] by (auto split: if_splits)
      then show ?thesis using W e by (simp add: leaf_entry_ok_def leaf_entry_def)
    qed
    show ?thesis
      unfolding all_leaves_def True
    proof (intro ballI)
      fix t k assume t: "t \<in> l0_tables 3 s' (rs ! i)" "k \<in> valid_slots s' t"
      then have t': "t \<in> l0_tables 3 s (rs ! i)" "k \<in> valid_slots s t" using S(3,4) by auto
      show "leaf_entry_ok s' (ent s' t k)"
      proof (cases "t = t0 \<and> k = va_index va 0")
        case False
        then show ?thesis using S(5) [OF t'(1), of k] kept [of t k] t' valid_slotsD True by auto
      qed (use new in simp)
    qed
  qed
qed

lemma write_effect_spaces_ok:
  assumes ok: "spaces_ok s rs" and i: "i < length rs" and w: "walk s (rs ! i) va = Some t0"
    and we: "write_effect s (rs ! i) va v t0 q s'"
  shows "spaces_ok s' rs"
proof -
  note W = we [unfolded write_effect_def Let_def] and D = spaces_okD [OF ok i] and L = write_live [OF we]
  note S = write_effect_space [OF D(2,3) w we]
  have frame: "wf_table 3 s' (rs ! j) \<and> is_tree 3 s' (rs ! j) \<and> tree_pages 3 s' (rs ! j) = tree_pages 3 s (rs ! j) \<and>
      inner_pages 3 s' (rs ! j) = inner_pages 3 s (rs ! j)" if "j < length rs" "j \<noteq> i" for j
    using space_frame [OF spaces_okD(2,3) [OF ok that(1)] write_effect_others [OF ok i w we that] L(1)] by blast
  have "space_ok s' (rs ! j)" if "j < length rs" for j
    using frame [OF that] W write_entries [OF ok i w we that] by (cases "j = i") (auto simp: space_ok_def)
  moreover have "inner_pages 3 s' (rs ! j) \<inter> tree_pages 3 s' (rs ! k) = {}"
    if jk: "j < length rs" "k < length rs" "j \<noteq> k" for j k
  proof -
    have old: "inner_pages 3 s (rs ! j) \<inter> tree_pages 3 s (rs ! k) = {}" by (rule spaces_okD(5) [OF ok jk])
    have inner: "inner_pages 3 s' (rs ! j) = inner_pages 3 s (rs ! j)" using frame [OF jk(1)] S(1) by (cases "j = i") auto
    show ?thesis
    proof (cases "k = i")
      case False
      then show ?thesis using frame [OF jk(2)] inner old by simp
    next
      case True
      have "tree_pages 3 s' (rs ! i) \<subseteq> insert q (tree_pages 3 s (rs ! i))"
        unfolding inner_leaf_pages S(1,2) by blast
      moreover have "q \<notin> inner_pages 3 s (rs ! j)"
      proof (cases "page_refs s (pte_page (leaf_entry s t0 va)) = 0")
        case refs: True
        then have "q \<in> tree_pages 3 s (rs ! i)" using W walk_leaf_page [OF w] unfolding inner_leaf_pages by simp
        then show ?thesis using old True by blast
      next
        case False
        then have "q \<notin> live s" using W by simp
        then show ?thesis using spaces_okD(2) [OF ok jk(1)] unfolding wf_table_iff inner_leaf_pages by blast
      qed
      ultimately show ?thesis using inner old True by blast
    qed
  qed
  moreover have "page_refs s' p = 0" if "p \<in> pool_pages s'" "p \<notin> live s'" for p
  proof -
    have p: "p \<in> pool_pages s" "p \<notin> live s" using that L by auto
    then show ?thesis
      using write_effect_refs [OF D(1,2) w we p(1)] D(7) [OF p] walk_leaf(3) [OF D(2) w] by auto
  qed
  ultimately show ?thesis using L(4) write_counts [OF ok i w we] by (auto simp: spaces_ok_def)
qed

end
