(* ===== verification/SpacesFork.thy ===== *)
theory SpacesFork
  imports VmsSpaces
begin

text \<open>
  Both fork functions add a space to those there are: the invariant of \<open>VmsSpaces\<close> holds with the new
  root, the old spaces are seen as before, and the new one is seen as the one it was made from.
\<close>

section \<open>The entries of a new space\<close>

lemma forked_leaves:
  "forked n s t s' u \<Longrightarrow> u0 \<in> l0_tables n s' u \<Longrightarrow>
     \<exists>t0 \<in> l0_tables n s t. valid_slots s' u0 = valid_slots s t0 \<and>
       (\<forall>k \<in> valid_slots s t0. same_flags (ent s' u0 k) (ent s t0 k))"
proof (induction n arbitrary: t u)
  case (Suc n)
  note F = forked_SucD [OF Suc.prems(1)] and sl = forked_slots [OF Suc.prems(1)]
  show ?case
  proof (cases n)
    case 0
    then have "u0 = u" using Suc.prems(2) by simp
    then show ?thesis using 0 sl F(1) by auto
  next
    case (Suc m)
    then obtain k where k: "k \<in> valid_slots s t" "u0 \<in> l0_tables n s' (child s' u k)"
      using Suc.prems(2) sl by auto
    from Suc.IH [OF F(2) [OF k(1)] k(2)] k(1) show ?thesis unfolding Suc l0_tables.simps(3) by blast
  qed
qed simp

lemma marked_leaves:
  "marked n s t s' \<Longrightarrow> t0 \<in> l0_tables n s t \<Longrightarrow>
     valid_slots s' t0 = valid_slots s t0 \<and> (\<forall>k \<in> valid_slots s t0. ent s' t0 k = cow_entry (ent s t0 k))"
proof (induction n s t s' rule: marked.induct)
  case (2 s t s')
  then have t0: "t0 = t" by simp
  have "ent s' t k = cow_entry (ent s t k)" if "k \<in> valid_slots s t" for k
    using 2(1) that by (simp add: valid_slots_def)
  then show ?case using marked_valid_slots [OF 2(1)] t0 by blast
next
  case (3 n s t s')
  from 3(3) obtain k where k: "k \<in> valid_slots s t" "t0 \<in> l0_tables (Suc n) s (child s t k)"
    unfolding l0_tables.simps(3) by blast
  have "marked (Suc n) s (child s t k) s'" using 3(2) k(1) unfolding marked.simps(3) by blast
  from 3(1) [OF k(1) this k(2)] show ?case .
qed simp

lemma mirror_leaves:
  "mirror n s t s' u \<Longrightarrow> u0 \<in> l0_tables n s' u \<Longrightarrow>
     \<exists>t0 \<in> l0_tables n s t. valid_slots s' u0 = valid_slots s t0 \<and>
       (\<forall>k \<in> valid_slots s t0. ent s' u0 k = cow_entry (ent s t0 k))"
proof (induction n arbitrary: t u)
  case (Suc n)
  note sl = mirror_slots [OF Suc.prems(1)]
  show ?case
  proof (cases n)
    case 0
    then have "u0 = u" using Suc.prems(2) by simp
    then show ?thesis using 0 sl Suc.prems(1) by (auto simp: valid_slots_def)
  next
    case (Suc m)
    then obtain k where k: "k \<in> valid_slots s t" "u0 \<in> l0_tables n s' (child s' u k)"
      using Suc.prems(2) sl by auto
    have "mirror n s (child s t k) s' (child s' u k)"
      by (rule mirror_slot(2) [OF Suc.prems(1)]) (use k(1) in \<open>auto simp: valid_slots_def\<close>)
    from Suc.IH [OF this k(2)] k(1) show ?thesis unfolding Suc l0_tables.simps(3) by blast
  qed
qed simp

text \<open>When every entry is shared, \<open>ref_track\<close> counts one more for each data page.\<close>

lemma sharers_shared:
  assumes "is_tree (Suc n) s t" "x \<in> leaf_pages (Suc n) s t"
    and "\<And>t0 k. t0 \<in> l0_tables (Suc n) s t \<Longrightarrow> k \<in> valid_slots s t0 \<Longrightarrow> cow_slot (ent s t0 k)"
  shows "sharers (Suc n) s t x = 1"
  using assms
proof (induction n arbitrary: t)
  case 0
  then obtain k where k: "k \<in> valid_slots s t" "child s t k = x" by auto
  have "(if cow_slot (ent s t j) \<and> child s t j = x then 1 else 0) = (if j = k then 1 else (0::int))"
    if j: "j \<in> valid_slots s t" for j
  proof (cases "j = k")
    case True
    then show ?thesis using k 0(3) [of t k] by simp
  next
    case False
    then show ?thesis using is_tree_disjoint [OF 0(1) j k(1)] k(2) by simp
  qed
  then have "sharers (Suc 0) s t x = (\<Sum>j \<in> valid_slots s t. if j = k then 1 else 0)"
    unfolding sharers.simps(2) by (rule sum.cong [OF refl])
  then show ?case using k(1) by simp
next
  case (Suc n)
  then obtain k where k: "k \<in> valid_slots s t" "x \<in> leaf_pages (Suc n) s (child s t k)" by auto
  have "sharers (Suc n) s (child s t k) x = 1"
    by (rule Suc.IH [OF is_tree_child [OF Suc.prems(1) k(1)] k(2)])
       (rule Suc.prems(3), use k(1) in \<open>auto simp: l0_tables.simps(3)\<close>)
  then show ?case using sharers_child [OF Suc.prems(1) k] by simp
qed

section \<open>The plain fork\<close>

lemma copied_frame:
  assumes ok: "spaces_ok s rs" and j: "j < length rs" and cp: "copied 3 s t s' u"
  shows "same_content (tree_pages 3 s (rs ! j)) s s'" "live s \<subseteq> live s'"
  using cp spaces_okD(2) [OF ok j] by (auto simp: copied_def wf_table_iff intro: same_content_subset)

lemma copied_mapped_by:
  assumes ok: "spaces_ok s rs" and cp: "copied 3 s t s' u"
  shows "mapped_by s' (rs @ [u]) x = (if x \<in> leaf_pages 3 s' u then {length rs} else mapped_by s rs x)"
proof -
  note C = cp [unfolded copied_def]
  have "leaf_pages 3 s' (rs ! j) = leaf_pages 3 s (rs ! j) \<and> leaf_pages 3 s (rs ! j) \<inter> leaf_pages 3 s' u = {}"
    if j: "j < length rs" for j
  proof -
    have "leaf_pages 3 s (rs ! j) \<subseteq> live s"
      using spaces_okD(2) [OF ok j] unfolding wf_table_iff inner_leaf_pages by blast
    moreover have "leaf_pages 3 s' u \<inter> live s = {}" using C unfolding inner_leaf_pages by blast
    ultimately show ?thesis
      using space_frame(5) [OF spaces_okD(2,3) [OF ok j] copied_frame [OF ok j cp]] by blast
  qed
  then have "j \<in> mapped_by s' (rs @ [u]) x \<longleftrightarrow>
      j \<in> (if x \<in> leaf_pages 3 s' u then {length rs} else mapped_by s rs x)" for j
    by (cases "j < length rs") (auto simp: mapped_by_def nth_append less_Suc_eq)
  then show ?thesis by blast
qed

lemma copied_view:
  assumes "forked 3 s t s' u"
  shows "page_view s' u = page_view s t"
proof
  fix va
  show "page_view s' u va = page_view s t va"
  proof (cases "walk s t va")
    case None
    then show ?thesis using forked_walk(1) [OF assms] by (simp add: page_view_def)
  next
    case (Some t0)
    then show ?thesis using forked_walk(2) [OF assms Some] by (auto simp: page_view_def)
  qed
qed

lemma copied_entries:
  assumes ok: "spaces_ok s rs" and i: "i < length rs" and cp: "copied 3 s (rs ! i) s' u"
  shows "all_leaves (leaf_entry_ok s') s' u"
  unfolding all_leaves_def
proof (intro ballI)
  fix u0 k assume u0: "u0 \<in> l0_tables 3 s' u" "k \<in> valid_slots s' u0"
  note C = cp [unfolded copied_def]
  obtain t0 where t0: "t0 \<in> l0_tables 3 s (rs ! i)" "valid_slots s' u0 = valid_slots s t0"
    "\<forall>k \<in> valid_slots s t0. same_flags (ent s' u0 k) (ent s t0 k)"
    using forked_leaves [of 3 s "rs ! i" s' u u0] C u0(1) by blast
  have e: "leaf_entry_ok s (ent s t0 k)"
    by (rule all_leavesD [OF spaces_okD(4) [OF ok i] t0(1)]) (use u0(2) t0(2) in simp)
  have "child s' u0 k \<in> leaf_pages 3 s' u" using u0 by (auto simp: leaf_pages_all)
  then have x: "child s' u0 k \<in> live s'" "child s' u0 k \<notin> live s"
    using C unfolding inner_leaf_pages by blast+
  have "pool_pages s' = pool_pages s" using C by (intro pool_pages_cong) simp
  then have "child s' u0 k \<in> pool_pages s" using live_in_pool [OF x(1)] by simp
  then have "page_refs s' (child s' u0 k) = 0"
    using spaces_okD(7) [OF ok i] x(2) C page_refs_frame [of s' s] by simp
  then show "leaf_entry_ok s' (ent s' u0 k)"
    using e same_flags_iff [of "ent s' u0 k" "ent s t0 k"] t0(2,3) u0(2) by (auto simp: leaf_entry_ok_def)
qed

lemma nth_extended: "j < length (rs @ [u]) \<Longrightarrow> j < length rs \<and> (rs @ [u]) ! j = rs ! j \<or> j = length rs \<and> (rs @ [u]) ! j = u"
  by (auto simp: nth_append less_Suc_eq)

text \<open>What is left to show of the invariant once a root is added.\<close>

lemma spaces_ok_extend:
  assumes "vms_wf s'" and old: "\<And>j. j < length rs \<Longrightarrow> space_ok s' (rs ! j)" and new: "space_ok s' u"
    and "\<And>j k. j < length rs \<Longrightarrow> k < length rs \<Longrightarrow> j \<noteq> k \<Longrightarrow> inner_pages 3 s' (rs ! j) \<inter> tree_pages 3 s' (rs ! k) = {}"
    and "\<And>j. j < length rs \<Longrightarrow> inner_pages 3 s' (rs ! j) \<inter> tree_pages 3 s' u = {} \<and>
      inner_pages 3 s' u \<inter> tree_pages 3 s' (rs ! j) = {}"
    and "\<And>p. mapped_by s' (rs @ [u]) p \<noteq> {} \<Longrightarrow> page_refs s' p + 1 = int (card (mapped_by s' (rs @ [u]) p))"
    and "\<And>p. p \<in> pool_pages s' \<Longrightarrow> p \<notin> live s' \<Longrightarrow> page_refs s' p = 0"
  shows "spaces_ok s' (rs @ [u])"
  unfolding spaces_ok_def
proof (intro conjI allI impI ballI)
  show "vms_wf s'" by (rule assms(1))
  show "space_ok s' ((rs @ [u]) ! j)" if "j < length (rs @ [u])" for j
    using nth_extended [OF that] old new by auto
  show "inner_pages 3 s' ((rs @ [u]) ! j) \<inter> tree_pages 3 s' ((rs @ [u]) ! k) = {}"
    if jk: "j < length (rs @ [u])" "k < length (rs @ [u])" "j \<noteq> k" for j k
    using nth_extended [OF jk(1)] nth_extended [OF jk(2)] jk(3) assms(4) [of j k] assms(5) [of j] assms(5) [of k]
    by (elim disjE conjE) simp_all
qed (use assms(6,7) in auto)

lemma fork_copy_spaces:
  assumes ok: "spaces_ok s rs" and i: "i < length rs" and cp: "copied 3 s (rs ! i) s' u"
  shows "spaces_ok s' (rs @ [u])" "j < length rs \<Longrightarrow> page_view s' (rs ! j) = page_view s (rs ! j)"
    "page_view s' u = page_view s (rs ! i)"
proof -
  note C = cp [unfolded copied_def]
  have F: "wf_table 3 s' (rs ! j) \<and> is_tree 3 s' (rs ! j) \<and> tree_pages 3 s' (rs ! j) = tree_pages 3 s (rs ! j) \<and>
      inner_pages 3 s' (rs ! j) = inner_pages 3 s (rs ! j) \<and> page_view s' (rs ! j) = page_view s (rs ! j) \<and>
      all_leaves (leaf_entry_ok s') s' (rs ! j)" if j: "j < length rs" for j
  proof -
    note D = spaces_okD(2,3) [OF ok j] and fr = copied_frame [OF ok j cp]
    have "leaf_entry_ok s' = leaf_entry_ok s"
      using C by (intro ext) (simp add: leaf_entry_ok_def page_refs_frame [of s' s])
    then have "all_leaves (leaf_entry_ok s') s' (rs ! j)"
      using all_leaves_frame [OF D fr] spaces_okD(4) [OF ok j] by simp
    then show ?thesis using space_frame(1-4,7) [OF D fr] by blast
  qed
  then show "j < length rs \<Longrightarrow> page_view s' (rs ! j) = page_view s (rs ! j)" by blast
  show "page_view s' u = page_view s (rs ! i)" by (rule copied_view) (use C in blast)
  have lu: "tree_pages 3 s' u \<inter> live s = {}" "tree_pages 3 s' u \<subseteq> live s'" using C by auto
  have li: "tree_pages 3 s (rs ! j) \<subseteq> live s" if "j < length rs" for j
    using spaces_okD(2) [OF ok that] by (simp add: wf_table_iff)
  have refs: "page_refs s' p = page_refs s p" for p using C by (intro page_refs_frame) simp_all
  have pool: "pool_pages s' = pool_pages s" using C by (intro pool_pages_cong) simp
  show "spaces_ok s' (rs @ [u])"
  proof (rule spaces_ok_extend)
    show "vms_wf s'" using C by blast
    show "space_ok s' (rs ! j)" if "j < length rs" for j using F [OF that] by (simp add: space_ok_def)
    show "space_ok s' u"
      using C lu(2) copied_entries [OF ok i cp] by (simp add: space_ok_def wf_table_iff)
    show "inner_pages 3 s' (rs ! j) \<inter> tree_pages 3 s' (rs ! k) = {}" if "j < length rs" "k < length rs" "j \<noteq> k" for j k
      using F [OF that(1)] F [OF that(2)] spaces_okD(5) [OF ok that] by simp
    show "inner_pages 3 s' (rs ! j) \<inter> tree_pages 3 s' u = {} \<and> inner_pages 3 s' u \<inter> tree_pages 3 s' (rs ! j) = {}"
      if "j < length rs" for j
      using F [OF that] lu(1) li [OF that] unfolding inner_leaf_pages by blast
    show "page_refs s' p = 0" if "p \<in> pool_pages s'" "p \<notin> live s'" for p
      using spaces_okD(7) [OF ok i, of p] that refs pool C by auto
    fix p assume m: "mapped_by s' (rs @ [u]) p \<noteq> {}"
    show "page_refs s' p + 1 = int (card (mapped_by s' (rs @ [u]) p))"
    proof (cases "p \<in> leaf_pages 3 s' u")
      case True
      then have "p \<in> live s'" "p \<notin> live s" using lu unfolding inner_leaf_pages by blast+
      moreover from this(1) have "p \<in> pool_pages s" using live_in_pool pool by metis
      ultimately show ?thesis
        using copied_mapped_by [OF ok cp, of p] True spaces_okD(7) [OF ok i] refs by simp
    next
      case False
      then show ?thesis using copied_mapped_by [OF ok cp, of p] m spaces_okD(6) [OF ok i, of p] refs by simp
    qed
  qed
qed

section \<open>The copy-on-write fork\<close>

lemma shared_frame:
  assumes ok: "spaces_ok s rs" and i: "i < length rs" and cp: "shared_copy 3 s (rs ! i) s' u"
    and j: "j < length rs" "j \<noteq> i"
  shows "same_content (tree_pages 3 s (rs ! j)) s s'" "live s \<subseteq> live s'"
proof -
  note C = cp [unfolded shared_copy_def]
  have "tree_pages 3 s (rs ! j) \<subseteq> live s" using spaces_okD(2) [OF ok j(1)] by (simp add: wf_table_iff)
  moreover have "l0_tables 3 s (rs ! i) \<inter> tree_pages 3 s (rs ! j) = {}"
    using spaces_okD(5) [OF ok i j(1)] j(2) l0_tables_inner [of 3 s "rs ! i"] by blast
  ultimately have "tree_pages 3 s (rs ! j) \<subseteq> live s - l0_tables 3 s (rs ! i)" by blast
  moreover have "same_content (live s - l0_tables 3 s (rs ! i)) s s'" using C by blast
  ultimately show "same_content (tree_pages 3 s (rs ! j)) s s'" by (rule same_content_subset [rotated])
  show "live s \<subseteq> live s'" using C by blast
qed

lemma shared_refs:
  assumes ok: "spaces_ok s rs" and i: "i < length rs" and cp: "shared_copy 3 s (rs ! i) s' u" and x: "x \<in> pool_pages s"
  shows "page_refs s' x = page_refs s x + (if x \<in> leaf_pages 3 s (rs ! i) then 1 else 0)"
proof -
  note D = spaces_okD [OF ok i]
  have "sharers 3 s (rs ! i) x = 1" if leaf: "x \<in> leaf_pages 3 s (rs ! i)"
  proof -
    have "cow_slot (ent s t0 k)" if "t0 \<in> l0_tables 3 s (rs ! i)" "k \<in> valid_slots s t0" for t0 k
      using all_leavesD [OF D(4) that] by (auto simp: leaf_entry_ok_def cow_slot_def)
    then show ?thesis
      using sharers_shared [of "Suc (Suc 0)" s "rs ! i" x] D(3) leaf by (simp only: numeral_3_eq_3)
  qed
  then show ?thesis using cp x sharers_absent [of x 3 s "rs ! i"] by (auto simp: shared_copy_def)
qed

lemma shared_mapped_by:
  assumes ok: "spaces_ok s rs" and i: "i < length rs" and cp: "shared_copy 3 s (rs ! i) s' u"
  shows "mapped_by s' (rs @ [u]) x =
    mapped_by s rs x \<union> (if x \<in> leaf_pages 3 s (rs ! i) then {length rs} else {})"
proof -
  note S = cow_spaces [OF spaces_okD(2,3) [OF ok i] cp]
  have "leaf_pages 3 s' (rs ! j) = leaf_pages 3 s (rs ! j)" if j: "j < length rs" for j
    using S(8) space_frame(5) [OF spaces_okD(2,3) [OF ok j] shared_frame [OF ok i cp j]] by (cases "j = i") auto
  then have "j \<in> mapped_by s' (rs @ [u]) x \<longleftrightarrow>
      j \<in> mapped_by s rs x \<union> (if x \<in> leaf_pages 3 s (rs ! i) then {length rs} else {})" for j
    using S(7) by (cases "j < length rs") (auto simp: mapped_by_def nth_append less_Suc_eq)
  then show ?thesis by blast
qed

lemma shared_entries:
  assumes ok: "spaces_ok s rs" and i: "i < length rs" and cp: "shared_copy 3 s (rs ! i) s' u"
  shows "all_leaves (leaf_entry_ok s') s' (rs ! i)" "all_leaves (leaf_entry_ok s') s' u"
    "j < length rs \<Longrightarrow> j \<noteq> i \<Longrightarrow> all_leaves (leaf_entry_ok s') s' (rs ! j)"
proof -
  note C = cp [unfolded shared_copy_def] and D = spaces_okD [OF ok i]
  have m: "marked 3 s (rs ! i) s'" "mirror 3 s (rs ! i) s' u" using C by blast+
  have cow: "leaf_entry_ok s' (cow_entry e)" if "leaf_entry_ok s e" for e
    using that by (auto simp: leaf_entry_ok_def cow_slot_def)
  show "all_leaves (leaf_entry_ok s') s' (rs ! i)"
    unfolding all_leaves_def
  proof (intro ballI)
    fix t0 k assume t: "t0 \<in> l0_tables 3 s' (rs ! i)" "k \<in> valid_slots s' t0"
    then have "t0 \<in> l0_tables 3 s (rs ! i)" using marked_tree [OF m(1)] by simp
    with marked_leaves [OF m(1) this] t(2) show "leaf_entry_ok s' (ent s' t0 k)"
      using cow all_leavesD [OF D(4)] by auto
  qed
  show "all_leaves (leaf_entry_ok s') s' u"
    unfolding all_leaves_def
  proof (intro ballI)
    fix u0 k assume u0: "u0 \<in> l0_tables 3 s' u" "k \<in> valid_slots s' u0"
    from mirror_leaves [OF m(2) u0(1)] u0(2) show "leaf_entry_ok s' (ent s' u0 k)"
      using cow all_leavesD [OF D(4)] by auto
  qed
  assume j: "j < length rs" "j \<noteq> i"
  note Dj = spaces_okD [OF ok j(1)] and F = shared_frame [OF ok i cp j]
  have "leaf_entry_ok s' (ent s t0 k)" if t: "t0 \<in> l0_tables 3 s (rs ! j)" "k \<in> valid_slots s t0" for t0 k
  proof -
    let ?x = "child s t0 k"
    have e: "leaf_entry_ok s (ent s t0 k)" by (rule all_leavesD [OF Dj(4) t])
    have leaf: "?x \<in> leaf_pages 3 s (rs ! j)" using t by (auto simp: leaf_pages_all)
    then have "?x \<in> live s" using Dj(2) unfolding wf_table_iff inner_leaf_pages by blast
    then have R: "page_refs s' ?x = page_refs s ?x + (if ?x \<in> leaf_pages 3 s (rs ! i) then 1 else 0)"
      using shared_refs [OF ok i cp] live_in_pool by blast
    have "?x \<notin> leaf_pages 3 s (rs ! i)" if "page_refs s ?x = 0"
      using sole_mapper [OF ok j(1) leaf that i] j(2) unfolding inner_leaf_pages by blast
    then show ?thesis using e R by (auto simp: leaf_entry_ok_def)
  qed
  then show "all_leaves (leaf_entry_ok s') s' (rs ! j)"
    using space_frame(6,8,9) [OF Dj(2,3) F] valid_slotsD by (auto simp: all_leaves_def)
qed

lemma shared_views:
  assumes ok: "spaces_ok s rs" and i: "i < length rs" and cp: "shared_copy 3 s (rs ! i) s' u"
  shows "page_view s' (rs ! i) = page_view s (rs ! i)" "page_view s' u = page_view s (rs ! i)"
proof -
  note C = cp [unfolded shared_copy_def] and D = spaces_okD [OF ok i]
  note S = cow_spaces [OF D(2,3) cp]
  have m: "marked 3 s (rs ! i) s'" "mirror 3 s (rs ! i) s' u" using C by blast+
  have one: "page_view s' (rs ! i) va = page_view s (rs ! i) va" for va
  proof (cases "walk s (rs ! i) va")
    case None
    then show ?thesis using marked_walk(1) [OF m(1), of va] by (simp add: page_view_def)
  next
    case (Some t0)
    have "pte_read (leaf_entry s t0 va)"
      using all_leaves_walk [OF D(4) Some] by (simp add: leaf_entry_ok_def)
    then have "walk s' (rs ! i) va = Some t0" using marked_walk(1) [OF m(1), of va] Some by simp
    then show ?thesis
      using marked_walk(2) [OF m(1) Some] S(9) [OF walk_leaf_page [OF Some]] Some by (simp add: page_view_def)
  qed
  then show "page_view s' (rs ! i) = page_view s (rs ! i)" by blast
  have "page_view s' u va = page_view s' (rs ! i) va" for va
  proof (cases "walk s' (rs ! i) va")
    case None
    then show ?thesis using mirror_walk(1) [OF m(2,1) None] by (simp add: page_view_def)
  next
    case (Some t0)
    then show ?thesis using mirror_walk(2) [OF m(2,1) Some] by (auto simp: page_view_def)
  qed
  with one show "page_view s' u = page_view s (rs ! i)" by auto
qed

lemma fork_cow_spaces:
  assumes ok: "spaces_ok s rs" and i: "i < length rs" and cp: "shared_copy 3 s (rs ! i) s' u"
  shows "spaces_ok s' (rs @ [u])" "j < length rs \<Longrightarrow> page_view s' (rs ! j) = page_view s (rs ! j)"
    "page_view s' u = page_view s (rs ! i)"
proof -
  note C = cp [unfolded shared_copy_def] and D = spaces_okD [OF ok i] and E = shared_entries [OF ok i cp]
  note S = cow_spaces [OF D(2,3) cp] and V = shared_views [OF ok i cp]
  show "page_view s' u = page_view s (rs ! i)" by (rule V(2))
  have F: "wf_table 3 s' (rs ! j) \<and> is_tree 3 s' (rs ! j) \<and> tree_pages 3 s' (rs ! j) = tree_pages 3 s (rs ! j) \<and>
      inner_pages 3 s' (rs ! j) = inner_pages 3 s (rs ! j) \<and> page_view s' (rs ! j) = page_view s (rs ! j) \<and>
      all_leaves (leaf_entry_ok s') s' (rs ! j)" if j: "j < length rs" for j
  proof (cases "j = i")
    case True
    then show ?thesis using S(1,2,6,8) V(1) E(1) by (simp add: inner_leaf_pages)
  next
    case False
    then show ?thesis
      using space_frame(1-4,7) [OF spaces_okD(2,3) [OF ok j] shared_frame [OF ok i cp j False]] E(3) [OF j False]
      by blast
  qed
  then show "j < length rs \<Longrightarrow> page_view s' (rs ! j) = page_view s (rs ! j)" by blast
  have li: "tree_pages 3 s (rs ! j) \<subseteq> live s" if "j < length rs" for j
    using spaces_okD(2) [OF ok that] by (simp add: wf_table_iff)
  have pool: "pool_pages s' = pool_pages s" using C by (intro pool_pages_cong) simp
  have lv: "live s' = live s \<union> inner_pages 3 s' u" "inner_pages 3 s' u \<inter> live s = {}" using C by blast+
  show "spaces_ok s' (rs @ [u])"
  proof (rule spaces_ok_extend)
    show "vms_wf s'" using C by blast
    show "space_ok s' (rs ! j)" if "j < length rs" for j using F [OF that] by (simp add: space_ok_def)
    show "space_ok s' u" using S(3,4) E(2) by (simp add: space_ok_def)
    show "inner_pages 3 s' (rs ! j) \<inter> tree_pages 3 s' (rs ! k) = {}" if "j < length rs" "k < length rs" "j \<noteq> k" for j k
      using F [OF that(1)] F [OF that(2)] spaces_okD(5) [OF ok that] by simp
    show "inner_pages 3 s' (rs ! j) \<inter> tree_pages 3 s' u = {} \<and> inner_pages 3 s' u \<inter> tree_pages 3 s' (rs ! j) = {}"
      if j: "j < length rs" for j
    proof
      show "inner_pages 3 s' u \<inter> tree_pages 3 s' (rs ! j) = {}" using F [OF j] lv(2) li [OF j] by blast
      have "inner_pages 3 s (rs ! j) \<inter> inner_pages 3 s' u = {}"
        using lv(2) li [OF j] unfolding inner_leaf_pages by blast
      moreover have "inner_pages 3 s (rs ! j) \<inter> leaf_pages 3 s (rs ! i) = {}"
        using spaces_okD(5) [OF ok j i] is_tree_inner_leaf [OF D(3)] unfolding inner_leaf_pages by blast
      ultimately show "inner_pages 3 s' (rs ! j) \<inter> tree_pages 3 s' u = {}"
        using F [OF j] S(7) unfolding inner_leaf_pages by blast
    qed
    show "page_refs s' p = 0" if p: "p \<in> pool_pages s'" "p \<notin> live s'" for p
    proof -
      have p': "p \<in> pool_pages s" "p \<notin> live s" using p pool lv(1) by auto
      then have "p \<notin> leaf_pages 3 s (rs ! i)" using li [OF i] unfolding inner_leaf_pages by blast
      then show ?thesis using shared_refs [OF ok i cp p'(1)] spaces_okD(7) [OF ok i p'] by simp
    qed
    fix p assume m: "mapped_by s' (rs @ [u]) p \<noteq> {}"
    note M = shared_mapped_by [OF ok i cp, of p]
    have old: "mapped_by s rs p \<noteq> {}" using m M i by (cases "p \<in> leaf_pages 3 s (rs ! i)") (auto simp: mapped_by_def)
    then obtain j where "j < length rs" "p \<in> leaf_pages 3 s (rs ! j)" by (auto simp: mapped_by_def)
    then have "p \<in> pool_pages s" using li live_in_pool [of p s] unfolding inner_leaf_pages by blast
    note R = shared_refs [OF ok i cp this]
    have "length rs \<notin> mapped_by s rs p" by (simp add: mapped_by_def)
    then show "page_refs s' p + 1 = int (card (mapped_by s' (rs @ [u]) p))"
      using M R D(6) [OF old] by simp
  qed
qed

end
