(* ===== verification/SpacesRun.thy ===== *)
theory SpacesRun
  imports SpacesFork
begin

text \<open>
  The virtual memory simulator refines its specification: whatever sequence of writes and forks is
  run, on whatever spaces, each space behaves as memory of its own that starts as a copy of the space
  it was made from.  The specification knows nothing of tables, pages, marks and counts.
\<close>

section \<open>Programs over several spaces\<close>

text \<open>A client selects a space with \<open>vms_set_root_page_table\<close> and then writes or forks.\<close>

datatype space_op = Write_at nat u64 u32 | Fork_plain nat | Fork_cow nat

fun run_op :: "space_op \<Rightarrow> vms_state \<times> u64 list \<Rightarrow> (vms_state \<times> u64 list) vms_result" where
  "run_op (Write_at i va v) (s, rs) =
     and_then (vms_set_root_page_table (rs ! i) s) (\<lambda>s.
     and_then (vms_write va v s) (\<lambda>s. Inr (s, rs)))"
| "run_op (Fork_plain i) (s, rs) =
     and_then (vms_set_root_page_table (rs ! i) s) (\<lambda>s.
     and_then (vms_fork_copy s) (\<lambda>(new_root, s). Inr (s, rs @ [new_root])))"
| "run_op (Fork_cow i) (s, rs) =
     and_then (vms_set_root_page_table (rs ! i) s) (\<lambda>s.
     and_then (vms_fork_copy_on_write s) (\<lambda>(new_root, s). Inr (s, rs @ [new_root])))"

fun run_ops :: "space_op list \<Rightarrow> vms_state \<times> u64 list \<Rightarrow> (vms_state \<times> u64 list) vms_result" where
  "run_ops [] st = Inr st"
| "run_ops (op # ops) st = and_then (run_op op st) (run_ops ops)"

section \<open>The specification\<close>

text \<open>
  A space gives the bytes of the page an address is on, if it is mapped.  A step is permitted when
  the space exists and the four bytes to write lie in one mapped page.
\<close>

type_synonym space = "u64 \<Rightarrow> u8 list option"

definition spec_write :: "u64 \<Rightarrow> u32 \<Rightarrow> space \<Rightarrow> space" where
  "spec_write va v m = (\<lambda>va'. if same_page va va' then map_option (put32 (page_offset va) v) (m va') else m va')"

fun spec_op :: "space_op \<Rightarrow> space list \<Rightarrow> space list option" where
  "spec_op (Write_at i va v) A =
     (if i < length A \<and> (A ! i) va \<noteq> None \<and> page_offset va + 4 \<le> PAGE_SIZE
      then Some (A[i := spec_write va v (A ! i)]) else None)"
| "spec_op (Fork_plain i) A = (if i < length A then Some (A @ [A ! i]) else None)"
| "spec_op (Fork_cow i) A = (if i < length A then Some (A @ [A ! i]) else None)"

fun spec_ops :: "space_op list \<Rightarrow> space list \<Rightarrow> space list option" where
  "spec_ops [] A = Some A"
| "spec_ops (op # ops) A = Option.bind (spec_op op A) (spec_ops ops)"

section \<open>One operation\<close>

lemma root_update_spaces [simp]:
  "l0_tables n (s\<lparr>root_page_table := r\<rparr>) t = l0_tables n s t"
  "leaf_pages n (s\<lparr>root_page_table := r\<rparr>) t = leaf_pages n s t"
  "inner_pages n (s\<lparr>root_page_table := r\<rparr>) t = inner_pages n s t"
  "tree_pages n (s\<lparr>root_page_table := r\<rparr>) t = tree_pages n s t"
  "valid_slots (s\<lparr>root_page_table := r\<rparr>) t = valid_slots s t"
proof -
  have same: "same_content X s (s\<lparr>root_page_table := r\<rparr>)" for X by (simp add: same_content_def)
  show "l0_tables n (s\<lparr>root_page_table := r\<rparr>) t = l0_tables n s t" by (rule shared_stable(2) [OF same])
  show "leaf_pages n (s\<lparr>root_page_table := r\<rparr>) t = leaf_pages n s t"
    "inner_pages n (s\<lparr>root_page_table := r\<rparr>) t = inner_pages n s t"
    "tree_pages n (s\<lparr>root_page_table := r\<rparr>) t = tree_pages n s t" by (rule inner_stable [OF same])+
  show "valid_slots (s\<lparr>root_page_table := r\<rparr>) t = valid_slots s t" by (simp add: valid_slots_def)
qed

lemma root_update_ok [simp]:
  "spaces_ok (s\<lparr>root_page_table := r\<rparr>) rs = spaces_ok s rs"
  "page_view (s\<lparr>root_page_table := r\<rparr>) = page_view s"
proof -
  have "leaf_entry_ok (s\<lparr>root_page_table := r\<rparr>) = leaf_entry_ok s" by (rule ext) (simp add: leaf_entry_ok_def)
  then show "spaces_ok (s\<lparr>root_page_table := r\<rparr>) rs = spaces_ok s rs"
    by (simp add: spaces_ok_def space_ok_def all_leaves_def mapped_by_def)
  show "page_view (s\<lparr>root_page_table := r\<rparr>) = page_view s"
    by (intro ext) (simp add: page_view_def)
qed

lemma set_root:
  assumes "vms_wf s" "wf_table 3 s r"
  shows "vms_set_root_page_table r s = Inr (s\<lparr>root_page_table := r\<rparr>)"
  using page_aligned_pool(1) [OF assms(1) live_in_pool [OF wf_table_live [OF assms(2)]]]
  by (simp add: vms_set_root_page_table_def check_page_aligned_def)

lemma write_op:
  assumes ok: "spaces_ok s rs" and i: "i < length rs" and m: "page_view s (rs ! i) va \<noteq> None"
    and off: "page_offset va + 4 \<le> PAGE_SIZE"
  shows "outcome (\<lambda>e. e = Exit 12 \<and> card (live s) = MAX_PAGES) (\<lambda>s'. spaces_ok s' rs \<and>
      map (page_view s') rs = (map (page_view s) rs)[i := spec_write va v (page_view s (rs ! i))])
    (vms_write va v (s\<lparr>root_page_table := rs ! i\<rparr>))"
proof -
  note D = spaces_okD [OF ok i]
  obtain t0 where w: "walk s (rs ! i) va = Some t0" using m by (auto simp: page_view_def)
  let ?e = "leaf_entry s t0 va"
  have e: "leaf_entry_ok s ?e" by (rule all_leaves_walk [OF D(4) w])
  have "card (live s) \<le> MAX_PAGES" by (rule live_bound)
  then consider "pte_write ?e" | "pte_custom ?e" "\<not> pte_write ?e" "page_refs s (pte_page ?e) = 0 \<or> card (live s) < MAX_PAGES"
    | "pte_custom ?e" "\<not> pte_write ?e" "page_refs s (pte_page ?e) \<noteq> 0" "card (live s) = MAX_PAGES"
    using e by (force simp: leaf_entry_ok_def)
  then have "(\<exists>q s'. vms_write va v (s\<lparr>root_page_table := rs ! i\<rparr>) = Inr s' \<and> write_effect s (rs ! i) va v t0 q s') \<or>
      vms_write va v (s\<lparr>root_page_table := rs ! i\<rparr>) = Inl (Exit 12) \<and> card (live s) = MAX_PAGES"
  proof cases
    case 1
    then show ?thesis using write_effect_owned [OF D(1-3) w _ _ _ off, of v] e by (auto simp: leaf_entry_ok_def)
  next
    case 2
    then show ?thesis using write_effect_cow [OF D(1-3) w _ _ off, of v] by blast
  next
    case 3
    then show ?thesis using write_cow_full [OF D(1,2) w, of v] by blast
  qed
  then show ?thesis
  proof (elim disjE exE conjE)
    fix q s' assume run: "vms_write va v (s\<lparr>root_page_table := rs ! i\<rparr>) = Inr s'"
      and we: "write_effect s (rs ! i) va v t0 q s'"
    have own: "page_view s' (rs ! i) = spec_write va v (page_view s (rs ! i))"
      by (rule ext) (simp add: spec_write_def write_effect_view [OF D(2,3) w we])
    have other: "page_view s' (rs ! j) = page_view s (rs ! j)" if "j < length rs" "j \<noteq> i" for j
      by (rule space_frame(7) [OF spaces_okD(2,3) [OF ok that(1)] write_effect_others [OF ok i w we that]
          write_live(1) [OF we]])
    have "page_view s' (rs ! j) = (map (page_view s) rs)[i := spec_write va v (page_view s (rs ! i))] ! j"
      if "j < length rs" for j
      using that own other [of j] by (cases "j = i") simp_all
    then have "map (page_view s') rs = (map (page_view s) rs)[i := spec_write va v (page_view s (rs ! i))]"
      by (intro nth_equalityI) simp_all
    then show ?thesis using run write_effect_spaces_ok [OF ok i w we] by simp
  qed simp
qed

text \<open>Each operation keeps the invariant and does to the views what the specification says.\<close>

lemma run_op_refines:
  assumes ok: "spaces_ok s rs" and sp: "spec_op op (map (page_view s) rs) = Some A"
  shows "outcome (\<lambda>e. e = Exit 12) (\<lambda>(s', rs'). spaces_ok s' rs' \<and> map (page_view s') rs' = A) (run_op op (s, rs))"
proof (cases op)
  case (Write_at i va v)
  then have p: "i < length rs" "page_view s (rs ! i) va \<noteq> None" "page_offset va + 4 \<le> PAGE_SIZE"
    and A: "A = (map (page_view s) rs)[i := spec_write va v (page_view s (rs ! i))]"
    using sp by (auto split: if_splits)
  have "outcome (\<lambda>e. e = Exit 12) (\<lambda>s'. spaces_ok s' rs \<and> map (page_view s') rs = A)
      (vms_write va v (s\<lparr>root_page_table := rs ! i\<rparr>))"
    by (rule outcome_mono [OF write_op [OF ok p, of v]]) (simp_all add: A)
  then have "outcome (\<lambda>e. e = Exit 12) (\<lambda>(s', rs'). spaces_ok s' rs' \<and> map (page_view s') rs' = A)
      (and_then (vms_write va v (s\<lparr>root_page_table := rs ! i\<rparr>)) (\<lambda>s'. Inr (s', rs)))"
    by (rule outcome_and_then) simp
  then show ?thesis
    using set_root [OF spaces_okD(1,2) [OF ok p(1)]] by (simp only: Write_at run_op.simps and_then_Inr)
next
  case (Fork_plain i)
  then have i: "i < length rs" and A: "A = map (page_view s) rs @ [page_view s (rs ! i)]"
    using sp by (auto split: if_splits)
  let ?s = "s\<lparr>root_page_table := rs ! i\<rparr>"
  have ok': "spaces_ok ?s rs" using ok by simp
  note D = spaces_okD [OF ok' i]
  have "outcome (\<lambda>e. e = Exit 12) (\<lambda>(u, s'). copied 3 ?s (rs ! i) s' u) (vms_fork_copy ?s)"
    by (rule outcome_mono [OF vms_fork_copy_outcome [of ?s]]) (use D in simp_all)
  then have "outcome (\<lambda>e. e = Exit 12) (\<lambda>(s', rs'). spaces_ok s' rs' \<and> map (page_view s') rs' = A)
      (and_then (vms_fork_copy ?s) (\<lambda>(u, s'). Inr (s', rs @ [u])))"
    by (rule outcome_and_then)
      (use fork_copy_spaces [OF ok' i] in \<open>auto simp: A in_set_conv_nth split: prod.split\<close>)
  then show ?thesis using set_root [OF spaces_okD(1,2) [OF ok i]] by (simp add: Fork_plain)
next
  case (Fork_cow i)
  then have i: "i < length rs" and A: "A = map (page_view s) rs @ [page_view s (rs ! i)]"
    using sp by (auto split: if_splits)
  let ?s = "s\<lparr>root_page_table := rs ! i\<rparr>"
  have ok': "spaces_ok ?s rs" using ok by simp
  note D = spaces_okD [OF ok' i]
  have "outcome (\<lambda>e. e = Exit 12) (\<lambda>(u, s'). shared_copy 3 ?s (rs ! i) s' u) (vms_fork_copy_on_write ?s)"
    by (rule outcome_mono [OF vms_fork_cow_outcome [of ?s]]) (use D in simp_all)
  then have "outcome (\<lambda>e. e = Exit 12) (\<lambda>(s', rs'). spaces_ok s' rs' \<and> map (page_view s') rs' = A)
      (and_then (vms_fork_copy_on_write ?s) (\<lambda>(u, s'). Inr (s', rs @ [u])))"
    by (rule outcome_and_then)
      (use fork_cow_spaces [OF ok' i] in \<open>auto simp: A in_set_conv_nth split: prod.split\<close>)
  then show ?thesis using set_root [OF spaces_okD(1,2) [OF ok i]] by (simp add: Fork_cow)
qed

lemma run_ops_refines:
  "spaces_ok s rs \<Longrightarrow> spec_ops ops (map (page_view s) rs) = Some A \<Longrightarrow>
     outcome (\<lambda>e. e = Exit 12) (\<lambda>(s', rs'). spaces_ok s' rs' \<and> map (page_view s') rs' = A) (run_ops ops (s, rs))"
proof (induction ops arbitrary: s rs)
  case (Cons op ops)
  then obtain B where B: "spec_op op (map (page_view s) rs) = Some B" "spec_ops ops B = Some A"
    by (auto simp: bind_eq_Some_conv)
  show ?case
    unfolding run_ops.simps
  proof (rule outcome_and_then [OF run_op_refines [OF Cons.prems(1) B(1)]])
    fix st assume st: "case st of (s', rs') \<Rightarrow> spaces_ok s' rs' \<and> map (page_view s') rs' = B"
    obtain s' rs' where "st = (s', rs')" by (cases st)
    then show "outcome (\<lambda>e. e = Exit 12) (\<lambda>(s', rs'). spaces_ok s' rs' \<and> map (page_view s') rs' = A) (run_ops ops st)"
      using st Cons.IH [of s' rs'] B(2) by simp
  qed
qed simp

section \<open>Runs\<close>

lemma view_read:
  assumes ok: "spaces_ok s rs" and i: "i < length rs" and m: "page_view s (rs ! i) va = Some bs"
    and off: "page_offset va + 4 \<le> PAGE_SIZE"
  shows "read_in (rs ! i) va s = Inr (of_le_bytes (take 4 (drop (page_offset va) bs)))"
proof -
  note D = spaces_okD [OF ok i]
  obtain t where w: "walk s (rs ! i) va = Some t" and bs: "bs = content s (pte_page (leaf_entry s t va))"
    using m by (auto simp: page_view_def)
  have "pte_read (leaf_entry s t va)" using all_leaves_walk [OF D(4) w] by (simp add: leaf_entry_ok_def)
  from read_in_mapped [OF D(1,2) w this off] show ?thesis by (simp add: bs peek_content [OF off])
qed

text \<open>
  C1: Any sequence of writes and forks of both kinds, on any of the spaces there are, refines the
  specification in which each space is a separate memory and a fork copies it: as long as the pages
  last, every read through every space gives what the specification says, and the only way to stop is
  \<open>exit(ENOMEM)\<close>.  The spaces at the start satisfy the invariant, and the run is one the
  specification permits.
\<close>

theorem spaces_refine_memories:
  assumes "spaces_ok s rs" "spec_ops ops (map (page_view s) rs) = Some A"
  shows "case run_ops ops (s, rs) of
      Inl e \<Rightarrow> e = Exit 12
    | Inr (s', rs') \<Rightarrow> length rs' = length A \<and>
        (\<forall>i < length A. \<forall>va. page_offset va + 4 \<le> PAGE_SIZE \<longrightarrow>
          (case (A ! i) va of
             Some bs \<Rightarrow> read_in (rs' ! i) va s' = Inr (of_le_bytes (take 4 (drop (page_offset va) bs)))
           | None \<Rightarrow> walk s' (rs' ! i) va = None))"
proof (cases "run_ops ops (s, rs)")
  case (Inl e)
  then show ?thesis using run_ops_refines [OF assms] by simp
next
  case (Inr st)
  obtain s' rs' where st: "st = (s', rs')" by (cases st)
  then have R: "spaces_ok s' rs'" "A = map (page_view s') rs'" using run_ops_refines [OF assms] Inr by auto
  have "case (A ! i) va of Some bs \<Rightarrow> read_in (rs' ! i) va s' = Inr (of_le_bytes (take 4 (drop (page_offset va) bs)))
      | None \<Rightarrow> walk s' (rs' ! i) va = None" if "i < length A" "page_offset va + 4 \<le> PAGE_SIZE" for i va
    using view_read [OF R(1), of i va] that R(2)
    by (cases "page_view s' (rs' ! i) va") (auto simp: page_view_def)
  then show ?thesis using R(2) by (simp add: Inr st)
qed

text \<open>
  C8: The types of the entries and counts are an invariant of every such run: each space is a
  tree of live pages, no table of one space is a page of another, every leaf entry is readable and
  either writable or marked, a writable entry has its page for itself, and \<open>ref_track\<close> of a data page is
  the number of spaces that map it, less one.
\<close>

theorem spaces_stay_typed:
  assumes "spaces_ok s rs" "spec_ops ops (map (page_view s) rs) = Some A" "run_ops ops (s, rs) = Inr (s', rs')"
  shows "vms_wf s' \<and>
    (\<forall>i < length rs'. tree_pages 3 s' (rs' ! i) \<subseteq> live s' \<and> is_tree 3 s' (rs' ! i) \<and>
      (\<forall>j < length rs'. i \<noteq> j \<longrightarrow> inner_pages 3 s' (rs' ! i) \<inter> tree_pages 3 s' (rs' ! j) = {}) \<and>
      (\<forall>t \<in> l0_tables 3 s' (rs' ! i). \<forall>k \<in> valid_slots s' t. let e = ent s' t k; p = pte_page e in
         pte_read e \<and> pte_write e \<noteq> pte_custom e \<and>
         page_refs s' p + 1 = int (card {j. j < length rs' \<and> p \<in> leaf_pages 3 s' (rs' ! j)}) \<and>
         (pte_write e \<longrightarrow> {j. j < length rs' \<and> p \<in> leaf_pages 3 s' (rs' ! j)} = {i})))"
proof -
  have ok: "spaces_ok s' rs'" using run_ops_refines [OF assms(1,2)] assms(3) by simp
  have leaf: "let e = ent s' t k; p = pte_page e in
         pte_read e \<and> pte_write e \<noteq> pte_custom e \<and>
         page_refs s' p + 1 = int (card {j. j < length rs' \<and> p \<in> leaf_pages 3 s' (rs' ! j)}) \<and>
         (pte_write e \<longrightarrow> {j. j < length rs' \<and> p \<in> leaf_pages 3 s' (rs' ! j)} = {i})"
    if i: "i < length rs'" and t: "t \<in> l0_tables 3 s' (rs' ! i)" "k \<in> valid_slots s' t" for i t k
  proof -
    let ?p = "child s' t k"
    have e: "leaf_entry_ok s' (ent s' t k)" by (rule all_leavesD [OF spaces_okD(4) [OF ok i] t])
    have p: "?p \<in> leaf_pages 3 s' (rs' ! i)" using t by (auto simp: leaf_pages_all)
    then have m: "i \<in> mapped_by s' rs' ?p" using i by (simp add: mapped_by_def)
    then have n: "page_refs s' ?p + 1 = int (card (mapped_by s' rs' ?p))" using spaces_okD(6) [OF ok i] by blast
    have "mapped_by s' rs' ?p = {i}" if "pte_write (ent s' t k)"
    proof -
      have "?p \<notin> leaf_pages 3 s' (rs' ! j)" if "j < length rs'" "j \<noteq> i" for j
        using sole_mapper [OF ok i p _ that] e \<open>pte_write (ent s' t k)\<close>
        unfolding leaf_entry_ok_def inner_leaf_pages by blast
      then show ?thesis using m by (auto simp: mapped_by_def)
    qed
    then show ?thesis using e n unfolding mapped_by_def leaf_entry_ok_def by (simp add: Let_def)
  qed
  have "tree_pages 3 s' (rs' ! i) \<subseteq> live s' \<and> is_tree 3 s' (rs' ! i)" if "i < length rs'" for i
    using spaces_okD(2,3) [OF ok that] by (simp add: wf_table_iff)
  moreover have "vms_wf s'" using ok by (simp add: spaces_ok_def)
  ultimately show ?thesis using leaf spaces_okD(5) [OF ok] by blast
qed

section \<open>A run from the demonstration space\<close>

lemma demo_spaces: "spaces_ok demo_space [root_page_table demo_space]"
proof -
  obtain l2 l1 l0 p0 where m: "maps_one demo_space 0xABC123 l2 l1 l0 p0"
    and r: "root_page_table demo_space = l2" and refs: "ref_track demo_space = replicate MAX_PAGES 0"
    by (rule demo_space_maps)
  note sp = maps_one_space [OF m] and sl = maps_one_slots [OF m] and md = m [unfolded maps_one_def]
  have wf: "vms_wf demo_space" using md by blast
  have zero: "page_refs demo_space p = 0" if "p \<in> pool_pages demo_space" for p
    using page_refs_get [OF wf that] refs by (auto simp: array_get_def split: if_splits)
  have l0: "l0_tables 3 demo_space l2 = {l0}" "leaf_pages 3 demo_space l2 = {p0}"
    unfolding numeral_3_eq_3 using sl by auto
  have p0: "p0 \<in> pool_pages demo_space" using md live_in_pool by auto
  have e: "ent demo_space l0 (va_index 0xABC123 0) = data_entry p0"
    using sp(4) unfolding leaf_entry_def .
  have "leaf_entry_ok demo_space (data_entry p0)"
    using entry_flags entry_page(2) [OF wf p0] zero [OF p0] by (simp add: leaf_entry_ok_def)
  then have "all_leaves (leaf_entry_ok demo_space) demo_space l2"
    unfolding all_leaves_def l0(1) ball_simps sl(3) e by blast
  then have "space_ok demo_space l2" using sp by (simp add: space_ok_def)
  moreover have "i < length [l2] \<and> p \<in> leaf_pages 3 demo_space ([l2] ! i) \<longleftrightarrow> i = 0 \<and> p = p0" for i p
    by (cases i) (simp_all add: l0(2) del: leaf_pages.simps)
  then have "mapped_by demo_space [l2] p = (if p = p0 then {0} else {})" for p
    unfolding mapped_by_def by simp
  then have "page_refs demo_space p + 1 = int (card (mapped_by demo_space [l2] p))"
    if "mapped_by demo_space [l2] p \<noteq> {}" for p
    using that zero [OF p0] by (cases "p = p0") simp_all
  ultimately show ?thesis unfolding spaces_ok_def r using wf zero by simp
qed

lemma demo_run:
  obtains s' u where "run_ops [Fork_cow 0, Write_at 1 0xABC123 7] (demo_space, [root_page_table demo_space]) =
      Inr (s', [root_page_table demo_space, u])"
    "spec_ops [Fork_cow 0, Write_at 1 0xABC123 7] (map (page_view demo_space) [root_page_table demo_space]) =
      Some [page_view demo_space (root_page_table demo_space),
        spec_write 0xABC123 7 (page_view demo_space (root_page_table demo_space))]"
    "page_view demo_space (root_page_table demo_space) 0xABC123 \<noteq> None"
proof -
  let ?r = "root_page_table demo_space"
  obtain l0 where d: "vms_wf demo_space" "wf_table 3 demo_space ?r" "is_tree 3 demo_space ?r"
    "walk demo_space ?r 0xABC123 = Some l0"
    "pte_read (leaf_entry demo_space l0 0xABC123)" "pte_write (leaf_entry demo_space l0 0xABC123)"
    "tables 3 demo_space ?r = 3" "vms_get_used_pages demo_space = 4"
    "page_refs demo_space (pte_page (leaf_entry demo_space l0 0xABC123)) = 0" by (rule demo_facts)
  have c: "card (live demo_space) = 4"
    using used_pages_live [OF d(1)] d(8) by simp
  have m: "page_view demo_space ?r 0xABC123 \<noteq> None" using d(4) by (simp add: page_view_def)
  have off: "page_offset 0xABC123 + 4 \<le> PAGE_SIZE" by (simp add: offset_abc123)
  have "outcome (\<lambda>e. False) (\<lambda>(u, s'). shared_copy 3 demo_space ?r s' u) (vms_fork_copy_on_write demo_space)"
    by (rule outcome_mono [OF vms_fork_cow_outcome [OF d(1-3)]]) (simp_all add: c d(7))
  then obtain u s1 where f: "vms_fork_copy_on_write demo_space = Inr (u, s1)"
    and cp: "shared_copy 3 demo_space ?r s1 u" by (cases "vms_fork_copy_on_write demo_space") auto
  have live: "card (live s1) = 7" using cp c d(7) unfolding shared_copy_def by linarith
  have "shared_copy 3 demo_space ([?r] ! 0) s1 u" using cp by simp
  note F = fork_cow_spaces [OF demo_spaces _ this]
  have ok: "spaces_ok s1 [?r, u]" using F(1) by simp
  have same: "demo_space\<lparr>root_page_table := ?r\<rparr> = demo_space" by (cases demo_space) simp
  have run1: "run_op (Fork_cow 0) (demo_space, [?r]) = Inr (s1, [?r, u])"
    using set_root [OF d(1,2)] f same by simp
  have view: "page_view s1 u 0xABC123 \<noteq> None" using F(3) m by simp
  have "outcome (\<lambda>e. False) (\<lambda>s'. True) (vms_write 0xABC123 7 (s1\<lparr>root_page_table := u\<rparr>))"
    using outcome_mono [OF write_op [OF ok, of 1 "0xABC123" 7], of "\<lambda>e. False" "\<lambda>_. True"] view off live by simp
  then obtain s2 where w: "vms_write 0xABC123 7 (s1\<lparr>root_page_table := u\<rparr>) = Inr s2"
    by (cases "vms_write 0xABC123 7 (s1\<lparr>root_page_table := u\<rparr>)") auto
  have "run_op (Write_at 1 0xABC123 7) (s1, [?r, u]) = Inr (s2, [?r, u])"
    using set_root [OF spaces_okD(1,2) [OF ok, of 1]] w by simp
  then have "run_ops [Fork_cow 0, Write_at 1 0xABC123 7] (demo_space, [?r]) = Inr (s2, [?r, u])"
    using run1 by (simp del: run_op.simps)
  moreover have "spec_ops [Fork_cow 0, Write_at 1 0xABC123 7] (map (page_view demo_space) [?r]) =
      Some [page_view demo_space ?r, spec_write 0xABC123 7 (page_view demo_space ?r)]"
    using m off by simp
  ultimately show thesis using that m by blast
qed

lemma read_put32: "d + 4 \<le> length bs \<Longrightarrow> of_le_bytes (take 4 (drop d (put32 d v bs))) = (v :: u32)"
  by (simp add: put32_def)

theorem spaces_refine_memories_witness:
  "\<exists>s' u bs. run_ops [Fork_cow 0, Write_at 1 0xABC123 7] (demo_space, [root_page_table demo_space]) =
      Inr (s', [root_page_table demo_space, u]) \<and>
    page_view demo_space (root_page_table demo_space) 0xABC123 = Some bs \<and>
    read_in (root_page_table demo_space) 0xABC123 s' = Inr (of_le_bytes (take 4 (drop (page_offset 0xABC123) bs))) \<and>
    read_in u 0xABC123 s' = Inr (of_le_bytes (take 4 (drop (page_offset 0xABC123) (put32 (page_offset 0xABC123) 7 bs))))"
proof -
  obtain s' u where d: "run_ops [Fork_cow 0, Write_at 1 0xABC123 7] (demo_space, [root_page_table demo_space]) =
      Inr (s', [root_page_table demo_space, u])"
    "spec_ops [Fork_cow 0, Write_at 1 0xABC123 7] (map (page_view demo_space) [root_page_table demo_space]) =
      Some [page_view demo_space (root_page_table demo_space),
        spec_write 0xABC123 7 (page_view demo_space (root_page_table demo_space))]"
    "page_view demo_space (root_page_table demo_space) 0xABC123 \<noteq> None" by (rule demo_run)
  obtain bs where bs: "page_view demo_space (root_page_table demo_space) 0xABC123 = Some bs" using d(3) by blast
  have off: "page_offset 0xABC123 + 4 \<le> PAGE_SIZE" by (simp add: offset_abc123)
  note R = spaces_refine_memories [OF demo_spaces d(2), unfolded d(1), simplified, rule_format]
  have "same_page 0xABC123 0xABC123" by (simp add: same_page_def)
  then show ?thesis
    using d(1) bs R [of 0 "0xABC123"] R [of 1 "0xABC123"] off by (auto simp: spec_write_def)
qed

theorem spaces_stay_typed_witness:
  "\<exists>s' u. run_ops [Fork_cow 0, Write_at 1 0xABC123 7] (demo_space, [root_page_table demo_space]) =
      Inr (s', [root_page_table demo_space, u]) \<and> vms_wf s' \<and>
    inner_pages 3 s' (root_page_table demo_space) \<inter> tree_pages 3 s' u = {}"
proof -
  obtain s' u where d: "run_ops [Fork_cow 0, Write_at 1 0xABC123 7] (demo_space, [root_page_table demo_space]) =
      Inr (s', [root_page_table demo_space, u])"
    "spec_ops [Fork_cow 0, Write_at 1 0xABC123 7] (map (page_view demo_space) [root_page_table demo_space]) =
      Some [page_view demo_space (root_page_table demo_space),
        spec_write 0xABC123 7 (page_view demo_space (root_page_table demo_space))]" by (rule demo_run)
  note T = spaces_stay_typed [OF demo_spaces d(2,1)]
  have "inner_pages 3 s' ([root_page_table demo_space, u] ! 0) \<inter> tree_pages 3 s' ([root_page_table demo_space, u] ! 1) = {}"
    by (rule T [THEN conjunct2, rule_format, of 0, THEN conjunct2, THEN conjunct2, THEN conjunct1, rule_format, of 1]) simp_all
  with d(1) T show ?thesis by auto
qed

end
