(* ===== verification/Wut.thy ===== *)
theory Wut
  imports Prelude
begin

text \<open>
  The user-level thread library \<open>wut/src/wut.c\<close>: its thread control blocks, its ready queue and its
  calls.  The control blocks and the queue nodes live on a heap, because the code keeps pointers to
  both across slot reuse; a dereference of a null or freed pointer, a double \<open>free\<close> and an index
  outside the array are values of \<open>wut_stop\<close>.  \<open>malloc\<close> hands out fresh identities (the code does not
  check it); any call of \<open>mmap\<close> and \<open>munmap\<close> may fail, and then \<open>die\<close> ends the process.  \<open>int\<close>s are
  unbounded.
\<close>

section \<open>State\<close>

text \<open>
  A saved context: a new thread at its entry function, a thread inside \<open>wut_join\<close> or \<open>wut_yield\<close>
  just after the \<open>swapcontext\<close> (the former with its local \<open>join_thread\<close>), or what \<open>getcontext\<close>
  leaves for thread 0 before its first switch.
\<close>

datatype ucontext = Start u64 | In_join nat | In_yield | Fresh_main

record tcb =
  t_id :: int
  t_status :: int
  t_join :: int
  t_join_from :: int
  t_join_to :: int
  t_block :: int
  t_enable :: int
  t_thread_in_q :: "nat option"
  t_stack :: "nat option"
  t_ucontext :: "ucontext option"

datatype wut_stop = Null_deref | Use_after_free | Double_free | Out_of_bounds | Queue_corrupt
  | Stale_context | Uninitialised | Stack_unmapped | Process_exit int | Main_returned

type_synonym 'a wut_result = "wut_stop + 'a"

text \<open>
  \<open>Q_head\<close> lists the queue nodes, \<open>nodes\<close> holds the \<open>thread_id_\<close> of each allocated node.  \<open>sys_errno\<close> is the
  environment: the \<open>errno\<close> with which each call of \<open>mmap\<close> and \<open>munmap\<close> fails, if it does, in the
  order of the calls, which \<open>sys_calls\<close> counts.
\<close>

record wut_state =
  tcbs :: "nat \<Rightarrow> tcb option"
  nodes :: "nat \<Rightarrow> int option"
  next_tcb :: nat
  next_node :: nat
  next_stack :: nat
  stacks :: "nat set"
  Q_head :: "nat list"
  TCB_ARRAY :: "nat option list"
  MAX_THREAD_NUM :: int
  THREAD_NUM :: int
  CURRENT_RUNNING_THREAD_ID :: int
  sys_errno :: "nat \<Rightarrow> int option"
  sys_calls :: nat

definition wut_start :: "(nat \<Rightarrow> int option) \<Rightarrow> wut_state" where
  "wut_start errors = \<lparr>tcbs = (\<lambda>_. None), nodes = (\<lambda>_. None), next_tcb = 0, next_node = 0, next_stack = 0,
     stacks = {}, Q_head = [], TCB_ARRAY = [], MAX_THREAD_NUM = 256, THREAD_NUM = 0,
     CURRENT_RUNNING_THREAD_ID = 0, sys_errno = errors, sys_calls = 0\<rparr>"

section \<open>Memory\<close>

definition array_at :: "int \<Rightarrow> wut_state \<Rightarrow> nat option wut_result" where
  "array_at i s = (if 0 \<le> i \<and> i < int (length (TCB_ARRAY s)) then Inr (TCB_ARRAY s ! nat i)
     else Inl Out_of_bounds)"

definition deref :: "nat option \<Rightarrow> wut_state \<Rightarrow> tcb wut_result" where
  "deref p s = (case p of None \<Rightarrow> Inl Null_deref
     | Some a \<Rightarrow> (case tcbs s a of None \<Rightarrow> Inl Use_after_free | Some t \<Rightarrow> Inr t))"

definition assign :: "nat option \<Rightarrow> (tcb \<Rightarrow> tcb) \<Rightarrow> wut_state \<Rightarrow> wut_state wut_result" where
  "assign p f s = and_then (deref p s) (\<lambda>t. Inr (s\<lparr>tcbs := (tcbs s)(the p \<mapsto> f t)\<rparr>))"

definition new_node :: "int \<Rightarrow> wut_state \<Rightarrow> nat \<times> wut_state" where
  "new_node i s = (next_node s, s\<lparr>nodes := (nodes s)(next_node s \<mapsto> i), next_node := next_node s + 1\<rparr>)"

definition node_id :: "nat \<Rightarrow> wut_state \<Rightarrow> int wut_result" where
  "node_id n s = (case nodes s n of None \<Rightarrow> Inl Use_after_free | Some i \<Rightarrow> Inr i)"

definition free_node :: "nat option \<Rightarrow> wut_state \<Rightarrow> wut_state wut_result" where
  "free_node n s = (case n of None \<Rightarrow> Inr s
     | Some a \<Rightarrow> if nodes s a = None then Inl Double_free else Inr (s\<lparr>nodes := (nodes s)(a := None)\<rparr>))"

definition die :: "int \<Rightarrow> 'a wut_result" where
  "die err = Inl (Process_exit err)"

text \<open>The error of the next system call, and a successful one counted.\<close>

definition next_errno :: "wut_state \<Rightarrow> int option" where
  "next_errno s = sys_errno s (sys_calls s)"

definition new_stack :: "wut_state \<Rightarrow> (nat \<times> wut_state) wut_result" where
  "new_stack s = (case next_errno s of
     Some err \<Rightarrow> die err
   | None \<Rightarrow> Inr (next_stack s, s\<lparr>stacks := insert (next_stack s) (stacks s),
       next_stack := next_stack s + 1, sys_calls := sys_calls s + 1\<rparr>))"

text \<open>\<open>munmap\<close> of a range with no mapping, the null pointer included, is no error.\<close>

definition delete_stack :: "nat option \<Rightarrow> wut_state \<Rightarrow> wut_state wut_result" where
  "delete_stack p s = (case next_errno s of
     Some err \<Rightarrow> die err
   | None \<Rightarrow> Inr (s\<lparr>stacks := stacks s - set_option p, sys_calls := sys_calls s + 1\<rparr>))"

text \<open>
  The \<open>TAILQ\<close> macros.  They follow the links stored in the nodes, so a queue that holds a freed
  node makes them undefined, as does removing a node that is not in the queue.
\<close>

definition queue_intact :: "wut_state \<Rightarrow> bool" where
  "queue_intact s = list_all (\<lambda>n. nodes s n \<noteq> None) (Q_head s)"

definition TAILQ_INSERT_TAIL :: "nat \<Rightarrow> wut_state \<Rightarrow> wut_state wut_result" where
  "TAILQ_INSERT_TAIL n s =
     (if queue_intact s then Inr (s\<lparr>Q_head := Q_head s @ [n]\<rparr>) else Inl Use_after_free)"

definition TAILQ_REMOVE :: "nat option \<Rightarrow> wut_state \<Rightarrow> wut_state wut_result" where
  "TAILQ_REMOVE n s = (case n of None \<Rightarrow> Inl Null_deref
     | Some a \<Rightarrow> if \<not> queue_intact s then Inl Use_after_free
         else if a \<notin> set (Q_head s) then Inl Queue_corrupt
         else Inr (s\<lparr>Q_head := remove1 a (Q_head s)\<rparr>))"

definition TAILQ_FIRST :: "wut_state \<Rightarrow> nat option" where
  "TAILQ_FIRST s = (case Q_head s of [] \<Rightarrow> None | n # ns \<Rightarrow> Some n)"

definition TAILQ_EMPTY :: "wut_state \<Rightarrow> bool" where
  "TAILQ_EMPTY s = (Q_head s = [])"

text \<open>\<open>if (t->thread_in_q_) { free(t->thread_in_q_); t->thread_in_q_ = NULL; }\<close>\<close>

definition drop_node :: "nat option \<Rightarrow> wut_state \<Rightarrow> wut_state wut_result" where
  "drop_node p s = and_then (deref p s) (\<lambda>t.
     case t_thread_in_q t of None \<Rightarrow> Inr s
     | Some n \<Rightarrow> and_then (free_node (Some n) s) (assign p (\<lambda>t. t\<lparr>t_thread_in_q := None\<rparr>)))"

section \<open>Switching\<close>

text \<open>What the thread that runs next sees: its entry function, or the value its call returns.\<close>

datatype event = Started u64 | Returned int

definition setcontext :: "nat option \<Rightarrow> wut_state \<Rightarrow> (event \<times> wut_state) wut_result" where
  "setcontext p s = and_then (deref p s) (\<lambda>t.
     case t_ucontext t of
       None \<Rightarrow> Inl Null_deref
     | Some Fresh_main \<Rightarrow> Inl Stale_context
     | Some (Start run) \<Rightarrow> Inr (Started run, s)
     | Some In_yield \<Rightarrow> Inr (Returned 0, s)
     | Some (In_join j) \<Rightarrow>
         and_then (assign (Some j) (\<lambda>t. t\<lparr>t_enable := 1\<rparr>) s) (\<lambda>s.
         and_then (deref (Some j) s) (\<lambda>t. Inr (Returned (t_status t), s))))"

definition swapcontext ::
  "nat option \<Rightarrow> ucontext \<Rightarrow> nat option \<Rightarrow> wut_state \<Rightarrow> (event \<times> wut_state) wut_result" where
  "swapcontext p c q s = and_then (deref p s) (\<lambda>t.
     if t_ucontext t = None then Inl Null_deref
     else and_then (assign p (\<lambda>t. t\<lparr>t_ucontext := Some c\<rparr>) s) (setcontext q))"

section \<open>The calls\<close>

text \<open>
  \<open>clear_global\<close> and \<open>wut_exit\<close> take the stack they run on: \<open>Some\<close> the stack of a created thread, or
  \<open>None\<close> for the stack of the process or of \<open>EXIT_CONTEXT\<close>, which no control block holds.  A \<open>munmap\<close>
  of the stack it runs on cannot return.
\<close>

definition clear_slot :: "nat option \<Rightarrow> nat \<Rightarrow> wut_state \<Rightarrow> wut_state wut_result" where
  "clear_slot on i s = and_then (array_at (int i) s) (\<lambda>p.
     case p of None \<Rightarrow> Inr s
     | Some a \<Rightarrow>
         and_then (drop_node p s) (\<lambda>s.
         and_then (deref p s) (\<lambda>t.
         and_then (case t_stack t of None \<Rightarrow> Inr s
           | Some stack \<Rightarrow> and_then (delete_stack (Some stack) s)
               (\<lambda>s. if on = Some stack then Inl Stack_unmapped else Inr s)) (\<lambda>s.
         Inr (s\<lparr>tcbs := (tcbs s)(a := None), TCB_ARRAY := (TCB_ARRAY s)[i := None]\<rparr>)))))"

definition clear_global :: "nat option \<Rightarrow> wut_state \<Rightarrow> wut_state wut_result" where
  "clear_global on s =
     and_then (for_each (clear_slot on) [0..<nat (MAX_THREAD_NUM s)] s) (\<lambda>s. Inr (s\<lparr>TCB_ARRAY := []\<rparr>))"

definition wut_init :: "wut_state \<Rightarrow> wut_state wut_result" where
  "wut_init s =
     (let s = s\<lparr>Q_head := [], TCB_ARRAY := replicate (nat (MAX_THREAD_NUM s)) None\<rparr>;
          thread_0 = next_tcb s;
          t = \<lparr>t_id = 0, t_status = -1, t_join = 0, t_join_from = -1, t_join_to = -1, t_block = 0,
            t_enable = 1, t_thread_in_q = None, t_stack = None, t_ucontext = Some Fresh_main\<rparr>;
          s = s\<lparr>tcbs := (tcbs s)(thread_0 \<mapsto> t), next_tcb := thread_0 + 1,
            TCB_ARRAY := (TCB_ARRAY s)[0 := Some thread_0], CURRENT_RUNNING_THREAD_ID := 0\<rparr> in
      and_then (new_stack s) (\<lambda>(stack, s).
      Inr (s\<lparr>THREAD_NUM := THREAD_NUM s + 1\<rparr>)))"

definition wut_id :: "wut_state \<Rightarrow> int" where
  "wut_id s = CURRENT_RUNNING_THREAD_ID s"

definition resize :: "wut_state \<Rightarrow> wut_state" where
  "resize s =
     (let s = s\<lparr>MAX_THREAD_NUM := MAX_THREAD_NUM s * 2\<rparr> in
      s\<lparr>TCB_ARRAY := take (nat (MAX_THREAD_NUM s div 2)) (TCB_ARRAY s) @
         replicate (nat (MAX_THREAD_NUM s - MAX_THREAD_NUM s div 2)) None\<rparr>)"

text \<open>A slot \<open>wut_create\<close> may take: empty, or a finished thread nobody is joining.\<close>

definition slot_free :: "wut_state \<Rightarrow> nat \<Rightarrow> bool" where
  "slot_free s i = (case TCB_ARRAY s ! i of None \<Rightarrow> True
     | Some p \<Rightarrow> (case tcbs s p of None \<Rightarrow> False | Some t \<Rightarrow> t_status t \<noteq> -1 \<and> t_enable t = 1))"

definition wut_create :: "u64 \<Rightarrow> wut_state \<Rightarrow> (int \<times> wut_state) wut_result" where
  "wut_create run s =
     and_then (new_stack (if THREAD_NUM s \<ge> MAX_THREAD_NUM s then resize s else s)) (\<lambda>(stack, s).
      let a = next_tcb s;
          t = \<lparr>t_id = -1, t_status = -1, t_join = 0, t_join_from = -1, t_join_to = -1, t_block = 0,
            t_enable = 1, t_thread_in_q = None, t_stack = Some stack, t_ucontext = Some (Start run)\<rparr>;
          s = s\<lparr>next_tcb := a + 1\<rparr> in
      case List.find (slot_free s) [0..<nat (MAX_THREAD_NUM s)] of
        None \<Rightarrow> Inl Uninitialised
      | Some i \<Rightarrow>
          let s = s\<lparr>tcbs := (tcbs s)(a \<mapsto> t\<lparr>t_id := int i\<rparr>), TCB_ARRAY := (TCB_ARRAY s)[i := Some a],
                THREAD_NUM := THREAD_NUM s + 1\<rparr>;
              (n, s) = new_node (int i) s in
          and_then (TAILQ_INSERT_TAIL n s) (\<lambda>s.
          and_then (assign (Some a) (\<lambda>t. t\<lparr>t_thread_in_q := Some n\<rparr>) s) (\<lambda>s.
          Inr (int i, s))))"

text \<open>
  \<open>wut_cancel\<close>: the joiner of the cancelled thread goes back to the queue; then a blocked thread
  gives up its own join, any other leaves the queue.
\<close>

definition cancel_wake_joiner :: "int \<Rightarrow> wut_state \<Rightarrow> wut_state wut_result" where
  "cancel_wake_joiner from s =
     (let (n, s) = new_node from s in
      and_then (TAILQ_INSERT_TAIL n s) (\<lambda>s.
      and_then (array_at from s) (\<lambda>w.
      and_then (assign w (\<lambda>t. t\<lparr>t_join := 0\<rparr>) s) (\<lambda>s.
      and_then (assign w (\<lambda>t. t\<lparr>t_join_to := -1\<rparr>) s) (\<lambda>s.
      and_then (drop_node w s) (\<lambda>s.
      and_then (assign w (\<lambda>t. t\<lparr>t_thread_in_q := Some n\<rparr>) s)
        (assign w (\<lambda>t. t\<lparr>t_block := 0\<rparr>))))))))"

definition cancel_detach :: "nat option \<Rightarrow> wut_state \<Rightarrow> wut_state wut_result" where
  "cancel_detach p s = and_then (deref p s) (\<lambda>t.
     if t_block t = 1 then
       and_then (assign p (\<lambda>t. t\<lparr>t_block := 0\<rparr>) s) (\<lambda>s.
       and_then (array_at (t_join_to t) s) (\<lambda>the_thread.
       and_then (assign the_thread (\<lambda>t. t\<lparr>t_join_from := -1\<rparr>) s)
         (assign the_thread (\<lambda>t. t\<lparr>t_join := 0\<rparr>))))
     else
       and_then (delete_stack (t_stack t) s) (\<lambda>s.
       and_then (assign p (\<lambda>t. t\<lparr>t_ucontext := None\<rparr>) s) (\<lambda>s.
       and_then (TAILQ_REMOVE (t_thread_in_q t) s) (\<lambda>s.
       and_then (free_node (t_thread_in_q t) s)
         (assign p (\<lambda>t. t\<lparr>t_thread_in_q := None\<rparr>))))))"

definition wut_cancel :: "int \<Rightarrow> wut_state \<Rightarrow> (int \<times> wut_state) wut_result" where
  "wut_cancel tid s =
     (if tid < 0 \<or> tid = CURRENT_RUNNING_THREAD_ID s \<or> tid > THREAD_NUM s then Inr (-1, s)
      else and_then (array_at tid s) (\<lambda>p.
      if p = None then Inr (-1, s)
      else and_then (deref p s) (\<lambda>t.
      if t_status t \<noteq> -1 then Inr (-1, s)
      else and_then (assign p (\<lambda>t. t\<lparr>t_status := 128\<rparr>) s) (\<lambda>s.
      and_then (if t_join_from t \<noteq> -1 then cancel_wake_joiner (t_join_from t) s else Inr s) (\<lambda>s.
      and_then (cancel_detach p s) (\<lambda>s.
      Inr (0, s)))))))"

definition wut_join :: "int \<Rightarrow> wut_state \<Rightarrow> (event \<times> wut_state) wut_result" where
  "wut_join tid s =
     (if tid < 0 \<or> CURRENT_RUNNING_THREAD_ID s = tid \<or> tid \<ge> THREAD_NUM s then Inr (Returned (-1), s)
      else and_then (array_at tid s) (\<lambda>p.
      and_then (deref p s) (\<lambda>t.
      if t_status t \<noteq> -1 \<or> t_join t = 1 then Inr (Returned (t_status t), s)
      else and_then (array_at (CURRENT_RUNNING_THREAD_ID s) s) (\<lambda>current_thread.
      and_then (assign current_thread (\<lambda>t. t\<lparr>t_block := 1, t_join_to := tid\<rparr>) s) (\<lambda>s.
      and_then (assign p (\<lambda>t. t\<lparr>t_join := 1, t_enable := 0,
        t_join_from := CURRENT_RUNNING_THREAD_ID s\<rparr>) s) (\<lambda>s.
      let next_thread_in_q = TAILQ_FIRST s in
      and_then (TAILQ_REMOVE next_thread_in_q s) (\<lambda>s.
      and_then (node_id (the next_thread_in_q) s) (\<lambda>i.
      and_then (array_at i s) (\<lambda>next_thread.
      and_then (deref next_thread s) (\<lambda>nt.
      swapcontext current_thread (In_join (the p)) next_thread
        (s\<lparr>CURRENT_RUNNING_THREAD_ID := t_id nt\<rparr>)))))))))))"

text \<open>
  \<open>wut_yield\<close> and \<open>wut_exit\<close> put a thread at the end of the queue in the same steps: a new node,
  the old one freed, the new one linked from the control block and into the queue.
\<close>

definition requeue :: "int \<Rightarrow> nat option \<Rightarrow> wut_state \<Rightarrow> wut_state wut_result" where
  "requeue i me s =
     (let (n, s) = new_node i s in
      and_then (drop_node me s) (\<lambda>s.
      and_then (assign me (\<lambda>t. t\<lparr>t_thread_in_q := Some n\<rparr>) s) (\<lambda>s.
      TAILQ_INSERT_TAIL n s)))"

definition wut_yield :: "wut_state \<Rightarrow> (event \<times> wut_state) wut_result" where
  "wut_yield s =
     (if TAILQ_EMPTY s then Inr (Returned (-1), s)
      else and_then (array_at (CURRENT_RUNNING_THREAD_ID s) s) (\<lambda>current_thread.
      and_then (deref current_thread s) (\<lambda>t.
      and_then (array_at (t_id t) s) (\<lambda>me.
      and_then (requeue (t_id t) me s) (\<lambda>s.
      let next_thread_in_q = TAILQ_FIRST s in
      and_then (TAILQ_REMOVE next_thread_in_q s) (\<lambda>s.
      and_then (node_id (the next_thread_in_q) s) (\<lambda>i.
      let s = s\<lparr>CURRENT_RUNNING_THREAD_ID := i\<rparr> in
      and_then (array_at i s) (\<lambda>next_thread.
      swapcontext current_thread In_yield next_thread s))))))))"

definition exit_wake_joiner :: "nat option \<Rightarrow> wut_state \<Rightarrow> wut_state wut_result" where
  "exit_wake_joiner p s =
     and_then (assign p (\<lambda>t. t\<lparr>t_join := 0\<rparr>) s) (\<lambda>s.
     and_then (deref p s) (\<lambda>t.
     and_then (array_at (t_join_from t) s) (\<lambda>b.
     and_then (assign p (\<lambda>t. t\<lparr>t_join_from := -1\<rparr>) s) (\<lambda>s.
     and_then (deref b s) (\<lambda>bt.
     and_then (array_at (t_id bt) s) (\<lambda>b'. requeue (t_id bt) b' s))))))"

definition exit_next :: "nat option \<Rightarrow> wut_state \<Rightarrow> (event \<times> wut_state) wut_result" where
  "exit_next on s =
     (if \<not> TAILQ_EMPTY s then
        let next_thread_in_q = TAILQ_FIRST s in
        and_then (TAILQ_REMOVE next_thread_in_q s) (\<lambda>s.
        and_then (node_id (the next_thread_in_q) s) (\<lambda>i.
        let s = s\<lparr>CURRENT_RUNNING_THREAD_ID := i\<rparr> in
        and_then (array_at i s) (\<lambda>next_thread. setcontext next_thread s)))
      else and_then (clear_global on s) (\<lambda>s. Inl (Process_exit 0)))"

definition wut_exit :: "nat option \<Rightarrow> int \<Rightarrow> wut_state \<Rightarrow> (event \<times> wut_state) wut_result" where
  "wut_exit on status s =
     and_then (array_at (CURRENT_RUNNING_THREAD_ID s) s) (\<lambda>p.
     and_then (deref p s) (\<lambda>t.
     and_then (if t_status t = -1 then assign p (\<lambda>t. t\<lparr>t_status := status AND 0xFF\<rparr>) s else Inr s) (\<lambda>s.
     and_then (if t_join t = 1 then exit_wake_joiner p s else Inr s) (exit_next on))))"

section \<open>Runs\<close>

text \<open>
  The running thread makes a call, or its entry function returns: then \<open>EXIT_CONTEXT\<close>, which is
  its \<open>uc_link\<close>, calls \<open>wut_exit(0)\<close> on a stack of its own.  The initial thread, whose control
  block has no stack, does not run on a context the library made: its return is that of \<open>main\<close>.
\<close>

datatype wut_call = Create u64 | Cancel int | Join int | Yield | Exit int | Return

definition running_stack :: "wut_state \<Rightarrow> nat option wut_result" where
  "running_stack s = and_then (array_at (CURRENT_RUNNING_THREAD_ID s) s) (\<lambda>p.
     and_then (deref p s) (\<lambda>t. Inr (t_stack t)))"

definition wut_step :: "wut_call \<Rightarrow> wut_state \<Rightarrow> (event \<times> wut_state) wut_result" where
  "wut_step c s = (case c of
       Create run \<Rightarrow> and_then (wut_create run s) (\<lambda>(v, s). Inr (Returned v, s))
     | Cancel i \<Rightarrow> and_then (wut_cancel i s) (\<lambda>(v, s). Inr (Returned v, s))
     | Join i \<Rightarrow> wut_join i s
     | Yield \<Rightarrow> wut_yield s
     | Exit status \<Rightarrow> and_then (running_stack s) (\<lambda>on. wut_exit on status s)
     | Return \<Rightarrow> and_then (running_stack s) (\<lambda>on.
         if on = None then Inl Main_returned else wut_exit None 0 s))"

text \<open>A run of calls, with what each of them showed to the thread that runs afterwards.\<close>

fun wut_run :: "wut_call list \<Rightarrow> wut_state \<Rightarrow> ((int \<times> event) list \<times> wut_state) wut_result" where
  "wut_run [] s = Inr ([], s)"
| "wut_run (c # cs) s =
     and_then (wut_step c s) (\<lambda>(ev, s).
     and_then (wut_run cs s) (\<lambda>(evs, s'). Inr ((wut_id s, ev) # evs, s')))"

end
