(* ===== verification/WutState.thy ===== *)
theory WutState
  imports Wut
begin

text \<open>
  The state of the thread library seen through the thread array: \<open>thread s i\<close> is the control block
  in slot \<open>i\<close>, \<open>ready s\<close> the ready queue as thread ids.  \<open>wf_slots\<close> and \<open>wf_nodes\<close> are the
  invariants of the two data structures, and every call is a composition of the few moves below,
  each with its effect on the view: change a control block, put a thread at the end of the queue,
  take the first one out, take a given one out, fill a slot.
\<close>

section \<open>Views\<close>

definition slot :: "wut_state \<Rightarrow> int \<Rightarrow> nat option" where
  "slot s i = (if 0 \<le> i \<and> i < int (length (TCB_ARRAY s)) then TCB_ARRAY s ! nat i else None)"

definition thread :: "wut_state \<Rightarrow> int \<Rightarrow> tcb option" where
  "thread s i = (case slot s i of None \<Rightarrow> None | Some p \<Rightarrow> tcbs s p)"

definition ready :: "wut_state \<Rightarrow> int list" where
  "ready s = map (\<lambda>n. the (nodes s n)) (Q_head s)"

abbreviation (input) alive :: "tcb \<Rightarrow> bool" where "alive t \<equiv> t_status t = -1"

definition wf_slots :: "wut_state \<Rightarrow> bool" where
  "wf_slots s \<longleftrightarrow>
     int (length (TCB_ARRAY s)) = MAX_THREAD_NUM s \<and> 1 \<le> THREAD_NUM s \<and>
     THREAD_NUM s \<le> MAX_THREAD_NUM s \<and> (\<forall>p. tcbs s p \<noteq> None \<longrightarrow> p < next_tcb s) \<and>
     (\<forall>i p. slot s i = Some p \<longrightarrow> i < THREAD_NUM s \<and> (\<exists>t. tcbs s p = Some t \<and> t_id t = i))"

definition wf_nodes :: "wut_state \<Rightarrow> bool" where
  "wf_nodes s \<longleftrightarrow>
     distinct (Q_head s) \<and> (\<forall>n. nodes s n \<noteq> None \<longrightarrow> n < next_node s) \<and>
     (\<forall>n \<in> set (Q_head s). \<exists>i t. nodes s n = Some i \<and> thread s i = Some t \<and> t_thread_in_q t = Some n) \<and>
     (\<forall>i t n. thread s i = Some t \<longrightarrow> t_thread_in_q t = Some n \<longrightarrow> nodes s n = Some i)"

abbreviation (input) wf :: "wut_state \<Rightarrow> bool" where "wf s \<equiv> wf_slots s \<and> wf_nodes s"

lemma slot_thread: "wf_slots s \<Longrightarrow> slot s i = Some p \<Longrightarrow> \<exists>t. thread s i = Some t \<and> tcbs s p = Some t \<and> t_id t = i"
  by (fastforce simp: wf_slots_def thread_def)

lemma thread_slot: "thread s i = Some t \<Longrightarrow> \<exists>p. slot s i = Some p \<and> tcbs s p = Some t"
  by (auto simp: thread_def split: option.splits)

lemma slot_inj: "wf_slots s \<Longrightarrow> slot s i = Some p \<Longrightarrow> slot s j = Some p \<Longrightarrow> i = j"
  using slot_thread [of s i p] slot_thread [of s j p] by auto

lemma slot_eq_iff: "wf_slots s \<Longrightarrow> slot s i = Some p \<Longrightarrow> slot s j = Some p \<longleftrightarrow> j = i"
  using slot_inj by blast

lemma thread_id: "wf_slots s \<Longrightarrow> thread s i = Some t \<Longrightarrow> t_id t = i"
  by (drule thread_slot) (auto dest!: slot_thread)

lemma thread_range:
  "wf_slots s \<Longrightarrow> thread s i = Some t \<Longrightarrow> 0 \<le> i \<and> i < THREAD_NUM s \<and> i < MAX_THREAD_NUM s"
  by (drule thread_slot) (fastforce simp: wf_slots_def slot_def split: if_splits)

lemma thread_cong: "slot s' = slot s \<Longrightarrow> tcbs s' = tcbs s \<Longrightarrow> thread s' = thread s"
  by (rule ext) (simp add: thread_def split: option.split)

lemma array_at_slot [simp]: "slot s i = Some p \<Longrightarrow> array_at i s = Inr (Some p)"
  by (auto simp: array_at_def slot_def split: if_splits)

lemma array_at_range: "wf_slots s \<Longrightarrow> 0 \<le> i \<Longrightarrow> i < MAX_THREAD_NUM s \<Longrightarrow> array_at i s = Inr (slot s i)"
  by (auto simp: array_at_def slot_def wf_slots_def)

lemma deref_Some [simp]: "tcbs s p = Some t \<Longrightarrow> deref (Some p) s = Inr t"
  by (simp add: deref_def)

section \<open>Changing a control block\<close>

definition put :: "nat \<Rightarrow> tcb \<Rightarrow> wut_state \<Rightarrow> wut_state" where
  "put p t s = s\<lparr>tcbs := (tcbs s)(p \<mapsto> t)\<rparr>"

lemma assign_put [simp]: "tcbs s p = Some t \<Longrightarrow> assign (Some p) f s = Inr (put p (f t) s)"
  by (simp add: assign_def put_def)

lemma put_fields [simp]:
  "nodes (put p t s) = nodes s" "next_tcb (put p t s) = next_tcb s" "next_node (put p t s) = next_node s"
  "Q_head (put p t s) = Q_head s" "TCB_ARRAY (put p t s) = TCB_ARRAY s"
  "MAX_THREAD_NUM (put p t s) = MAX_THREAD_NUM s" "THREAD_NUM (put p t s) = THREAD_NUM s"
  "CURRENT_RUNNING_THREAD_ID (put p t s) = CURRENT_RUNNING_THREAD_ID s"
  "tcbs (put p t s) = (tcbs s)(p \<mapsto> t)" "slot (put p t s) = slot s" "ready (put p t s) = ready s"
  "sys_errno (put p t s) = sys_errno s" "sys_calls (put p t s) = sys_calls s"
  by (auto simp: put_def slot_def ready_def)

lemma put_twice [simp]: "put p t (put p u s) = put p t s"
  by (simp add: put_def)

lemma thread_put: "thread (put p t s) j = (if slot s j = Some p then Some t else thread s j)"
  by (simp add: thread_def split: option.splits)

lemma thread_put_slot:
  "wf_slots s \<Longrightarrow> slot s i = Some p \<Longrightarrow> thread (put p t s) = (thread s)(i := Some t)"
  by (rule ext) (auto simp: thread_put dest: slot_inj)

lemma wf_put:
  assumes "wf_slots s" "tcbs s p = Some t" "t_id t' = t_id t"
  shows "wf_slots (put p t' s)"
proof -
  have "\<exists>u. (if q = p then Some t' else tcbs s q) = Some u \<and> t_id u = i" if "slot s i = Some q" for i q
    using slot_thread [OF assms(1) that] assms(2,3) by auto
  then show ?thesis using assms(1,2) by (simp add: wf_slots_def)
qed

lemma queue_node:
  assumes "wf_nodes s" "n \<in> set (Q_head s)"
  obtains i t where "nodes s n = Some i" "thread s i = Some t" "t_thread_in_q t = Some n"
  using assms unfolding wf_nodes_def by meson

lemma thread_node:
  "wf_nodes s \<Longrightarrow> thread s i = Some t \<Longrightarrow> t_thread_in_q t = Some n \<Longrightarrow> nodes s n = Some i"
  unfolding wf_nodes_def by blast

lemma wf_nodes_cong:
  assumes "wf_nodes s" "nodes s' = nodes s" "next_node s' = next_node s" "Q_head s' = Q_head s"
    and th: "\<And>i. map_option t_thread_in_q (thread s' i) = map_option t_thread_in_q (thread s i)"
  shows "wf_nodes s'"
proof -
  have 1: "\<exists>t. thread s' i = Some t \<and> t_thread_in_q t = x" if "thread s i = Some t" "t_thread_in_q t = x" for i t x
    using th [of i] that by auto
  have 2: "\<exists>t. thread s i = Some t \<and> t_thread_in_q t = x" if "thread s' i = Some t" "t_thread_in_q t = x" for i t x
    using th [of i] that by (cases "thread s i") auto
  show ?thesis unfolding wf_nodes_def assms(2-4)
  proof (intro conjI ballI allI impI)
    fix n assume "n \<in> set (Q_head s)"
    with assms(1) obtain i t where n: "nodes s n = Some i" "thread s i = Some t" "t_thread_in_q t = Some n"
      by (rule queue_node)
    with 1 [OF n(2,3)] show "\<exists>i t. nodes s n = Some i \<and> thread s' i = Some t \<and> t_thread_in_q t = Some n"
      by blast
  next
    fix i t n assume "thread s' i = Some t" "t_thread_in_q t = Some n"
    then show "nodes s n = Some i" using thread_node [OF assms(1)] 2 [of i t] by blast
  qed (use assms(1) in \<open>auto simp: wf_nodes_def\<close>)
qed

lemma wf_nodes_put:
  assumes "wf_nodes s" "tcbs s p = Some t" "t_thread_in_q t' = t_thread_in_q t"
  shows "wf_nodes (put p t' s)"
proof -
  have th: "map_option t_thread_in_q (thread (put p t' s) i) = map_option t_thread_in_q (thread s i)" for i
    using assms(2,3) by (auto simp: thread_put thread_def split: option.splits)
  show ?thesis
    by (rule wf_nodes_cong [OF assms(1)]) (use th in simp_all)
qed

text \<open>Changes that concern neither the array nor the queue.\<close>

lemma wf_cong:
  assumes "tcbs s' = tcbs s" "nodes s' = nodes s" "next_tcb s' = next_tcb s" "next_node s' = next_node s"
    "Q_head s' = Q_head s" "TCB_ARRAY s' = TCB_ARRAY s" "MAX_THREAD_NUM s' = MAX_THREAD_NUM s"
    "THREAD_NUM s' = THREAD_NUM s"
  shows "wf_slots s' = wf_slots s" "wf_nodes s' = wf_nodes s" "slot s' = slot s" "thread s' = thread s"
    "ready s' = ready s"
proof -
  show sl: "slot s' = slot s" by (rule ext) (simp add: slot_def assms)
  show th: "thread s' = thread s" by (rule ext) (simp add: thread_def sl assms split: option.split)
  show "wf_slots s' = wf_slots s" "wf_nodes s' = wf_nodes s" "ready s' = ready s"
    by (simp_all only: wf_slots_def wf_nodes_def ready_def sl th assms)
qed

lemma current_cong [simp]:
  "wf_slots (s\<lparr>CURRENT_RUNNING_THREAD_ID := i\<rparr>) = wf_slots s"
  "wf_nodes (s\<lparr>CURRENT_RUNNING_THREAD_ID := i\<rparr>) = wf_nodes s"
  "slot (s\<lparr>CURRENT_RUNNING_THREAD_ID := i\<rparr>) = slot s"
  "thread (s\<lparr>CURRENT_RUNNING_THREAD_ID := i\<rparr>) = thread s"
  "ready (s\<lparr>CURRENT_RUNNING_THREAD_ID := i\<rparr>) = ready s"
  by (rule wf_cong; simp)+

section \<open>System calls\<close>

text \<open>A failing \<open>mmap\<close> or \<open>munmap\<close>, now or later, ends the process with its \<open>errno\<close>.\<close>

definition later :: "wut_state \<Rightarrow> wut_state \<Rightarrow> bool" where
  "later s s' \<longleftrightarrow> sys_errno s' = sys_errno s \<and> sys_calls s \<le> sys_calls s'"

definition sys_failure :: "wut_state \<Rightarrow> wut_stop \<Rightarrow> bool" where
  "sys_failure s e \<longleftrightarrow> (\<exists>k \<ge> sys_calls s. \<exists>err. sys_errno s k = Some err \<and> e = Process_exit err)"

lemma later_refl [simp]: "later s s"
  by (simp add: later_def)

lemma later_trans: "later s s' \<Longrightarrow> later s' s'' \<Longrightarrow> later s s''"
  by (simp add: later_def)

lemma sys_failure_later: "later s s' \<Longrightarrow> sys_failure s' e \<Longrightarrow> sys_failure s e"
  unfolding later_def sys_failure_def by (metis le_trans)

lemma sys_failure_now: "next_errno s = Some err \<Longrightarrow> sys_failure s (Process_exit err)"
  by (auto simp: sys_failure_def next_errno_def)

lemma next_errno_cong:
  "sys_errno s' = sys_errno s \<Longrightarrow> sys_calls s' = sys_calls s \<Longrightarrow> next_errno s' = next_errno s"
  by (simp add: next_errno_def)

text \<open>What a successful \<open>delete_stack\<close> and \<open>new_stack\<close> do.\<close>

definition unmapped :: "nat option \<Rightarrow> wut_state \<Rightarrow> wut_state" where
  "unmapped p s = s\<lparr>stacks := stacks s - set_option p, sys_calls := sys_calls s + 1\<rparr>"

definition with_stack :: "wut_state \<Rightarrow> wut_state" where
  "with_stack s = s\<lparr>stacks := insert (next_stack s) (stacks s), next_stack := next_stack s + 1,
     sys_calls := sys_calls s + 1\<rparr>"

lemma delete_stack_eq:
  "delete_stack p s = (case next_errno s of Some err \<Rightarrow> Inl (Process_exit err) | None \<Rightarrow> Inr (unmapped p s))"
  by (simp add: delete_stack_def unmapped_def die_def split: option.split)

lemma new_stack_eq:
  "new_stack s = (case next_errno s of Some err \<Rightarrow> Inl (Process_exit err)
     | None \<Rightarrow> Inr (next_stack s, with_stack s))"
  by (simp add: new_stack_def with_stack_def die_def split: option.split)

lemma unmapped_fields [simp]:
  "tcbs (unmapped p s) = tcbs s" "nodes (unmapped p s) = nodes s" "Q_head (unmapped p s) = Q_head s"
  "TCB_ARRAY (unmapped p s) = TCB_ARRAY s" "MAX_THREAD_NUM (unmapped p s) = MAX_THREAD_NUM s"
  "THREAD_NUM (unmapped p s) = THREAD_NUM s" "next_tcb (unmapped p s) = next_tcb s"
  "next_node (unmapped p s) = next_node s"
  "CURRENT_RUNNING_THREAD_ID (unmapped p s) = CURRENT_RUNNING_THREAD_ID s"
  by (simp_all add: unmapped_def)

lemma unmapped_cong [simp]:
  "wf_slots (unmapped p s) = wf_slots s" "wf_nodes (unmapped p s) = wf_nodes s"
  "slot (unmapped p s) = slot s" "thread (unmapped p s) = thread s" "ready (unmapped p s) = ready s"
  "later s (unmapped p s)"
proof -
  show "wf_slots (unmapped p s) = wf_slots s" "wf_nodes (unmapped p s) = wf_nodes s"
    "slot (unmapped p s) = slot s" "thread (unmapped p s) = thread s" "ready (unmapped p s) = ready s"
    by (rule wf_cong; simp)+
qed (simp add: later_def unmapped_def)

section \<open>The queue\<close>

lemma queue_intact_wf [simp]: "wf_nodes s \<Longrightarrow> queue_intact s"
  unfolding queue_intact_def list_all_iff by (metis option.distinct(1) queue_node)

lemma ready_iff: "wf_nodes s \<Longrightarrow> i \<in> set (ready s) \<longleftrightarrow> (\<exists>n \<in> set (Q_head s). nodes s n = Some i)"
proof
  assume wf: "wf_nodes s" and "i \<in> set (ready s)"
  then obtain n where "n \<in> set (Q_head s)" "i = the (nodes s n)" by (auto simp: ready_def)
  then show "\<exists>n \<in> set (Q_head s). nodes s n = Some i" using queue_node [OF wf] by (metis option.sel)
qed (force simp: ready_def)

lemma ready_iff_node:
  assumes "wf_nodes s" "thread s i = Some t"
  shows "i \<in> set (ready s) \<longleftrightarrow> (\<exists>n. t_thread_in_q t = Some n \<and> n \<in> set (Q_head s))"
  unfolding ready_iff [OF assms(1)]
  by (metis assms queue_node thread_node option.inject)

lemma node_inj:
  "wf_nodes s \<Longrightarrow> m \<in> set (Q_head s) \<Longrightarrow> n \<in> set (Q_head s) \<Longrightarrow> the (nodes s m) = the (nodes s n) \<Longrightarrow> m = n"
  by (metis option.inject option.sel queue_node)

lemma distinct_ready: "wf_nodes s \<Longrightarrow> distinct (ready s)"
  unfolding ready_def distinct_map inj_on_def using node_inj by (simp add: wf_nodes_def)

lemma ready_thread: "wf_nodes s \<Longrightarrow> i \<in> set (ready s) \<Longrightarrow> \<exists>t. thread s i = Some t"
  unfolding ready_iff by (metis option.inject queue_node)

section \<open>Moves on the queue\<close>

text \<open>Taking the first thread out.\<close>

definition pop :: "wut_state \<Rightarrow> wut_state" where
  "pop s = s\<lparr>Q_head := tl (Q_head s)\<rparr>"

lemma pop_fields [simp]:
  "nodes (pop s) = nodes s" "tcbs (pop s) = tcbs s" "next_tcb (pop s) = next_tcb s"
  "next_node (pop s) = next_node s" "Q_head (pop s) = tl (Q_head s)" "TCB_ARRAY (pop s) = TCB_ARRAY s"
  "MAX_THREAD_NUM (pop s) = MAX_THREAD_NUM s" "THREAD_NUM (pop s) = THREAD_NUM s"
  "CURRENT_RUNNING_THREAD_ID (pop s) = CURRENT_RUNNING_THREAD_ID s"
  "slot (pop s) = slot s" "thread (pop s) = thread s" "wf_slots (pop s) = wf_slots s"
  "ready (pop s) = tl (ready s)"
proof -
  show *: "nodes (pop s) = nodes s" "tcbs (pop s) = tcbs s" "next_tcb (pop s) = next_tcb s"
    "next_node (pop s) = next_node s" "Q_head (pop s) = tl (Q_head s)" "TCB_ARRAY (pop s) = TCB_ARRAY s"
    "MAX_THREAD_NUM (pop s) = MAX_THREAD_NUM s" "THREAD_NUM (pop s) = THREAD_NUM s"
    "CURRENT_RUNNING_THREAD_ID (pop s) = CURRENT_RUNNING_THREAD_ID s" by (simp_all add: pop_def)
  show sl: "slot (pop s) = slot s" by (rule ext) (simp add: slot_def *)
  show "thread (pop s) = thread s" by (rule ext) (simp add: thread_def sl * split: option.split)
  show "wf_slots (pop s) = wf_slots s" by (simp add: wf_slots_def sl *)
  show "ready (pop s) = tl (ready s)" by (simp add: ready_def map_tl *)
qed

lemma wf_nodes_pop:
  assumes "wf_nodes s"
  shows "wf_nodes (pop s)"
proof -
  have "set (tl (Q_head s)) \<subseteq> set (Q_head s)" by (cases "Q_head s") auto
  with assms show ?thesis unfolding wf_nodes_def pop_fields using distinct_tl by blast
qed

lemma pop_first:
  assumes "wf_nodes s" "ready s = i # is"
  obtains n where "TAILQ_FIRST s = Some n" "TAILQ_REMOVE (Some n) s = Inr (pop s)" "node_id n (pop s) = Inr i"
proof -
  obtain n ns where Q: "Q_head s = n # ns" "the (nodes s n) = i" using assms(2) by (auto simp: ready_def)
  then have "nodes s n = Some i" using assms(1) queue_node [of s n] by fastforce
  with Q assms(1) that [of n] show thesis
    by (simp add: TAILQ_FIRST_def TAILQ_REMOVE_def pop_def node_id_def)
qed

text \<open>Putting a thread that is not in the queue at its end.\<close>

definition enqueue :: "nat \<Rightarrow> int \<Rightarrow> wut_state \<Rightarrow> wut_state" where
  "enqueue p i s = (let t = the (tcbs s p); n = next_node s in
     s\<lparr>nodes := (case t_thread_in_q t of None \<Rightarrow> nodes s | Some m \<Rightarrow> (nodes s)(m := None))(n \<mapsto> i),
       next_node := n + 1, tcbs := (tcbs s)(p \<mapsto> t\<lparr>t_thread_in_q := Some n\<rparr>), Q_head := Q_head s @ [n]\<rparr>)"

lemma enqueue_fields [simp]:
  "next_tcb (enqueue p i s) = next_tcb s" "TCB_ARRAY (enqueue p i s) = TCB_ARRAY s"
  "MAX_THREAD_NUM (enqueue p i s) = MAX_THREAD_NUM s" "THREAD_NUM (enqueue p i s) = THREAD_NUM s"
  "CURRENT_RUNNING_THREAD_ID (enqueue p i s) = CURRENT_RUNNING_THREAD_ID s"
  "slot (enqueue p i s) = slot s" "Q_head (enqueue p i s) = Q_head s @ [next_node s]"
  "next_node (enqueue p i s) = next_node s + 1" "sys_errno (enqueue p i s) = sys_errno s"
  "sys_calls (enqueue p i s) = sys_calls s"
  by (auto simp: enqueue_def Let_def slot_def)

text \<open>Thread \<open>i\<close>, whose control block \<open>t\<close> is at \<open>p\<close>, is not in the queue.\<close>

definition outside :: "wut_state \<Rightarrow> int \<Rightarrow> nat \<Rightarrow> tcb \<Rightarrow> bool" where
  "outside s i p t \<longleftrightarrow> wf_slots s \<and> wf_nodes s \<and> slot s i = Some p \<and> tcbs s p = Some t \<and> i \<notin> set (ready s)"

lemma old_node:
  assumes "outside s i p t" "t_thread_in_q t = Some m"
  shows "nodes s m = Some i" "m \<notin> set (Q_head s)" "m \<noteq> next_node s" "m < next_node s"
proof -
  have th: "thread s i = Some t" and wf: "wf_nodes s" and new: "i \<notin> set (ready s)"
    using assms(1) by (auto simp: outside_def thread_def)
  show m: "nodes s m = Some i" by (rule thread_node [OF wf th assms(2)])
  show "m \<notin> set (Q_head s)" using new ready_iff_node [OF wf th] assms(2) by auto
  show "m < next_node s" using m wf unfolding wf_nodes_def by blast
  then show "m \<noteq> next_node s" by simp
qed

lemma queue_nodes:
  assumes "outside s i p t" "n \<in> set (Q_head s)"
  shows "nodes s n \<noteq> None" "n \<noteq> next_node s" "nodes s n \<noteq> Some i" "t_thread_in_q t \<noteq> Some n"
proof -
  have wf: "wf_nodes s" and new: "i \<notin> set (ready s)" using assms(1) by (auto simp: outside_def)
  obtain j where j: "nodes s n = Some j" using queue_node [OF wf assms(2)] by metis
  then show "nodes s n \<noteq> None" by simp
  show "n \<noteq> next_node s" using j wf unfolding wf_nodes_def by (metis less_irrefl option.distinct(1))
  show "nodes s n \<noteq> Some i" using new ready_iff [OF wf] assms(2) by blast
  show "t_thread_in_q t \<noteq> Some n" using old_node(2) [OF assms(1)] assms(2) by blast
qed

lemma requeue_enqueue:
  assumes "outside s i p t"
  shows "requeue i (Some p) s = Inr (enqueue p i s)"
proof (cases "t_thread_in_q t")
  case None
  have "list_all (\<lambda>n. ((nodes s)(next_node s \<mapsto> i)) n \<noteq> None) (Q_head s)"
    using queue_nodes [OF assms] by (simp add: list_all_iff)
  then show ?thesis
    using assms None by (simp add: requeue_def new_node_def drop_node_def assign_def TAILQ_INSERT_TAIL_def
        queue_intact_def enqueue_def Let_def outside_def)
next
  case (Some m)
  note o = old_node [OF assms Some]
  have "list_all (\<lambda>n. ((nodes s)(next_node s \<mapsto> i, m := None)) n \<noteq> None) (Q_head s)"
    using queue_nodes [OF assms] o by (auto simp: list_all_iff)
  then show ?thesis
    using assms Some o by (simp add: requeue_def new_node_def drop_node_def assign_def free_node_def outside_def
        TAILQ_INSERT_TAIL_def queue_intact_def enqueue_def Let_def fun_upd_twist [OF o(3)])
qed

definition woken :: "nat \<Rightarrow> wut_state \<Rightarrow> wut_state" where
  "woken p s = put p ((the (tcbs s p))\<lparr>t_join := 0, t_join_to := -1, t_block := 0\<rparr>) s"

lemma cancel_wake_enqueue:
  assumes "outside s i p t"
  shows "cancel_wake_joiner i s = Inr (woken p (enqueue p i s))"
proof -
  have intact: "queue_intact (s\<lparr>nodes := (nodes s)(next_node s \<mapsto> i), next_node := next_node s + 1\<rparr>)"
    using queue_nodes [OF assms] by (simp add: queue_intact_def list_all_iff)
  have p: "tcbs s p = Some t" and slot: "array_at i (s'::wut_state) = Inr (Some p)" if "TCB_ARRAY s' = TCB_ARRAY s" for s'
    using assms that by (auto simp: outside_def array_at_def slot_def split: if_splits)
  have order: "t\<lparr>t_join := 0, t_join_to := -1, t_thread_in_q := x, t_block := 0\<rparr> =
      t\<lparr>t_thread_in_q := x, t_join := 0, t_join_to := -1, t_block := 0\<rparr>"
    "t\<lparr>t_join := 0, t_join_to := -1, t_thread_in_q := y, t_thread_in_q := x, t_block := 0\<rparr> =
      t\<lparr>t_thread_in_q := x, t_join := 0, t_join_to := -1, t_block := 0\<rparr>" for x y by (cases t, simp)+
  show ?thesis
  proof (cases "t_thread_in_q t")
    case None
    then show ?thesis
      using p intact slot by (simp add: order cancel_wake_joiner_def new_node_def TAILQ_INSERT_TAIL_def drop_node_def
          assign_def deref_def enqueue_def woken_def put_def Let_def)
  next
    case (Some m)
    note o = old_node [OF assms Some]
    show ?thesis
      using p intact slot Some o by (simp add: order cancel_wake_joiner_def new_node_def TAILQ_INSERT_TAIL_def
          drop_node_def free_node_def assign_def deref_def enqueue_def woken_def put_def Let_def
          fun_upd_twist [OF o(3)])
  qed
qed

lemma enqueue_view:
  assumes "outside s i p t"
  defines "t' \<equiv> t\<lparr>t_thread_in_q := Some (next_node s)\<rparr>"
  shows "wf_slots (enqueue p i s)" "wf_nodes (enqueue p i s)"
    "thread (enqueue p i s) = (thread s)(i := Some t')"
    "ready (enqueue p i s) = ready s @ [i]" "tcbs (enqueue p i s) = (tcbs s)(p \<mapsto> t')"
proof -
  note o = assms(1) [unfolded outside_def]
  let ?s = "enqueue p i s" let ?n = "next_node s"
  show tc: "tcbs ?s = (tcbs s)(p \<mapsto> t')" using o by (simp add: enqueue_def t'_def Let_def)
  have id: "t_id t = i" using slot_thread [of s i p] o by auto
  have "wf_slots (put p t' s)" by (rule wf_put [of s p t]) (use o in \<open>simp_all add: t'_def\<close>)
  then show "wf_slots ?s" unfolding wf_slots_def put_fields enqueue_fields tc .
  have "thread ?s = thread (put p t' s)" by (rule thread_cong) (simp_all add: tc)
  also have "\<dots> = (thread s)(i := Some t')" by (rule thread_put_slot) (use o in simp_all)
  finally show th: "thread ?s = (thread s)(i := Some t')" .
  have nodes: "nodes ?s m = (if m = ?n then Some i else if t_thread_in_q t = Some m then None else nodes s m)" for m
    using o by (auto simp: enqueue_def Let_def split: option.split)
  have keep: "nodes ?s m = nodes s m" if "m \<in> set (Q_head s)" for m
    using queue_nodes [OF assms(1) that] by (simp add: nodes)
  then show "ready ?s = ready s @ [i]" by (simp add: ready_def nodes)
  show "wf_nodes ?s" unfolding wf_nodes_def enqueue_fields
  proof (intro conjI ballI allI impI)
    show "distinct (Q_head s @ [?n])" using o queue_nodes(2) [OF assms(1)] by (auto simp: wf_nodes_def)
    show "m < ?n + 1" if "nodes ?s m \<noteq> None" for m
      using that o by (force simp: nodes wf_nodes_def split: if_splits)
    show "\<exists>j u. nodes ?s m = Some j \<and> thread ?s j = Some u \<and> t_thread_in_q u = Some m"
      if "m \<in> set (Q_head s @ [?n])" for m
    proof (cases "m = ?n")
      case True
      then show ?thesis by (simp add: nodes th t'_def)
    next
      case False
      then have m: "m \<in> set (Q_head s)" using that by simp
      then obtain j u where "nodes s m = Some j" "thread s j = Some u" "t_thread_in_q u = Some m"
        using queue_node o by metis
      with queue_nodes(3) [OF assms(1) m] keep [OF m] show ?thesis by (auto simp: th)
    qed
    show "nodes ?s m = Some j" if "thread ?s j = Some u" "t_thread_in_q u = Some m" for j u m
    proof (cases "j = i")
      case True
      with that show ?thesis by (auto simp: th t'_def nodes)
    next
      case False
      then have "nodes s m = Some j" using that thread_node [of s j u m] o by (simp add: th)
      moreover from this have "m \<noteq> ?n" using o by (auto simp: wf_nodes_def)
      moreover have "t_thread_in_q t \<noteq> Some m"
        using old_node(1) [OF assms(1)] calculation(1) False by fastforce
      ultimately show ?thesis by (simp add: nodes)
    qed
  qed
qed

lemma remove1_map:
  "(\<And>x y. x \<in> set xs \<Longrightarrow> y \<in> set xs \<Longrightarrow> f x = f y \<Longrightarrow> x = y) \<Longrightarrow> a \<in> set xs \<Longrightarrow>
     map f (remove1 a xs) = remove1 (f a) (map f xs)"
  by (induction xs) auto

text \<open>Taking a thread out of the middle of the queue.\<close>

definition dequeue :: "nat \<Rightarrow> wut_state \<Rightarrow> wut_state" where
  "dequeue p s = (let t = the (tcbs s p); n = the (t_thread_in_q t) in
     s\<lparr>nodes := (nodes s)(n := None), tcbs := (tcbs s)(p \<mapsto> t\<lparr>t_thread_in_q := None\<rparr>),
       Q_head := remove1 n (Q_head s)\<rparr>)"

lemma dequeue_fields [simp]:
  "next_tcb (dequeue p s) = next_tcb s" "TCB_ARRAY (dequeue p s) = TCB_ARRAY s"
  "MAX_THREAD_NUM (dequeue p s) = MAX_THREAD_NUM s" "THREAD_NUM (dequeue p s) = THREAD_NUM s"
  "CURRENT_RUNNING_THREAD_ID (dequeue p s) = CURRENT_RUNNING_THREAD_ID s"
  "slot (dequeue p s) = slot s" "next_node (dequeue p s) = next_node s" "sys_errno (dequeue p s) = sys_errno s"
  "sys_calls (dequeue p s) = sys_calls s"
  by (auto simp: dequeue_def Let_def slot_def)

lemma dequeue_view:
  assumes wf: "wf_slots s" "wf_nodes s" and p: "slot s i = Some p" "tcbs s p = Some t"
    and q: "i \<in> set (ready s)"
  shows "and_then (TAILQ_REMOVE (t_thread_in_q t) s) (\<lambda>s.
      and_then (free_node (t_thread_in_q t) s) (assign (Some p) (\<lambda>t. t\<lparr>t_thread_in_q := None\<rparr>))) =
      Inr (dequeue p s)"
    and "wf_slots (dequeue p s)" "wf_nodes (dequeue p s)"
    and "thread (dequeue p s) = (thread s)(i := Some (t\<lparr>t_thread_in_q := None\<rparr>))"
    and "ready (dequeue p s) = remove1 i (ready s)"
    and "tcbs (dequeue p s) = (tcbs s)(p \<mapsto> t\<lparr>t_thread_in_q := None\<rparr>)"
proof -
  let ?s = "dequeue p s" and ?t = "t\<lparr>t_thread_in_q := None\<rparr>"
  have thi: "thread s i = Some t" using p by (simp add: thread_def)
  obtain n where n: "t_thread_in_q t = Some n" "n \<in> set (Q_head s)"
    using ready_iff_node [OF wf(2) thi] q by blast
  have ni: "nodes s n = Some i" by (rule thread_node [OF wf(2) thi n(1)])
  show tc: "tcbs ?s = (tcbs s)(p \<mapsto> ?t)" by (simp add: dequeue_def Let_def p)
  have nodes: "nodes ?s = (nodes s)(n := None)" and Q: "Q_head ?s = remove1 n (Q_head s)"
    using p n by (simp_all add: dequeue_def Let_def)
  show "and_then (TAILQ_REMOVE (t_thread_in_q t) s) (\<lambda>s.
      and_then (free_node (t_thread_in_q t) s) (assign (Some p) (\<lambda>t. t\<lparr>t_thread_in_q := None\<rparr>))) = Inr ?s"
    using wf n ni p by (simp add: TAILQ_REMOVE_def free_node_def assign_def deref_def dequeue_def Let_def)
  have "wf_slots (put p ?t s)" by (rule wf_put [of s p t]) (use wf p in simp_all)
  then show "wf_slots ?s" unfolding wf_slots_def put_fields dequeue_fields tc .
  have "thread ?s = thread (put p ?t s)" by (rule thread_cong) (simp_all add: tc)
  then show th: "thread ?s = (thread s)(i := Some ?t)" using thread_put_slot [OF wf(1) p(1)] by simp
  have dist: "distinct (Q_head s)" using wf(2) by (simp add: wf_nodes_def)
  then have sub: "set (Q_head ?s) = set (Q_head s) - {n}" by (simp add: Q)
  show "ready ?s = remove1 i (ready s)"
  proof -
    have "ready ?s = map (\<lambda>m. the (nodes s m)) (remove1 n (Q_head s))"
      using sub by (simp add: ready_def nodes Q)
    also have "\<dots> = remove1 i (map (\<lambda>m. the (nodes s m)) (Q_head s))"
      using remove1_map [of "Q_head s" "\<lambda>m. the (nodes s m)" n] node_inj [OF wf(2)] n(2) ni by simp
    finally show ?thesis by (simp add: ready_def)
  qed
  show "wf_nodes ?s" unfolding wf_nodes_def dequeue_fields
  proof (intro conjI ballI allI impI)
    show "distinct (Q_head ?s)" using dist by (simp add: Q)
    show "m < next_node s" if "nodes ?s m \<noteq> None" for m
      using that wf(2) by (auto simp: nodes wf_nodes_def split: if_splits)
    show "\<exists>j u. nodes ?s m = Some j \<and> thread ?s j = Some u \<and> t_thread_in_q u = Some m"
      if "m \<in> set (Q_head ?s)" for m
    proof -
      have m: "m \<in> set (Q_head s)" "m \<noteq> n" using that sub by auto
      obtain j u where ju: "nodes s m = Some j" "thread s j = Some u" "t_thread_in_q u = Some m"
        by (rule queue_node [OF wf(2) m(1)])
      moreover have "j \<noteq> i" using ju thi n m by auto
      ultimately show ?thesis using m by (simp add: nodes th)
    qed
    show "nodes ?s m = Some j" if "thread ?s j = Some u" "t_thread_in_q u = Some m" for j u m
    proof -
      have j: "j \<noteq> i" "thread s j = Some u" using that by (auto simp: th split: if_splits)
      have "nodes s m = Some j" by (rule thread_node [OF wf(2) j(2) that(2)])
      moreover from this have "m \<noteq> n" using ni j(1) by auto
      ultimately show ?thesis by (simp add: nodes)
    qed
  qed
qed

section \<open>Creating a thread\<close>

lemma resize_view:
  assumes "wf_slots s" "wf_nodes s"
  shows "wf_slots (resize s)" "wf_nodes (resize s)" "slot (resize s) = slot s"
    "thread (resize s) = thread s" "ready (resize s) = ready s" "tcbs (resize s) = tcbs s"
    "MAX_THREAD_NUM (resize s) = 2 * MAX_THREAD_NUM s" "THREAD_NUM (resize s) = THREAD_NUM s"
    "CURRENT_RUNNING_THREAD_ID (resize s) = CURRENT_RUNNING_THREAD_ID s"
    "next_tcb (resize s) = next_tcb s" "next_errno (resize s) = next_errno s" "sys_errno (resize s) = sys_errno s"
proof -
  have len: "int (length (TCB_ARRAY s)) = MAX_THREAD_NUM s" using assms(1) by (simp add: wf_slots_def)
  then have arr: "TCB_ARRAY (resize s) = TCB_ARRAY s @ replicate (length (TCB_ARRAY s)) None"
    by (simp add: resize_def Let_def nat_eq_iff flip: len)
  show f: "MAX_THREAD_NUM (resize s) = 2 * MAX_THREAD_NUM s" "THREAD_NUM (resize s) = THREAD_NUM s"
    "CURRENT_RUNNING_THREAD_ID (resize s) = CURRENT_RUNNING_THREAD_ID s"
    "next_tcb (resize s) = next_tcb s" "tcbs (resize s) = tcbs s" "next_errno (resize s) = next_errno s"
    "sys_errno (resize s) = sys_errno s" by (simp_all add: resize_def Let_def next_errno_def)
  have n: "nodes (resize s) = nodes s" "next_node (resize s) = next_node s" "Q_head (resize s) = Q_head s"
    by (simp_all add: resize_def Let_def)
  show sl: "slot (resize s) = slot s"
    by (rule ext) (auto simp: slot_def arr nth_append)
  show th: "thread (resize s) = thread s" by (rule thread_cong) (simp_all add: sl f)
  show "wf_slots (resize s)" using assms(1) len by (simp add: wf_slots_def sl f arr)
  show "wf_nodes (resize s)" by (rule wf_nodes_cong [OF assms(2)]) (simp_all add: n th)
  show "ready (resize s) = ready s" by (simp add: ready_def n)
qed

definition install :: "nat \<Rightarrow> tcb \<Rightarrow> wut_state \<Rightarrow> wut_state" where
  "install i t s = s\<lparr>next_tcb := next_tcb s + 1, tcbs := (tcbs s)(next_tcb s \<mapsto> t),
     TCB_ARRAY := (TCB_ARRAY s)[i := Some (next_tcb s)], THREAD_NUM := THREAD_NUM s + 1\<rparr>"

lemma install_view:
  assumes wf: "wf_slots s" "wf_nodes s" and i: "int i \<le> THREAD_NUM s" "THREAD_NUM s < MAX_THREAD_NUM s"
    and t: "t_id t = int i" "t_thread_in_q t = None" and new: "int i \<notin> set (ready s)"
  shows "outside (install i t s) (int i) (next_tcb s) t"
    "thread (install i t s) = (thread s)(int i := Some t)"
    "slot (install i t s) = (slot s)(int i := Some (next_tcb s))"
    "ready (install i t s) = ready s" "tcbs (install i t s) = (tcbs s)(next_tcb s \<mapsto> t)"
proof -
  let ?s = "install i t s"
  have len: "int (length (TCB_ARRAY s)) = MAX_THREAD_NUM s" using wf(1) by (simp add: wf_slots_def)
  then have il: "i < length (TCB_ARRAY s)" using i by simp
  show tc: "tcbs ?s = (tcbs s)(next_tcb s \<mapsto> t)" by (simp add: install_def)
  show sl: "slot ?s = (slot s)(int i := Some (next_tcb s))"
    using il by (intro ext) (auto simp: slot_def install_def nth_list_update)
  have fresh: "slot s j \<noteq> Some (next_tcb s)" for j using wf(1) by (fastforce simp: wf_slots_def)
  show th: "thread ?s = (thread s)(int i := Some t)"
    using fresh by (intro ext) (auto simp: thread_def sl tc split: option.split)
  show rd: "ready ?s = ready s" by (simp add: ready_def install_def)
  have n: "nodes ?s = nodes s" "next_node ?s = next_node s" "Q_head ?s = Q_head s"
    "TCB_ARRAY ?s = (TCB_ARRAY s)[i := Some (next_tcb s)]" "MAX_THREAD_NUM ?s = MAX_THREAD_NUM s"
    "THREAD_NUM ?s = THREAD_NUM s + 1" "next_tcb ?s = next_tcb s + 1" by (simp_all add: install_def)
  have old: "j < THREAD_NUM s \<and> p < next_tcb s \<and> (\<exists>t. tcbs s p = Some t \<and> t_id t = j)"
    if "slot s j = Some p" for j p
    using wf(1) that unfolding wf_slots_def by (metis option.distinct(1))
  have "wf_slots ?s"
    unfolding wf_slots_def n sl tc
  proof (intro conjI allI impI)
    show "p < next_tcb s + 1" if "((tcbs s)(next_tcb s \<mapsto> t)) p \<noteq> None" for p
      using that wf(1) by (fastforce simp: wf_slots_def split: if_splits)
    fix j p assume "((slot s)(int i := Some (next_tcb s))) j = Some p"
    then show "j < THREAD_NUM s + 1" "\<exists>u. ((tcbs s)(next_tcb s \<mapsto> t)) p = Some u \<and> t_id u = j"
      using old [of j p] i t by (auto split: if_splits)
  qed (use len i wf(1) in \<open>simp_all add: wf_slots_def\<close>)
  moreover have "wf_nodes ?s" unfolding wf_nodes_def n
  proof (intro conjI ballI allI impI)
    show "\<exists>j u. nodes s m = Some j \<and> thread ?s j = Some u \<and> t_thread_in_q u = Some m"
      if m: "m \<in> set (Q_head s)" for m
    proof -
      obtain j u where ju: "nodes s m = Some j" "thread s j = Some u" "t_thread_in_q u = Some m"
        by (rule queue_node [OF wf(2) m])
      then have "j \<noteq> int i" using new ready_iff [OF wf(2)] m by blast
      with ju show ?thesis by (simp add: th)
    qed
    show "nodes s m = Some j" if "thread ?s j = Some u" "t_thread_in_q u = Some m" for j u m
      using that t(2) thread_node [OF wf(2), of j u m] by (auto simp: th split: if_splits)
  qed (use wf(2) in \<open>auto simp: wf_nodes_def\<close>)
  ultimately show "outside ?s (int i) (next_tcb s) t"
    using new by (simp add: outside_def sl tc rd)
qed

lemma slot_free_thread:
  assumes "wf_slots s" "int i < MAX_THREAD_NUM s"
  shows "slot_free s i \<longleftrightarrow>
    (case thread s (int i) of None \<Rightarrow> True | Some t \<Rightarrow> \<not> alive t \<and> t_enable t = 1)"
proof -
  have "slot s (int i) = TCB_ARRAY s ! i" using assms by (simp add: slot_def wf_slots_def)
  moreover have "slot s (int i) = Some p \<Longrightarrow> tcbs s p \<noteq> None" for p
    using assms(1) by (fastforce simp: wf_slots_def)
  ultimately show ?thesis by (auto simp: slot_free_def thread_def split: option.splits)
qed

definition fresh_tcb :: "int \<Rightarrow> u64 \<Rightarrow> tcb \<Rightarrow> bool" where
  "fresh_tcb i run t \<longleftrightarrow> t_id t = i \<and> t_status t = -1 \<and> t_join t = 0 \<and> t_join_from t = -1 \<and>
     t_join_to t = -1 \<and> t_block t = 0 \<and> t_enable t = 1 \<and> t_ucontext t = Some (Start run)"

definition reusable :: "wut_state \<Rightarrow> int \<Rightarrow> bool" where
  "reusable s i \<longleftrightarrow>
     (case thread s i of None \<Rightarrow> True | Some t \<Rightarrow> \<not> alive t \<and> t_enable t = 1)"

definition created :: "u64 \<Rightarrow> wut_state \<Rightarrow> int \<Rightarrow> wut_state \<Rightarrow> bool" where
  "created run s i s' \<longleftrightarrow>
     0 \<le> i \<and> i \<le> THREAD_NUM s \<and> reusable s i \<and> (\<forall>j. 0 \<le> j \<and> j < i \<longrightarrow> \<not> reusable s j) \<and>
     wf_slots s' \<and> wf_nodes s' \<and> (\<exists>t. fresh_tcb i run t \<and> thread s' = (thread s)(i := Some t)) \<and>
     ready s' = ready s @ [i] \<and> slot s' = (slot s)(i := Some (next_tcb s)) \<and>
     CURRENT_RUNNING_THREAD_ID s' = CURRENT_RUNNING_THREAD_ID s \<and>
     THREAD_NUM s' = THREAD_NUM s + 1 \<and>
     MAX_THREAD_NUM s' = (if THREAD_NUM s = MAX_THREAD_NUM s then 2 else 1) * MAX_THREAD_NUM s \<and>
     (\<forall>p. p \<noteq> next_tcb s \<longrightarrow> tcbs s' p = tcbs s p) \<and> sys_errno s' = sys_errno s"

lemma find_lowest:
  assumes "List.find P [0..<n] = Some i"
  shows "i < n" "P i" "\<And>j. j < i \<Longrightarrow> \<not> P j"
  using assms by (auto simp: find_Some_iff)

text \<open>The array has a free slot once it has been enlarged, and the stack does not change the threads.\<close>

definition with_room :: "wut_state \<Rightarrow> wut_state" where
  "with_room s = (if THREAD_NUM s \<ge> MAX_THREAD_NUM s then resize s else s)"

lemma with_room_view:
  assumes wf: "wf_slots s" "wf_nodes s"
  defines "s1 \<equiv> with_stack (with_room s)"
  shows "wf_slots s1" "wf_nodes s1" "slot s1 = slot s" "thread s1 = thread s" "ready s1 = ready s"
    "tcbs s1 = tcbs s" "THREAD_NUM s1 = THREAD_NUM s" "next_tcb s1 = next_tcb s"
    "CURRENT_RUNNING_THREAD_ID s1 = CURRENT_RUNNING_THREAD_ID s"
    "MAX_THREAD_NUM s1 = (if THREAD_NUM s = MAX_THREAD_NUM s then 2 else 1) * MAX_THREAD_NUM s"
    "THREAD_NUM s < MAX_THREAD_NUM s1" "MAX_THREAD_NUM (with_room s) = MAX_THREAD_NUM s1"
    "next_errno (with_room s) = next_errno s" "sys_errno s1 = sys_errno s"
proof -
  let ?s = "with_room s"
  note rz = resize_view [OF wf]
  have s0: "wf_slots ?s" "wf_nodes ?s" "slot ?s = slot s" "thread ?s = thread s" "ready ?s = ready s"
    "tcbs ?s = tcbs s" "THREAD_NUM ?s = THREAD_NUM s" "next_tcb ?s = next_tcb s"
    "CURRENT_RUNNING_THREAD_ID ?s = CURRENT_RUNNING_THREAD_ID s"
    using wf rz by (simp_all add: with_room_def)
  show "next_errno ?s = next_errno s" "sys_errno s1 = sys_errno s"
    using rz by (simp_all add: s1_def with_stack_def with_room_def)
  have max0: "MAX_THREAD_NUM ?s = (if THREAD_NUM s = MAX_THREAD_NUM s then 2 else 1) * MAX_THREAD_NUM s"
    "THREAD_NUM s < MAX_THREAD_NUM ?s"
    using wf(1) rz(7) by (auto simp: with_room_def wf_slots_def)
  have same: "tcbs s1 = tcbs ?s" "nodes s1 = nodes ?s" "next_tcb s1 = next_tcb ?s" "next_node s1 = next_node ?s"
    "Q_head s1 = Q_head ?s" "TCB_ARRAY s1 = TCB_ARRAY ?s" "MAX_THREAD_NUM s1 = MAX_THREAD_NUM ?s"
    "THREAD_NUM s1 = THREAD_NUM ?s"
    and cur: "CURRENT_RUNNING_THREAD_ID s1 = CURRENT_RUNNING_THREAD_ID ?s"
    by (simp_all add: s1_def with_stack_def)
  note c1 = wf_cong [OF same]
  show "wf_slots s1" "wf_nodes s1" "slot s1 = slot s" "thread s1 = thread s" "ready s1 = ready s"
    using c1 s0 by simp_all
  show "tcbs s1 = tcbs s" "THREAD_NUM s1 = THREAD_NUM s" "next_tcb s1 = next_tcb s"
    "CURRENT_RUNNING_THREAD_ID s1 = CURRENT_RUNNING_THREAD_ID s"
    "MAX_THREAD_NUM s1 = (if THREAD_NUM s = MAX_THREAD_NUM s then 2 else 1) * MAX_THREAD_NUM s"
    "THREAD_NUM s < MAX_THREAD_NUM s1" "MAX_THREAD_NUM ?s = MAX_THREAD_NUM s1"
    using s0 same cur max0 by simp_all
qed

text \<open>The scan for a slot stops at the lowest that can be used, which is at most the number of threads.\<close>

lemma scan_finds:
  assumes wf: "wf_slots s" and s1: "wf_slots s1" "thread s1 = thread s" "THREAD_NUM s < MAX_THREAD_NUM s1"
  obtains i where "List.find (slot_free (s1\<lparr>next_tcb := n\<rparr>)) [0..<nat (MAX_THREAD_NUM s1)] = Some i"
    "int i \<le> THREAD_NUM s" "reusable s (int i)" "\<And>j. 0 \<le> j \<Longrightarrow> j < int i \<Longrightarrow> \<not> reusable s j"
proof -
  let ?n = "nat (MAX_THREAD_NUM s1)"
  have free: "slot_free (s1\<lparr>next_tcb := n\<rparr>) j = reusable s (int j)" if "j < ?n" for j
  proof -
    have "slot_free (s1\<lparr>next_tcb := n\<rparr>) j = slot_free s1 j" by (simp add: slot_free_def split: option.split)
    then show ?thesis using slot_free_thread [OF s1(1), of j] that s1(2) by (simp add: reusable_def)
  qed
  have T: "0 \<le> THREAD_NUM s" "thread s (THREAD_NUM s) = None"
    using wf thread_range [OF wf, of "THREAD_NUM s"]
    by (simp add: wf_slots_def, cases "thread s (THREAD_NUM s)") simp_all
  then have last: "reusable s (int (nat (THREAD_NUM s)))" "nat (THREAD_NUM s) < ?n"
    using s1(3) by (simp_all add: reusable_def)
  let ?F = "List.find (slot_free (s1\<lparr>next_tcb := n\<rparr>)) [0..<?n]"
  have "?F \<noteq> None"
    unfolding find_None_iff using free [OF last(2)] last by (metis atLeastLessThan_iff le0 set_upt)
  then obtain i where F: "?F = Some i" by blast
  note low = find_lowest [OF F]
  have i: "int i \<le> THREAD_NUM s" "reusable s (int i)"
    using low(1,2,3) free last T(1) by (metis (no_types, lifting) linorder_not_le nat_less_iff of_nat_nat nat_le_iff, metis)
  have "\<not> reusable s j" if "0 \<le> j" "j < int i" for j
  proof -
    have j: "nat j < i" "int (nat j) = j" using that by simp_all
    have "nat j < ?n" by (rule less_trans [OF j(1) low(1)])
    then show ?thesis using low(3) [OF j(1)] free [of "nat j"] j(2) by simp
  qed
  then show thesis using that F i by blast
qed

lemma wut_create_created:
  assumes wf: "wf_slots s" "wf_nodes s"
    and al: "\<And>i t. i \<in> set (ready s) \<Longrightarrow> thread s i = Some t \<Longrightarrow> alive t"
    and ne: "next_errno s = None"
  shows "\<exists>i s'. wut_create run s = Inr (i, s') \<and> created run s i s'"
proof -
  define s0 where "s0 = with_room s"
  define s1 where "s1 = with_stack s0"
  note V = with_room_view [OF wf, folded s0_def, folded s1_def]
  obtain i where F: "List.find (slot_free (s1\<lparr>next_tcb := next_tcb s1 + 1\<rparr>)) [0..<nat (MAX_THREAD_NUM s1)] = Some i"
    and i: "int i \<le> THREAD_NUM s" "reusable s (int i)" and lowest: "\<And>j. 0 \<le> j \<Longrightarrow> j < int i \<Longrightarrow> \<not> reusable s j"
    by (rule scan_finds [OF wf(1) V(1,4,11), where n = "next_tcb s1 + 1"]) (rule that)
  let ?t = "\<lparr>t_id = int i, t_status = -1, t_join = 0, t_join_from = -1, t_join_to = -1, t_block = 0,
    t_enable = 1, t_thread_in_q = None, t_stack = Some (next_stack s0), t_ucontext = Some (Start run)\<rparr>"
  let ?s2 = "install i ?t s1" let ?s3 = "enqueue (next_tcb s) (int i) ?s2"
  have "int i \<notin> set (ready s1)"
    using i(2) al ready_thread [OF wf(2), of "int i"] V(5) by (auto simp: reusable_def)
  with install_view [OF V(1,2), of i ?t] i(1) V
  have I: "outside ?s2 (int i) (next_tcb s) ?t" "thread ?s2 = (thread s)(int i := Some ?t)"
    "slot ?s2 = (slot s)(int i := Some (next_tcb s))" "ready ?s2 = ready s"
    "tcbs ?s2 = (tcbs s)(next_tcb s \<mapsto> ?t)" by simp_all
  have intact: "queue_intact (?s2\<lparr>nodes := (nodes ?s2)(next_node ?s2 \<mapsto> int i), next_node := next_node ?s2 + 1\<rparr>)"
    using queue_nodes [OF I(1)] by (simp add: queue_intact_def list_all_iff)
  have ns: "new_stack s0 = Inr (next_stack s0, s1)" using ne V(13) by (simp add: s1_def new_stack_eq)
  have enq: "?s3 = ?s2\<lparr>nodes := (nodes ?s2)(next_node ?s2 \<mapsto> int i), next_node := next_node ?s2 + 1,
      tcbs := (tcbs ?s2)(next_tcb s \<mapsto> ?t\<lparr>t_thread_in_q := Some (next_node ?s2)\<rparr>),
      Q_head := Q_head ?s2 @ [next_node ?s2]\<rparr>"
    by (simp add: enqueue_def Let_def I(5))
  have "wut_create run s = Inr (int i, ?s3)"
    using intact F V(8,12) unfolding wut_create_def Let_def with_room_def [symmetric] s0_def [symmetric] ns and_then_Inr prod.case enq
    by (simp add: new_node_def TAILQ_INSERT_TAIL_def assign_def deref_def install_def)
  moreover have "created run s (int i) ?s3"
  proof -
    note E = enqueue_view [OF I(1)]
    let ?u = "?t\<lparr>t_thread_in_q := Some (next_node ?s2)\<rparr>"
    have "thread ?s3 = (thread s)(int i := Some ?u)" using E(3) I(2) by simp
    moreover have "fresh_tcb (int i) run ?u" by (simp add: fresh_tcb_def)
    ultimately have th: "\<exists>t. fresh_tcb (int i) run t \<and> thread ?s3 = (thread s)(int i := Some t)" by blast
    show ?thesis
      unfolding created_def
      by (intro conjI th allI impI)
         (use E(1,2,4,5) I(3,4,5) i lowest V in \<open>simp_all add: install_def\<close>)
  qed
  ultimately show ?thesis by blast
qed

lemma wut_create_fails:
  assumes "wf_slots s" "wf_nodes s" "next_errno s = Some err"
  shows "wut_create run s = Inl (Process_exit err)"
  using with_room_view(13) [OF assms(1,2)] assms(3)
  by (simp add: wut_create_def new_stack_eq flip: with_room_def)

end
