(* ===== verification/WutSched.thy ===== *)
theory WutSched
  imports WutState
begin

text \<open>
  The scheduling invariant of the thread library.  \<open>wf_rest C s\<close> says that, leaving aside the
  threads in \<open>C\<close> (the running one), every thread that has not finished is either in the ready queue
  with a context that can be resumed, or blocked in \<open>wut_join\<close> on an unfinished thread that points
  back to it.  \<open>resume_ok\<close> is the step shared by all switches: the first thread of the queue runs.
\<close>

definition runnable :: "wut_state \<Rightarrow> ucontext \<Rightarrow> bool" where
  "runnable s c \<longleftrightarrow> c \<noteq> Fresh_main \<and>
     (\<forall>p. c = In_join p \<longrightarrow> (\<exists>u. tcbs s p = Some u \<and> \<not> alive u))"

definition waits_on :: "wut_state \<Rightarrow> int \<Rightarrow> tcb \<Rightarrow> int \<Rightarrow> bool" where
  "waits_on s i t j \<longleftrightarrow> t_block t = 1 \<and> t_join_to t = j \<and>
     (\<exists>p u. t_ucontext t = Some (In_join p) \<and> slot s j = Some p \<and> tcbs s p = Some u \<and> alive u \<and>
        t_join u = 1 \<and> t_join_from u = i)"

definition rest_ready :: "wut_state \<Rightarrow> bool" where
  "rest_ready s \<longleftrightarrow> (\<forall>i \<in> set (ready s). \<forall>t. thread s i = Some t \<longrightarrow>
     alive t \<and> (\<exists>c. t_ucontext t = Some c \<and> runnable s c))"

definition rest_live :: "int set \<Rightarrow> wut_state \<Rightarrow> bool" where
  "rest_live C s \<longleftrightarrow> (\<forall>i t. thread s i = Some t \<longrightarrow> alive t \<longrightarrow> t_ucontext t \<noteq> None \<and>
     (i \<in> C \<or> i \<in> set (ready s) \<or> (\<exists>j. waits_on s i t j)))"

definition rest_joins :: "int set \<Rightarrow> wut_state \<Rightarrow> bool" where
  "rest_joins C s \<longleftrightarrow> (\<forall>j u. thread s j = Some u \<longrightarrow> alive u \<longrightarrow> t_join u = 1 \<or> t_join_from u \<noteq> -1 \<longrightarrow>
     t_join u = 1 \<and> t_join_from u \<notin> C \<and> t_join_from u \<notin> set (ready s) \<and> t_join_from u \<noteq> j \<and>
     (\<exists>t. thread s (t_join_from u) = Some t \<and> alive t \<and> t_join_to t = j))"

definition status_range :: "wut_state \<Rightarrow> bool" where
  "status_range s \<longleftrightarrow> (\<forall>p t. tcbs s p = Some t \<longrightarrow> alive t \<or> 0 \<le> t_status t \<and> t_status t < 256)"

definition wf_rest :: "int set \<Rightarrow> wut_state \<Rightarrow> bool" where
  "wf_rest C s \<longleftrightarrow> rest_ready s \<and> rest_live C s \<and> rest_joins C s \<and> status_range s"

definition wut_ok :: "wut_state \<Rightarrow> bool" where
  "wut_ok s \<longleftrightarrow> wf_slots s \<and> wf_nodes s \<and> wf_rest {CURRENT_RUNNING_THREAD_ID s} s \<and>
     CURRENT_RUNNING_THREAD_ID s \<notin> set (ready s) \<and>
     (\<exists>t. thread s (CURRENT_RUNNING_THREAD_ID s) = Some t \<and> alive t)"

lemmas rest_defs = rest_ready_def rest_live_def rest_joins_def status_range_def

text \<open>The invariant depends on these fields of the control blocks only.\<close>

definition sched_fields :: "tcb \<Rightarrow> int \<times> int \<times> int \<times> int \<times> int \<times> ucontext option" where
  "sched_fields t = (t_status t, t_join t, t_join_from t, t_join_to t, t_block t, t_ucontext t)"

lemma wf_rest_cong:
  assumes "slot s' = slot s" "set (ready s') = set (ready s)"
    and f: "\<And>p. map_option sched_fields (tcbs s' p) = map_option sched_fields (tcbs s p)"
  shows "wf_rest C s \<Longrightarrow> wf_rest C s'"
proof -
  assume wf: "wf_rest C s"
  have old: "\<exists>u. tcbs s p = Some u \<and> sched_fields u = sched_fields t" if "tcbs s' p = Some t" for p t
    using f [of p] that by (cases "tcbs s p") auto
  have new: "\<exists>u. tcbs s' p = Some u \<and> sched_fields u = sched_fields t" if "tcbs s p = Some t" for p t
    using f [of p] that by (cases "tcbs s' p") auto
  have told: "\<exists>u. thread s i = Some u \<and> sched_fields u = sched_fields t" if "thread s' i = Some t" for i t
    using thread_slot [OF that] old assms(1) by (auto simp: thread_def)
  have tnew: "\<exists>u. thread s' i = Some u \<and> sched_fields u = sched_fields t" if "thread s i = Some t" for i t
    using thread_slot [OF that] new assms(1) by (auto simp: thread_def)
  have run: "runnable s' c" if "runnable s c" for c
    using that new unfolding runnable_def sched_fields_def by (metis Pair_inject)
  have wait: "waits_on s' i t j" if "waits_on s i u j" "sched_fields u = sched_fields t" for i t u j
    using that new unfolding waits_on_def sched_fields_def assms(1) by (metis Pair_inject)
  have "rest_ready s'" using wf told run unfolding wf_rest_def rest_ready_def assms(2) sched_fields_def
    by (metis Pair_inject)
  moreover have "rest_live C s'" unfolding rest_live_def assms(2)
  proof (intro allI impI)
    fix i t assume t: "thread s' i = Some t" "alive t"
    then obtain u where u: "thread s i = Some u" "sched_fields u = sched_fields t" using told by blast
    with t(2) have "alive u" "t_ucontext u = t_ucontext t" by (simp_all add: sched_fields_def)
    with u wf wait show "t_ucontext t \<noteq> None \<and> (i \<in> C \<or> i \<in> set (ready s) \<or> (\<exists>j. waits_on s' i t j))"
      unfolding wf_rest_def rest_live_def by metis
  qed
  moreover have "rest_joins C s'" unfolding rest_joins_def assms(2)
  proof (intro allI impI)
    fix j u assume u: "thread s' j = Some u" "alive u" "t_join u = 1 \<or> t_join_from u \<noteq> -1"
    then obtain v where v: "thread s j = Some v" "sched_fields v = sched_fields u" using told by blast
    with u have "alive v" "t_join v = 1 \<or> t_join_from v \<noteq> -1" "t_join v = t_join u"
      "t_join_from v = t_join_from u" by (simp_all add: sched_fields_def)
    with v(1) wf obtain t where t: "t_join u = 1" "t_join_from u \<notin> C" "t_join_from u \<notin> set (ready s)" "t_join_from u \<noteq> j"
      "thread s (t_join_from u) = Some t" "alive t" "t_join_to t = j"
      unfolding wf_rest_def rest_joins_def by metis
    with tnew [OF t(5)] show "t_join u = 1 \<and> t_join_from u \<notin> C \<and> t_join_from u \<notin> set (ready s) \<and>
        t_join_from u \<noteq> j \<and>
        (\<exists>t. thread s' (t_join_from u) = Some t \<and> alive t \<and> t_join_to t = j)"
      by (auto simp: sched_fields_def)
  qed
  moreover have "status_range s'"
    using wf old unfolding wf_rest_def status_range_def sched_fields_def by (metis Pair_inject)
  ultimately show ?thesis by (simp add: wf_rest_def)
qed

lemma wf_rest_put:
  "wf_rest C s \<Longrightarrow> tcbs s p = Some t \<Longrightarrow> sched_fields t' = sched_fields t \<Longrightarrow> wf_rest C (put p t' s)"
  by (rule wf_rest_cong [of _ s]) auto

section \<open>The next thread runs\<close>

definition run_next :: "int \<Rightarrow> wut_state \<Rightarrow> wut_state" where
  "run_next i s = (pop s)\<lparr>CURRENT_RUNNING_THREAD_ID := i\<rparr>"

lemma run_next_fields [simp]:
  "nodes (run_next i s) = nodes s" "tcbs (run_next i s) = tcbs s" "slot (run_next i s) = slot s"
  "thread (run_next i s) = thread s" "wf_slots (run_next i s) = wf_slots s"
  "ready (run_next i s) = tl (ready s)" "CURRENT_RUNNING_THREAD_ID (run_next i s) = i"
  "wf_nodes s \<Longrightarrow> wf_nodes (run_next i s)"
  by (simp_all add: run_next_def wf_nodes_pop)

definition resumed :: "wut_state \<Rightarrow> int \<Rightarrow> event \<Rightarrow> wut_state \<Rightarrow> bool" where
  "resumed s i ev s' \<longleftrightarrow> (\<exists>t c. thread s i = Some t \<and> t_ucontext t = Some c \<and>
     (case c of
        Start run \<Rightarrow> ev = Started run \<and> s' = run_next i s
      | In_yield \<Rightarrow> ev = Returned 0 \<and> s' = run_next i s
      | In_join p \<Rightarrow> (\<exists>u. tcbs s p = Some u \<and> \<not> alive u \<and> ev = Returned (t_status u) \<and>
          s' = put p (u\<lparr>t_enable := 1\<rparr>) (run_next i s))
      | Fresh_main \<Rightarrow> False))"

lemma wut_ok_run_next:
  assumes "wf_slots s" "wf_nodes s" "wf_rest {} s" "ready s = i # is"
  shows "wut_ok (run_next i s)"
proof -
  have dist: "i \<notin> set is" using distinct_ready [OF assms(2)] assms(4) by simp
  obtain t where t: "thread s i = Some t" using ready_thread [OF assms(2), of i] assms(4) by auto
  with assms(3,4) have al: "alive t" by (auto simp: wf_rest_def rest_ready_def)
  have run: "runnable (run_next i s) = runnable s" by (rule ext) (simp add: runnable_def)
  have wait: "waits_on (run_next i s) = waits_on s" by (intro ext) (simp add: waits_on_def)
  have R: "ready (run_next i s) = is" using assms(4) by simp
  have "rest_ready (run_next i s)"
    using assms(3,4) unfolding wf_rest_def rest_ready_def R run run_next_fields by auto
  moreover have "rest_live {i} (run_next i s)"
    using assms(3,4) unfolding wf_rest_def rest_live_def R wait run_next_fields by fastforce
  moreover have "rest_joins {i} (run_next i s)"
    using assms(3,4) unfolding wf_rest_def rest_joins_def R run_next_fields by auto
  moreover have "status_range (run_next i s)"
    using assms(3) unfolding wf_rest_def status_range_def run_next_fields by blast
  ultimately show ?thesis
    using assms(1,2) R t al dist by (simp add: wut_ok_def wf_rest_def)
qed

lemma wut_ok_put:
  assumes "wut_ok s" "tcbs s p = Some t" "sched_fields t' = sched_fields t" "t_id t' = t_id t"
    "t_thread_in_q t' = t_thread_in_q t"
  shows "wut_ok (put p t' s)"
proof -
  note o = assms(1) [unfolded wut_ok_def]
  obtain u where u: "thread s (CURRENT_RUNNING_THREAD_ID s) = Some u" "alive u" using o by blast
  have "t_status t' = t_status t" using assms(3) by (simp add: sched_fields_def)
  moreover have "slot s (CURRENT_RUNNING_THREAD_ID s) = Some p \<Longrightarrow> u = t"
    using u(1) assms(2) by (simp add: thread_def)
  ultimately have "\<exists>u. thread (put p t' s) (CURRENT_RUNNING_THREAD_ID s) = Some u \<and> alive u"
    using u by (auto simp: thread_put)
  moreover have "wf_slots (put p t' s)" "wf_nodes (put p t' s)"
    using wf_put wf_nodes_put assms o by blast+
  moreover have "wf_rest {CURRENT_RUNNING_THREAD_ID s} (put p t' s)"
    using wf_rest_put [OF _ assms(2,3)] o by blast
  ultimately show ?thesis using o by (simp add: wut_ok_def)
qed

lemma resume_ok:
  assumes "wf_slots s" "wf_nodes s" "wf_rest {} s" "ready s = i # is"
  shows "\<exists>ev s'. setcontext (slot s i) (run_next i s) = Inr (ev, s') \<and> resumed s i ev s' \<and> wut_ok s'"
proof -
  obtain t where t: "thread s i = Some t" using ready_thread [OF assms(2), of i] assms(4) by auto
  then obtain p where p: "slot s i = Some p" "tcbs s p = Some t" using thread_slot by blast
  from t assms(3,4) obtain c where c: "t_ucontext t = Some c" "runnable s c"
    by (auto simp: wf_rest_def rest_ready_def)
  note ok = wut_ok_run_next [OF assms]
  show ?thesis
  proof (cases c)
    case (In_join j)
    with c(2) obtain u where u: "tcbs s j = Some u" "\<not> alive u" by (auto simp: runnable_def)
    have "wut_ok (put j (u\<lparr>t_enable := 1\<rparr>) (run_next i s))"
      by (rule wut_ok_put [OF ok, of _ u]) (simp_all add: u sched_fields_def)
    then show ?thesis using t p c u In_join by (simp add: setcontext_def resumed_def)
  qed (use t p c ok in \<open>simp_all add: setcontext_def resumed_def runnable_def\<close>)
qed

end
