(* ===== verification/WutOps.thy ===== *)
theory WutOps
  imports WutSched
begin

text \<open>
  The calls of the thread library on states that satisfy the invariant: what each does to the
  array, the queue and the running thread, and that it keeps the invariant.
\<close>

lemma wut_okD:
  assumes "wut_ok s"
  obtains p t where "wf_slots s" "wf_nodes s" "wf_rest {CURRENT_RUNNING_THREAD_ID s} s"
    "CURRENT_RUNNING_THREAD_ID s \<notin> set (ready s)" "slot s (CURRENT_RUNNING_THREAD_ID s) = Some p"
    "tcbs s p = Some t" "thread s (CURRENT_RUNNING_THREAD_ID s) = Some t" "alive t"
    "t_id t = CURRENT_RUNNING_THREAD_ID s" "t_ucontext t \<noteq> None"
proof -
  note o = assms [unfolded wut_ok_def]
  obtain t where t: "thread s (CURRENT_RUNNING_THREAD_ID s) = Some t" "alive t" using o by blast
  obtain p where p: "slot s (CURRENT_RUNNING_THREAD_ID s) = Some p" "tcbs s p = Some t"
    using thread_slot [OF t(1)] by blast
  have "t_ucontext t \<noteq> None" using o t by (auto simp: wf_rest_def rest_live_def)
  with that o t p thread_id [of s _ t] show thesis by blast
qed

lemma TAILQ_EMPTY_ready: "TAILQ_EMPTY s = (ready s = [])"
  by (simp add: TAILQ_EMPTY_def ready_def)

text \<open>Facts about the state after a change of one control block.\<close>

lemma resumed_view:
  assumes "resumed s i ev s'"
  shows "CURRENT_RUNNING_THREAD_ID s' = i" "ready s' = tl (ready s)" "slot s' = slot s"
    "map_option sched_fields (thread s' j) = map_option sched_fields (thread s j)"
proof -
  obtain t c where t: "thread s i = Some t" "t_ucontext t = Some c" and c: "case c of
      Start run \<Rightarrow> ev = Started run \<and> s' = run_next i s
    | In_yield \<Rightarrow> ev = Returned 0 \<and> s' = run_next i s
    | In_join p \<Rightarrow> (\<exists>u. tcbs s p = Some u \<and> \<not> alive u \<and> ev = Returned (t_status u) \<and>
        s' = put p (u\<lparr>t_enable := 1\<rparr>) (run_next i s))
    | Fresh_main \<Rightarrow> False"
    using assms unfolding resumed_def by blast
  have "CURRENT_RUNNING_THREAD_ID s' = i \<and> ready s' = tl (ready s) \<and> slot s' = slot s \<and>
      map_option sched_fields (thread s' j) = map_option sched_fields (thread s j)"
  proof (cases c)
    case (In_join p)
    with c obtain u where u: "tcbs s p = Some u" "s' = put p (u\<lparr>t_enable := 1\<rparr>) (run_next i s)" by auto
    then have "thread s' j = (if slot s j = Some p then Some (u\<lparr>t_enable := 1\<rparr>) else thread s j)"
      by (simp add: thread_put)
    then show ?thesis using u by (auto simp: thread_def sched_fields_def)
  qed (use c in auto)
  then show "CURRENT_RUNNING_THREAD_ID s' = i" "ready s' = tl (ready s)" "slot s' = slot s"
    "map_option sched_fields (thread s' j) = map_option sched_fields (thread s j)" by blast+
qed

section \<open>Keeping the invariant\<close>

text \<open>
  Used by every call: in a well-formed state a joiner that an unfinished thread points to is
  blocked inside \<open>wut_join\<close> on exactly that thread.
\<close>

lemma joiner_waits:
  assumes "wf_rest C s" "thread s j = Some u" "alive u" "t_join u = 1 \<or> t_join_from u \<noteq> -1"
  obtains w where "t_join u = 1" "t_join_from u \<notin> C" "t_join_from u \<notin> set (ready s)" "t_join_from u \<noteq> j"
    "thread s (t_join_from u) = Some w" "alive w" "t_join_to w = j" "waits_on s (t_join_from u) w j"
proof -
  note w = assms(1) [unfolded wf_rest_def rest_joins_def rest_live_def]
  obtain t where t: "t_join u = 1" "t_join_from u \<notin> C" "t_join_from u \<notin> set (ready s)" "t_join_from u \<noteq> j"
    "thread s (t_join_from u) = Some t" "alive t" "t_join_to t = j" using w assms(2-4) by blast
  then obtain k where "waits_on s (t_join_from u) t k" using w by blast
  moreover from this have "k = j" using t(7) by (simp add: waits_on_def)
  ultimately show thesis using that t by blast
qed

lemma waits_target:
  assumes "waits_on s i t j"
  obtains p u where "slot s j = Some p" "thread s j = Some u" "tcbs s p = Some u" "alive u" "t_join u = 1"
    "t_join_from u = i" "t_ucontext t = Some (In_join p)" "t_block t = 1" "t_join_to t = j"
  using assms by (auto simp: waits_on_def thread_def)

text \<open>
  The three parts of \<open>wf_rest\<close> after a change: a thread either has the fields it had, or satisfies
  its part anew.
\<close>

lemma runnable_frame:
  assumes "runnable s k" "\<And>r x. tcbs s r = Some x \<Longrightarrow> \<not> alive x \<Longrightarrow> \<exists>x'. tcbs s' r = Some x' \<and> \<not> alive x'"
  shows "runnable s' k"
  using assms unfolding runnable_def by blast

lemma rest_ready_frame:
  assumes "rest_ready s" "\<And>k. runnable s k \<Longrightarrow> runnable s' k"
    and "\<And>i v. i \<in> set (ready s') \<Longrightarrow> thread s' i = Some v \<Longrightarrow>
      (\<exists>u. i \<in> set (ready s) \<and> thread s i = Some u \<and> t_status v = t_status u \<and> t_ucontext v = t_ucontext u) \<or>
      alive v \<and> (\<exists>k. t_ucontext v = Some k \<and> runnable s' k)"
  shows "rest_ready s'"
  unfolding rest_ready_def
proof (intro ballI allI impI)
  fix i v assume "i \<in> set (ready s')" "thread s' i = Some v"
  from assms(3) [OF this] assms(1,2) show "alive v \<and> (\<exists>c. t_ucontext v = Some c \<and> runnable s' c)"
    unfolding rest_ready_def by metis
qed

definition kept_live :: "int set \<Rightarrow> wut_state \<Rightarrow> int set \<Rightarrow> wut_state \<Rightarrow> int \<Rightarrow> tcb \<Rightarrow> tcb \<Rightarrow> bool" where
  "kept_live C s D s' i u v \<longleftrightarrow> thread s i = Some u \<and> alive u \<and> t_ucontext v = t_ucontext u \<and>
     t_block v = t_block u \<and> t_join_to v = t_join_to u \<and>
     (i \<in> C \<or> i \<in> set (ready s) \<longrightarrow> i \<in> D \<or> i \<in> set (ready s')) \<and>
     (\<forall>j. waits_on s i u j \<longrightarrow> i \<in> D \<or> waits_on s' i u j)"

lemma rest_live_frame:
  assumes "rest_live C s"
    and "\<And>i v. thread s' i = Some v \<Longrightarrow> alive v \<Longrightarrow> (\<exists>u. kept_live C s D s' i u v) \<or>
      t_ucontext v \<noteq> None \<and> (i \<in> D \<or> i \<in> set (ready s') \<or> (\<exists>j. waits_on s' i v j))"
  shows "rest_live D s'"
  unfolding rest_live_def
proof (intro allI impI)
  fix i v assume "thread s' i = Some v" "alive v"
  from assms(2) [OF this] show "t_ucontext v \<noteq> None \<and> (i \<in> D \<or> i \<in> set (ready s') \<or> (\<exists>j. waits_on s' i v j))"
  proof (elim disjE exE conjE)
    fix u assume "kept_live C s D s' i u v"
    then have u: "thread s i = Some u" "alive u" "t_ucontext v = t_ucontext u" "t_block v = t_block u"
      "t_join_to v = t_join_to u" "i \<in> C \<or> i \<in> set (ready s) \<longrightarrow> i \<in> D \<or> i \<in> set (ready s')"
      "\<forall>j. waits_on s i u j \<longrightarrow> i \<in> D \<or> waits_on s' i u j" unfolding kept_live_def by blast+
    have "t_ucontext u \<noteq> None" "i \<in> C \<or> i \<in> set (ready s) \<or> (\<exists>j. waits_on s i u j)"
      using assms(1) u(1,2) unfolding rest_live_def by blast+
    moreover have "waits_on s' i v j = waits_on s' i u j" for j using u(3-5) by (simp add: waits_on_def)
    ultimately show ?thesis using u(3,6,7) by (elim disjE exE) auto
  qed auto
qed

definition kept_joins :: "int set \<Rightarrow> wut_state \<Rightarrow> int set \<Rightarrow> wut_state \<Rightarrow> int \<Rightarrow> tcb \<Rightarrow> tcb \<Rightarrow> bool" where
  "kept_joins C s D s' j u v \<longleftrightarrow> thread s j = Some u \<and> alive u \<and> t_join_from v = t_join_from u \<and>
     (t_join u = 1 \<longrightarrow> t_join v = 1) \<and> (t_join u = 1 \<or> t_join_from u \<noteq> -1) \<and>
     (\<forall>k x. t_join_from u = k \<longrightarrow> k \<notin> C \<longrightarrow> k \<notin> set (ready s) \<longrightarrow> thread s k = Some x \<longrightarrow> alive x \<longrightarrow>
        t_join_to x = j \<longrightarrow> k \<notin> D \<and> k \<notin> set (ready s') \<and>
        (\<exists>x'. thread s' k = Some x' \<and> alive x' \<and> t_join_to x' = j))"

lemma rest_joins_frame:
  assumes wf: "wf_rest C s"
    and same: "\<And>j v. thread s' j = Some v \<Longrightarrow> alive v \<Longrightarrow> t_join v = 1 \<or> t_join_from v \<noteq> -1 \<Longrightarrow>
      (\<exists>u. kept_joins C s D s' j u v) \<or>
      t_join v = 1 \<and> t_join_from v \<notin> D \<and> t_join_from v \<notin> set (ready s') \<and> t_join_from v \<noteq> j \<and>
        (\<exists>x. thread s' (t_join_from v) = Some x \<and> alive x \<and> t_join_to x = j)"
  shows "rest_joins D s'"
  unfolding rest_joins_def
proof (intro allI impI)
  fix j v assume v: "thread s' j = Some v" "alive v" "t_join v = 1 \<or> t_join_from v \<noteq> -1"
  from same [OF v]
  show "t_join v = 1 \<and> t_join_from v \<notin> D \<and> t_join_from v \<notin> set (ready s') \<and> t_join_from v \<noteq> j \<and>
      (\<exists>x. thread s' (t_join_from v) = Some x \<and> alive x \<and> t_join_to x = j)"
  proof (elim disjE exE)
    fix u assume "kept_joins C s D s' j u v"
    note u = this [unfolded kept_joins_def]
    obtain x where "t_join u = 1" "t_join_from u \<notin> C" "t_join_from u \<notin> set (ready s)" "t_join_from u \<noteq> j"
      "thread s (t_join_from u) = Some x" "alive x" "t_join_to x = j"
      by (rule joiner_waits [OF wf, of j u]) (use u in blast)+
    with u show ?thesis by metis
  qed
qed

lemma status_range_frame:
  assumes "status_range s" "\<And>p v. tcbs s' p = Some v \<Longrightarrow>
    (\<exists>u. tcbs s p = Some u \<and> t_status v = t_status u) \<or> alive v \<or> 0 \<le> t_status v \<and> t_status v < 256"
  shows "status_range s'"
  using assms unfolding status_range_def by metis

section \<open>wut_yield\<close>

text \<open>The running thread leaves: it is parked at the end of the queue.\<close>

lemma park_rest:
  assumes wf: "wf_rest {c} s" and c: "slot s c = Some p" "tcbs s p = Some t" "alive t"
    and s': "slot s' = slot s" "tcbs s' = (tcbs s)(p \<mapsto> t')" "thread s' = (thread s)(c := Some t')"
      "ready s' = ready s @ [c]"
    and t': "t' = t\<lparr>t_thread_in_q := x, t_ucontext := Some In_yield\<rparr>"
  shows "wf_rest {} s'"
proof -
  note w = wf [unfolded wf_rest_def]
  have tc: "tcbs s' q = Some u \<Longrightarrow> \<exists>v. tcbs s q = Some v \<and> t_status u = t_status v" for q u
    using c(2) t' by (auto simp: s'(2) split: if_splits)
  have run: "runnable s k \<Longrightarrow> runnable s' k" for k
    using c(2,3) unfolding runnable_def s'(2) by fastforce
  have wait: "waits_on s i u j \<Longrightarrow> waits_on s' i u j" for i u j
    using c(2) t' unfolding waits_on_def s'(1,2) by (cases "slot s j = Some p") auto
  have yield: "runnable s' In_yield" by (simp add: runnable_def)
  have "rest_ready s'"
    by (rule rest_ready_frame [OF _ run]) (use w c yield in \<open>auto simp: s'(3,4) t' split: if_splits\<close>)
  moreover have "rest_live {} s'"
    by (rule rest_live_frame [of "{c}" s]) (use w wait in \<open>auto simp: s'(3,4) t' kept_live_def split: if_splits\<close>)
  moreover have "rest_joins {} s'"
    by (rule rest_joins_frame [OF wf]) (use c in \<open>auto simp: s'(3,4) t' thread_def kept_joins_def split: if_splits\<close>)
  moreover have "status_range s'"
    by (rule status_range_frame [of s]) (use w tc in blast)+
  ultimately show ?thesis by (simp add: wf_rest_def)
qed

definition yielded :: "wut_state \<Rightarrow> wut_state" where
  "yielded s = (let c = CURRENT_RUNNING_THREAD_ID s; p = the (slot s c); e = enqueue p c s in
     put p ((the (tcbs e p))\<lparr>t_ucontext := Some In_yield\<rparr>) e)"

text \<open>The call up to the switch, in any state with well-formed slots and queue.\<close>

lemma yield_exec:
  assumes out: "outside s (CURRENT_RUNNING_THREAD_ID s) p t" and c: "t_ucontext t \<noteq> None"
    and r: "ready s = i # is"
  defines "c \<equiv> CURRENT_RUNNING_THREAD_ID s"
    and "t2 \<equiv> t\<lparr>t_thread_in_q := Some (next_node s), t_ucontext := Some In_yield\<rparr>"
  shows "wut_yield s = setcontext (slot (yielded s) i) (run_next i (yielded s))"
    "wf_slots (yielded s)" "wf_nodes (yielded s)" "thread (yielded s) = (thread s)(c := Some t2)"
    "slot (yielded s) = slot s" "tcbs (yielded s) = (tcbs s)(p \<mapsto> t2)"
    "ready (yielded s) = i # (is @ [c])"
proof -
  have o: "wf_slots s" "wf_nodes s" "slot s c = Some p" "tcbs s p = Some t" "t_id t = c"
    using out slot_thread [of s c p] by (auto simp: outside_def c_def)
  note E = enqueue_view [OF out, folded c_def] and rq = requeue_enqueue [OF out, folded c_def]
  let ?e = "enqueue p c s" let ?t1 = "t\<lparr>t_thread_in_q := Some (next_node s)\<rparr>"
  have y: "yielded s = put p t2 ?e" using o E(5) by (simp add: yielded_def t2_def Let_def flip: c_def)
  have te: "tcbs ?e p = Some ?t1" using E(5) by simp
  show "wf_slots (yielded s)" "wf_nodes (yielded s)"
    unfolding y using wf_put [OF E(1) te, of t2] wf_nodes_put [OF E(2) te, of t2] by (simp_all add: t2_def)
  show sl: "slot (yielded s) = slot s" by (simp add: y enqueue_def slot_def Let_def fun_eq_iff)
  show "thread (yielded s) = (thread s)(c := Some t2)"
    unfolding y using thread_put_slot [OF E(1), of c p] o E(3) sl y by simp
  show "tcbs (yielded s) = (tcbs s)(p \<mapsto> t2)" using E(5) by (simp add: y)
  show rd: "ready (yielded s) = i # (is @ [c])" using E(4) r by (simp add: y)
  have "ready ?e = i # (is @ [c])" using E(4) r by simp
  then obtain n where first: "TAILQ_FIRST ?e = Some n" "TAILQ_REMOVE (Some n) ?e = Inr (pop ?e)"
    "node_id n (pop ?e) = Inr i" by (rule pop_first [OF E(2)])
  obtain q where q: "slot ?e i = Some q"
    using ready_thread [OF o(2), of i] thread_slot [of s i] r by auto
  have "wut_yield s = swapcontext (Some p) In_yield (Some q) (run_next i ?e)"
    using r o rq first q by (simp add: wut_yield_def TAILQ_EMPTY_ready Let_def run_next_def flip: c_def)
  also have "\<dots> = setcontext (Some q) (put p t2 (run_next i ?e))"
    using te c by (auto simp: swapcontext_def t2_def)
  also have "put p t2 (run_next i ?e) = run_next i (yielded s)" by (simp add: y put_def run_next_def pop_def)
  finally show "wut_yield s = setcontext (slot (yielded s) i) (run_next i (yielded s))" using q by (simp add: y)
qed

lemma wut_yield_ok:
  assumes "wut_ok s"
  shows "case ready s of [] \<Rightarrow> wut_yield s = Inr (Returned (-1), s)
    | i # is \<Rightarrow> \<exists>ev s'. wut_yield s = Inr (ev, s') \<and> resumed (yielded s) i ev s' \<and> wut_ok s'"
proof (cases "ready s")
  case Nil
  then show ?thesis by (simp add: wut_yield_def TAILQ_EMPTY_ready)
next
  case (Cons i "is")
  let ?c = "CURRENT_RUNNING_THREAD_ID s"
  obtain p t where o: "wf_slots s" "wf_nodes s" "wf_rest {?c} s" "?c \<notin> set (ready s)" "slot s ?c = Some p"
    "tcbs s p = Some t" "thread s ?c = Some t" "alive t" "t_id t = ?c" "t_ucontext t \<noteq> None"
    by (rule wut_okD [OF assms])
  have out: "outside s ?c p t" using o by (simp add: outside_def)
  note Y = yield_exec [OF out o(10) Cons]
  have "wf_rest {} (yielded s)"
    by (rule park_rest [OF o(3,5,6,8) _ _ Y(4)]) (simp_all add: Y Cons)
  then obtain ev s' where d: "setcontext (slot (yielded s) i) (run_next i (yielded s)) = Inr (ev, s')"
    "resumed (yielded s) i ev s'" "wut_ok s'" using resume_ok [OF Y(2,3) _ Y(7)] by blast
  then show ?thesis using Cons Y(1) by simp
qed

section \<open>wut_join\<close>

definition joined :: "int \<Rightarrow> wut_state \<Rightarrow> wut_state" where
  "joined j s = (let c = CURRENT_RUNNING_THREAD_ID s; p = the (slot s c); q = the (slot s j) in
     put p ((the (tcbs s p))\<lparr>t_block := 1, t_join_to := j, t_ucontext := Some (In_join q)\<rparr>)
       (put q ((the (tcbs s q))\<lparr>t_join := 1, t_enable := 0, t_join_from := c\<rparr>) s))"

text \<open>
  The running thread \<open>c\<close>, its control block \<open>t\<close> at \<open>p\<close>, joins the unfinished thread \<open>j\<close>, its block \<open>u\<close> at \<open>q\<close>.
\<close>

definition joining ::
  "int \<Rightarrow> nat \<Rightarrow> tcb \<Rightarrow> int \<Rightarrow> nat \<Rightarrow> tcb \<Rightarrow> tcb \<Rightarrow> tcb \<Rightarrow> wut_state \<Rightarrow> wut_state \<Rightarrow> bool" where
  "joining c p t j q u t' u' s s' \<longleftrightarrow> wf_slots s \<and> slot s c = Some p \<and> tcbs s p = Some t \<and> alive t \<and>
     c \<notin> set (ready s) \<and> slot s j = Some q \<and> tcbs s q = Some u \<and> alive u \<and> t_join u \<noteq> 1 \<and> j \<noteq> c \<and>
     t' = t\<lparr>t_block := 1, t_join_to := j, t_ucontext := Some (In_join q)\<rparr> \<and>
     u' = u\<lparr>t_join := 1, t_enable := 0, t_join_from := c\<rparr> \<and> s' = put p t' (put q u' s)"

lemma joining_view:
  assumes "joining c p t j q u t' u' s s'"
  shows "p \<noteq> q" "tcbs s' = (tcbs s)(q \<mapsto> u', p \<mapsto> t')" "slot s' = slot s" "ready s' = ready s"
    "thread s' i = (if i = c then Some t' else if i = j then Some u' else thread s i)"
    "thread s c = Some t" "thread s j = Some u"
proof -
  note J = assms [unfolded joining_def]
  show "p \<noteq> q" using slot_inj [of s c p j] J by blast
  show "tcbs s' = (tcbs s)(q \<mapsto> u', p \<mapsto> t')" "slot s' = slot s" "ready s' = ready s" using J by simp_all
  show "thread s' i = (if i = c then Some t' else if i = j then Some u' else thread s i)"
    using J slot_eq_iff [of s c p i] slot_eq_iff [of s j q i] by (simp add: thread_put)
  show "thread s c = Some t" "thread s j = Some u" using J by (simp_all add: thread_def)
qed

lemma joining_fields:
  assumes "joining c p t j q u t' u' s s'"
  shows "t_status u' = t_status u" "t_ucontext u' = t_ucontext u" "t_block u' = t_block u"
    "t_join_to u' = t_join_to u" "t_join u' = 1" "t_join_from u' = c"
    "t_status t' = t_status t" "t_join t' = t_join t" "t_join_from t' = t_join_from t" "t_block t' = 1"
    "t_join_to t' = j" "t_ucontext t' = Some (In_join q)"
  using assms by (simp_all add: joining_def)

lemma joining_waits:
  assumes jn: "joining c p t j q u t' u' s s'"
  shows "waits_on s i v k \<Longrightarrow> waits_on s' i v k" "waits_on s' c t' j"
proof -
  note J = jn [unfolded joining_def] and V = joining_view [OF jn] and f = joining_fields [OF jn]
  show "waits_on s' c t' j" using J V f unfolding waits_on_def by simp
  assume "waits_on s i v k"
  then obtain r x where "slot s k = Some r" "thread s k = Some x" "tcbs s r = Some x" "alive x" "t_join x = 1"
    "t_join_from x = i" "t_ucontext v = Some (In_join r)" "t_block v = 1" "t_join_to v = k"
    by (rule waits_target)
  moreover from this have "r \<noteq> q" using J by auto
  ultimately show "waits_on s' i v k"
    using J V(1,2,3) f unfolding waits_on_def by (cases "r = p") auto
qed

lemma joining_live:
  assumes jn: "joining c p t j q u t' u' s s'" and live: "rest_live {c} s"
  shows "rest_live {} s'"
proof (rule rest_live_frame [OF live])
  note V = joining_view [OF jn] and f = joining_fields [OF jn] and wait = joining_waits [OF jn]
  fix i v assume i: "thread s' i = Some v" "alive v"
  show "(\<exists>u. kept_live {c} s {} s' i u v) \<or>
      t_ucontext v \<noteq> None \<and> (i \<in> {} \<or> i \<in> set (ready s') \<or> (\<exists>k. waits_on s' i v k))"
  proof (cases "i = c")
    case True
    then show ?thesis using wait(2) i(1) V(5) f by auto
  next
    case False
    then obtain v' where "thread s i = Some v'" "alive v'" "t_ucontext v = t_ucontext v'"
      "t_block v = t_block v'" "t_join_to v = t_join_to v'" using i V f by (auto split: if_splits)
    then have "kept_live {c} s {} s' i v' v" unfolding kept_live_def using wait(1) False V(4) by simp
    then show ?thesis by blast
  qed
qed

lemma joining_joins:
  assumes jn: "joining c p t j q u t' u' s s'" and wf: "wf_rest {c} s"
  shows "rest_joins {} s'"
proof (rule rest_joins_frame [OF wf])
  note J = jn [unfolded joining_def] and V = joining_view [OF jn] and f = joining_fields [OF jn]
  fix i v assume i: "thread s' i = Some v" "alive v" "t_join v = 1 \<or> t_join_from v \<noteq> -1"
  show "(\<exists>u. kept_joins {c} s {} s' i u v) \<or> t_join v = 1 \<and> t_join_from v \<notin> {} \<and>
      t_join_from v \<notin> set (ready s') \<and> t_join_from v \<noteq> i \<and>
      (\<exists>x. thread s' (t_join_from v) = Some x \<and> alive x \<and> t_join_to x = i)"
  proof (cases "i = j")
    case True
    moreover have "v = u'" using True i(1) J V(5) by simp
    ultimately show ?thesis using f J V(4) V(5) [of c] by simp
  next
    case False
    then obtain v' where "thread s i = Some v'" "alive v'" "t_join v = t_join v'" "t_join_from v = t_join_from v'"
      using i V f by (auto split: if_splits)
    then have "kept_joins {c} s {} s' i v' v" using i(3) V f unfolding kept_joins_def by auto
    then show ?thesis by blast
  qed
qed

lemma join_rest:
  assumes jn: "joining c p t j q u t' u' s s'" and wf: "wf_rest {c} s"
  shows "wf_rest {} s'"
proof -
  note w = wf [unfolded wf_rest_def] and J = jn [unfolded joining_def]
    and V = joining_view [OF jn] and f = joining_fields [OF jn]
  have run: "runnable s' k" if "runnable s k" for k
    by (rule runnable_frame [OF that]) (use J V in auto)
  have "rest_ready s'"
    by (rule rest_ready_frame [OF _ run]) (use w J V f in \<open>auto split: if_splits\<close>)
  moreover have "status_range s'"
    by (rule status_range_frame [of s]) (use w J V f in \<open>auto split: if_splits\<close>)
  ultimately show ?thesis using joining_live [OF jn] joining_joins [OF jn wf] w by (simp add: wf_rest_def)
qed

lemma wut_join_refused:
  assumes "wut_ok s"
  shows "j < 0 \<or> j = CURRENT_RUNNING_THREAD_ID s \<or> THREAD_NUM s \<le> j \<Longrightarrow> wut_join j s = Inr (Returned (-1), s)"
    and "0 \<le> j \<Longrightarrow> j < THREAD_NUM s \<Longrightarrow> thread s j = None \<Longrightarrow> j \<noteq> CURRENT_RUNNING_THREAD_ID s \<Longrightarrow>
      wut_join j s = Inl Null_deref"
    and "thread s j = Some u \<Longrightarrow> \<not> alive u \<or> t_join u = 1 \<Longrightarrow> j \<noteq> CURRENT_RUNNING_THREAD_ID s \<Longrightarrow>
      wut_join j s = Inr (Returned (t_status u), s)"
proof -
  have wf: "wf_slots s" using assms by (simp add: wut_ok_def)
  show "wut_join j s = Inr (Returned (-1), s)"
    if "j < 0 \<or> j = CURRENT_RUNNING_THREAD_ID s \<or> THREAD_NUM s \<le> j" using that by (auto simp: wut_join_def)
  show "wut_join j s = Inl Null_deref" if j: "0 \<le> j" "j < THREAD_NUM s" "thread s j = None"
    "j \<noteq> CURRENT_RUNNING_THREAD_ID s"
  proof -
    have "slot s j = None" using slot_thread [OF wf, of j] j(3) by (cases "slot s j") auto
    moreover have "array_at j s = Inr (slot s j)"
      by (rule array_at_range [OF wf]) (use j wf in \<open>auto simp: wf_slots_def\<close>)
    ultimately show ?thesis using j by (simp add: wut_join_def deref_def)
  qed
  assume u: "thread s j = Some u" "\<not> alive u \<or> t_join u = 1" "j \<noteq> CURRENT_RUNNING_THREAD_ID s"
  obtain p where "slot s j = Some p" "tcbs s p = Some u" using thread_slot [OF u(1)] by blast
  then show "wut_join j s = Inr (Returned (t_status u), s)"
    using u thread_range [OF wf u(1)] by (auto simp: wut_join_def)
qed

lemma wut_join_ok:
  assumes "wut_ok s" and j: "thread s j = Some u" "alive u" "t_join u \<noteq> 1" "j \<noteq> CURRENT_RUNNING_THREAD_ID s"
  shows "case ready s of [] \<Rightarrow> wut_join j s = Inl Null_deref
    | i # is \<Rightarrow> \<exists>ev s'. wut_join j s = Inr (ev, s') \<and> resumed (joined j s) i ev s' \<and> wut_ok s'"
proof -
  let ?c = "CURRENT_RUNNING_THREAD_ID s"
  obtain p t where o: "wf_slots s" "wf_nodes s" "wf_rest {?c} s" "?c \<notin> set (ready s)" "slot s ?c = Some p"
    "tcbs s p = Some t" "thread s ?c = Some t" "alive t" "t_id t = ?c" "t_ucontext t \<noteq> None"
    by (rule wut_okD [OF assms(1)])
  obtain q where q: "slot s j = Some q" "tcbs s q = Some u" using thread_slot [OF j(1)] by blast
  have pq: "p \<noteq> q" using slot_inj [OF o(1,5)] q j(4) by blast
  let ?t1 = "t\<lparr>t_block := 1, t_join_to := j\<rparr>" let ?t2 = "?t1\<lparr>t_ucontext := Some (In_join q)\<rparr>"
  let ?u1 = "u\<lparr>t_join := 1, t_enable := 0, t_join_from := ?c\<rparr>"
  let ?s1 = "put q ?u1 (put p ?t1 s)" let ?s2 = "put p ?t2 (put q ?u1 s)"
  have J: "joined j s = ?s2" using o q pq by (simp add: joined_def Let_def)
  have run: "wut_join j s = (let f = TAILQ_FIRST ?s1 in
      and_then (TAILQ_REMOVE f ?s1) (\<lambda>s.
      and_then (node_id (the f) s) (\<lambda>i.
      and_then (array_at i s) (\<lambda>next_thread.
      and_then (deref next_thread s) (\<lambda>nt.
      swapcontext (Some p) (In_join q) next_thread (s\<lparr>CURRENT_RUNNING_THREAD_ID := t_id nt\<rparr>))))))"
    using q o pq j(2-4) thread_range [OF o(1) j(1)] by (simp add: wut_join_def)
  have wf1: "wf_slots ?s1" "wf_nodes ?s1" 
    using wf_put [OF wf_put [OF o(1,6)], of ?t1 q u ?u1] wf_nodes_put [OF wf_nodes_put [OF o(2,6)], of ?t1 q u ?u1]
      q pq by simp_all
  have wf2: "wf_slots ?s2" "wf_nodes ?s2"
    using wf_put [OF wf_put [OF o(1) q(2)], of ?u1 p t ?t2] wf_nodes_put [OF wf_nodes_put [OF o(2) q(2)], of ?u1 p t ?t2]
      o(6) pq by simp_all
  have rest: "wf_rest {} ?s2"
    by (rule join_rest [OF _ o(3), of p t j q u]) (use o q j pq in \<open>simp add: joining_def\<close>)
  show ?thesis
  proof (cases "ready s")
    case Nil
    then show ?thesis by (simp add: run TAILQ_FIRST_def TAILQ_REMOVE_def ready_def)
  next
    case (Cons i "is")
    then have r1: "ready ?s1 = i # is" and r2: "ready ?s2 = i # is" by simp_all
    obtain n where n: "TAILQ_FIRST ?s1 = Some n" "TAILQ_REMOVE (Some n) ?s1 = Inr (pop ?s1)"
      "node_id n (pop ?s1) = Inr i" by (rule pop_first [OF wf1(2) r1])
    obtain x where x: "thread ?s1 i = Some x" using ready_thread [OF wf1(2), of i] r1 by auto
    obtain r where r: "slot ?s1 i = Some r" "tcbs ?s1 r = Some x" using thread_slot [OF x] by blast
    have id: "t_id x = i" by (rule thread_id [OF wf1(1) x])
    obtain ev s' where d: "setcontext (slot ?s2 i) (run_next i ?s2) = Inr (ev, s')"
      "resumed ?s2 i ev s'" "wut_ok s'" using resume_ok [OF wf2 rest r2] by blast
    have at: "array_at i (pop ?s1) = Inr (Some r)" using r(1) by (intro array_at_slot) simp
    have de: "deref (Some r) (pop ?s1) = Inr x" using r(2) by (intro deref_Some) simp
    have "wut_join j s = swapcontext (Some p) (In_join q) (Some r) (run_next i ?s1)"
      unfolding run Let_def n(1) n(2) and_then_Inr option.sel n(3) at de id run_next_def ..
    also have "\<dots> = setcontext (Some r) (put p ?t2 (run_next i ?s1))"
      using o(10) pq by (auto simp: swapcontext_def)
    also have "put p ?t2 (run_next i ?s1) = run_next i ?s2"
      using pq by (simp add: put_def run_next_def pop_def fun_upd_twist)
    finally show ?thesis using d r(1) Cons by (simp add: J)
  qed
qed

section \<open>A thread ends, a joiner wakes\<close>

text \<open>
  \<open>changed s i p t t' s'\<close>: the control block of thread \<open>i\<close>, at \<open>p\<close>, went from \<open>t\<close> to \<open>t'\<close>.
\<close>

definition changed :: "wut_state \<Rightarrow> int \<Rightarrow> nat \<Rightarrow> tcb \<Rightarrow> tcb \<Rightarrow> wut_state \<Rightarrow> bool" where
  "changed s i p t t' s' \<longleftrightarrow> wf_slots s \<and> slot s i = Some p \<and> tcbs s p = Some t \<and>
     slot s' = slot s \<and> tcbs s' = (tcbs s)(p \<mapsto> t')"

lemma changed_thread:
  assumes "changed s i p t t' s'"
  shows "thread s' = (thread s)(i := Some t')" "thread s i = Some t"
proof -
  note c = assms [unfolded changed_def]
  have "thread s' = thread (put p t' s)" by (rule thread_cong) (use c in simp_all)
  then show "thread s' = (thread s)(i := Some t')" using thread_put_slot [of s i p t'] c by simp
  show "thread s i = Some t" using c by (simp add: thread_def)
qed

lemma changed_runnable:
  assumes "changed s i p t t' s'" "alive t \<or> \<not> alive t'" "runnable s k"
  shows "runnable s' k"
  unfolding runnable_def
proof (intro conjI allI impI)
  show "k \<noteq> Fresh_main" using assms(3) by (simp add: runnable_def)
  fix r assume "k = In_join r"
  then obtain x where "tcbs s r = Some x" "\<not> alive x" using assms(3) by (auto simp: runnable_def)
  then show "\<exists>x. tcbs s' r = Some x \<and> \<not> alive x"
    using assms(1,2) unfolding changed_def by (cases "r = p") auto
qed

lemma changed_waits:
  assumes "changed s i p t t' s'" "waits_on s x v k"
    and "k = i \<Longrightarrow> t_status t' = t_status t \<and> t_join t' = t_join t \<and> t_join_from t' = t_join_from t"
  shows "waits_on s' x v k"
proof -
  obtain r y where r: "slot s k = Some r" "thread s k = Some y" "tcbs s r = Some y" "alive y" "t_join y = 1"
    "t_join_from y = x" "t_ucontext v = Some (In_join r)" "t_block v = 1" "t_join_to v = k"
    by (rule waits_target [OF assms(2)])
  note c = assms(1) [unfolded changed_def]
  show ?thesis
  proof (cases "k = i")
    case True
    with r c assms(3) show ?thesis by (auto simp: waits_on_def)
  next
    case False
    then have "r \<noteq> p" using r(1) c slot_inj by blast
    with r c show ?thesis by (simp add: waits_on_def)
  qed
qed

text \<open>The thread that joins \<open>i\<close>, if any.\<close>

definition joiner :: "tcb \<Rightarrow> int set" where
  "joiner t = (if t_join t = 1 then {t_join_from t} else {})"

lemma joiner_unique:
  assumes "wf_rest C s" "thread s i = Some t" "alive t" "thread s y = Some u" "alive u"
    "t_join u = 1 \<or> t_join_from u \<noteq> -1" "y \<noteq> i"
  shows "t_join_from u \<notin> joiner t"
proof (cases "t_join t = 1")
  case True
  obtain w where w: "thread s (t_join_from t) = Some w" "t_join_to w = i"
    by (rule joiner_waits [OF assms(1-3)]) (use True in auto)
  obtain w' where w': "thread s (t_join_from u) = Some w'" "t_join_to w' = y"
    by (rule joiner_waits [OF assms(1,4,5,6)]) auto
  show ?thesis using w w' assms(7) by (auto simp: joiner_def)
qed (simp add: joiner_def)

lemma kill_rest:
  assumes wf: "wf_rest C s" and ch: "changed s i p t t' s'"
    and al: "alive t" "\<not> alive t'" "0 \<le> t_status t'" "t_status t' < 256"
    and i: "i \<in> C \<or> i \<in> set (ready s)" and rd: "set (ready s') = set (ready s) - {i}"
  shows "wf_rest (C - {i} \<union> joiner t) s'"
proof -
  note w = wf [unfolded wf_rest_def] and th = changed_thread [OF ch]
  have run: "runnable s k \<Longrightarrow> runnable s' k" for k by (rule changed_runnable [OF ch]) (use al in auto)
  have "rest_ready s'"
    by (rule rest_ready_frame [OF _ run]) (use w in \<open>auto simp: rd th(1)\<close>)
  moreover have "rest_live (C - {i} \<union> joiner t) s'"
  proof (rule rest_live_frame [of C s])
    have "x \<in> joiner t \<or> waits_on s' x v k" if "waits_on s x v k" for x v k
      using that changed_waits [OF ch that] th(2) by (cases "k = i") (auto simp: joiner_def elim!: waits_target)
    then show "(\<exists>u. kept_live C s (C - {i} \<union> joiner t) s' x u v) \<or>
      t_ucontext v \<noteq> None \<and> (x \<in> C - {i} \<union> joiner t \<or> x \<in> set (ready s') \<or> (\<exists>j. waits_on s' x v j))"
      if "thread s' x = Some v" "alive v" for x v
      using that al(2) by (intro disjI1 exI [of _ v]) (auto simp: kept_live_def rd th(1) split: if_splits)
  qed (use w in blast)
  moreover have "rest_joins (C - {i} \<union> joiner t) s'"
  proof (rule rest_joins_frame [OF wf], intro disjI1)
    fix y v assume "thread s' y = Some v" "alive v" and j: "t_join v = 1 \<or> t_join_from v \<noteq> -1"
    then have y: "y \<noteq> i" "thread s y = Some v" "alive v" using al(2) by (auto simp: th(1) split: if_splits)
    have "t_join_from v \<notin> joiner t" by (rule joiner_unique [OF wf th(2) al(1) y(2,3) j y(1)])
    with y j i have "kept_joins C s (C - {i} \<union> joiner t) s' y v v"
      unfolding kept_joins_def by (auto simp: rd th(1))
    then show "\<exists>u. kept_joins C s (C - {i} \<union> joiner t) s' y u v" by blast
  qed
  moreover have "status_range s'"
    by (rule status_range_frame [of s]) (use w al ch in \<open>auto simp: changed_def split: if_splits\<close>)
  ultimately show ?thesis by (simp add: wf_rest_def)
qed

lemma wake_rest:
  assumes wf: "wf_rest (C \<union> {k}) s" and ch: "changed s k p w w' s'" and k: "k \<notin> C"
    and al: "alive w" "alive w'" "t_ucontext w = Some ctx" "t_ucontext w' = Some ctx" "runnable s ctx"
    and j: "t_join_from w' = t_join_from w" "t_join w' = t_join w \<or> t_join w \<noteq> 1 \<and> t_join w' \<noteq> 1"
    and rd: "set (ready s') = insert k (set (ready s))"
  shows "wf_rest C s'"
proof -
  note h = wf [unfolded wf_rest_def] and th = changed_thread [OF ch]
  have run: "runnable s x \<Longrightarrow> runnable s' x" for x by (rule changed_runnable [OF ch]) (use al in auto)
  have wait: "waits_on s' x v y" if wy: "waits_on s x v y" for x v y
  proof (rule changed_waits [OF ch wy])
    assume "y = k"
    then have "t_join w = 1" using wy th(2) by (auto elim!: waits_target)
    then show "t_status w' = t_status w \<and> t_join w' = t_join w \<and> t_join_from w' = t_join_from w"
      using al j by auto
  qed
  have "rest_ready s'"
    by (rule rest_ready_frame [OF _ run]) (use h al run in \<open>auto simp: rd th(1) split: if_splits\<close>)
  moreover have "rest_live C s'"
    by (rule rest_live_frame [of "C \<union> {k}" s]) (use h al wait in \<open>auto simp: rd th(1) kept_live_def split: if_splits\<close>)
  moreover have "rest_joins C s'"
    by (rule rest_joins_frame [OF wf]) (use al th(2) j in \<open>auto simp: rd th(1) kept_joins_def split: if_splits\<close>)
  moreover have "status_range s'"
    by (rule status_range_frame [of s]) (use h al ch in \<open>auto simp: changed_def split: if_splits\<close>)
  ultimately show ?thesis by (simp add: wf_rest_def)
qed

section \<open>wut_exit\<close>

definition finished :: "int \<Rightarrow> wut_state \<Rightarrow> wut_state" where
  "finished status s = (let c = CURRENT_RUNNING_THREAD_ID s; p = the (slot s c); t = the (tcbs s p);
       t1 = t\<lparr>t_status := status AND 0xFF\<rparr> in
     if t_join t = 1
     then enqueue (the (slot s (t_join_from t))) (t_join_from t) (put p (t1\<lparr>t_join := 0, t_join_from := -1\<rparr>) s)
     else put p t1 s)"

lemma status_byte: "0 \<le> (v AND 0xFF :: int)" "(v AND 0xFF :: int) < 256" "(v AND 0xFF :: int) \<noteq> -1"
proof -
  have "v AND 0xFF = take_bit 8 v" by (simp add: take_bit_eq_mask mask_eq_exp_minus_1)
  then have e: "v AND 0xFF = v mod 256" by (simp add: take_bit_eq_mod)
  have "0 \<le> v mod 256" by simp
  then show "0 \<le> (v AND 0xFF :: int)" "(v AND 0xFF :: int) < 256" "(v AND 0xFF :: int) \<noteq> -1"
    unfolding e by (simp, simp, linarith)
qed

lemma finished_later: "later s (finished status s)"
  by (simp add: finished_def later_def Let_def)

text \<open>What the call has done when it looks at the queue, and that the invariant is back.\<close>

lemma finished_ok:
  fixes status
  assumes "wut_ok s"
  defines "c \<equiv> CURRENT_RUNNING_THREAD_ID s" and "s1 \<equiv> finished status s"
  shows "wf_slots s1 \<and> wf_nodes s1 \<and> wf_rest {} s1 \<and> wut_exit on status s = exit_next on s1 \<and>
    (\<exists>t. thread s c = Some t \<and> ready s1 = ready s @ (if t_join t = 1 then [t_join_from t] else []))"
proof -
  obtain p t where o: "wf_slots s" "wf_nodes s" "wf_rest {c} s" "c \<notin> set (ready s)" "slot s c = Some p"
    "tcbs s p = Some t" "thread s c = Some t" "alive t" "t_id t = c" "t_ucontext t \<noteq> None"
    unfolding c_def by (rule wut_okD [OF assms(1)])
  let ?t1 = "t\<lparr>t_status := status AND 0xFF\<rparr>"
  have dead: "\<not> alive ?t1" "0 \<le> t_status ?t1" "t_status ?t1 < 256"
    using status_byte [of status] by simp_all
  have exit: "wut_exit on status s =
      and_then (if t_join t = 1 then exit_wake_joiner (Some p) (put p ?t1 s) else Inr (put p ?t1 s)) (exit_next on)"
    using o by (simp add: wut_exit_def flip: c_def)
  have wfp: "wf_slots (put p u s)" "wf_nodes (put p u s)"
    if "t_id u = t_id t" "t_thread_in_q u = t_thread_in_q t" for u
    using wf_put [OF o(1,6) that(1)] wf_nodes_put [OF o(2,6) that(2)] .
  have ch: "changed s c p t u (put p u s)" for u using o by (simp add: changed_def)
  show ?thesis
  proof (cases "t_join t = 1")
    case False
    then have s1: "s1 = put p ?t1 s" using o by (simp add: s1_def finished_def Let_def flip: c_def)
    have "wf_rest ({c} - {c} \<union> joiner t) (put p ?t1 s)"
      by (rule kill_rest [OF o(3) ch o(8) dead]) (use o(4) in simp_all)
    then have "wf_rest {} s1" using False by (simp add: s1 joiner_def)
    with wfp [of ?t1] False o(7) exit show ?thesis by (simp add: s1)
  next
    case True
    let ?k = "t_join_from t" let ?t2 = "?t1\<lparr>t_join := 0, t_join_from := -1\<rparr>"
    obtain w where w: "?k \<notin> {c}" "?k \<notin> set (ready s)" "thread s ?k = Some w" "alive w" "waits_on s ?k w c"
      by (rule joiner_waits [OF o(3,7,8)]) (use True in auto)
    have ctx: "t_ucontext w = Some (In_join p)" using w(5) o(5) by (auto elim!: waits_target)
    obtain kp where kp: "slot s ?k = Some kp" "tcbs s kp = Some w" using thread_slot [OF w(3)] by blast
    have ne: "kp \<noteq> p" using slot_inj [OF o(1) kp(1), of c] o(5) w(1) by auto
    let ?s2 = "put p ?t2 s"
    have s1: "s1 = enqueue kp ?k ?s2" using True o kp by (simp add: s1_def finished_def Let_def flip: c_def)
    have wf2: "wf_slots ?s2" "wf_nodes ?s2" using wfp by simp_all
    have out: "outside ?s2 ?k kp w" using wf2 kp ne w(2) by (simp add: outside_def)
    note E = enqueue_view [OF out]
    have "wf_rest ({c} - {c} \<union> joiner t) ?s2"
      by (rule kill_rest [OF o(3) ch o(8)]) (use dead o(4) in simp_all)
    then have r2: "wf_rest ({} \<union> {?k}) ?s2" using True by (simp add: joiner_def)
    have "changed ?s2 ?k kp w (w\<lparr>t_thread_in_q := Some (next_node ?s2)\<rparr>) s1"
      unfolding changed_def s1 using wf2 kp ne E(5) by simp
    then have rest: "wf_rest {} s1"
      by (rule wake_rest [OF r2 _ _ w(4) _ ctx])
        (use w(4) ctx E(4) dead(1) in \<open>simp_all add: runnable_def s1\<close>)
    have id: "t_id w = ?k" by (rule thread_id [OF o(1) w(3)])
    have "exit_wake_joiner (Some p) (put p ?t1 s) = requeue ?k (Some kp) ?s2"
      using o kp ne id by (simp add: exit_wake_joiner_def)
    also have "\<dots> = Inr s1" unfolding s1 by (rule requeue_enqueue [OF out])
    finally have "exit_wake_joiner (Some p) (put p ?t1 s) = Inr s1" .
    with rest E(1,2,4) True o(7) exit show ?thesis by (simp add: s1 [symmetric])
  qed
qed

text \<open>The last thread to exit frees everything: \<open>clear_global\<close> finds no freed or foreign pointer.\<close>

definition clearable :: "wut_state \<Rightarrow> bool" where
  "clearable s \<longleftrightarrow> (\<forall>i p. slot s i = Some p \<longrightarrow> (\<exists>t. tcbs s p = Some t \<and> t_id t = i \<and>
     (\<forall>n. t_thread_in_q t = Some n \<longrightarrow> nodes s n = Some i)))"

text \<open>A slot whose thread owns the stack in use.\<close>

definition owns :: "nat option \<Rightarrow> wut_state \<Rightarrow> int \<Rightarrow> bool" where
  "owns on s i \<longleftrightarrow> on \<noteq> None \<and> (\<exists>t. thread s i = Some t \<and> t_stack t = on)"

lemma drop_node_ok:
  assumes "tcbs s p = Some t" "\<And>n. t_thread_in_q t = Some n \<Longrightarrow> nodes s n \<noteq> None"
  obtains s1 u where "drop_node (Some p) s = Inr s1" "TCB_ARRAY s1 = TCB_ARRAY s" "tcbs s1 p = Some u"
    "t_stack u = t_stack t" "\<And>q. q \<noteq> p \<Longrightarrow> tcbs s1 q = tcbs s q"
    "\<And>n. t_thread_in_q t \<noteq> Some n \<Longrightarrow> nodes s1 n = nodes s n" "later s s1"
proof (cases "t_thread_in_q t")
  case None
  then show ?thesis using that [of s t] assms(1) by (simp add: drop_node_def)
next
  case (Some n)
  then show ?thesis using that [of "put p (t\<lparr>t_thread_in_q := None\<rparr>) (s\<lparr>nodes := (nodes s)(n := None)\<rparr>)"] assms
    by (simp add: drop_node_def free_node_def later_def)
qed

lemma clear_slot_ok:
  assumes "clearable s" "i < length (TCB_ARRAY s)"
  shows "outcome (\<lambda>e. e = Stack_unmapped \<and> owns on s (int i) \<or> sys_failure s e)
    (\<lambda>s'. \<not> owns on s (int i) \<and> clearable s' \<and> length (TCB_ARRAY s') = length (TCB_ARRAY s) \<and>
      (\<forall>j. j \<noteq> int i \<longrightarrow> owns on s' j = owns on s j) \<and> later s s') (clear_slot on i s)"
proof (cases "TCB_ARRAY s ! i")
  case None
  then have "\<not> owns on s (int i)" using assms(2) by (simp add: owns_def thread_def slot_def)
  with None show ?thesis using assms by (simp add: clear_slot_def array_at_def)
next
  case (Some p)
  then have sl: "slot s (int i) = Some p" using assms(2) by (simp add: slot_def)
  then obtain t where t: "tcbs s p = Some t" "t_id t = int i"
    "\<And>n. t_thread_in_q t = Some n \<Longrightarrow> nodes s n = Some (int i)" using assms(1) unfolding clearable_def by blast
  have own: "owns on s (int i) \<longleftrightarrow> on \<noteq> None \<and> t_stack t = on" using sl t(1) by (simp add: owns_def thread_def)
  have other: "q \<noteq> p \<and> (\<forall>u n. tcbs s q = Some u \<longrightarrow> t_thread_in_q u = Some n \<longrightarrow> t_thread_in_q t \<noteq> Some n)"
    if q: "slot s j = Some q" "j \<noteq> int i" for j q
  proof -
    obtain u where u: "tcbs s q = Some u" "t_id u = j"
      "\<And>n. t_thread_in_q u = Some n \<Longrightarrow> nodes s n = Some j" using q(1) assms(1) unfolding clearable_def by blast
    then show ?thesis using t q(2) by force
  qed
  obtain s1 u where s1: "drop_node (Some p) s = Inr s1" "TCB_ARRAY s1 = TCB_ARRAY s" "tcbs s1 p = Some u"
    "t_stack u = t_stack t" "\<And>q. q \<noteq> p \<Longrightarrow> tcbs s1 q = tcbs s q"
    "\<And>n. t_thread_in_q t \<noteq> Some n \<Longrightarrow> nodes s1 n = nodes s n" "later s s1"
    by (rule drop_node_ok [OF t(1)]) (use t(3) in auto)
  let ?s2 = "case t_stack t of None \<Rightarrow> s1 | Some stack \<Rightarrow> unmapped (Some stack) s1"
  let ?s' = "?s2\<lparr>tcbs := (tcbs s1)(p := None), TCB_ARRAY := (TCB_ARRAY s)[i := None]\<rparr>"
  have run: "clear_slot on i s = (case t_stack t of None \<Rightarrow> Inr ?s'
      | Some stack \<Rightarrow> (case next_errno s1 of Some err \<Rightarrow> Inl (Process_exit err)
          | None \<Rightarrow> if owns on s (int i) then Inl Stack_unmapped else Inr ?s'))"
    using Some assms(2) s1(1-4) by (auto simp: clear_slot_def array_at_def delete_stack_eq own split: option.split)
  have same: "nodes ?s2 = nodes s1" "later s ?s2"
    using s1(7) by (auto split: option.split intro: later_trans)
  have sl': "slot ?s' j = (if j = int i then None else slot s j)" for j
    using assms(2) by (auto simp: slot_def nth_list_update)
  have "owns on ?s' j = owns on s j" if "j \<noteq> int i" for j
    using other [OF _ that] s1(5) that by (cases "slot s j") (simp_all add: owns_def thread_def sl')
  moreover have "clearable ?s'" unfolding clearable_def
  proof (intro allI impI)
    fix j q assume "slot ?s' j = Some q"
    then have q: "slot s j = Some q" "j \<noteq> int i" by (auto simp: sl' split: if_splits)
    then obtain v where v: "tcbs s q = Some v" "t_id v = j"
      "\<And>n. t_thread_in_q v = Some n \<Longrightarrow> nodes s n = Some j" using assms(1) unfolding clearable_def by blast
    have "tcbs ?s' q = Some v" using other [OF q] s1(5) v(1) by simp
    moreover have "nodes ?s' n = Some j" if "t_thread_in_q v = Some n" for n
      using other [OF q] v that s1(6) [of n] same(1) by simp
    ultimately show "\<exists>t. tcbs ?s' q = Some t \<and> t_id t = j \<and>
        (\<forall>n. t_thread_in_q t = Some n \<longrightarrow> nodes ?s' n = Some j)" using v(2) by blast
  qed
  moreover have "later s ?s'" using same(2) by (simp add: later_def)
  ultimately show ?thesis
    using run own sys_failure_later [OF s1(7) sys_failure_now] by (auto split: option.splits)
qed

lemma clear_slots_ok:
  assumes "clearable s" "\<forall>i \<in> set is. i < length (TCB_ARRAY s)" "distinct is"
  shows "outcome (\<lambda>e. e = Stack_unmapped \<and> (\<exists>i \<in> set is. owns on s (int i)) \<or> sys_failure s e)
    (\<lambda>s'. \<forall>i \<in> set is. \<not> owns on s (int i)) (for_each (clear_slot on) is s)"
  using assms
proof (induction "is" arbitrary: s)
  case (Cons i "is")
  note first = clear_slot_ok [OF Cons.prems(1), of i on]
  show ?case
  proof (cases "clear_slot on i s")
    case (Inl e)
    with first Cons.prems(2) show ?thesis by auto
  next
    case (Inr s1)
    with first Cons.prems(2) have s1: "\<not> owns on s (int i)" "clearable s1"
        "length (TCB_ARRAY s1) = length (TCB_ARRAY s)" "\<forall>j. j \<noteq> int i \<longrightarrow> owns on s1 j = owns on s j"
        "later s s1" by auto
    have same: "owns on s1 (int k) = owns on s (int k)" if "k \<in> set is" for k
      using s1(4) that Cons.prems(3) by (metis distinct.simps(2) of_nat_eq_iff)
    have "outcome (\<lambda>e. e = Stack_unmapped \<and> (\<exists>i \<in> set is. owns on s1 (int i)) \<or> sys_failure s1 e)
        (\<lambda>s'. \<forall>i \<in> set is. \<not> owns on s1 (int i)) (for_each (clear_slot on) is s1)"
      by (rule Cons.IH [OF s1(2)]) (use Cons.prems s1(3) in simp_all)
    then have "outcome (\<lambda>e. e = Stack_unmapped \<and> (\<exists>i \<in> set (i # is). owns on s (int i)) \<or> sys_failure s e)
        (\<lambda>s'. \<forall>i \<in> set (i # is). \<not> owns on s (int i)) (for_each (clear_slot on) is s1)"
      by (rule outcome_mono) (use same s1(1) sys_failure_later [OF s1(5)] in auto)
    with Inr show ?thesis by simp
  qed
qed simp

lemma clear_global_ok:
  assumes "wf_slots s" "wf_nodes s"
  shows "outcome (\<lambda>e. e = Stack_unmapped \<and> (\<exists>i. owns on s i) \<or> sys_failure s e)
    (\<lambda>s'. \<forall>i. \<not> owns on s i) (clear_global on s)"
proof -
  have len: "nat (MAX_THREAD_NUM s) = length (TCB_ARRAY s)" using assms(1) by (metis nat_int wf_slots_def)
  have "clearable s" unfolding clearable_def
  proof (intro allI impI)
    fix i p assume "slot s i = Some p"
    then obtain t where "thread s i = Some t" "tcbs s p = Some t" "t_id t = i"
      using slot_thread [OF assms(1)] by blast
    with thread_node [OF assms(2)] show "\<exists>t. tcbs s p = Some t \<and> t_id t = i \<and>
        (\<forall>n. t_thread_in_q t = Some n \<longrightarrow> nodes s n = Some i)" by blast
  qed
  note C = clear_slots_ok [OF this, of "[0..<nat (MAX_THREAD_NUM s)]" on]
  have "(\<exists>i. owns on s i) = (\<exists>k \<in> set [0..<nat (MAX_THREAD_NUM s)]. owns on s (int k))"
  proof
    assume "\<exists>i. owns on s i"
    then obtain i where i: "owns on s i" by blast
    then obtain p where "slot s i = Some p" unfolding owns_def using thread_slot by blast
    then have "0 \<le> i" "nat i \<in> set [0..<nat (MAX_THREAD_NUM s)]"
      by (simp_all add: slot_def len split: if_splits)
    moreover from this(1) i have "owns on s (int (nat i))" by simp
    ultimately show "\<exists>k \<in> set [0..<nat (MAX_THREAD_NUM s)]. owns on s (int k)" by blast
  qed blast
  with C len show ?thesis
    by (cases "for_each (clear_slot on) [0..<nat (MAX_THREAD_NUM s)] s") (auto simp: clear_global_def)
qed

lemma wut_exit_ok:
  assumes "wut_ok s"
  shows "case ready (finished status s) of
      [] \<Rightarrow> \<exists>e. wut_exit on status s = Inl e \<and> (sys_failure s e \<or>
        e = (if \<exists>i. owns on (finished status s) i then Stack_unmapped else Process_exit 0))
    | i # is \<Rightarrow> \<exists>ev s'. wut_exit on status s = Inr (ev, s') \<and> resumed (finished status s) i ev s' \<and> wut_ok s'"
proof -
  let ?s = "finished status s"
  have F: "wf_slots ?s" "wf_nodes ?s" "wf_rest {} ?s" and run: "wut_exit on status s = exit_next on ?s"
    using finished_ok [OF assms, of status] by blast+
  show ?thesis
  proof (cases "ready ?s")
    case Nil
    then show ?thesis
      using run clear_global_ok [OF F(1,2), of on] sys_failure_later [OF finished_later]
      by (cases "clear_global on ?s") (auto simp: exit_next_def TAILQ_EMPTY_ready)
  next
    case (Cons i "is")
    obtain n where n: "TAILQ_FIRST ?s = Some n" "TAILQ_REMOVE (Some n) ?s = Inr (pop ?s)"
      "node_id n (pop ?s) = Inr i" by (rule pop_first [OF F(2) Cons])
    obtain x where x: "thread ?s i = Some x" using ready_thread [OF F(2), of i] Cons by auto
    obtain r where r: "slot ?s i = Some r" using thread_slot [OF x] by blast
    obtain ev s' where d: "setcontext (slot ?s i) (run_next i ?s) = Inr (ev, s')"
      "resumed ?s i ev s'" "wut_ok s'" using resume_ok [OF F Cons] by blast
    have at: "array_at i (run_next i ?s) = Inr (Some r)" using r by (intro array_at_slot) simp
    have "exit_next on ?s = setcontext (Some r) (run_next i ?s)"
      using Cons by (simp add: exit_next_def TAILQ_EMPTY_ready Let_def n at flip: run_next_def)
    with d r run Cons show ?thesis by simp
  qed
qed

section \<open>wut_create\<close>

lemma wut_create_ok:
  assumes "wut_ok s"
    and "next_errno s = None"
  shows "\<exists>i s'. wut_create run s = Inr (i, s') \<and> created run s i s' \<and> wut_ok s'"
proof -
  let ?c = "CURRENT_RUNNING_THREAD_ID s"
  obtain p0 t0 where o: "wf_slots s" "wf_nodes s" "wf_rest {?c} s" "?c \<notin> set (ready s)" "slot s ?c = Some p0"
    "tcbs s p0 = Some t0" "thread s ?c = Some t0" "alive t0" "t_id t0 = ?c" "t_ucontext t0 \<noteq> None"
    by (rule wut_okD [OF assms(1)])
  note w = o(3) [unfolded wf_rest_def]
  obtain i s' where run: "wut_create run s = Inr (i, s')" and cr: "created run s i s'"
    using wut_create_created [OF o(1,2) _ assms(2), of run] w unfolding rest_ready_def by blast
  note C = cr [unfolded created_def]
  obtain t where t: "fresh_tcb i run t" and th: "thread s' = (thread s)(i := Some t)" using C by blast
  have dead: "x \<noteq> i" if "thread s x = Some v" "alive v" for x v
    using C that by (auto simp: reusable_def)
  have rd: "ready s' = ready s @ [i]" and sl: "slot s' = (slot s)(i := Some (next_tcb s))"
    and tc: "\<And>p. p \<noteq> next_tcb s \<Longrightarrow> tcbs s' p = tcbs s p" using C by blast+
  have old: "p \<noteq> next_tcb s" if "tcbs s p = Some u" for p u using o(1) that by (auto simp: wf_slots_def)
  have tcn: "tcbs s' (next_tcb s) = Some t" using th sl by (auto simp: thread_def dest!: fun_cong [of _ _ i])
  have run': "runnable s' k" if "runnable s k" for k
    by (rule runnable_frame [OF that]) (use old tc in metis)
  have wait: "waits_on s' x v k" if wk: "waits_on s x v k" for x v k
  proof -
    obtain r y where "slot s k = Some r" "thread s k = Some y" "tcbs s r = Some y" "alive y" "t_join y = 1"
      "t_join_from y = x" "t_ucontext v = Some (In_join r)" "t_block v = 1" "t_join_to v = k"
      by (rule waits_target [OF wk])
    with dead old tc sl show ?thesis unfolding waits_on_def by auto
  qed
  have new: "alive t" "t_ucontext t = Some (Start run)" "t_join t \<noteq> 1" "t_join_from t = -1" "runnable s' (Start run)"
    using t by (simp_all add: fresh_tcb_def runnable_def)
  have "rest_ready s'"
    by (rule rest_ready_frame [OF _ run']) (use w new in \<open>auto simp: rd th split: if_splits\<close>)
  moreover have "rest_live {?c} s'"
    by (rule rest_live_frame [of "{?c}" s]) (use w new wait in \<open>auto simp: rd th kept_live_def split: if_splits\<close>)
  moreover have "rest_joins {?c} s'"
    by (rule rest_joins_frame [OF o(3)]) (use new dead in \<open>auto simp: rd th kept_joins_def split: if_splits\<close>)
  moreover have "status_range s'"
    by (rule status_range_frame [of s]) (use w tc tcn new(1) in \<open>metis option.inject wf_rest_def\<close>)+
  ultimately have "wf_rest {?c} s'" by (simp add: wf_rest_def)
  then have "wut_ok s'" using C dead [OF o(7,8)] o(4,7,8) th rd by (auto simp: wut_ok_def)
  with run cr show ?thesis by blast
qed

section \<open>wut_cancel\<close>

text \<open>A blocked thread is cancelled: the thread it was joining is free to be joined again.\<close>

lemma release_rest:
  assumes wf: "wf_slots s" "wf_rest C s" and i: "slot s i = Some p" "tcbs s p = Some t" "alive t" "i \<notin> C"
      "i \<notin> set (ready s)" "waits_on s i t j"
    and t': "\<not> alive t'" "0 \<le> t_status t'" "t_status t' < 256"
    and q: "slot s j = Some q" "tcbs s q = Some v" "v' = v\<lparr>t_join_from := -1, t_join := 0\<rparr>"
  shows "wf_rest (C \<union> joiner t) (put q v' (put p t' s))" "p \<noteq> q"
proof -
  let ?s = "put q v' (put p t' s)"
  note w = wf(2) [unfolded wf_rest_def]
  have thi: "thread s i = Some t" and thj: "thread s j = Some v" using i q by (simp_all add: thread_def)
  have v: "alive v" "t_join v = 1" "t_join_from v = i" "t_join_to t = j"
    using i(6) q thj by (auto elim!: waits_target)
  have "t_join_from v \<noteq> j"
    by (rule joiner_waits [OF wf(2) thj v(1)]) (use v in auto)
  then have ij: "i \<noteq> j" using v(3) by simp
  then show pq: "p \<noteq> q" using slot_inj [OF wf(1) i(1)] q(1) by blast
  have th: "thread ?s x = (if x = j then Some v' else if x = i then Some t' else thread s x)" for x
    by (simp add: thread_put slot_eq_iff [OF wf(1) i(1)] slot_eq_iff [OF wf(1) q(1)])
  have f: "t_status v' = t_status v" "t_ucontext v' = t_ucontext v" "t_block v' = t_block v"
    "t_join_to v' = t_join_to v" "t_join v' = 0" "t_join_from v' = -1" by (simp_all add: q(3))
  have run: "runnable ?s k" if "runnable s k" for k
    by (rule runnable_frame [OF that]) (use i q v t' f pq in auto)
  have wait: "x \<in> joiner t \<or> waits_on ?s x y k" if wk: "waits_on s x y k" "x \<noteq> i" for x y k
  proof -
    obtain r z where r: "slot s k = Some r" "thread s k = Some z" "tcbs s r = Some z" "alive z" "t_join z = 1"
      "t_join_from z = x" "t_ucontext y = Some (In_join r)" "t_block y = 1" "t_join_to y = k"
      by (rule waits_target [OF wk(1)])
    have "r \<noteq> q" using r q(2) v(3) wk(2) by auto
    moreover have "x \<in> joiner t" if "r = p" using that r i(2) by (auto simp: joiner_def)
    ultimately show ?thesis using r by (cases "r = p") (auto simp: waits_on_def)
  qed
  have "rest_ready ?s"
    by (rule rest_ready_frame [OF _ run]) (use w i(5) thj f in \<open>auto simp: th split: if_splits\<close>)
  moreover have wl: "rest_live C s" using w by blast
  have "rest_live (C \<union> joiner t) ?s"
  proof (rule rest_live_frame [OF wl], intro disjI1)
    fix x y assume x: "thread ?s x = Some y" "alive y"
    then have xi: "x \<noteq> i" using t'(1) ij by (auto simp: th)
    obtain y' where y': "thread s x = Some y'" "alive y'" "t_ucontext y = t_ucontext y'"
      "t_block y = t_block y'" "t_join_to y = t_join_to y'"
      using x xi thj f by (auto simp: th split: if_splits)
    then have "kept_live C s (C \<union> joiner t) ?s x y' y" unfolding kept_live_def using wait [OF _ xi] by auto
    then show "\<exists>u. kept_live C s (C \<union> joiner t) ?s x u y" ..
  qed
  moreover have "rest_joins (C \<union> joiner t) ?s"
  proof (rule rest_joins_frame [OF wf(2)], intro disjI1)
    fix y u assume u: "thread ?s y = Some u" "alive u" "t_join u = 1 \<or> t_join_from u \<noteq> -1"
    have y: "y \<noteq> i" "y \<noteq> j" using u t'(1) ij f by (auto simp: th split: if_splits)
    then have uy: "thread s y = Some u" using u(1) by (simp add: th)
    have "t_join_from u \<notin> joiner t"
      by (rule joiner_unique [OF wf(2) thi i(3) uy u(2,3) y(1)])
    with uy u(2,3) have "kept_joins C s (C \<union> joiner t) ?s y u u"
      unfolding kept_joins_def using thi thj v(4) y(2) f by (auto simp: th)
    then show "\<exists>v. kept_joins C s (C \<union> joiner t) ?s y v u" ..
  qed
  moreover have "status_range ?s"
    by (rule status_range_frame [of s]) (use w t' q i(2) f in \<open>auto split: if_splits\<close>)
  ultimately show "wf_rest (C \<union> joiner t) ?s" by (simp add: wf_rest_def)
qed

lemma cancel_detach_ready:
  assumes wf: "wf_slots s" "wf_nodes s" and p: "slot s i = Some p" "tcbs s p = Some t"
    and b: "t_block t \<noteq> 1" "i \<in> set (ready s)" and ne: "next_errno s = None"
  shows "\<exists>s'. cancel_detach (Some p) s = Inr s' \<and> wf_slots s' \<and> wf_nodes s' \<and> slot s' = slot s \<and>
    ready s' = remove1 i (ready s) \<and> tcbs s' = (tcbs s)(p \<mapsto> t\<lparr>t_ucontext := None, t_thread_in_q := None\<rparr>) \<and>
    CURRENT_RUNNING_THREAD_ID s' = CURRENT_RUNNING_THREAD_ID s \<and> stacks s' = stacks s - set_option (t_stack t)"
proof -
  let ?t = "t\<lparr>t_ucontext := None\<rparr>" let ?s = "put p ?t (unmapped (t_stack t) s)"
  have wfd: "wf_slots (unmapped (t_stack t) s)" "wf_nodes (unmapped (t_stack t) s)" using wf by simp_all
  have wf1: "wf_slots ?s" "wf_nodes ?s"
    using wf_put [OF wfd(1), of p t ?t] wf_nodes_put [OF wfd(2), of p t ?t] p by simp_all
  have p1: "slot ?s i = Some p" "tcbs ?s p = Some ?t" "i \<in> set (ready ?s)" using p b by simp_all
  note D = dequeue_view [OF wf1 p1]
  have "cancel_detach (Some p) s = Inr (dequeue p ?s)"
    using p b D(1) ne by (simp add: cancel_detach_def delete_stack_eq)
  moreover have "stacks (dequeue p ?s) = stacks s - set_option (t_stack t)"
    by (simp add: dequeue_def put_def unmapped_def Let_def)
  ultimately show ?thesis using D by simp
qed

lemma cancel_detach_fails:
  "tcbs s p = Some t \<Longrightarrow> t_block t \<noteq> 1 \<Longrightarrow> next_errno s = Some err \<Longrightarrow>
    cancel_detach (Some p) s = Inl (Process_exit err)"
  by (simp add: cancel_detach_def delete_stack_eq)

lemma cancel_detach_blocked:
  assumes wf: "wf_slots s" "wf_nodes s" and p: "slot s i = Some p" "tcbs s p = Some t"
    and b: "t_block t = 1" and q: "slot s (t_join_to t) = Some q" "tcbs s q = Some v" "q \<noteq> p"
  shows "\<exists>s'. cancel_detach (Some p) s = Inr s' \<and> wf_slots s' \<and> wf_nodes s' \<and> slot s' = slot s \<and>
    ready s' = ready s \<and>
    tcbs s' = (tcbs s)(p \<mapsto> t\<lparr>t_block := 0\<rparr>, q \<mapsto> v\<lparr>t_join_from := -1, t_join := 0\<rparr>) \<and>
    CURRENT_RUNNING_THREAD_ID s' = CURRENT_RUNNING_THREAD_ID s \<and> stacks s' = stacks s"
proof -
  let ?t = "t\<lparr>t_block := 0\<rparr>" and ?v = "v\<lparr>t_join_from := -1, t_join := 0\<rparr>"
  let ?s = "put q ?v (put p ?t s)"
  have "wf_slots ?s" "wf_nodes ?s"
    using wf_put [OF wf_put [OF wf(1) p(2)], of ?t q v ?v] wf_nodes_put [OF wf_nodes_put [OF wf(2) p(2)], of ?t q v ?v]
      q by simp_all
  moreover have "cancel_detach (Some p) s = Inr ?s" using p b q by (simp add: cancel_detach_def)
  moreover have "stacks ?s = stacks s" by (simp add: put_def)
  ultimately show ?thesis by simp
qed

text \<open>
  The cancellations that keep the invariant.  A thread that has returned from \<open>wut_join\<close> keeps
  \<open>block_\<close> set until it is cancelled or joins again, and waking a joiner clears the joiner's own
  \<open>join_\<close>; the first condition excludes the former, the second a joiner that is itself joined.
\<close>

definition cancel_safe :: "wut_state \<Rightarrow> int \<Rightarrow> bool" where
  "cancel_safe s i \<longleftrightarrow> (case thread s i of None \<Rightarrow> True
     | Some t \<Rightarrow> (t_block t = 1 \<longrightarrow> i \<notin> set (ready s)) \<and>
         (t_join t = 1 \<longrightarrow> (case thread s (t_join_from t) of None \<Rightarrow> True | Some w \<Rightarrow> t_join w \<noteq> 1)))"

lemma wut_cancel_refused:
  assumes "wut_ok s" "i < 0 \<or> i = CURRENT_RUNNING_THREAD_ID s \<or> THREAD_NUM s < i \<or>
    i < MAX_THREAD_NUM s \<and> (case thread s i of None \<Rightarrow> True | Some t \<Rightarrow> \<not> alive t)"
  shows "wut_cancel i s = Inr (-1, s)"
proof (cases "i < 0 \<or> i = CURRENT_RUNNING_THREAD_ID s \<or> THREAD_NUM s < i")
  case True
  then show ?thesis by (simp add: wut_cancel_def)
next
  case False
  then have i: "0 \<le> i" "i < MAX_THREAD_NUM s" "i \<noteq> CURRENT_RUNNING_THREAD_ID s" "i \<le> THREAD_NUM s"
    and t: "case thread s i of None \<Rightarrow> True | Some t \<Rightarrow> \<not> alive t" using assms(2) by auto
  have wf: "wf_slots s" using assms(1) by (simp add: wut_ok_def)
  have "array_at i s = Inr (slot s i)" by (rule array_at_range [OF wf i(1,2)])
  moreover have "\<exists>t. thread s i = Some t \<and> tcbs s p = Some t" if "slot s i = Some p" for p
    using slot_thread [OF wf that] by blast
  ultimately show ?thesis using i t by (cases "slot s i") (auto simp: wut_cancel_def)
qed

definition cancelled :: "wut_state \<Rightarrow> int \<Rightarrow> tcb \<Rightarrow> wut_state \<Rightarrow> bool" where
  "cancelled s i t s' \<longleftrightarrow>
     CURRENT_RUNNING_THREAD_ID s' = CURRENT_RUNNING_THREAD_ID s \<and> slot s' = slot s \<and>
     ready s' = remove1 i (ready s) @ (if t_join t = 1 then [t_join_from t] else []) \<and>
     (\<exists>t'. thread s' i = Some t' \<and> t_status t' = 128)"

text \<open>
  \<open>detaches\<close>: what \<open>cancel_detach\<close> makes of the state just after the status is set, and that waking
  the joiner in between changes the joiner's control block and the end of the queue only.
\<close>

definition detaches :: "wut_state \<Rightarrow> int \<Rightarrow> nat \<Rightarrow> wut_state \<Rightarrow> nat set \<Rightarrow> bool" where
  "detaches s1 i p v1 F \<longleftrightarrow>
     cancel_detach (Some p) s1 = Inr v1 \<and> wf_slots v1 \<and> wf_nodes v1 \<and> slot v1 = slot s1 \<and>
     ready v1 = remove1 i (ready s1) \<and> CURRENT_RUNNING_THREAD_ID v1 = CURRENT_RUNNING_THREAD_ID s1 \<and>
     (\<forall>r. r \<noteq> p \<longrightarrow> r \<in> F \<longrightarrow> tcbs v1 r = tcbs s1 r) \<and>
     (\<forall>s2 r W k. r \<in> F \<longrightarrow> wf_slots s2 \<longrightarrow> wf_nodes s2 \<longrightarrow> slot s2 = slot s1 \<longrightarrow> ready s2 = ready s1 @ [k] \<longrightarrow>
        k \<noteq> i \<longrightarrow> tcbs s2 = (tcbs s1)(r \<mapsto> W) \<longrightarrow> next_errno s2 = next_errno s1 \<longrightarrow>
        (\<exists>s3. cancel_detach (Some p) s2 = Inr s3 \<and> wf_slots s3 \<and> wf_nodes s3 \<and> slot s3 = slot s1 \<and>
           ready s3 = ready v1 @ [k] \<and> tcbs s3 = (tcbs v1)(r \<mapsto> W) \<and>
           CURRENT_RUNNING_THREAD_ID s3 = CURRENT_RUNNING_THREAD_ID s2))"

lemma detachesD:
  assumes "detaches s1 i p v1 F" "r \<in> F" "wf_slots s2" "wf_nodes s2" "slot s2 = slot s1"
    "ready s2 = ready s1 @ [k]" "k \<noteq> i" "tcbs s2 = (tcbs s1)(r \<mapsto> W)" "next_errno s2 = next_errno s1"
  obtains s3 where "cancel_detach (Some p) s2 = Inr s3" "wf_slots s3" "wf_nodes s3" "slot s3 = slot s1"
    "ready s3 = ready v1 @ [k]" "tcbs s3 = (tcbs v1)(r \<mapsto> W)"
    "CURRENT_RUNNING_THREAD_ID s3 = CURRENT_RUNNING_THREAD_ID s2"
  using assms unfolding detaches_def by blast

lemma detaches_ready:
  assumes wf: "wf_slots s1" "wf_nodes s1" and p: "slot s1 i = Some p" "tcbs s1 p = Some t1"
    and b: "t_block t1 \<noteq> 1" "i \<in> set (ready s1)" and ne: "next_errno s1 = None"
  shows "\<exists>v1. detaches s1 i p v1 (- {p}) \<and>
    tcbs v1 = (tcbs s1)(p \<mapsto> t1\<lparr>t_ucontext := None, t_thread_in_q := None\<rparr>)"
proof -
  let ?P = "t1\<lparr>t_ucontext := None, t_thread_in_q := None\<rparr>"
  obtain v1 where v1: "cancel_detach (Some p) s1 = Inr v1" "wf_slots v1" "wf_nodes v1" "slot v1 = slot s1"
    "ready v1 = remove1 i (ready s1)" "tcbs v1 = (tcbs s1)(p \<mapsto> ?P)"
    "CURRENT_RUNNING_THREAD_ID v1 = CURRENT_RUNNING_THREAD_ID s1"
    using cancel_detach_ready [OF wf p b ne] by blast
  have "\<exists>s3. cancel_detach (Some p) s2 = Inr s3 \<and> wf_slots s3 \<and> wf_nodes s3 \<and> slot s3 = slot s1 \<and>
      ready s3 = ready v1 @ [k] \<and> tcbs s3 = (tcbs v1)(r \<mapsto> W) \<and>
      CURRENT_RUNNING_THREAD_ID s3 = CURRENT_RUNNING_THREAD_ID s2"
    if h: "r \<in> - {p}" "wf_slots s2" "wf_nodes s2" "slot s2 = slot s1" "ready s2 = ready s1 @ [k]"
      "tcbs s2 = (tcbs s1)(r \<mapsto> W)" "next_errno s2 = next_errno s1" for s2 r W k
  proof -
    have "slot s2 i = Some p" "tcbs s2 p = Some t1" "i \<in> set (ready s2)" "next_errno s2 = None"
      using h p b ne by auto
    from cancel_detach_ready [OF h(2,3) this(1,2) b(1) this(3,4)] show ?thesis
      using h v1(5,6) b(2) by (auto simp: remove1_append fun_upd_twist)
  qed
  then have "detaches s1 i p v1 (- {p})" using v1 unfolding detaches_def by simp
  with v1(6) show ?thesis by blast
qed

lemma detaches_blocked:
  assumes wf: "wf_slots s1" "wf_nodes s1" and p: "slot s1 i = Some p" "tcbs s1 p = Some t1"
    and b: "t_block t1 = 1" "i \<notin> set (ready s1)"
    and q: "slot s1 (t_join_to t1) = Some q" "tcbs s1 q = Some v" "q \<noteq> p"
  shows "\<exists>v1. detaches s1 i p v1 (- {p, q}) \<and>
    tcbs v1 = (tcbs s1)(p \<mapsto> t1\<lparr>t_block := 0\<rparr>, q \<mapsto> v\<lparr>t_join_from := -1, t_join := 0\<rparr>)"
proof -
  let ?P = "t1\<lparr>t_block := 0\<rparr>" and ?V = "v\<lparr>t_join_from := -1, t_join := 0\<rparr>"
  obtain v1 where v1: "cancel_detach (Some p) s1 = Inr v1" "wf_slots v1" "wf_nodes v1" "slot v1 = slot s1"
    "ready v1 = ready s1" "tcbs v1 = (tcbs s1)(p \<mapsto> ?P, q \<mapsto> ?V)"
    "CURRENT_RUNNING_THREAD_ID v1 = CURRENT_RUNNING_THREAD_ID s1"
    using cancel_detach_blocked [OF wf p b(1) q] by blast
  have "\<exists>s3. cancel_detach (Some p) s2 = Inr s3 \<and> wf_slots s3 \<and> wf_nodes s3 \<and> slot s3 = slot s1 \<and>
      ready s3 = ready v1 @ [k] \<and> tcbs s3 = (tcbs v1)(r \<mapsto> W) \<and>
      CURRENT_RUNNING_THREAD_ID s3 = CURRENT_RUNNING_THREAD_ID s2"
    if h: "r \<in> - {p, q}" "wf_slots s2" "wf_nodes s2" "slot s2 = slot s1" "ready s2 = ready s1 @ [k]"
      "tcbs s2 = (tcbs s1)(r \<mapsto> W)" for s2 r W k
  proof -
    have s: "slot s2 i = Some p" "tcbs s2 p = Some t1" "slot s2 (t_join_to t1) = Some q" "tcbs s2 q = Some v"
      using h p q by auto
    have tw: "(tcbs s1)(r \<mapsto> W, p \<mapsto> ?P, q \<mapsto> ?V) = (tcbs s1)(p \<mapsto> ?P, q \<mapsto> ?V, r \<mapsto> W)"
      using h(1) by (intro ext) simp
    from cancel_detach_blocked [OF h(2,3) s(1,2) b(1) s(3,4) q(3)] show ?thesis
      using h(4-6) v1(5,6) tw by auto
  qed
  then have "detaches s1 i p v1 (- {p, q})" using v1 b(2) unfolding detaches_def by (simp add: remove1_idem)
  with v1(6) show ?thesis by blast
qed

lemma cancel_core:
  assumes ok: "wut_ok s" and t: "thread s i = Some t" "alive t" "i \<noteq> CURRENT_RUNNING_THREAD_ID s"
    and safe: "t_block t = 1 \<Longrightarrow> i \<notin> set (ready s)" and p: "slot s i = Some p" "tcbs s p = Some t"
    and ne: "t_block t \<noteq> 1 \<Longrightarrow> next_errno s = None"
  defines "s1 \<equiv> put p (t\<lparr>t_status := 128\<rparr>) s"
  shows "\<exists>v1 P F. detaches s1 i p v1 F \<and> wf_rest ({CURRENT_RUNNING_THREAD_ID s} \<union> joiner t) v1 \<and>
    tcbs v1 p = Some P \<and> t_status P = 128 \<and> p \<notin> F \<and>
    (\<forall>r u. r \<noteq> p \<longrightarrow> tcbs s r = Some u \<longrightarrow> (\<exists>u'. tcbs v1 r = Some u' \<and> t_status u' = t_status u)) \<and>
    (\<forall>k w r. slot s k = Some r \<longrightarrow> tcbs s r = Some w \<longrightarrow> k \<noteq> i \<longrightarrow> t_join w \<noteq> 1 \<longrightarrow> r \<in> F)"
proof -
  let ?c = "CURRENT_RUNNING_THREAD_ID s" let ?t1 = "t\<lparr>t_status := 128\<rparr>"
  have o: "wf_slots s" "wf_nodes s" "wf_rest {?c} s" using ok by (simp_all add: wut_ok_def)
  have wf1: "wf_slots s1" "wf_nodes s1" "slot s1 i = Some p" "tcbs s1 p = Some ?t1" "ready s1 = ready s"
    unfolding s1_def using wf_put [OF o(1) p(2)] wf_nodes_put [OF o(2) p(2)] p by simp_all
  have kind: "i \<in> set (ready s) \<or> (\<exists>j. waits_on s i t j)"
    using o(3) t unfolding wf_rest_def rest_live_def by blast
  show ?thesis
  proof (cases "t_block t = 1")
    case False
    then have r: "i \<in> set (ready s)" using kind by (auto simp: waits_on_def)
    obtain v1 where v1: "detaches s1 i p v1 (- {p})"
      "tcbs v1 = (tcbs s1)(p \<mapsto> ?t1\<lparr>t_ucontext := None, t_thread_in_q := None\<rparr>)"
      using detaches_ready [OF wf1(1-4)] False r wf1(5) ne by (auto simp: s1_def next_errno_def)
    have sv: "slot v1 = slot s" using v1(1) by (simp add: detaches_def s1_def)
    have ch: "changed s i p t (?t1\<lparr>t_ucontext := None, t_thread_in_q := None\<rparr>) v1"
      using o(1) p v1(2) sv by (simp add: changed_def s1_def)
    have "distinct (ready s)" by (rule distinct_ready [OF o(2)])
    then have "set (ready v1) = set (ready s) - {i}" using v1(1) wf1(5) by (simp add: detaches_def)
    then have "wf_rest ({?c} - {i} \<union> joiner t) v1"
      by (intro kill_rest [OF o(3) ch]) (use t r in simp_all)
    moreover have "{?c} - {i} = {?c}" using t(3) by auto
    moreover have "\<forall>k w r. slot s k = Some r \<longrightarrow> tcbs s r = Some w \<longrightarrow> k \<noteq> i \<longrightarrow> t_join w \<noteq> 1 \<longrightarrow> r \<in> - {p}"
      using slot_inj [OF o(1) p(1)] by auto
    ultimately show ?thesis
      using v1 by (intro exI [of _ v1] exI [of _ "?t1\<lparr>t_ucontext := None, t_thread_in_q := None\<rparr>"]
        exI [of _ "- {p}"]) (simp add: s1_def)
  next
    case True
    then have r: "i \<notin> set (ready s)" by (rule safe)
    then obtain j where wt: "waits_on s i t j" using kind by blast
    obtain q v where q: "slot s j = Some q" "thread s j = Some v" "tcbs s q = Some v" "t_join v = 1" "t_join_to t = j"
      by (rule waits_target [OF wt])
    have R: "wf_rest ({?c} \<union> joiner t) (put q (v\<lparr>t_join_from := -1, t_join := 0\<rparr>) (put p (?t1\<lparr>t_block := 0\<rparr>) s))"
      and pq: "p \<noteq> q"
      using release_rest [OF o(1,3) p t(2) _ r wt _ _ _ q(1,3) refl, of "?t1\<lparr>t_block := 0\<rparr>"] t(3) by auto
    obtain v1 where v1: "detaches s1 i p v1 (- {p, q})"
      "tcbs v1 = (tcbs s1)(p \<mapsto> ?t1\<lparr>t_block := 0\<rparr>, q \<mapsto> v\<lparr>t_join_from := -1, t_join := 0\<rparr>)"
      using detaches_blocked [OF wf1(1-4), of q v] True r q pq wf1(5) by (auto simp: s1_def)
    have "wf_rest ({?c} \<union> joiner t) v1"
      by (rule wf_rest_cong [OF _ _ _ R])
         (use v1 r in \<open>simp_all add: s1_def detaches_def remove1_idem\<close>)
    moreover have "\<forall>k w r. slot s k = Some r \<longrightarrow> tcbs s r = Some w \<longrightarrow> k \<noteq> i \<longrightarrow> t_join w \<noteq> 1 \<longrightarrow> r \<in> - {p, q}"
      using slot_inj [OF o(1) p(1)] q by auto
    moreover have "tcbs v1 p = Some (?t1\<lparr>t_block := 0\<rparr>)" using v1(2) pq by simp
    ultimately show ?thesis using v1(1) by (intro exI [of _ v1] exI [of _ "?t1\<lparr>t_block := 0\<rparr>"]
        exI [of _ "- {p, q}"]) (use v1(2) q pq in \<open>auto simp: s1_def\<close>)
  qed
qed

lemma wake_view:
  assumes out: "outside s k r w"
  defines "W \<equiv> w\<lparr>t_thread_in_q := Some (next_node s), t_join := 0, t_join_to := -1, t_block := 0\<rparr>"
  shows "wf_slots (woken r (enqueue r k s))" "wf_nodes (woken r (enqueue r k s))"
    "slot (woken r (enqueue r k s)) = slot s" "ready (woken r (enqueue r k s)) = ready s @ [k]"
    "tcbs (woken r (enqueue r k s)) = (tcbs s)(r \<mapsto> W)"
    "CURRENT_RUNNING_THREAD_ID (woken r (enqueue r k s)) = CURRENT_RUNNING_THREAD_ID s"
    "next_errno (woken r (enqueue r k s)) = next_errno s"
proof -
  note E = enqueue_view [OF out]
  have er: "tcbs (enqueue r k s) r = Some (w\<lparr>t_thread_in_q := Some (next_node s)\<rparr>)" using E(5) by simp
  have "woken r (enqueue r k s) = put r W (enqueue r k s)" unfolding woken_def er W_def by simp
  then show "wf_slots (woken r (enqueue r k s))" "wf_nodes (woken r (enqueue r k s))"
    "slot (woken r (enqueue r k s)) = slot s" "ready (woken r (enqueue r k s)) = ready s @ [k]"
    "tcbs (woken r (enqueue r k s)) = (tcbs s)(r \<mapsto> W)"
    "CURRENT_RUNNING_THREAD_ID (woken r (enqueue r k s)) = CURRENT_RUNNING_THREAD_ID s"
    using wf_put [OF E(1) er, of W] wf_nodes_put [OF E(2) er, of W] E(4,5) by (simp_all add: W_def)
  show "next_errno (woken r (enqueue r k s)) = next_errno s" by (simp add: woken_def next_errno_def)
qed

text \<open>The two cases: nobody joins the cancelled thread, or its joiner is woken.\<close>

lemma cancel_alone:
  assumes ok: "wut_ok s" and p: "slot s i = Some p" "tcbs s p = Some t" "i \<noteq> CURRENT_RUNNING_THREAD_ID s"
    and D: "detaches (put p (t\<lparr>t_status := 128\<rparr>) s) i p v1 F"
    and rest: "wf_rest ({CURRENT_RUNNING_THREAD_ID s} \<union> joiner t) v1"
    and P: "tcbs v1 p = Some P" "t_status P = 128" and alone: "t_join t \<noteq> 1"
    and st: "\<And>r u. r \<noteq> p \<Longrightarrow> tcbs s r = Some u \<Longrightarrow> \<exists>u'. tcbs v1 r = Some u' \<and> t_status u' = t_status u"
  shows "wut_ok v1" "cancelled s i t v1"
proof -
  let ?c = "CURRENT_RUNNING_THREAD_ID s"
  obtain p0 t0 where o: "wf_slots s" "?c \<notin> set (ready s)" "slot s ?c = Some p0" "tcbs s p0 = Some t0" "alive t0"
    by (rule wut_okD [OF ok])
  have pp: "p0 \<noteq> p" using slot_inj [OF o(1,3)] p(1,3) by blast
  have v: "slot v1 = slot s" "ready v1 = remove1 i (ready s)" "CURRENT_RUNNING_THREAD_ID v1 = ?c"
    "wf_slots v1" "wf_nodes v1" using D unfolding detaches_def by simp_all
  obtain u where "tcbs v1 p0 = Some u" "alive u" using st [OF pp o(4)] o(5) by auto
  then have "\<exists>u. thread v1 ?c = Some u \<and> alive u" using v(1) o(3) by (simp add: thread_def)
  moreover have "?c \<notin> set (ready v1)" unfolding v(2) using o(2) set_remove1_subset by (metis subsetD)
  moreover have "wf_rest {?c} v1" using rest alone by (simp add: joiner_def)
  ultimately show "wut_ok v1" using v by (simp add: wut_ok_def)
  show "cancelled s i t v1" using v P alone p(1) by (simp add: cancelled_def thread_def)
qed

lemma cancel_joined:
  assumes ok: "wut_ok s" and p: "slot s i = Some p" "tcbs s p = Some t" "i \<noteq> CURRENT_RUNNING_THREAD_ID s"
    and D: "detaches (put p (t\<lparr>t_status := 128\<rparr>) s) i p v1 F"
    and rest: "wf_rest ({CURRENT_RUNNING_THREAD_ID s} \<union> joiner t) v1"
    and P: "tcbs v1 p = Some P" "t_status P = 128" "p \<notin> F" and joined: "t_join t = 1"
    and st: "\<And>r u. r \<noteq> p \<Longrightarrow> tcbs s r = Some u \<Longrightarrow> \<exists>u'. tcbs v1 r = Some u' \<and> t_status u' = t_status u"
    and F: "\<And>k w r. slot s k = Some r \<Longrightarrow> tcbs s r = Some w \<Longrightarrow> k \<noteq> i \<Longrightarrow> t_join w \<noteq> 1 \<Longrightarrow> r \<in> F"
    and k: "t_join_from t = k" "k \<notin> {CURRENT_RUNNING_THREAD_ID s}" "k \<notin> set (ready s)" "k \<noteq> i"
      "thread s k = Some w" "alive w" "waits_on s k w i" "t_join w \<noteq> 1"
  obtains s2 s3 where "cancel_wake_joiner k (put p (t\<lparr>t_status := 128\<rparr>) s) = Inr s2"
    "cancel_detach (Some p) s2 = Inr s3" "wut_ok s3" "cancelled s i t s3"
proof -
  let ?c = "CURRENT_RUNNING_THREAD_ID s" let ?s1 = "put p (t\<lparr>t_status := 128\<rparr>) s"
  obtain p0 t0 where o: "wf_slots s" "wf_nodes s" "?c \<notin> set (ready s)" "slot s ?c = Some p0" "tcbs s p0 = Some t0" "alive t0"
    by (rule wut_okD [OF ok])
  have pp: "p0 \<noteq> p" using slot_inj [OF o(1,4)] p(1,3) by blast
  have wf1: "wf_slots ?s1" "wf_nodes ?s1"
    using wf_put [OF o(1) p(2)] wf_nodes_put [OF o(2) p(2)] by simp_all
  have ctx: "t_ucontext w = Some (In_join p)" using k(7) p(1) by (auto elim!: waits_target)
  obtain r where r: "slot s k = Some r" "tcbs s r = Some w" using thread_slot [OF k(5)] by blast
  have rF: "r \<in> F" by (rule F [OF r k(4,8)])
  have rp: "r \<noteq> p" using rF P(3) by auto
  let ?s2 = "woken r (enqueue r k ?s1)"
  let ?W = "w\<lparr>t_thread_in_q := Some (next_node ?s1), t_join := 0, t_join_to := -1, t_block := 0\<rparr>"
  have out: "outside ?s1 k r w" using wf1 r rp k(3) by (simp add: outside_def)
  note two = wake_view [OF out]
  obtain s3 where d3: "cancel_detach (Some p) ?s2 = Inr s3" "wf_slots s3" "wf_nodes s3" "slot s3 = slot ?s1"
    "ready s3 = ready v1 @ [k]" "tcbs s3 = (tcbs v1)(r \<mapsto> ?W)"
    "CURRENT_RUNNING_THREAD_ID s3 = CURRENT_RUNNING_THREAD_ID ?s2"
    by (rule detachesD [OF D rF two(1-4) k(4) two(5,7)])
  have s3: "slot s3 = slot s" "CURRENT_RUNNING_THREAD_ID s3 = ?c" using d3 two(6) by simp_all
  have v: "slot v1 = slot s" "ready v1 = remove1 i (ready s)" "wf_slots v1" "tcbs v1 r = Some w"
    using D rF rp r unfolding detaches_def by simp_all
  have ch: "changed v1 k r w ?W s3" using v r s3 d3(6) by (simp add: changed_def)
  have run_ctx: "runnable v1 (In_join p)" using P by (auto simp: runnable_def)
  have "wf_rest {?c} s3"
    by (rule wake_rest [OF _ ch _ k(6) _ ctx _ run_ctx])
       (use rest joined k ctx d3(5) in \<open>simp_all add: joiner_def insert_commute\<close>)
  moreover have "\<exists>u. thread s3 ?c = Some u \<and> alive u"
    using st [OF pp o(5)] o(4,6) s3(1) d3(6) k(6) by (cases "p0 = r") (auto simp: thread_def)
  moreover have "?c \<notin> set (ready s3)"
    unfolding d3(5) v(2) using o(3) k(2) set_remove1_subset [of i "ready s"] by auto
  ultimately have "wut_ok s3" using s3 d3 by (simp add: wut_ok_def)
  moreover have "cancelled s i t s3"
    using s3 d3 v P joined k(1) p(1) rp by (simp add: cancelled_def thread_def)
  ultimately show thesis using that cancel_wake_enqueue [OF out] d3(1) by blast
qed

lemma joined_by:
  assumes "wf_slots s" "wf_rest C s" "thread s i = Some t" "alive t"
  shows "t_join_from t \<noteq> -1 \<longleftrightarrow> t_join t = 1"
proof
  assume j: "t_join_from t \<noteq> -1"
  show "t_join t = 1" by (rule joiner_waits [OF assms(2-4)]) (use j in simp_all)
next
  assume j: "t_join t = 1"
  obtain w where "thread s (t_join_from t) = Some w"
    by (rule joiner_waits [OF assms(2-4)]) (use j in simp_all)
  then show "t_join_from t \<noteq> -1" using thread_range [OF assms(1)] by force
qed

text \<open>Cancelling unmaps the stack of a thread unless it is blocked; only that can fail.\<close>

definition cancel_errno :: "tcb \<Rightarrow> wut_state \<Rightarrow> int option" where
  "cancel_errno t s = (if t_block t = 1 then None else next_errno s)"

lemma wut_cancel_run:
  assumes ok: "wut_ok s" and t: "thread s i = Some t" "alive t" "i \<noteq> CURRENT_RUNNING_THREAD_ID s"
    and p: "slot s i = Some p" "tcbs s p = Some t"
  defines "s1 \<equiv> put p (t\<lparr>t_status := 128\<rparr>) s"
  shows "wut_cancel i s = and_then (if t_join t = 1 then cancel_wake_joiner (t_join_from t) s1 else Inr s1)
      (\<lambda>s. and_then (cancel_detach (Some p) s) (\<lambda>s. Inr (0, s)))"
proof -
  have o: "wf_slots s" "wf_rest {CURRENT_RUNNING_THREAD_ID s} s" using ok by (simp_all add: wut_ok_def)
  show ?thesis
    using p t(2,3) thread_range [OF o(1) t(1)] joined_by [OF o t(1,2)] by (simp add: wut_cancel_def s1_def)
qed

lemma wut_cancel_fails:
  assumes ok: "wut_ok s" and t: "thread s i = Some t" "alive t" "i \<noteq> CURRENT_RUNNING_THREAD_ID s"
    and e: "cancel_errno t s = Some err"
  shows "wut_cancel i s = Inl (Process_exit err)"
proof -
  let ?c = "CURRENT_RUNNING_THREAD_ID s"
  have o: "wf_slots s" "wf_nodes s" "wf_rest {?c} s" using ok by (simp_all add: wut_ok_def)
  obtain p where p: "slot s i = Some p" "tcbs s p = Some t" using thread_slot [OF t(1)] by blast
  let ?t = "t\<lparr>t_status := 128\<rparr>" let ?s1 = "put p ?t s"
  note run = wut_cancel_run [OF ok t p]
  have b: "t_block ?t \<noteq> 1" "next_errno s = Some err" using e by (auto simp: cancel_errno_def split: if_splits)
  have stop: "and_then (cancel_detach (Some p) s2) (\<lambda>s. Inr (0 :: int, s)) = Inl (Process_exit err)"
    if "tcbs s2 p = Some ?t" "next_errno s2 = next_errno s" for s2
    using cancel_detach_fails [OF that(1) b(1)] that(2) b(2) by simp
  show ?thesis
  proof (cases "t_join t = 1")
    case False
    with run stop [of ?s1] show ?thesis by (simp add: next_errno_def)
  next
    case True
    let ?k = "t_join_from t"
    obtain w where w: "?k \<notin> set (ready s)" "?k \<noteq> i" "thread s ?k = Some w"
      by (rule joiner_waits [OF o(3) t(1,2)]) (use True in auto)
    obtain r where r: "slot s ?k = Some r" "tcbs s r = Some w" using thread_slot [OF w(3)] by blast
    have rp: "r \<noteq> p" using slot_inj [OF o(1) r(1)] p(1) w(2) by blast
    have "wf_slots ?s1" "wf_nodes ?s1" using wf_put [OF o(1) p(2)] wf_nodes_put [OF o(2) p(2)] by simp_all
    then have out: "outside ?s1 ?k r w" using r rp w(1) by (simp add: outside_def)
    note V = wake_view [OF out]
    have "next_errno ?s1 = next_errno s" by (simp add: next_errno_def)
    then show ?thesis
      using run stop [of "woken r (enqueue r ?k ?s1)"] True cancel_wake_enqueue [OF out] V(5,7) rp by simp
  qed
qed

lemma wut_cancel_ok:
  assumes ok: "wut_ok s" and t: "thread s i = Some t" "alive t" "i \<noteq> CURRENT_RUNNING_THREAD_ID s"
    and safe: "cancel_safe s i" and ne: "cancel_errno t s = None"
  shows "\<exists>s'. wut_cancel i s = Inr (0, s') \<and> cancelled s i t s' \<and> wut_ok s'"
proof -
  let ?c = "CURRENT_RUNNING_THREAD_ID s"
  have o: "wf_slots s" "wf_rest {?c} s" using ok by (simp_all add: wut_ok_def)
  obtain p where p: "slot s i = Some p" "tcbs s p = Some t" using thread_slot [OF t(1)] by blast
  note run = wut_cancel_run [OF ok t p]
  have ne': "t_block t \<noteq> 1 \<Longrightarrow> next_errno s = None" using ne by (simp add: cancel_errno_def)
  obtain v1 P F where D: "detaches (put p (t\<lparr>t_status := 128\<rparr>) s) i p v1 F" and rest: "wf_rest ({?c} \<union> joiner t) v1"
    and P: "tcbs v1 p = Some P" "t_status P = 128" "p \<notin> F"
    and st: "\<And>r u. r \<noteq> p \<Longrightarrow> tcbs s r = Some u \<Longrightarrow> \<exists>u'. tcbs v1 r = Some u' \<and> t_status u' = t_status u"
    and F: "\<And>k w r. slot s k = Some r \<Longrightarrow> tcbs s r = Some w \<Longrightarrow> k \<noteq> i \<Longrightarrow> t_join w \<noteq> 1 \<Longrightarrow> r \<in> F"
    using cancel_core [OF ok t _ p ne'] safe t(1) unfolding cancel_safe_def by auto
  show ?thesis
  proof (cases "t_join t = 1")
    case False
    have "cancel_detach (Some p) (put p (t\<lparr>t_status := 128\<rparr>) s) = Inr v1" using D by (simp add: detaches_def)
    with cancel_alone [OF ok p t(3) D rest P(1,2) False st] run False show ?thesis by simp
  next
    case True
    obtain w where w: "t_join_from t \<notin> {?c}" "t_join_from t \<notin> set (ready s)" "t_join_from t \<noteq> i"
      "thread s (t_join_from t) = Some w" "alive w" "waits_on s (t_join_from t) w i"
      by (rule joiner_waits [OF o(2) t(1,2)]) (use True in auto)
    have jw: "t_join w \<noteq> 1" using safe t(1) True w(4) by (simp add: cancel_safe_def)
    obtain s2 s3 where "cancel_wake_joiner (t_join_from t) (put p (t\<lparr>t_status := 128\<rparr>) s) = Inr s2"
        "cancel_detach (Some p) s2 = Inr s3" "wut_ok s3" "cancelled s i t s3"
      by (rule cancel_joined [OF ok p t(3) D rest P True _ _ refl w jw]) (rule st F; assumption)+
    with run True show ?thesis by simp
  qed
qed

end
