(* ===== verification/WutFrame.thy ===== *)
theory WutFrame
  imports WutOps
begin

text \<open>
  What a call leaves alone, for properties of whole runs: no control block goes away, a status once
  set is final, only the context and status of the running or of a cancelled thread change, and the
  marks of a join are set by a join only.  \<open>cancel_effect\<close> is the effect of \<open>wut_cancel\<close> in every state, those it corrupts included.
\<close>

section \<open>Frames\<close>

text \<open>
  \<open>follows s C p t t'\<close>: what may become of the control block at \<open>p\<close>, where \<open>C\<close> holds those whose context
  and status may change; \<open>keeps\<close> says it of all blocks.
\<close>

definition follows :: "wut_state \<Rightarrow> nat set \<Rightarrow> nat \<Rightarrow> tcb \<Rightarrow> tcb \<Rightarrow> bool" where
  "follows s C p t t' \<longleftrightarrow> t_id t' = t_id t \<and> (\<not> alive t \<longrightarrow> t_status t' = t_status t) \<and>
     (p \<notin> C \<longrightarrow> t_status t' = t_status t \<and> t_ucontext t' = t_ucontext t) \<and>
     (t_block t' = 1 \<longrightarrow> t_block t = 1 \<and> t_join_to t' = t_join_to t \<or>
        slot s (t_join_to t') \<noteq> None \<and> t_join_to t' \<noteq> t_id t) \<and>
     (alive t' \<and> t_join t' = 1 \<longrightarrow> t_enable t' = 0 \<or> t_join t = 1 \<and> t_enable t' = t_enable t)"

definition keeps :: "nat set \<Rightarrow> wut_state \<Rightarrow> wut_state \<Rightarrow> bool" where
  "keeps C s s' \<longleftrightarrow> slot s' = slot s \<and> (\<forall>p. rel_option (follows s C p) (tcbs s p) (tcbs s' p))"

lemma follows_refl [simp]: "follows s C p t t"
  by (simp add: follows_def)

lemma follows_trans:
  "follows s C p t t' \<Longrightarrow> follows s' C p t' t'' \<Longrightarrow> slot s' = slot s \<Longrightarrow> follows s C p t t''"
  unfolding follows_def by metis

lemma keeps_trans:
  assumes "keeps C s s1" "keeps C s1 s2"
  shows "keeps C s s2"
proof -
  have "rel_option (follows s C p) (tcbs s p) (tcbs s2 p)" for p
  proof -
    have "rel_option (follows s C p) (tcbs s p) (tcbs s1 p)" "rel_option (follows s1 C p) (tcbs s1 p) (tcbs s2 p)"
      "slot s1 = slot s" using assms by (simp_all add: keeps_def)
    then show ?thesis
      using follows_trans [of s C p _ _ s1] by (cases "tcbs s p"; cases "tcbs s1 p"; cases "tcbs s2 p") auto
  qed
  then show ?thesis using assms by (simp add: keeps_def)
qed

lemma keeps_same: "slot s' = slot s \<Longrightarrow> tcbs s' = tcbs s \<Longrightarrow> keeps C s s'"
  by (simp add: keeps_def option.rel_refl)

lemma keeps_change:
  assumes "slot s' = slot s" "tcbs s' = (tcbs s)(p \<mapsto> t')" "tcbs s p = Some t" "follows s C p t t'"
  shows "keeps C s s'"
  using assms by (simp add: keeps_def option.rel_refl)

lemma keeps_put: "tcbs s p = Some t \<Longrightarrow> follows s C p t t' \<Longrightarrow> keeps C s (put p t' s)"
  by (rule keeps_change) simp_all

lemma keepsD:
  assumes "keeps C s s'" "tcbs s p = Some t"
  obtains t' where "tcbs s' p = Some t'" "follows s C p t t'"
proof -
  have "rel_option (follows s C p) (Some t) (tcbs s' p)" using assms unfolding keeps_def by metis
  then show thesis using that by (cases "tcbs s' p") auto
qed

lemma keeps_old:
  assumes "keeps C s s'" "tcbs s' p = Some t'"
  obtains t where "tcbs s p = Some t" "follows s C p t t'"
proof -
  have "rel_option (follows s C p) (tcbs s p) (Some t')" using assms unfolding keeps_def by metis
  then show thesis using that by (cases "tcbs s p") auto
qed

lemma resumed_keeps:
  assumes "resumed s i ev s'"
  shows "keeps C s s'"
proof -
  have "(tcbs s' = tcbs s \<and> slot s' = slot s) \<or>
      (\<exists>p u. tcbs s p = Some u \<and> \<not> alive u \<and> s' = put p (u\<lparr>t_enable := 1\<rparr>) (run_next i s))"
  proof -
    obtain c where "case c of
        Start run \<Rightarrow> ev = Started run \<and> s' = run_next i s
      | In_yield \<Rightarrow> ev = Returned 0 \<and> s' = run_next i s
      | In_join p \<Rightarrow> (\<exists>u. tcbs s p = Some u \<and> \<not> alive u \<and> ev = Returned (t_status u) \<and>
          s' = put p (u\<lparr>t_enable := 1\<rparr>) (run_next i s))
      | Fresh_main \<Rightarrow> False"
      using assms unfolding resumed_def by blast
    then show ?thesis by (cases c) auto
  qed
  then show ?thesis
  proof
    assume "\<exists>p u. tcbs s p = Some u \<and> \<not> alive u \<and> s' = put p (u\<lparr>t_enable := 1\<rparr>) (run_next i s)"
    then obtain p u where u: "tcbs s p = Some u" "\<not> alive u" "s' = put p (u\<lparr>t_enable := 1\<rparr>) (run_next i s)" by blast
    then show ?thesis by (intro keeps_change [of s' s p]) (auto simp: follows_def)
  qed (simp add: keeps_same)
qed

lemma enqueue_keeps:
  assumes "tcbs s p = Some t"
  shows "keeps C s (enqueue p i s)"
  by (rule keeps_change [of _ _ p "t\<lparr>t_thread_in_q := Some (next_node s)\<rparr>"])
    (use assms in \<open>auto simp: enqueue_def follows_def slot_def Let_def\<close>)

section \<open>What the calls keep\<close>

lemma yielded_keeps:
  assumes "slot s (wut_id s) = Some p" "tcbs s p = Some t"
  shows "keeps {p} s (yielded s)"
proof -
  let ?e = "enqueue p (wut_id s) s" let ?t = "t\<lparr>t_thread_in_q := Some (next_node s)\<rparr>"
  have e: "tcbs ?e p = Some ?t" using assms(2) by (simp add: enqueue_def Let_def)
  have "keeps {p} s ?e" by (rule enqueue_keeps [OF assms(2)])
  moreover have "keeps {p} ?e (put p (?t\<lparr>t_ucontext := Some In_yield\<rparr>) ?e)"
    by (rule keeps_put [OF e]) (simp add: follows_def)
  moreover have "yielded s = put p (?t\<lparr>t_ucontext := Some In_yield\<rparr>) ?e"
    using assms(1) e by (simp add: yielded_def wut_id_def Let_def)
  ultimately show ?thesis using keeps_trans by metis
qed

lemma joined_keeps:
  assumes "slot s (wut_id s) = Some p" "tcbs s p = Some t" "t_id t = wut_id s" "slot s j = Some q"
    "tcbs s q = Some u" "p \<noteq> q" "j \<noteq> wut_id s"
  shows "keeps {p} s (joined j s)"
proof -
  let ?u = "u\<lparr>t_join := 1, t_enable := 0, t_join_from := wut_id s\<rparr>"
  let ?t = "t\<lparr>t_block := 1, t_join_to := j, t_ucontext := Some (In_join q)\<rparr>"
  have "keeps {p} s (put q ?u s)" by (rule keeps_put [OF assms(5)]) (simp add: follows_def)
  moreover have "keeps {p} (put q ?u s) (put p ?t (put q ?u s))"
    by (rule keeps_put [of _ _ t]) (use assms in \<open>simp_all add: follows_def\<close>)
  moreover have "joined j s = put p ?t (put q ?u s)"
    using assms(1,2,4,5,6) by (simp add: joined_def wut_id_def Let_def)
  ultimately show ?thesis using keeps_trans by metis
qed

lemma finished_keeps:
  assumes "slot s (wut_id s) = Some p" "tcbs s p = Some t" "alive t"
    and "t_join t = 1 \<Longrightarrow> \<exists>k w. slot s (t_join_from t) = Some k \<and> tcbs s k = Some w"
  shows "keeps {p} s (finished v s)"
proof (cases "t_join t = 1")
  case False
  then have "finished v s = put p (t\<lparr>t_status := v AND 0xFF\<rparr>) s"
    using assms(1,2) by (simp add: finished_def wut_id_def Let_def)
  then show ?thesis using assms(2,3) False by (auto intro!: keeps_put simp: follows_def)
next
  case True
  let ?t = "t\<lparr>t_status := v AND 0xFF, t_join := 0, t_join_from := -1\<rparr>"
  obtain k w where k: "slot s (t_join_from t) = Some k" "tcbs s k = Some w" using assms(4) True by blast
  have "keeps {p} s (put p ?t s)" using assms(3) by (intro keeps_put [OF assms(2)]) (simp add: follows_def)
  moreover obtain w' where "tcbs (put p ?t s) k = Some w'" using k(2) by (cases "k = p") auto
  then have "keeps {p} (put p ?t s) (enqueue k (t_join_from t) (put p ?t s))" by (rule enqueue_keeps)
  moreover have "finished v s = enqueue k (t_join_from t) (put p ?t s)"
    using True assms(1,2) k(1) by (simp add: finished_def wut_id_def Let_def)
  ultimately show ?thesis using keeps_trans by metis
qed

text \<open>
  The marks of a join: the target of a thread with \<open>block_\<close> set has a slot and is another thread, and a
  thread that is joined cannot be reused.
\<close>

definition marks_ok :: "wut_state \<Rightarrow> bool" where
  "marks_ok s \<longleftrightarrow> (\<forall>p t. tcbs s p = Some t \<longrightarrow>
     (t_block t = 1 \<longrightarrow> slot s (t_join_to t) \<noteq> None \<and> t_join_to t \<noteq> t_id t) \<and>
     (alive t \<and> t_join t = 1 \<longrightarrow> t_enable t = 0))"

lemma marks_keeps:
  assumes "marks_ok s" "keeps C s s'"
  shows "marks_ok s'"
  unfolding marks_ok_def
proof (intro allI impI)
  fix p t' assume "tcbs s' p = Some t'"
  then obtain t where t: "tcbs s p = Some t" "follows s C p t t'" by (rule keeps_old [OF assms(2)])
  have "slot s' = slot s" using assms(2) by (simp add: keeps_def)
  with assms(1) t show "(t_block t' = 1 \<longrightarrow> slot s' (t_join_to t') \<noteq> None \<and> t_join_to t' \<noteq> t_id t') \<and>
     (alive t' \<and> t_join t' = 1 \<longrightarrow> t_enable t' = 0)"
    unfolding marks_ok_def follows_def by metis
qed

lemma marks_created:
  assumes "marks_ok s" "created run s i s'"
  shows "marks_ok s'"
  unfolding marks_ok_def
proof (intro allI impI)
  fix p t' assume t': "tcbs s' p = Some t'"
  note C = assms(2) [unfolded created_def]
  have sl: "slot s' = (slot s)(i := Some (next_tcb s))" using C by blast
  obtain t where t: "fresh_tcb i run t" "thread s' = (thread s)(i := Some t)" using C by blast
  then have new: "tcbs s' (next_tcb s) = Some t" using sl by (auto simp: thread_def dest!: fun_cong [of _ _ i])
  show "(t_block t' = 1 \<longrightarrow> slot s' (t_join_to t') \<noteq> None \<and> t_join_to t' \<noteq> t_id t') \<and>
     (alive t' \<and> t_join t' = 1 \<longrightarrow> t_enable t' = 0)"
  proof (cases "p = next_tcb s")
    case True
    then show ?thesis using new t' t(1) by (simp add: fresh_tcb_def)
  next
    case False
    then have "tcbs s p = Some t'" using C t' by metis
    then show ?thesis using assms(1) sl unfolding marks_ok_def by simp
  qed
qed

section \<open>The effect of wut_cancel\<close>

text \<open>Giving up the join of a blocked thread, or leaving the queue, whatever else holds.\<close>

definition released :: "wut_state \<Rightarrow> tcb \<Rightarrow> wut_state \<Rightarrow> bool" where
  "released s t s' \<longleftrightarrow> (\<exists>v v'. thread s (t_join_to t) = Some v \<and> thread s' (t_join_to t) = Some v' \<and>
     t_join v' = 0 \<and> t_join_from v' = -1 \<and> t_status v' = t_status v \<and> t_enable v' = t_enable v)"

lemma released_before:
  assumes "released s1 t s'" "t_join_to t1 = t_join_to t"
    and "map_option (\<lambda>v. (t_status v, t_enable v)) (thread s1 (t_join_to t)) =
      map_option (\<lambda>v. (t_status v, t_enable v)) (thread s (t_join_to t))"
  shows "released s t1 s'"
  using assms unfolding released_def by (cases "thread s (t_join_to t)") auto

lemma detach_effect:
  assumes wf: "wf_slots s" "wf_nodes s" and p: "slot s i = Some p" "tcbs s p = Some t" "\<not> alive t"
    and b: "t_block t = 1 \<Longrightarrow> slot s (t_join_to t) \<noteq> None \<and> t_join_to t \<noteq> i"
    and r: "t_block t \<noteq> 1 \<Longrightarrow> i \<in> set (ready s) \<and> next_errno s = None"
  shows "\<exists>s' t'. cancel_detach (Some p) s = Inr s' \<and> wf_slots s' \<and> wf_nodes s' \<and> keeps {p} s s' \<and>
    CURRENT_RUNNING_THREAD_ID s' = CURRENT_RUNNING_THREAD_ID s \<and>
    ready s' = (if t_block t = 1 then ready s else remove1 i (ready s)) \<and>
    stacks s' = (if t_block t = 1 then stacks s else stacks s - set_option (t_stack t)) \<and>
    thread s' i = Some t' \<and> t_status t' = t_status t \<and>
    (t_block t = 1 \<longrightarrow> t_ucontext t' = t_ucontext t \<and> released s t s')"
proof (cases "t_block t = 1")
  case True
  obtain q where q: "slot s (t_join_to t) = Some q" using b [OF True] by auto
  obtain v where v: "tcbs s q = Some v" using slot_thread [OF wf(1) q] by blast
  have pq: "q \<noteq> p" using slot_inj [OF wf(1) p(1), of "t_join_to t"] q b [OF True] by auto
  let ?t = "t\<lparr>t_block := 0\<rparr>" and ?v = "v\<lparr>t_join_from := -1, t_join := 0\<rparr>"
  obtain s' where d: "cancel_detach (Some p) s = Inr s'" "wf_slots s'" "wf_nodes s'" "slot s' = slot s"
    "ready s' = ready s" "tcbs s' = (tcbs s)(p \<mapsto> ?t, q \<mapsto> ?v)"
    "CURRENT_RUNNING_THREAD_ID s' = CURRENT_RUNNING_THREAD_ID s" "stacks s' = stacks s"
    using cancel_detach_blocked [OF wf p(1,2) True q v pq] by blast
  have "keeps {p} s (put p ?t s)" using p(3) by (intro keeps_put [OF p(2)]) (simp add: follows_def)
  moreover have "keeps {p} (put p ?t s) s'"
    by (rule keeps_change [of _ _ q ?v v]) (use d(4,6) pq v in \<open>simp_all add: follows_def\<close>)
  ultimately have "keeps {p} s s'" by (rule keeps_trans)
  moreover have "thread s' i = Some ?t" using d(4,6) p(1) pq by (simp add: thread_def)
  moreover have "released s t s'" using d(4,6) q v by (simp add: released_def thread_def)
  ultimately show ?thesis using d True by (intro exI [of _ s'] exI [of _ ?t]) simp
next
  case False
  let ?t = "t\<lparr>t_ucontext := None, t_thread_in_q := None\<rparr>"
  obtain s' where d: "cancel_detach (Some p) s = Inr s'" "wf_slots s'" "wf_nodes s'" "slot s' = slot s"
    "ready s' = remove1 i (ready s)" "tcbs s' = (tcbs s)(p \<mapsto> ?t)"
    "CURRENT_RUNNING_THREAD_ID s' = CURRENT_RUNNING_THREAD_ID s" "stacks s' = stacks s - set_option (t_stack t)"
    using cancel_detach_ready [OF wf p(1,2) False conjunct1 [OF r [OF False]] conjunct2 [OF r [OF False]]] by blast
  have "keeps {p} s s'"
    by (rule keeps_change [OF d(4,6) p(2)]) (use p(3) False in \<open>simp add: follows_def\<close>)
  moreover have "thread s' i = Some ?t" using d(4,6) p(1) by (simp add: thread_def)
  ultimately show ?thesis using d False by (intro exI [of _ s'] exI [of _ ?t]) simp
qed

lemma cancel_effect:
  assumes ok: "wut_ok s" "marks_ok s" and t: "thread s i = Some t" "alive t" "i \<noteq> CURRENT_RUNNING_THREAD_ID s"
    and ne: "cancel_errno t s = None"
  shows "\<exists>s' t'. wut_cancel i s = Inr (0, s') \<and> wf_slots s' \<and> wf_nodes s' \<and> (\<exists>p. slot s i = Some p \<and> keeps {p} s s') \<and>
    CURRENT_RUNNING_THREAD_ID s' = CURRENT_RUNNING_THREAD_ID s \<and>
    ready s' = (if t_block t = 1 then ready s else remove1 i (ready s)) @
      (if t_join t = 1 then [t_join_from t] else []) \<and>
    stacks s' = (if t_block t = 1 then stacks s else stacks s - set_option (t_stack t)) \<and>
    thread s' i = Some t' \<and> t_status t' = 128 \<and>
    (t_block t = 1 \<longrightarrow> t_ucontext t' = t_ucontext t \<and> released s t s')"
proof -
  let ?c = "CURRENT_RUNNING_THREAD_ID s" let ?t = "t\<lparr>t_status := 128\<rparr>"
  have o: "wf_slots s" "wf_nodes s" "wf_rest {?c} s" using ok(1) by (simp_all add: wut_ok_def)
  obtain p where p: "slot s i = Some p" "tcbs s p = Some t" using thread_slot [OF t(1)] by blast
  let ?s1 = "put p ?t s"
  note run = wut_cancel_run [OF ok(1) t p]
  have id: "t_id t = i" by (rule thread_id [OF o(1) t(1)])
  have wf1: "wf_slots ?s1" "wf_nodes ?s1" using wf_put [OF o(1) p(2)] wf_nodes_put [OF o(2) p(2)] by simp_all
  have k1: "keeps {p} s ?s1" using t(2) by (intro keeps_put [OF p(2)]) (simp add: follows_def)
  have mark: "slot s (t_join_to t) \<noteq> None \<and> t_join_to t \<noteq> i" if "t_block t = 1"
    using ok(2) p(2) that id unfolding marks_ok_def by metis
  have same1: "stacks ?s1 = stacks s" "next_errno ?s1 = next_errno s"
    by (simp_all add: put_def next_errno_def)
  have th1: "thread ?s1 j = thread s j" if "j \<noteq> i" for j
    using thread_put_slot [OF o(1) p(1)] that by simp
  have queued: "i \<in> set (ready s) \<and> next_errno s = None" if "t_block t \<noteq> 1"
  proof -
    have "i \<in> set (ready s) \<or> (\<exists>j. waits_on s i t j)"
      using o(3) t unfolding wf_rest_def rest_live_def by blast
    then show ?thesis using that ne by (auto simp: waits_on_def cancel_errno_def)
  qed
  show ?thesis
  proof (cases "t_join t = 1")
    case False
    obtain s' t' where d: "cancel_detach (Some p) ?s1 = Inr s'" "wf_slots s'" "wf_nodes s'" "keeps {p} ?s1 s'"
      "CURRENT_RUNNING_THREAD_ID s' = ?c" "ready s' = (if t_block t = 1 then ready s else remove1 i (ready s))"
      "stacks s' = (if t_block t = 1 then stacks s else stacks s - set_option (t_stack t))"
      "thread s' i = Some t'" "t_status t' = 128" "t_block t = 1 \<longrightarrow> t_ucontext t' = t_ucontext t \<and> released ?s1 ?t s'"
      using detach_effect [OF wf1, of i p ?t] p mark queued same1 by auto
    have "t_block t = 1 \<longrightarrow> released s t s'"
      using d(10) mark released_before [of ?s1 ?t s' t s] th1 by auto
    then show ?thesis
      using d run False p(1) keeps_trans [OF k1 d(4)] by (intro exI [of _ s'] exI [of _ t']) simp
  next
    case True
    let ?k = "t_join_from t"
    obtain w where w: "?k \<notin> set (ready s)" "?k \<noteq> i" "thread s ?k = Some w"
      by (rule joiner_waits [OF o(3) t(1,2)]) (use True in auto)
    obtain r where r: "slot s ?k = Some r" "tcbs s r = Some w" using thread_slot [OF w(3)] by blast
    have rp: "r \<noteq> p" using slot_inj [OF o(1) r(1)] p(1) w(2) by blast
    have out: "outside ?s1 ?k r w" using wf1 r rp w(1) by (simp add: outside_def)
    note V = wake_view [OF out]
    let ?s2 = "woken r (enqueue r ?k ?s1)"
    have st2: "stacks ?s2 = stacks s" by (simp add: woken_def enqueue_def put_def Let_def)
    have "keeps {p} ?s1 ?s2"
      by (rule keeps_change [OF V(3,5)]) (use r rp in \<open>auto simp: follows_def\<close>)
    then have k2: "keeps {p} s ?s2" by (rule keeps_trans [OF k1])
    have p2: "slot ?s2 i = Some p" "tcbs ?s2 p = Some ?t" using V(3,5) p rp by simp_all
    obtain s' t' where d: "cancel_detach (Some p) ?s2 = Inr s'" "wf_slots s'" "wf_nodes s'" "keeps {p} ?s2 s'"
      "CURRENT_RUNNING_THREAD_ID s' = ?c"
      "ready s' = (if t_block t = 1 then ready s @ [?k] else remove1 i (ready s @ [?k]))"
      "stacks s' = (if t_block t = 1 then stacks s else stacks s - set_option (t_stack t))"
      "thread s' i = Some t'" "t_status t' = 128" "t_block t = 1 \<longrightarrow> t_ucontext t' = t_ucontext t \<and> released ?s2 ?t s'"
      using detach_effect [OF V(1,2) p2] mark queued V(3,4,6,7) st2 same1(2) by auto
    have "ready s' = (if t_block t = 1 then ready s else remove1 i (ready s)) @ [?k]"
      using d(6) queued by (auto simp: remove1_append)
    moreover have "map_option (\<lambda>v. (t_status v, t_enable v)) (thread ?s2 j) =
        map_option (\<lambda>v. (t_status v, t_enable v)) (thread ?s1 j)" for j
      unfolding thread_def V(3,5) using r(2) rp by (auto split: option.splits)
    then have "t_block t = 1 \<longrightarrow> released s t s'"
      using d(10) mark released_before [of ?s2 ?t s' t s] th1 by auto
    ultimately show ?thesis
      using d run True p(1) cancel_wake_enqueue [OF out] keeps_trans [OF k2 d(4)]
      by (intro exI [of _ s'] exI [of _ t']) simp
  qed
qed

section \<open>Switching to the head of the queue\<close>

lemma resume_runs:
  assumes "thread s i = Some t" "t_ucontext t = Some c" "runnable s c"
  shows "\<exists>ev s'. setcontext (slot s i) (run_next i s) = Inr (ev, s') \<and> resumed s i ev s'"
proof -
  obtain p where p: "slot s i = Some p" "tcbs s p = Some t" using thread_slot [OF assms(1)] by blast
  show ?thesis
  proof (cases c)
    case (In_join j)
    with assms(3) obtain u where u: "tcbs s j = Some u" "\<not> alive u" by (auto simp: runnable_def)
    then show ?thesis using assms p In_join by (simp add: setcontext_def resumed_def)
  qed (use assms p in \<open>simp_all add: setcontext_def resumed_def runnable_def\<close>)
qed

text \<open>\<open>wut_yield\<close> runs the head of the queue if its context can run, whatever else is wrong.\<close>

lemma yield_runs:
  assumes out: "outside s (CURRENT_RUNNING_THREAD_ID s) p t" and c: "t_ucontext t \<noteq> None"
    and r: "ready s = i # is" and x: "thread s i = Some x" "t_ucontext x = Some k" "runnable s k" and al: "alive t"
  shows "\<exists>ev s'. wut_yield s = Inr (ev, s') \<and> CURRENT_RUNNING_THREAD_ID s' = i"
proof -
  note Y = yield_exec [OF out c r]
  have "i \<noteq> CURRENT_RUNNING_THREAD_ID s" using out r by (auto simp: outside_def)
  then have "thread (yielded s) i = Some x" using Y(4) x(1) by simp
  moreover have "tcbs s p = Some t" using out by (simp add: outside_def)
  then have "runnable (yielded s) k"
    using al by (intro runnable_frame [OF x(3)]) (auto simp: Y(6))
  ultimately obtain ev s' where "setcontext (slot (yielded s) i) (run_next i (yielded s)) = Inr (ev, s')"
      "resumed (yielded s) i ev s'" using resume_runs x(2) by blast
  then show ?thesis using Y(1) resumed_view(1) by auto
qed

end
