(* ===== verification/WutProps.thy ===== *)
theory WutProps
  imports WutFrame
begin

text \<open>
  The properties of the thread library: safety of every reachable state, the scheduling order, what
  each call returns, and the runs on which the library goes wrong.
\<close>

section \<open>Reachable states\<close>

text \<open>\<open>wut_init\<close> succeeds unless \<open>mmap\<close> fails; the state it leaves satisfies the invariant.\<close>

lemma wut_init_fails: "errors 0 = Some err \<Longrightarrow> wut_init (wut_start errors) = Inl (Process_exit err)"
  by (simp add: wut_init_def wut_start_def new_stack_eq next_errno_def Let_def)

lemma wut_init_ok:
  assumes "wut_init (wut_start errors) = Inr s0"
  shows "wut_ok s0"
proof -
  let ?s = s0
  have ne: "errors 0 = None" using assms wut_init_fails [of errors] by (cases "errors 0") auto
  let ?t = "\<lparr>t_id = 0, t_status = -1, t_join = 0, t_join_from = -1, t_join_to = -1, t_block = 0,
            t_enable = 1, t_thread_in_q = None, t_stack = None, t_ucontext = Some Fresh_main\<rparr>"
  have f: "tcbs ?s = [0 \<mapsto> ?t]" "nodes ?s = (\<lambda>_. None)" "next_tcb ?s = 1" "Q_head ?s = []"
    "TCB_ARRAY ?s = (replicate 256 None)[0 := Some 0]" "MAX_THREAD_NUM ?s = 256" "THREAD_NUM ?s = 1"
    "CURRENT_RUNNING_THREAD_ID ?s = 0"
    using assms ne
    by (auto simp: wut_init_def wut_start_def new_stack_eq with_stack_def next_errno_def Let_def)
  have sl: "slot ?s = [0 \<mapsto> 0]"
  proof
    fix i show "slot ?s i = [0 \<mapsto> 0] i"
      by (cases "i = 0") (auto simp: slot_def f nth_list_update)
  qed
  have th: "thread ?s = [0 \<mapsto> ?t]" by (rule ext) (simp add: thread_def sl f)
  have "wf_slots ?s" unfolding wf_slots_def f sl by simp
  moreover have "wf_nodes ?s" unfolding wf_nodes_def f th by simp
  moreover have "ready ?s = []" by (simp add: ready_def f)
  ultimately show ?thesis
    by (simp add: wut_ok_def wf_rest_def rest_defs th f)
qed

text \<open>
  Four uses of the calls break the library: a join of an id whose slot is empty, a join with nobody
  left to run, a cancel of the id one past the array, and an explicit \<open>wut_exit\<close> of a created thread
  when no other thread can run; \<open>cancel_safe\<close> excludes the cancellations that corrupt the scheduler.
  \<open>call_ok\<close> is the complement.
\<close>

definition last_thread :: "wut_state \<Rightarrow> bool" where
  "last_thread s \<longleftrightarrow> ready s = [] \<and>
     (case thread s (wut_id s) of None \<Rightarrow> True | Some t \<Rightarrow> t_join t \<noteq> 1)"

fun call_ok :: "wut_state \<Rightarrow> wut_call \<Rightarrow> bool" where
  "call_ok s (Join j) \<longleftrightarrow> j < 0 \<or> j = wut_id s \<or> THREAD_NUM s \<le> j \<or>
     (case thread s j of None \<Rightarrow> False | Some u \<Rightarrow> \<not> alive u \<or> t_join u = 1 \<or> ready s \<noteq> [])"
| "call_ok s (Cancel i) \<longleftrightarrow> i \<noteq> MAX_THREAD_NUM s \<and> cancel_safe s i"
| "call_ok s (Exit v) \<longleftrightarrow> last_thread s \<longrightarrow> running_stack s = Inr None"
| "call_ok s c \<longleftrightarrow> True"

inductive reachable :: "wut_state \<Rightarrow> bool" where
  start: "wut_init (wut_start errors) = Inr s \<Longrightarrow> reachable s"
| call: "reachable s \<Longrightarrow> call_ok s c \<Longrightarrow> wut_step c s = Inr (ev, s') \<Longrightarrow> reachable s'"

inductive_cases reachable_callE: "reachable s"

lemma running_stack_ok:
  assumes "wut_ok s"
  obtains t where "thread s (wut_id s) = Some t" "running_stack s = Inr (t_stack t)"
proof -
  let ?c = "CURRENT_RUNNING_THREAD_ID s"
  obtain p t where "slot s ?c = Some p" "tcbs s p = Some t" "thread s ?c = Some t"
    by (rule wut_okD [OF assms])
  then show ?thesis using that [of t] by (simp add: running_stack_def wut_id_def array_at_slot)
qed

lemma last_thread_finished: "wut_ok s \<Longrightarrow> last_thread s \<longleftrightarrow> ready (finished v s) = []"
  using finished_ok [of s v None] by (auto simp: last_thread_def wut_id_def)

text \<open>The last thread ends the process, unless the code is running on a stack it frees.\<close>

lemma wut_exit_last:
  assumes "wut_ok s" "last_thread s"
  shows "\<exists>e. wut_exit None v s = Inl e \<and> (e = Process_exit 0 \<or> sys_failure s e)"
    and "running_stack s = Inr (Some a) \<Longrightarrow>
      \<exists>e. wut_exit (Some a) v s = Inl e \<and> (e = Stack_unmapped \<or> sys_failure s e)"
proof -
  have r: "ready (finished v s) = []" using assms last_thread_finished by blast
  show "\<exists>e. wut_exit None v s = Inl e \<and> (e = Process_exit 0 \<or> sys_failure s e)"
    using wut_exit_ok [OF assms(1), of None v] r by (auto simp: owns_def)
  assume a: "running_stack s = Inr (Some a)"
  obtain t where t: "thread s (wut_id s) = Some t" "running_stack s = Inr (t_stack t)"
    by (rule running_stack_ok [OF assms(1)])
  let ?c = "CURRENT_RUNNING_THREAD_ID s"
  obtain p where p: "slot s ?c = Some p" "tcbs s p = Some t" using t(1) thread_slot unfolding wut_id_def by blast
  have "t_join t \<noteq> 1" using assms(2) t(1) by (simp add: last_thread_def)
  then have "finished v s = put p (t\<lparr>t_status := v AND 0xFF\<rparr>) s"
    using p by (simp add: finished_def Let_def)
  moreover have "t_stack t = Some a" using a t(2) by simp
  ultimately have "owns (Some a) (finished v s) ?c" using p by (simp add: owns_def thread_def)
  then show "\<exists>e. wut_exit (Some a) v s = Inl e \<and> (e = Stack_unmapped \<or> sys_failure s e)"
    using wut_exit_ok [OF assms(1), of "Some a" v] r by auto
qed

lemma exit_step:
  assumes "wut_ok s" "last_thread s \<longrightarrow> on = None"
  shows "outcome (\<lambda>e. (e = Process_exit 0 \<or> sys_failure s e) \<and> last_thread s) (\<lambda>(ev, s'). wut_ok s')
    (wut_exit on v s)"
proof (cases "ready (finished v s)")
  case Nil
  then have "last_thread s" using last_thread_finished [OF assms(1)] by blast
  with wut_exit_last(1) [OF assms(1), of v] assms(2) show ?thesis by auto
next
  case (Cons i "is")
  with wut_exit_ok [OF assms(1), of on v] show ?thesis by auto
qed

lemma cancel_step:
  assumes "wut_ok s" "call_ok s (Cancel i)"
  shows "outcome (sys_failure s) (\<lambda>(ev, s'). wut_ok s') (wut_step (Cancel i) s)"
proof (cases "i < 0 \<or> i = CURRENT_RUNNING_THREAD_ID s \<or> THREAD_NUM s < i \<or>
    i < MAX_THREAD_NUM s \<and> (case thread s i of None \<Rightarrow> True | Some t \<Rightarrow> \<not> alive t)")
  case True
  with wut_cancel_refused [OF assms(1) True] assms(1) show ?thesis by (simp add: wut_step_def)
next
  case False
  have "i < MAX_THREAD_NUM s" using assms False by (auto simp: wut_ok_def wf_slots_def)
  with False obtain t where t: "thread s i = Some t" "alive t" by (auto split: option.splits)
  show ?thesis
  proof (cases "cancel_errno t s")
    case None
    with wut_cancel_ok [OF assms(1) t] False assms(2) show ?thesis by (auto simp: wut_step_def)
  next
    case (Some err)
    then have "sys_failure s (Process_exit err)"
      by (intro sys_failure_now) (simp add: cancel_errno_def split: if_splits)
    with wut_cancel_fails [OF assms(1) t _ Some] False show ?thesis by (simp add: wut_step_def)
  qed
qed

lemma create_step:
  assumes "wut_ok s"
  shows "outcome (sys_failure s) (\<lambda>(ev, s'). wut_ok s') (wut_step (Create run) s)"
proof (cases "next_errno s")
  case None
  with wut_create_ok [OF assms, of run] show ?thesis by (auto simp: wut_step_def)
next
  case (Some err)
  with wut_create_fails [of s err run] sys_failure_now [OF Some] assms show ?thesis
    by (simp add: wut_step_def wut_ok_def)
qed

lemma join_step:
  assumes "wut_ok s" "call_ok s (Join j)"
  shows "outcome (\<lambda>e. False) (\<lambda>(ev, s'). wut_ok s') (wut_step (Join j) s)"
proof (cases "j < 0 \<or> j = CURRENT_RUNNING_THREAD_ID s \<or> THREAD_NUM s \<le> j")
  case True
  with wut_join_refused(1) [OF assms(1)] assms(1) show ?thesis by (simp add: wut_step_def)
next
  case False
  with assms(2) obtain u where u: "thread s j = Some u" "\<not> alive u \<or> t_join u = 1 \<or> ready s \<noteq> []"
    by (auto simp: wut_id_def split: option.splits)
  show ?thesis
  proof (cases "\<not> alive u \<or> t_join u = 1")
    case True
    with wut_join_refused(3) [OF assms(1) u(1)] False assms(1) show ?thesis by (simp add: wut_step_def)
  next
    case unfinished: False
    with u(2) obtain i "is" where r: "ready s = i # is" by (cases "ready s") auto
    have "case ready s of [] \<Rightarrow> wut_join j s = Inl Null_deref
        | i # is \<Rightarrow> \<exists>ev s'. wut_join j s = Inr (ev, s') \<and> resumed (joined j s) i ev s' \<and> wut_ok s'"
      by (rule wut_join_ok [OF assms(1) u(1)]) (use unfinished False in auto)
    with r show ?thesis by (auto simp: wut_step_def)
  qed
qed

lemma yield_step:
  assumes "wut_ok s"
  shows "outcome (\<lambda>e. False) (\<lambda>(ev, s'). wut_ok s') (wut_step Yield s)"
  using wut_yield_ok [OF assms] assms by (cases "ready s") (auto simp: wut_step_def)

lemma wut_step_ok:
  assumes "wut_ok s" "call_ok s c"
  shows "outcome (\<lambda>e. e = Process_exit 0 \<and> c \<in> range Exit \<union> {Return} \<and> last_thread s \<or>
      e = Main_returned \<and> c = Return \<and> running_stack s = Inr None \<or>
      sys_failure s e \<and> (c \<in> range Create \<union> range Cancel \<or> c \<in> range Exit \<union> {Return} \<and> last_thread s))
    (\<lambda>(ev, s'). wut_ok s') (wut_step c s)"
proof -
  obtain t where t: "thread s (wut_id s) = Some t" "running_stack s = Inr (t_stack t)"
    by (rule running_stack_ok [OF assms(1)])
  show ?thesis
  proof (cases c)
    case (Create run)
    with create_step [OF assms(1), of run] show ?thesis by (auto elim: outcome_mono)
  next
    case (Cancel i)
    with cancel_step [OF assms(1), of i] assms(2) show ?thesis by (auto elim: outcome_mono)
  next
    case (Join j)
    with join_step [OF assms(1)] assms(2) show ?thesis by (cases "wut_step (Join j) s") fastforce+
  next
    case Yield
    with yield_step [OF assms(1)] show ?thesis by (cases "wut_step Yield s") auto
  next
    case (Exit v)
    with assms(2) t(2) have "last_thread s \<longrightarrow> t_stack t = None" by simp
    from exit_step [OF assms(1) this, of v] Exit t(2) show ?thesis
      by (auto simp: wut_step_def elim: outcome_mono)
  next
    case Return
    with exit_step [OF assms(1), of None 0] t(2) show ?thesis
      by (auto simp: wut_step_def elim: outcome_mono)
  qed
qed

lemma reachable_ok: "reachable s \<Longrightarrow> wut_ok s"
proof (induction rule: reachable.induct)
  case start
  then show ?case by (rule wut_init_ok)
next
  case (call s c ev s')
  with wut_step_ok [of s c] show ?case by simp
qed

text \<open>
  C3: Safety. In every state reached from \<open>wut_init\<close> by permitted calls, any further permitted call
  runs without dereferencing a null or freed pointer, without a double \<open>free\<close>, without corrupting
  the queue, leaving the array or unmapping the stack in use: it returns or switches to a state that
  is again reachable, or it is the exit of the last runnable thread and ends the process with status
  0, or it is the return of \<open>main\<close>, or \<open>mmap\<close> or \<open>munmap\<close> fails and the process ends with its \<open>errno\<close>; only
  a create, a cancel and the exit of the last thread make such calls.
\<close>

theorem wut_safety:
  assumes "reachable s" "call_ok s c"
  shows "(\<exists>ev s'. wut_step c s = Inr (ev, s') \<and> reachable s') \<or>
    wut_step c s = Inl (Process_exit 0) \<and> c \<in> range Exit \<union> {Return} \<and> last_thread s \<or>
    wut_step c s = Inl Main_returned \<and> c = Return \<and> running_stack s = Inr None \<or>
    (\<exists>e. wut_step c s = Inl e \<and> sys_failure s e \<and>
      (c \<in> range Create \<union> range Cancel \<or> c \<in> range Exit \<union> {Return} \<and> last_thread s))"
proof (cases "wut_step c s")
  case (Inl e)
  with wut_step_ok [OF reachable_ok [OF assms(1)] assms(2)] show ?thesis by auto
next
  case (Inr r)
  then show ?thesis using reachable.call [OF assms] by (cases r) blast
qed

text \<open>The state after \<open>wut_init\<close> where no system call fails.\<close>

definition initialised :: wut_state where
  "initialised = (case wut_init (wut_start (\<lambda>_. None)) of Inl e \<Rightarrow> wut_start (\<lambda>_. None) | Inr s \<Rightarrow> s)"

lemma initialised_init: "wut_init (wut_start (\<lambda>_. None)) = Inr initialised"
  by (simp add: initialised_def wut_init_def wut_start_def new_stack_eq next_errno_def Let_def)

lemma reachable_initialised: "reachable initialised"
  by (rule reachable.start [OF initialised_init])

lemma no_failure: "sys_errno s = (\<lambda>_. None) \<Longrightarrow> \<not> sys_failure s e" "sys_errno s = (\<lambda>_. None) \<Longrightarrow> next_errno s = None"
  by (simp_all add: sys_failure_def next_errno_def)

lemma initialised_env: "sys_errno initialised = (\<lambda>_. None)"
  by (simp add: initialised_def wut_init_def wut_start_def new_stack_eq with_stack_def next_errno_def Let_def)

theorem wut_safety_witness:
  "\<exists>ev s'. wut_step (Create 7) initialised = Inr (ev, s') \<and> reachable s'"
proof -
  have "Create 7 \<notin> range Exit \<union> {Return}" by auto
  with wut_safety [OF reachable_initialised, of "Create 7"] no_failure(1) [OF initialised_env] show ?thesis by auto
qed

section \<open>Runs\<close>

text \<open>A run of permitted calls and the state it ends in.\<close>

fun permitted :: "wut_call list \<Rightarrow> wut_state \<Rightarrow> bool" where
  "permitted [] s \<longleftrightarrow> True"
| "permitted (c # cs) s \<longleftrightarrow> call_ok s c \<and>
     (case wut_step c s of Inl e \<Rightarrow> False | Inr (ev, s') \<Rightarrow> permitted cs s')"

fun wut_after :: "wut_call list \<Rightarrow> wut_state \<Rightarrow> wut_state" where
  "wut_after [] s = s"
| "wut_after (c # cs) s = (case wut_step c s of Inl e \<Rightarrow> s | Inr (ev, s') \<Rightarrow> wut_after cs s')"

lemma reachable_after: "reachable s \<Longrightarrow> permitted cs s \<Longrightarrow> reachable (wut_after cs s)"
proof (induction cs arbitrary: s)
  case (Cons c cs)
  obtain ev s1 where "wut_step c s = Inr (ev, s1)" "permitted cs s1" "call_ok s c"
    using Cons.prems(2) by (auto split: sum.splits)
  with Cons.IH [of s1] reachable.call [OF Cons.prems(1)] show ?case by simp
qed simp

lemma permitted_snoc:
  assumes "permitted (cs @ [c]) s"
  obtains ev s' where "permitted cs s" "call_ok (wut_after cs s) c" "wut_step c (wut_after cs s) = Inr (ev, s')"
    "wut_after (cs @ [c]) s = s'"
  using assms
proof (induction cs arbitrary: s thesis)
  case Nil
  then show ?case by (auto split: sum.splits)
next
  case (Cons d cs)
  obtain ev s1 where d: "wut_step d s = Inr (ev, s1)" "permitted (cs @ [c]) s1" "call_ok s d"
    using Cons.prems(2) by (auto split: sum.splits)
  show ?case by (rule Cons.IH [OF _ d(2)]) (use Cons.prems(1) d in auto)
qed

text \<open>What a permitted call leaves alone.\<close>

lemma cancel_keeps:
  assumes "wut_ok s" "marks_ok s" "call_ok s (Cancel i)" "wut_cancel i s = Inr (v, s')"
  shows "s' = s \<or> (\<exists>p t'. keeps {p} s s' \<and> tcbs s' p = Some t' \<and> \<not> alive t')"
proof (cases "i < 0 \<or> i = CURRENT_RUNNING_THREAD_ID s \<or> THREAD_NUM s < i \<or>
    i < MAX_THREAD_NUM s \<and> (case thread s i of None \<Rightarrow> True | Some t \<Rightarrow> \<not> alive t)")
  case True
  with wut_cancel_refused [OF assms(1) True] assms(4) show ?thesis by simp
next
  case False
  have "i < MAX_THREAD_NUM s" using assms(1,3) False by (auto simp: wut_ok_def wf_slots_def)
  with False obtain t where t: "thread s i = Some t" "alive t" by (auto split: option.splits)
  have "cancel_errno t s = None"
    using wut_cancel_fails [OF assms(1) t] False assms(4) by (cases "cancel_errno t s") auto
  then obtain p t' where p: "slot s i = Some p" "keeps {p} s s'" "thread s' i = Some t'" "t_status t' = 128"
    using cancel_effect [OF assms(1,2) t] False assms(4) by auto
  then have "tcbs s' p = Some t'" by (simp add: keeps_def thread_def)
  with p show ?thesis by (intro disjI2 exI [of _ p] exI [of _ t']) simp
qed

lemma switch_keeps:
  assumes "keeps {p} s x" "resumed x i ev s'"
  shows "keeps {p} s s'"
  using assms keeps_trans resumed_keeps by blast

lemma join_keeps:
  assumes "wut_ok s" "call_ok s (Join j)" "wut_join j s = Inr (ev, s')" "slot s (wut_id s) = Some p"
  shows "keeps {p} s s'"
proof (cases "j < 0 \<or> j = CURRENT_RUNNING_THREAD_ID s \<or> THREAD_NUM s \<le> j")
  case True
  with wut_join_refused(1) [OF assms(1)] assms(3) show ?thesis by (simp add: keeps_same)
next
  case False
  with assms(2) obtain u where u: "thread s j = Some u" "\<not> alive u \<or> t_join u = 1 \<or> ready s \<noteq> []"
    by (auto simp: wut_id_def split: option.splits)
  show ?thesis
  proof (cases "\<not> alive u \<or> t_join u = 1")
    case True
    with wut_join_refused(3) [OF assms(1) u(1)] False assms(3) show ?thesis by (simp add: keeps_same)
  next
    case unfinished: False
    with u(2) obtain i "is" where "ready s = i # is" by (cases "ready s") auto
    then have r: "resumed (joined j s) i ev s'"
      using wut_join_ok [OF assms(1) u(1)] unfinished False assms(3) by auto
    obtain q where q: "slot s j = Some q" "tcbs s q = Some u" using thread_slot [OF u(1)] by blast
    obtain p0 t where o: "wf_slots s" "slot s (CURRENT_RUNNING_THREAD_ID s) = Some p0" "tcbs s p0 = Some t"
      "t_id t = CURRENT_RUNNING_THREAD_ID s" by (rule wut_okD [OF assms(1)])
    then have p: "p0 = p" using assms(4) by (simp add: wut_id_def)
    have "p \<noteq> q" using slot_inj [OF o(1) _ q(1)] assms(4) False by (auto simp: wut_id_def)
    then have "keeps {p} s (joined j s)"
      using joined_keeps [OF assms(4) _ _ q] o p False by (simp add: wut_id_def)
    then show ?thesis using r by (rule switch_keeps)
  qed
qed

lemma exit_keeps:
  assumes "wut_ok s" "wut_exit on v s = Inr (ev, s')" "slot s (wut_id s) = Some p"
  shows "keeps {p} s s'"
proof -
  let ?c = "CURRENT_RUNNING_THREAD_ID s"
  obtain p0 t where o: "wf_rest {?c} s" "slot s ?c = Some p0" "tcbs s p0 = Some t" "thread s ?c = Some t" "alive t"
    by (rule wut_okD [OF assms(1)])
  then have p: "p0 = p" using assms(3) by (simp add: wut_id_def)
  have "\<exists>k w. slot s (t_join_from t) = Some k \<and> tcbs s k = Some w" if j: "t_join t = 1"
  proof -
    obtain w where "thread s (t_join_from t) = Some w"
      by (rule joiner_waits [OF o(1,4,5)]) (use j in auto)
    then show ?thesis using thread_slot by blast
  qed
  then have "keeps {p} s (finished v s)" using finished_keeps [OF assms(3)] o p by blast
  moreover obtain i where "resumed (finished v s) i ev s'"
    using wut_exit_ok [OF assms(1), of on v] assms(2) by (cases "ready (finished v s)") auto
  ultimately show ?thesis by (rule switch_keeps)
qed

lemma step_keeps:
  assumes "wut_ok s" "marks_ok s" "call_ok s c" "wut_step c s = Inr (ev, s')"
  shows "(\<exists>p. keeps {p} s s' \<and> (slot s (wut_id s) = Some p \<or> (\<exists>t'. tcbs s' p = Some t' \<and> \<not> alive t'))) \<or>
    (\<exists>run i. created run s i s')"
proof -
  let ?c = "CURRENT_RUNNING_THREAD_ID s"
  obtain p t where o: "slot s (wut_id s) = Some p" "tcbs s p = Some t"
    by (rule wut_okD [OF assms(1)]) (simp add: wut_id_def)
  have same: "keeps {p} s s" by (simp add: keeps_same)
  show ?thesis
  proof (cases c)
    case (Create run)
    then obtain i where i: "wut_create run s = Inr (i, s')" using assms(4) by (auto simp: wut_step_def result_simps)
    then have "next_errno s = None"
      using wut_create_fails [of s _ run] assms(1) by (cases "next_errno s") (auto simp: wut_ok_def)
    with wut_create_ok [OF assms(1) this, of run] i show ?thesis by auto
  next
    case (Cancel i)
    then obtain v where "wut_cancel i s = Inr (v, s')" using assms(4) by (auto simp: wut_step_def result_simps)
    with cancel_keeps [OF assms(1,2)] assms(3) Cancel o(1) same show ?thesis by blast
  next
    case (Join j)
    then have "keeps {p} s s'" using join_keeps [OF assms(1) _ _ o(1)] assms(3,4) by (simp add: wut_step_def)
    then show ?thesis using o(1) by blast
  next
    case Yield
    then have y: "wut_yield s = Inr (ev, s')" using assms(4) by (simp add: wut_step_def)
    have "keeps {p} s s'"
    proof (cases "ready s")
      case Nil
      then show ?thesis using wut_yield_ok [OF assms(1)] y same by simp
    next
      case (Cons i "is")
      then have "resumed (yielded s) i ev s'" using wut_yield_ok [OF assms(1)] y by simp
      with yielded_keeps [OF o] show ?thesis by (rule switch_keeps)
    qed
    then show ?thesis using o(1) by blast
  next
    case (Exit v)
    then have "keeps {p} s s'" using exit_keeps [OF assms(1) _ o(1)] assms(4) by (auto simp: wut_step_def result_simps)
    then show ?thesis using o(1) by blast
  next
    case Return
    then have "keeps {p} s s'" using exit_keeps [OF assms(1) _ o(1)] assms(4)
      by (auto simp: wut_step_def result_simps split: if_splits)
    then show ?thesis using o(1) by blast
  qed
qed

lemma step_marks:
  assumes "wut_ok s" "marks_ok s" "call_ok s c" "wut_step c s = Inr (ev, s')"
  shows "marks_ok s'"
  using step_keeps [OF assms] marks_keeps [OF assms(2)] marks_created [OF assms(2)] by blast

lemma reachable_marks: "reachable s \<Longrightarrow> marks_ok s"
proof (induction rule: reachable.induct)
  case (start errors s)
  let ?t = "\<lparr>t_id = 0, t_status = -1, t_join = 0, t_join_from = -1, t_join_to = -1, t_block = 0,
            t_enable = 1, t_thread_in_q = None, t_stack = None, t_ucontext = Some Fresh_main\<rparr>"
  have "errors 0 = None" using start wut_init_fails [of errors] by (cases "errors 0") auto
  then have "tcbs s = [0 \<mapsto> ?t]"
    using start by (auto simp: wut_init_def wut_start_def new_stack_eq with_stack_def next_errno_def Let_def)
  then show ?case by (simp add: marks_ok_def)
next
  case (call s c ev s')
  then show ?case using step_marks [OF reachable_ok] by blast
qed

text \<open>The same as frame conditions on the control block of a thread.\<close>

lemma step_frame:
  assumes "reachable s" "call_ok s c" "wut_step c s = Inr (ev, s')"
  shows "tcbs s p = Some t \<Longrightarrow> \<exists>t'. tcbs s' p = Some t' \<and> (\<not> alive t \<longrightarrow> t_status t' = t_status t)"
    and "slot s i = Some p \<Longrightarrow> tcbs s p = Some t \<Longrightarrow> alive t \<Longrightarrow> slot s' i = Some p"
    and "slot s i = Some p \<Longrightarrow> tcbs s p = Some t \<Longrightarrow> i \<noteq> wut_id s \<Longrightarrow> tcbs s' p = Some t' \<Longrightarrow> alive t' \<Longrightarrow>
      t_ucontext t' = t_ucontext t"
proof -
  have ok: "wut_ok s" by (rule reachable_ok [OF assms(1)])
  then have wf: "wf_slots s" by (simp add: wut_ok_def)
  consider p0 where "keeps {p0} s s'" "slot s (wut_id s) = Some p0 \<or> (\<exists>t'. tcbs s' p0 = Some t' \<and> \<not> alive t')"
    | run k where "created run s k s'"
    using step_keeps [OF ok reachable_marks [OF assms(1)] assms(2,3)] by blast
  then have "(tcbs s p = Some t \<longrightarrow> (\<exists>t'. tcbs s' p = Some t' \<and> (\<not> alive t \<longrightarrow> t_status t' = t_status t))) \<and>
    (slot s i = Some p \<longrightarrow> tcbs s p = Some t \<longrightarrow> alive t \<longrightarrow> slot s' i = Some p) \<and>
    (slot s i = Some p \<longrightarrow> tcbs s p = Some t \<longrightarrow> i \<noteq> wut_id s \<longrightarrow> tcbs s' p = Some t' \<longrightarrow> alive t' \<longrightarrow>
      t_ucontext t' = t_ucontext t)"
  proof cases
    case 1
    have sl: "slot s' = slot s" using 1(1) by (simp add: keeps_def)
    have f: "\<exists>t''. tcbs s' p = Some t'' \<and> follows s {p0} p t t''" if "tcbs s p = Some t"
      by (rule keepsD [OF 1(1) that]) blast
    have other: "p \<noteq> p0" if h: "slot s i = Some p" "i \<noteq> wut_id s" "tcbs s' p = Some t'" "alive t'"
    proof
      assume p: "p = p0"
      from 1(2) show False
      proof
        assume "slot s (wut_id s) = Some p0"
        then show False using slot_inj [OF wf h(1)] p h(2) by blast
      qed (use p h(3,4) in auto)
    qed
    have ctx: "t_ucontext t' = t_ucontext t"
      if h: "slot s i = Some p" "tcbs s p = Some t" "i \<noteq> wut_id s" "tcbs s' p = Some t'" "alive t'"
      using f [OF h(2)] other [OF h(1,3,4,5)] h(4) by (auto simp: follows_def)
    have "tcbs s p = Some t \<longrightarrow> (\<exists>t'. tcbs s' p = Some t' \<and> (\<not> alive t \<longrightarrow> t_status t' = t_status t))"
      using f by (auto simp: follows_def)
    then show ?thesis using sl ctx by simp
  next
    case 2
    note C = 2 [unfolded created_def]
    have same: "tcbs s' p = Some t" if "tcbs s p = Some t"
    proof -
      have "p < next_tcb s" using wf that by (auto simp: wf_slots_def)
      then show ?thesis using C that by (metis less_irrefl)
    qed
    moreover have "slot s' i = Some p" if "slot s i = Some p" "tcbs s p = Some t" "alive t"
    proof -
      have "\<not> reusable s i" using that by (simp add: reusable_def thread_def)
      then have "i \<noteq> k" using C by auto
      moreover have "slot s' = (slot s)(k := Some (next_tcb s))" using C by blast
      ultimately show ?thesis using that(1) by simp
    qed
    ultimately show ?thesis by auto
  qed
  then show "tcbs s p = Some t \<Longrightarrow> \<exists>t'. tcbs s' p = Some t' \<and> (\<not> alive t \<longrightarrow> t_status t' = t_status t)"
    "slot s i = Some p \<Longrightarrow> tcbs s p = Some t \<Longrightarrow> alive t \<Longrightarrow> slot s' i = Some p"
    "slot s i = Some p \<Longrightarrow> tcbs s p = Some t \<Longrightarrow> i \<noteq> wut_id s \<Longrightarrow> tcbs s' p = Some t' \<Longrightarrow> alive t' \<Longrightarrow>
      t_ucontext t' = t_ucontext t" by blast+
qed

section \<open>The order in which threads run\<close>

text \<open>The running thread and the queue behind it, and the recorded status of a thread.\<close>

definition ring :: "wut_state \<Rightarrow> int list" where
  "ring s = wut_id s # ready s"

definition status_of :: "wut_state \<Rightarrow> int \<Rightarrow> int option" where
  "status_of s i = map_option t_status (thread s i)"

lemma resumed_ring:
  assumes "resumed s i ev s'" "ready s = i # is"
  shows "ring s' = i # is" "status_of s' = status_of s"
proof -
  show "ring s' = i # is" using resumed_view [OF assms(1)] assms(2) by (simp add: ring_def wut_id_def)
  show "status_of s' = status_of s"
  proof
    fix j
    have "map_option (fst \<circ> sched_fields) (thread s' j) = map_option (fst \<circ> sched_fields) (thread s j)"
      using resumed_view(4) [OF assms(1)] by (metis option.map_comp)
    then show "status_of s' j = status_of s j" by (simp add: status_of_def sched_fields_def comp_def)
  qed
qed

lemma yield_ring:
  assumes "wut_ok s"
  obtains ev s' where "wut_yield s = Inr (ev, s')" "wut_ok s'" "ring s' = rotate1 (ring s)"
    "status_of s' = status_of s"
proof (cases "ready s")
  case Nil
  with wut_yield_ok [OF assms] have "wut_yield s = Inr (Returned (-1), s)" by simp
  then show ?thesis using that [of "Returned (-1)" s] assms Nil by (simp add: ring_def)
next
  case (Cons i "is")
  with wut_yield_ok [OF assms] obtain ev s' where
    y: "wut_yield s = Inr (ev, s')" "resumed (yielded s) i ev s'" "wut_ok s'" by auto
  let ?c = "CURRENT_RUNNING_THREAD_ID s"
  obtain p t where o: "wf_slots s" "wf_nodes s" "wf_rest {?c} s" "?c \<notin> set (ready s)" "slot s ?c = Some p"
    "tcbs s p = Some t" "thread s ?c = Some t" "alive t" "t_id t = ?c" "t_ucontext t \<noteq> None"
    by (rule wut_okD [OF assms])
  have out: "outside s ?c p t" using o by (simp add: outside_def)
  note E = enqueue_view [OF out]
  have r: "ready (yielded s) = i # is @ [?c]" using o E(4) Cons by (simp add: yielded_def Let_def)
  have Y: "yielded s = put p (t\<lparr>t_thread_in_q := Some (next_node s), t_ucontext := Some In_yield\<rparr>) (enqueue p ?c s)"
    using o(5) E(5) by (simp add: yielded_def Let_def)
  have "status_of (yielded s) j = status_of s j" for j
    unfolding Y status_of_def thread_put using o(5-7) E(3)
    by (simp add: thread_def [of s j] split: option.split)
  then have "status_of s' = status_of s" using resumed_ring(2) [OF y(2) r] by auto
  moreover have "ring s' = rotate1 (ring s)" using resumed_ring(1) [OF y(2) r] Cons
    by (simp add: ring_def wut_id_def)
  ultimately show ?thesis using that y by blast
qed

lemma yields_ring:
  assumes "wut_ok s"
  obtains evs s' where "wut_run (replicate n Yield) s = Inr (evs, s')" "wut_ok s'"
    "ring s' = rotate n (ring s)" "status_of s' = status_of s"
    "map fst evs = map (\<lambda>k. hd (rotate (Suc k) (ring s))) [0..<n]"
  using assms
proof (induction n arbitrary: s thesis)
  case 0
  then show ?case by simp
next
  case (Suc n)
  obtain ev s1 where y: "wut_yield s = Inr (ev, s1)" "wut_ok s1" "ring s1 = rotate1 (ring s)"
    "status_of s1 = status_of s" by (rule yield_ring [OF Suc.prems(2)])
  obtain evs s' where r: "wut_run (replicate n Yield) s1 = Inr (evs, s')" "wut_ok s'"
    "ring s' = rotate n (ring s1)" "status_of s' = status_of s1"
    "map fst evs = map (\<lambda>k. hd (rotate (Suc k) (ring s1))) [0..<n]"
    by (rule Suc.IH [OF _ y(2)]) blast
  have rot: "rotate k (rotate1 xs) = rotate (Suc k) xs" for k and xs :: "int list"
    by (simp only: rotate_Suc rotate1_rotate_swap)
  have "wut_id s1 = hd (rotate (Suc 0) (ring s))" using y(3) by (simp add: ring_def) (metis list.sel(1))
  then have "map fst ((wut_id s1, ev) # evs) = map (\<lambda>k. hd (rotate (Suc k) (ring s))) [0..<Suc n]"
    unfolding upt_rec [of 0 "Suc n"] using r(5) by (simp add: y(3) rot map_Suc_upt [symmetric] comp_def del: rotate_Suc upt_Suc)
  then show ?case
    by (intro Suc.prems(1) [of "(wut_id s1, ev) # evs" s'])
       (use y r rot in \<open>simp_all add: wut_step_def del: rotate_Suc\<close>)
qed

lemma finished_status:
  assumes "wut_ok s"
  shows "status_of (finished v s) = (status_of s)(wut_id s \<mapsto> v AND 0xFF)"
proof -
  let ?c = "CURRENT_RUNNING_THREAD_ID s"
  obtain p t where o: "wf_slots s" "wf_nodes s" "wf_rest {?c} s" "?c \<notin> set (ready s)" "slot s ?c = Some p"
    "tcbs s p = Some t" "thread s ?c = Some t" "alive t" "t_id t = ?c" "t_ucontext t \<noteq> None"
    by (rule wut_okD [OF assms])
  have upd: "status_of (put p u s) = (status_of s)(wut_id s \<mapsto> t_status u)" for u
    using thread_put_slot [OF o(1,5), of u] by (intro ext) (simp add: status_of_def wut_id_def)
  have enq: "status_of (enqueue q k x) = status_of x" if "tcbs x q \<noteq> None" for q k x
    using that by (intro ext) (auto simp: status_of_def thread_def enqueue_def slot_def Let_def split: option.split)
  show ?thesis
  proof (cases "t_join t = 1")
    case False
    with o upd show ?thesis by (simp add: finished_def Let_def)
  next
    case True
    obtain w where "thread s (t_join_from t) = Some w"
      by (rule joiner_waits [OF o(3,7,8)]) (use True in auto)
    then obtain k where "slot s (t_join_from t) = Some k" "tcbs s k = Some w" using thread_slot by blast
    with True o upd show ?thesis by (simp add: finished_def Let_def enq)
  qed
qed

lemma joined_target:
  assumes "wut_ok s" "thread s j = Some u" "j \<noteq> wut_id s"
  obtains v where "thread (joined j s) j = Some v" "t_join v = 1" "t_join_from v = wut_id s"
    "ready (joined j s) = ready s"
proof -
  let ?c = "CURRENT_RUNNING_THREAD_ID s"
  obtain p t where o: "wf_slots s" "wf_nodes s" "wf_rest {?c} s" "?c \<notin> set (ready s)" "slot s ?c = Some p"
    "tcbs s p = Some t" "thread s ?c = Some t" "alive t" "t_id t = ?c" "t_ucontext t \<noteq> None"
    by (rule wut_okD [OF assms(1)])
  obtain q where q: "slot s j = Some q" "tcbs s q = Some u" using thread_slot [OF assms(2)] by blast
  have "p \<noteq> q" using slot_inj [OF o(1,5)] q(1) assms(3) by (auto simp: wut_id_def)
  then show ?thesis
    using that [of "u\<lparr>t_join := 1, t_enable := 0, t_join_from := ?c\<rparr>"] o(5,6) q
    by (simp add: joined_def Let_def wut_id_def thread_def)
qed

text \<open>
  Only a join, a yield and an exit change the running thread, and then the head of the queue runs.
\<close>

lemma create_stays:
  assumes "wut_ok s" "wut_create run s = Inr (i, s')"
  shows "wut_id s' = wut_id s"
proof -
  have "next_errno s = None"
    using wut_create_fails [of s _ run] assms by (cases "next_errno s") (auto simp: wut_ok_def)
  with wut_create_ok [OF assms(1) this, of run] assms(2) show ?thesis by (auto simp: created_def wut_id_def)
qed

lemma cancel_stays:
  assumes "wut_ok s" "call_ok s (Cancel i)" "wut_cancel i s = Inr (v, s')"
  shows "wut_id s' = wut_id s"
proof (cases "i < 0 \<or> i = CURRENT_RUNNING_THREAD_ID s \<or> THREAD_NUM s < i \<or>
    i < MAX_THREAD_NUM s \<and> (case thread s i of None \<Rightarrow> True | Some t \<Rightarrow> \<not> alive t)")
  case True
  with wut_cancel_refused [OF assms(1) True] assms(3) show ?thesis by simp
next
  case False
  have "i < MAX_THREAD_NUM s" using assms(1,2) False by (auto simp: wut_ok_def wf_slots_def)
  with False obtain t where t: "thread s i = Some t" "alive t" by (auto split: option.splits)
  have "cancel_errno t s = None"
    using wut_cancel_fails [OF assms(1) t] False assms(3) by (cases "cancel_errno t s") auto
  with wut_cancel_ok [OF assms(1) t] False assms(2,3) have "cancelled s i t s'" by auto
  then show ?thesis by (simp add: cancelled_def wut_id_def)
qed

lemma join_resumes:
  assumes "wut_ok s" "call_ok s (Join j)" "wut_join j s = Inr (ev, s')" "wut_id s' \<noteq> wut_id s"
  shows "\<exists>i x. resumed x i ev s'"
proof -
  have served: "\<not> (j < 0 \<or> j = CURRENT_RUNNING_THREAD_ID s \<or> THREAD_NUM s \<le> j)"
    using wut_join_refused(1) [OF assms(1)] assms(3,4) by auto
  with assms(2) obtain u where u: "thread s j = Some u" "\<not> alive u \<or> t_join u = 1 \<or> ready s \<noteq> []"
    by (auto simp: wut_id_def split: option.splits)
  have unfinished: "\<not> (\<not> alive u \<or> t_join u = 1)"
    using wut_join_refused(3) [OF assms(1) u(1)] served assms(3,4) by auto
  with u(2) obtain i "is" where "ready s = i # is" by (cases "ready s") auto
  with wut_join_ok [OF assms(1) u(1)] unfinished served assms(3) show ?thesis by auto
qed

lemma exit_resumes:
  assumes "wut_ok s" "wut_exit on v s = Inr (ev, s')"
  shows "\<exists>i x. resumed x i ev s'"
  using wut_exit_ok [OF assms(1), of on v] assms(2) by (cases "ready (finished v s)") auto

lemma switch_resumed:
  assumes "wut_ok s" "call_ok s c" "wut_step c s = Inr (ev, s')" "wut_id s' \<noteq> wut_id s"
  shows "\<exists>i x. resumed x i ev s'"
proof (cases c)
  case (Create run)
  then show ?thesis using assms create_stays [OF assms(1), of run]
    by (auto simp: wut_step_def result_simps)
next
  case (Cancel i)
  then show ?thesis using assms cancel_stays [OF assms(1), of i]
    by (auto simp: wut_step_def result_simps)
next
  case (Join j)
  then show ?thesis using assms join_resumes [OF assms(1)] by (simp add: wut_step_def)
next
  case Yield
  with assms(3,4) wut_yield_ok [OF assms(1)] show ?thesis by (cases "ready s") (auto simp: wut_step_def)
next
  case (Exit v)
  with assms(3) exit_resumes [OF assms(1)] show ?thesis by (auto simp: wut_step_def result_simps)
next
  case Return
  with assms(3) exit_resumes [OF assms(1)] show ?thesis
    by (auto simp: wut_step_def result_simps split: if_splits)
qed

lemma resumed_join:
  assumes "resumed x i ev s'" "thread s' (CURRENT_RUNNING_THREAD_ID s') = Some t" "t_ucontext t = Some (In_join p)"
  shows "\<exists>u. tcbs s' p = Some u \<and> t_status u \<noteq> -1 \<and> ev = Returned (t_status u) \<and> t_enable u = 1"
proof -
  obtain t0 k where t0: "thread x i = Some t0" "t_ucontext t0 = Some k" and k: "case k of
      Start run \<Rightarrow> ev = Started run \<and> s' = run_next i x
    | In_yield \<Rightarrow> ev = Returned 0 \<and> s' = run_next i x
    | In_join p \<Rightarrow> (\<exists>u. tcbs x p = Some u \<and> \<not> alive u \<and> ev = Returned (t_status u) \<and>
        s' = put p (u\<lparr>t_enable := 1\<rparr>) (run_next i x))
    | Fresh_main \<Rightarrow> False"
    using assms(1) unfolding resumed_def by blast
  have i: "CURRENT_RUNNING_THREAD_ID s' = i" by (rule resumed_view(1) [OF assms(1)])
  have "sched_fields t = sched_fields t0"
    using resumed_view(4) [OF assms(1), of i] assms(2) t0(1) i by auto
  then have "k = In_join p" using t0(2) assms(3) by (simp add: sched_fields_def)
  with k obtain u where "tcbs x p = Some u" "\<not> alive u" "ev = Returned (t_status u)"
    "s' = put p (u\<lparr>t_enable := 1\<rparr>) (run_next i x)" by auto
  then show ?thesis by simp
qed

text \<open>
  C14: Round robin. If every thread just yields, then after one yield for each runnable thread all of
  them have run once, in the order of the queue, and the state is back to the same thread running
  with the same queue behind it: no runnable thread starves and no thread is lost.
\<close>

theorem wut_round_robin:
  assumes "reachable s"
  shows "\<exists>evs s'. wut_run (replicate (length (ring s)) Yield) s = Inr (evs, s') \<and>
    map fst evs = ready s @ [wut_id s] \<and> wut_id s' = wut_id s \<and> ready s' = ready s \<and>
    status_of s' = status_of s"
proof -
  obtain evs s' where run: "wut_run (replicate (length (ring s)) Yield) s = Inr (evs, s')"
    and r: "ring s' = rotate (length (ring s)) (ring s)" "status_of s' = status_of s"
    and f: "map fst evs = map (\<lambda>k. hd (rotate (Suc k) (ring s))) [0..<length (ring s)]"
    by (rule yields_ring [OF reachable_ok [OF assms], of "length (ring s)"])
  have "map fst evs = ready s @ [wut_id s]"
  proof (rule nth_equalityI)
    fix k assume "k < length (map fst evs)"
    then have k: "k < length (ring s)" using f by simp
    then have "hd (rotate (Suc k) (ring s)) = ring s ! (Suc k mod length (ring s))"
      by (intro hd_rotate_conv_nth) auto
    with k show "map fst evs ! k = (ready s @ [wut_id s]) ! k"
      unfolding f by (cases "Suc k = length (ring s)") (auto simp: ring_def nth_append)
  qed (simp add: f ring_def)
  moreover have "ring s' = ring s" using r(1) by (simp add: rotate_id)
  ultimately show ?thesis using run r(2) by (auto simp: ring_def)
qed

text \<open>
  \<open>wut_yield\<close> puts the running thread behind the queue and runs the thread at its head; with an
  empty queue it returns -1 and changes nothing.
\<close>

lemma wut_yield_fifo:
  assumes "reachable s"
  shows "\<exists>ev s'. wut_step Yield s = Inr (ev, s') \<and> status_of s' = status_of s \<and>
    (case ready s of [] \<Rightarrow> ev = Returned (-1) \<and> s' = s
     | i # is \<Rightarrow> wut_id s' = i \<and> ready s' = is @ [wut_id s])"
proof -
  obtain ev s' where y: "wut_yield s = Inr (ev, s')" "wut_ok s'" "ring s' = rotate1 (ring s)"
    "status_of s' = status_of s" by (rule yield_ring [OF reachable_ok [OF assms]])
  moreover have "ready s = [] \<Longrightarrow> ev = Returned (-1) \<and> s' = s"
    using y(1) wut_yield_ok [OF reachable_ok [OF assms]] by simp
  ultimately show ?thesis by (auto simp: wut_step_def ring_def split: list.splits)
qed

text \<open>
  C15: \<open>wut_exit\<close> records the low byte of the status, puts a thread that joined the exiting one at the
  end of the queue, and runs the head of the queue.
\<close>

theorem wut_exit_hands_over:
  assumes "reachable s" "thread s (wut_id s) = Some t"
    "ready s @ (if t_join t = 1 then [t_join_from t] else []) = i # is"
  shows "\<exists>ev s'. wut_step (Exit v) s = Inr (ev, s') \<and> wut_id s' = i \<and> ready s' = is \<and>
    status_of s' = (status_of s)(wut_id s \<mapsto> v AND 0xFF)"
proof -
  have ok: "wut_ok s" by (rule reachable_ok [OF assms(1)])
  have st: "running_stack s = Inr (t_stack t)" by (rule running_stack_ok [OF ok]) (use assms(2) in simp)
  have r: "ready (finished v s) = i # is" using finished_ok [OF ok, of v None] assms(2,3) by (simp add: wut_id_def)
  with wut_exit_ok [OF ok, of "t_stack t" v] obtain ev s' where
    e: "wut_exit (t_stack t) v s = Inr (ev, s')" "resumed (finished v s) i ev s'" by auto
  have "ring s' = i # is" "status_of s' = status_of (finished v s)" by (rule resumed_ring [OF e(2) r])+
  moreover have "status_of (finished v s) = (status_of s)(wut_id s \<mapsto> v AND 0xFF)"
    by (rule finished_status [OF ok])
  ultimately show ?thesis using e(1) st by (auto simp: wut_step_def ring_def)
qed

text \<open>
  \<open>waiting s c q p\<close>: thread \<open>c\<close> with its control block \<open>q\<close> is inside \<open>wut_join\<close> on the unfinished thread with
  the control block \<open>p\<close>.
\<close>

definition has_finished :: "wut_state \<Rightarrow> nat \<Rightarrow> bool" where
  "has_finished s p = (case tcbs s p of None \<Rightarrow> False | Some t \<Rightarrow> t_status t \<noteq> -1)"

definition waiting :: "wut_state \<Rightarrow> int \<Rightarrow> nat \<Rightarrow> nat \<Rightarrow> bool" where
  "waiting s c q p \<longleftrightarrow> slot s c = Some q \<and> wut_id s \<noteq> c \<and>
     (\<exists>y x. tcbs s q = Some y \<and> alive y \<and> t_ucontext y = Some (In_join p) \<and> tcbs s p = Some x \<and> alive x)"

lemma waiting_blocked:
  assumes "wut_ok s" "waiting s c q p"
  shows "c \<notin> set (ring s)"
proof
  assume c: "c \<in> set (ring s)"
  obtain y x where y: "thread s c = Some y" "t_ucontext y = Some (In_join p)" "tcbs s p = Some x" "alive x" "wut_id s \<noteq> c"
    using assms(2) by (auto simp: waiting_def thread_def)
  then have "c \<in> set (ready s)" using c by (simp add: ring_def)
  then have "runnable s (In_join p)" using assms(1) y(1,2) by (auto simp: wut_ok_def wf_rest_def rest_ready_def)
  then show False using y(3,4) by (simp add: runnable_def)
qed

lemma finished_stays:
  assumes "reachable s" "call_ok s c" "wut_step c s = Inr (ev, s')" "has_finished s p"
  shows "has_finished s' p"
proof -
  obtain t where t: "tcbs s p = Some t" "\<not> alive t" using assms(4) by (auto simp: has_finished_def split: option.splits)
  obtain t' where "tcbs s' p = Some t'" "t_status t' = t_status t"
    using step_frame(1) [OF assms(1-3) t(1)] t(2) by blast
  then show ?thesis using t(2) by (simp add: has_finished_def)
qed

text \<open>
  One call: unless the waiting thread is cancelled, it still waits, or its target has finished and it
  can run.
\<close>

lemma waiting_step:
  assumes "reachable s" "call_ok s c" "wut_step c s = Inr (ev, s')" "waiting s k q p"
  shows "has_finished s' q \<or> (has_finished s' p \<and> k \<in> set (ring s')) \<or> waiting s' k q p"
proof -
  have ok: "wut_ok s" by (rule reachable_ok [OF assms(1)])
  have ok': "wut_ok s'" by (rule reachable_ok [OF reachable.call [OF assms(1-3)]])
  obtain y x where y: "tcbs s q = Some y" "alive y" "t_ucontext y = Some (In_join p)"
    and x: "tcbs s p = Some x" "alive x" and k: "slot s k = Some q" "k \<noteq> wut_id s"
    using assms(4) unfolding waiting_def by blast
  obtain y' where y': "tcbs s' q = Some y'" using step_frame(1) [OF assms(1-3) y(1)] by blast
  obtain x' where x': "tcbs s' p = Some x'" using step_frame(1) [OF assms(1-3) x(1)] by blast
  have sl: "slot s' k = Some q" by (rule step_frame(2) [OF assms(1-3) k(1) y(1,2)])
  consider "\<not> alive y'" | "alive y'" "\<not> alive x'" | "alive y'" "alive x'" by blast
  then show ?thesis
  proof cases
    case 1
    then show ?thesis using y' by (simp add: has_finished_def)
  next
    case 2
    have ctx: "t_ucontext y' = Some (In_join p)"
      using step_frame(3) [OF assms(1-3) k(1) y(1) k(2) y' 2(1)] y(3) by simp
    have th: "thread s' k = Some y'" using sl y' by (simp add: thread_def)
    have "k = wut_id s' \<or> k \<in> set (ready s') \<or> (\<exists>j. waits_on s' k y' j)"
      using ok' th 2(1) by (auto simp: wut_ok_def wf_rest_def rest_live_def wut_id_def)
    moreover have "\<not> waits_on s' k y' j" for j
      using ctx x' 2(2) by (auto simp: waits_on_def)
    ultimately show ?thesis using x' 2(2) by (auto simp: ring_def has_finished_def)
  next
    case 3
    have ctx: "t_ucontext y' = Some (In_join p)"
      using step_frame(3) [OF assms(1-3) k(1) y(1) k(2) y' 3(1)] y(3) by simp
    have "wut_id s' \<noteq> k"
    proof
      assume id: "wut_id s' = k"
      then have "wut_id s' \<noteq> wut_id s" using k(2) by simp
      then obtain i z where z: "resumed z i ev s'" using switch_resumed [OF ok assms(2,3)] by blast
      have "thread s' (CURRENT_RUNNING_THREAD_ID s') = Some y'"
        using id sl y' by (simp add: thread_def wut_id_def)
      then obtain u where "tcbs s' p = Some u" "t_status u \<noteq> -1" using resumed_join [OF z _ ctx] by blast
      then show False using x' 3(2) by simp
    qed
    then show ?thesis using sl y' x' 3 ctx by (simp add: waiting_def)
  qed
qed

lemma waiting_run:
  assumes "reachable s" "permitted cs s" "has_finished s p \<or> has_finished s q \<or> waiting s k q p"
  shows "has_finished (wut_after cs s) p \<or> has_finished (wut_after cs s) q \<or> waiting (wut_after cs s) k q p"
  using assms
proof (induction cs arbitrary: s)
  case (Cons c cs)
  obtain ev s1 where c: "wut_step c s = Inr (ev, s1)" "permitted cs s1" "call_ok s c"
    using Cons.prems(2) by (auto split: sum.splits)
  have "has_finished s1 p \<or> has_finished s1 q \<or> waiting s1 k q p"
    using Cons.prems(3) finished_stays [OF Cons.prems(1) c(3,1)] waiting_step [OF Cons.prems(1) c(3,1)] by blast
  from Cons.IH [OF reachable.call [OF Cons.prems(1) c(3,1)] c(2) this] show ?case using c(1) by simp
qed simp

lemma waiting_wakes:
  assumes "reachable s" "permitted (cs @ [c]) s" "waiting s k q p"
    and "\<not> has_finished (wut_after cs s) p" "\<not> has_finished (wut_after cs s) q"
    and "has_finished (wut_after (cs @ [c]) s) p"
  shows "has_finished (wut_after (cs @ [c]) s) q \<or> k \<in> set (ring (wut_after (cs @ [c]) s))"
proof -
  obtain ev t where c: "permitted cs s" "call_ok (wut_after cs s) c" "wut_step c (wut_after cs s) = Inr (ev, t)"
    "wut_after (cs @ [c]) s = t" by (rule permitted_snoc [OF assms(2)])
  have "waiting (wut_after cs s) k q p" using waiting_run [OF assms(1) c(1)] assms(3-5) by blast
  from waiting_step [OF reachable_after [OF assms(1) c(1)] c(2,3) this]
  have "has_finished t q \<or> k \<in> set (ring t) \<or> waiting t k q p" by blast
  moreover have "\<not> waiting t k q p" using assms(6) c(4) by (auto simp: waiting_def has_finished_def)
  ultimately show ?thesis using c(4) by blast
qed

lemma joined_waits:
  assumes "wut_ok s" "thread s j = Some u" "alive u" "j \<noteq> wut_id s" "resumed (joined j s) i ev s'" "i \<noteq> wut_id s"
  obtains p q where "slot s' j = Some p" "slot s' (wut_id s) = Some q" "waiting s' (wut_id s) q p"
proof -
  let ?c = "CURRENT_RUNNING_THREAD_ID s"
  obtain q t where o: "wf_slots s" "slot s ?c = Some q" "tcbs s q = Some t" "alive t"
    by (rule wut_okD [OF assms(1)])
  obtain p where p: "slot s j = Some p" "tcbs s p = Some u" using thread_slot [OF assms(2)] by blast
  have pq: "q \<noteq> p" using slot_inj [OF o(1,2)] p(1) assms(4) by (auto simp: wut_id_def)
  have J: "slot (joined j s) = slot s" "tcbs (joined j s) q = Some (t\<lparr>t_block := 1, t_join_to := j, t_ucontext := Some (In_join p)\<rparr>)"
    "tcbs (joined j s) p = Some (u\<lparr>t_join := 1, t_enable := 0, t_join_from := ?c\<rparr>)"
    using o p pq by (simp_all add: joined_def Let_def)
  have K: "keeps {} (joined j s) s'" by (rule resumed_keeps [OF assms(5)])
  obtain t' where t': "tcbs s' q = Some t'" "follows (joined j s) {} q (t\<lparr>t_block := 1, t_join_to := j, t_ucontext := Some (In_join p)\<rparr>) t'"
    by (rule keepsD [OF K J(2)])
  obtain u' where u': "tcbs s' p = Some u'" "follows (joined j s) {} p (u\<lparr>t_join := 1, t_enable := 0, t_join_from := ?c\<rparr>) u'"
    by (rule keepsD [OF K J(3)])
  have sl: "slot s' = slot s" using K J(1) by (simp add: keeps_def)
  have "wut_id s' = i" using resumed_view(1) [OF assms(5)] by (simp add: wut_id_def)
  then have "waiting s' (wut_id s) q p"
    using sl o t' u' assms(3,6) by (simp add: waiting_def follows_def wut_id_def)
  then show thesis using that sl p(1) o(2) by (simp add: wut_id_def)
qed

text \<open>
  C17: \<open>wut_join\<close> of a running thread nobody joins yet blocks the caller until the target has finished. The
  call marks the target as joined by the caller and runs the head of the queue. After any further run of
  permitted calls, as long as neither the target has finished nor the caller was cancelled, the caller
  is neither running nor in the queue; and the call with which the target finishes puts the caller in
  the queue, or runs it, unless it cancels the caller.
\<close>

theorem wut_join_blocks:
  assumes "reachable s" "status_of s j = Some (-1)" "j \<noteq> wut_id s" "ready s = i # is"
    and "\<And>u. thread s j = Some u \<Longrightarrow> t_join u \<noteq> 1"
  shows "\<exists>ev s' u p q. wut_step (Join j) s = Inr (ev, s') \<and> wut_id s' = i \<and> ready s' = is \<and>
    wut_id s \<notin> set (ready s') \<and> thread s' j = Some u \<and> t_join u = 1 \<and> t_join_from u = wut_id s \<and>
    slot s' j = Some p \<and> slot s' (wut_id s) = Some q \<and>
    (\<forall>cs. permitted cs s' \<longrightarrow> has_finished (wut_after cs s') p \<or> has_finished (wut_after cs s') q \<or>
      wut_id s \<notin> set (ring (wut_after cs s'))) \<and>
    (\<forall>cs c. permitted (cs @ [c]) s' \<longrightarrow>
      \<not> has_finished (wut_after cs s') p \<and> \<not> has_finished (wut_after cs s') q \<longrightarrow>
      has_finished (wut_after (cs @ [c]) s') p \<longrightarrow>
      has_finished (wut_after (cs @ [c]) s') q \<or> wut_id s \<in> set (ring (wut_after (cs @ [c]) s')))"
proof -
  have ok: "wut_ok s" by (rule reachable_ok [OF assms(1)])
  obtain u where u: "thread s j = Some u" "alive u" using assms(2) by (auto simp: status_of_def)
  have c: "wut_id s = CURRENT_RUNNING_THREAD_ID s" by (simp add: wut_id_def)
  obtain ev s' where J: "wut_join j s = Inr (ev, s')" "resumed (joined j s) i ev s'"
    using wut_join_ok [OF ok u] assms(3-5) u(1) by (auto simp: c)
  obtain v where v: "thread (joined j s) j = Some v" "t_join v = 1" "t_join_from v = wut_id s"
    "ready (joined j s) = ready s" by (rule joined_target [OF ok u(1) assms(3)])
  have ring: "ring s' = i # is" by (rule resumed_ring [OF J(2)]) (simp add: v(4) assms(4))
  obtain w where w: "thread s' j = Some w" "sched_fields w = sched_fields v"
    using resumed_view(4) [OF J(2), of j] v(1) by auto
  have nr: "wut_id s \<notin> set (ready s)" using ok by (simp add: wut_ok_def c)
  then have ic: "i \<noteq> wut_id s" using assms(4) by auto
  obtain p q where pq: "slot s' j = Some p" "slot s' (wut_id s) = Some q" "waiting s' (wut_id s) q p"
    by (rule joined_waits [OF ok u assms(3) J(2) ic])
  have step: "wut_step (Join j) s = Inr (ev, s')" using J(1) by (simp add: wut_step_def)
  have "call_ok s (Join j)" using u(1) assms(4) by simp
  then have R: "reachable s'" using step by (rule reachable.call [OF assms(1)])
  have "has_finished (wut_after cs s') p \<or> has_finished (wut_after cs s') q \<or>
      wut_id s \<notin> set (ring (wut_after cs s'))" if "permitted cs s'" for cs
    using waiting_run [OF R that] pq(3) waiting_blocked reachable_ok [OF reachable_after [OF R that]] by blast
  moreover have "wut_id s' = i" "ready s' = is" using ring by (simp_all add: ring_def)
  moreover have "t_join w = 1" "t_join_from w = wut_id s" using w(2) v(2,3) by (simp_all add: sched_fields_def)
  ultimately show ?thesis
    using step nr assms(4) w(1) pq(1,2) waiting_wakes [OF R _ pq(3)]
    by (intro exI [of _ ev] exI [of _ s'] exI [of _ w] exI [of _ p] exI [of _ q] conjI allI impI) simp_all
qed

text \<open>
  C16: The result of a join. Whenever a switch resumes a thread that was waiting in \<open>wut_join\<close>, the
  value the join returns is the recorded status of the finished thread it waited for, one byte, and
  that thread's slot may be used again.
\<close>

theorem wut_join_result:
  assumes "reachable s" "call_ok s c" "wut_step c s = Inr (ev, s')" "wut_id s' \<noteq> wut_id s"
    "thread s' (wut_id s') = Some t" "t_ucontext t = Some (In_join p)"
  shows "\<exists>u. tcbs s' p = Some u \<and> ev = Returned (t_status u) \<and> 0 \<le> t_status u \<and> t_status u < 256 \<and>
    t_enable u = 1"
proof -
  obtain i x where x: "resumed x i ev s'"
    using switch_resumed [OF reachable_ok [OF assms(1)] assms(2-4)] by blast
  have "wut_ok s'" using wut_step_ok [OF reachable_ok [OF assms(1)] assms(2)] assms(3) by simp
  then have range: "status_range s'" by (simp add: wut_ok_def wf_rest_def)
  obtain u where u: "tcbs s' p = Some u" "t_status u \<noteq> -1" "ev = Returned (t_status u)" "t_enable u = 1"
    using resumed_join [OF x] assms(5,6) by (auto simp: wut_id_def)
  with range show ?thesis unfolding status_range_def by blast
qed

text \<open>
  C18: \<open>wut_create\<close> ends the process when \<open>mmap\<close> fails, and fails in no other way: it takes the lowest id whose slot is empty or held by a finished
  thread nobody waits for, doubles the array when as many threads as it has slots were ever created,
  and puts the new thread, not yet finished, at the end of the queue; nothing else changes.
\<close>

theorem wut_create_lowest_id:
  assumes "reachable s"
  shows "(\<exists>err. next_errno s = Some err \<and> wut_step (Create run) s = Inl (Process_exit err)) \<or>
    (\<exists>i s'. next_errno s = None \<and> wut_step (Create run) s = Inr (Returned i, s') \<and>
    0 \<le> i \<and> reusable s i \<and> (\<forall>j. 0 \<le> j \<and> j < i \<longrightarrow> \<not> reusable s j) \<and>
    MAX_THREAD_NUM s' = (if THREAD_NUM s = MAX_THREAD_NUM s then 2 else 1) * MAX_THREAD_NUM s \<and>
    wut_id s' = wut_id s \<and> ready s' = ready s @ [i] \<and> status_of s' = (status_of s)(i \<mapsto> -1))"
proof (cases "next_errno s")
  case (Some err)
  with wut_create_fails [of s err run] reachable_ok [OF assms] show ?thesis by (simp add: wut_step_def wut_ok_def)
next
  case None
  obtain i s' where c: "wut_create run s = Inr (i, s')" "created run s i s'"
    using wut_create_ok [OF reachable_ok [OF assms] None, of run] by blast
  note C = c(2) [unfolded created_def]
  obtain t where "fresh_tcb i run t" "thread s' = (thread s)(i := Some t)" using C by blast
  then have "status_of s' = (status_of s)(i \<mapsto> -1)"
    by (intro ext) (simp add: status_of_def fresh_tcb_def)
  then show ?thesis using c(1) C None by (auto simp: wut_step_def wut_id_def)
qed

text \<open>
  C19: \<open>wut_cancel\<close> of another thread that has not finished, in any reachable state: it returns 0 and
  gives the thread status 128; a thread that is not marked as blocked leaves the queue and its stack
  is unmapped, and a failing \<open>munmap\<close> ends the process; a thread marked as blocked keeps its stack and
  its place in the queue, if it has one; the thread that joined it, if any, is put at the end. A
  thread whose mark is not stale is in no queue afterwards.
\<close>

theorem wut_cancel_removes:
  assumes "reachable s" "thread s i = Some t" "t_status t = -1" "i \<noteq> wut_id s"
  shows "case cancel_errno t s of
      Some err \<Rightarrow> t_block t \<noteq> 1 \<and> wut_step (Cancel i) s = Inl (Process_exit err)
    | None \<Rightarrow> \<exists>s'. wut_step (Cancel i) s = Inr (Returned 0, s') \<and> wut_id s' = wut_id s \<and>
        status_of s' i = Some 128 \<and>
        ready s' = (if t_block t = 1 then ready s else remove1 i (ready s)) @
          (if t_join t = 1 then [t_join_from t] else []) \<and>
        stacks s' = (if t_block t = 1 then stacks s else stacks s - set_option (t_stack t)) \<and>
        (t_block t \<noteq> 1 \<or> i \<notin> set (ready s) \<longrightarrow> i \<notin> set (ready s'))"
proof (cases "cancel_errno t s")
  case (Some err)
  with wut_cancel_fails [OF reachable_ok [OF assms(1)] assms(2,3) _ Some] assms(4) show ?thesis
    by (simp add: wut_step_def wut_id_def cancel_errno_def split: if_splits)
next
  case None
  have ok: "wut_ok s" by (rule reachable_ok [OF assms(1)])
  then have o: "wf_nodes s" "wf_rest {CURRENT_RUNNING_THREAD_ID s} s" by (simp_all add: wut_ok_def)
  obtain s' t' where d: "wut_cancel i s = Inr (0, s')" "CURRENT_RUNNING_THREAD_ID s' = CURRENT_RUNNING_THREAD_ID s"
    "ready s' = (if t_block t = 1 then ready s else remove1 i (ready s)) @
      (if t_join t = 1 then [t_join_from t] else [])"
    "stacks s' = (if t_block t = 1 then stacks s else stacks s - set_option (t_stack t))"
    "thread s' i = Some t'" "t_status t' = 128"
    using cancel_effect [OF ok reachable_marks [OF assms(1)] assms(2,3) _ None] assms(4) by (auto simp: wut_id_def)
  have "t_join_from t \<noteq> i" if j: "t_join t = 1"
    by (rule joiner_waits [OF o(2) assms(2,3)]) (use j in auto)
  then have out: "t_block t \<noteq> 1 \<or> i \<notin> set (ready s) \<longrightarrow> i \<notin> set (ready s')"
    using d(3) distinct_ready [OF o(1)] by (auto split: if_splits)
  show ?thesis
    unfolding None option.case
  proof (intro exI [of _ s'] conjI)
    show "wut_step (Cancel i) s = Inr (Returned 0, s')" using d(1) by (simp add: wut_step_def)
    show "wut_id s' = wut_id s" using d(2) by (simp add: wut_id_def)
    show "status_of s' i = Some 128" using d(5,6) by (simp add: status_of_def)
  qed (rule d(3) d(4) out)+
qed

text \<open>
  Calls on ids that cannot be served change nothing: a join of itself or of an id not below the
  number of threads created and a cancel of itself, of an empty slot or of a finished thread return
  -1, and a join of a finished thread returns its status at once.
\<close>

theorem wut_refused_calls:
  assumes "reachable s"
  shows "(i < 0 \<or> i = wut_id s \<or> THREAD_NUM s \<le> i \<longrightarrow> wut_step (Join i) s = Inr (Returned (-1), s)) \<and>
    (status_of s i = Some v \<longrightarrow> v \<noteq> -1 \<longrightarrow> i \<noteq> wut_id s \<longrightarrow> wut_step (Join i) s = Inr (Returned v, s)) \<and>
    (i < MAX_THREAD_NUM s \<longrightarrow> i = wut_id s \<or> status_of s i \<noteq> Some (-1) \<longrightarrow>
      wut_step (Cancel i) s = Inr (Returned (-1), s))"
proof (intro conjI impI)
  have ok: "wut_ok s" by (rule reachable_ok [OF assms])
  show "wut_step (Join i) s = Inr (Returned (-1), s)" if "i < 0 \<or> i = wut_id s \<or> THREAD_NUM s \<le> i"
    using wut_join_refused(1) [OF ok, of i] that by (auto simp: wut_step_def wut_id_def)
  show "wut_step (Join i) s = Inr (Returned v, s)" if h: "status_of s i = Some v" "v \<noteq> -1" "i \<noteq> wut_id s"
  proof -
    obtain u where "thread s i = Some u" "t_status u = v" using h(1) by (auto simp: status_of_def)
    with wut_join_refused(3) [OF ok] h show ?thesis by (auto simp: wut_step_def wut_id_def)
  qed
  show "wut_step (Cancel i) s = Inr (Returned (-1), s)"
    if h: "i < MAX_THREAD_NUM s" "i = wut_id s \<or> status_of s i \<noteq> Some (-1)"
  proof -
    have "case thread s i of None \<Rightarrow> True | Some t \<Rightarrow> \<not> alive t" if "i \<noteq> CURRENT_RUNNING_THREAD_ID s"
      using h(2) that by (auto simp: status_of_def wut_id_def split: option.splits)
    then have "wut_cancel i s = Inr (-1, s)" using wut_cancel_refused [OF ok, of i] h(1) by blast
    then show ?thesis by (simp add: wut_step_def)
  qed
qed

text \<open>
  C20: The last thread. An explicit \<open>wut_exit\<close> of the last runnable thread, if it is not the initial
  one, unmaps the very stack it runs on in \<open>clear_global\<close>, so it does not reach \<open>exit(0)\<close>; returning
  from its entry function instead ends the process with status 0. Either may be cut short by a
  failing \<open>munmap\<close>, whose \<open>errno\<close> is then the exit status.
\<close>

theorem wut_last_exit:
  assumes "reachable s" "last_thread s" "running_stack s = Inr (Some a)"
  shows "(\<exists>e. wut_step (Exit v) s = Inl e \<and> (e = Stack_unmapped \<or> sys_failure s e)) \<and>
    (\<exists>e. wut_step Return s = Inl e \<and> (e = Process_exit 0 \<or> sys_failure s e))"
  using wut_exit_last(1) [OF reachable_ok [OF assms(1)] assms(2), of 0]
    wut_exit_last(2) [OF reachable_ok [OF assms(1)] assms(2,3), of v] assms(3)
  by (auto simp: wut_step_def)

section \<open>Concrete runs\<close>

definition demo :: "wut_call list \<Rightarrow> wut_state" where
  "demo cs = wut_after cs initialised"

lemma reachable_demo: "permitted cs initialised \<Longrightarrow> reachable (demo cs)"
  unfolding demo_def by (rule reachable_after [OF reachable_initialised])

lemma demo_snoc:
  assumes "permitted cs initialised" "wut_step c (demo cs) = Inr (ev, s')"
  shows "demo (cs @ [c]) = s'"
proof -
  have "permitted cs s \<Longrightarrow> wut_step c (wut_after cs s) = Inr (ev, s') \<Longrightarrow> wut_after (cs @ [c]) s = s'" for s
  proof (induction cs arbitrary: s)
    case (Cons d cs)
    obtain ev s1 where "wut_step d s = Inr (ev, s1)" "permitted cs s1"
      using Cons.prems(1) by (auto split: sum.splits)
    with Cons show ?case by simp
  qed simp
  with assms show ?thesis unfolding demo_def by blast
qed

lemma demo_reachable:
  "reachable (demo [Create 1, Create 2, Create 3])" "reachable (demo [Create 1, Create 2, Join 1])"
  "reachable (demo [Create 1, Join 1])" "reachable (demo [Create 1, Yield, Join 0])"
  "reachable (demo [Create 1, Exit 0])" "reachable (demo [Create 1, Create 2, Join 1, Exit 7])"
  by (rule reachable_demo, code_simp)+

theorem wut_round_robin_witness:
  "\<exists>evs s'. wut_run (replicate 4 Yield) (demo [Create 1, Create 2, Create 3]) = Inr (evs, s') \<and>
    map fst evs = [1, 2, 3, 0]"
proof -
  have "ring (demo [Create 1, Create 2, Create 3]) = [0, 1, 2, 3]" by code_simp
  with wut_round_robin [OF demo_reachable(1)] show ?thesis by (auto simp: ring_def numeral_eq_Suc)
qed

theorem wut_exit_hands_over_witness:
  "\<exists>ev s'. wut_step (Exit 263) (demo [Create 1, Create 2, Join 1]) = Inr (ev, s') \<and> wut_id s' = 2 \<and>
    ready s' = [0] \<and> status_of s' 1 = Some 7"
proof -
  let ?s = "demo [Create 1, Create 2, Join 1]"
  have r: "ring ?s = [1, 2]" by code_simp
  have "case thread ?s 1 of None \<Rightarrow> False | Some t \<Rightarrow> t_join t = 1 \<and> t_join_from t = 0" by code_simp
  then obtain t where "thread ?s 1 = Some t" "t_join t = 1" "t_join_from t = 0" by (auto split: option.splits)
  with r wut_exit_hands_over [OF demo_reachable(2), of t 2 "[0]" 263] show ?thesis by (auto simp: ring_def)
qed

theorem wut_join_blocks_witness:
  "\<exists>ev s'. wut_step (Join 3) (demo [Create 1, Create 2, Create 3]) = Inr (ev, s') \<and> wut_id s' = 1 \<and>
    ready s' = [2, 3]"
proof -
  let ?s = "demo [Create 1, Create 2, Create 3]"
  have r: "ring ?s = [0, 1, 2, 3]" by code_simp
  have "status_of ?s 3 = Some (-1)" by code_simp
  moreover have "case thread ?s 3 of None \<Rightarrow> False | Some u \<Rightarrow> t_join u \<noteq> 1" by code_simp
  ultimately show ?thesis
    using r wut_join_blocks [OF demo_reachable(1), of 3 1 "[2, 3]"] by (auto simp: ring_def split: option.splits)
qed

theorem wut_join_result_witness:
  "\<exists>u. tcbs (demo [Create 1, Join 1, Exit 7]) 1 = Some u \<and> t_status u = 7 \<and> t_enable u = 1"
proof -
  let ?s = "demo [Create 1, Join 1]" let ?s' = "demo [Create 1, Join 1, Exit 7]"
  have "case wut_step (Exit 7) ?s of Inl e \<Rightarrow> False | Inr (ev, s') \<Rightarrow> ev = Returned 7" by code_simp
  then obtain s' where st: "wut_step (Exit 7) ?s = Inr (Returned 7, s')" by (auto split: sum.splits)
  have "permitted [Create 1, Join 1] initialised" by code_simp
  from demo_snoc [OF this st] have s': "s' = ?s'" by simp
  have p: "call_ok ?s (Exit 7)" by code_simp
  have ids: "wut_id ?s = 1" "wut_id ?s' = 0" by code_simp+
  have "case thread ?s' 0 of None \<Rightarrow> False | Some t \<Rightarrow> t_ucontext t = Some (In_join 1)" by code_simp
  then obtain t where "thread ?s' 0 = Some t" "t_ucontext t = Some (In_join 1)" by (auto split: option.splits)
  with wut_join_result [OF demo_reachable(3) p st] s' ids show ?thesis by auto
qed

theorem wut_create_lowest_id_witness:
  "\<exists>s'. wut_step (Create 9) (demo [Create 1, Create 2, Create 3]) = Inr (Returned 4, s') \<and>
    ready s' = [1, 2, 3, 4]"
proof -
  let ?s = "demo [Create 1, Create 2, Create 3]"
  have r: "ring ?s = [0, 1, 2, 3]" by code_simp
  have u: "\<not> reusable ?s 0" "\<not> reusable ?s 1" "\<not> reusable ?s 2" "\<not> reusable ?s 3" "reusable ?s 4" by code_simp+
  have "next_errno ?s = None" by code_simp
  then obtain i s' where c: "wut_step (Create 9) ?s = Inr (Returned i, s')" "0 \<le> i" "reusable ?s i"
    "\<And>j. 0 \<le> j \<Longrightarrow> j < i \<Longrightarrow> \<not> reusable ?s j" "ready s' = ready ?s @ [i]"
    using wut_create_lowest_id [OF demo_reachable(1), of 9] by auto
  have "\<not> 4 < i" using c(4) [of 4] u(5) by auto
  moreover have "i \<noteq> 0" "i \<noteq> 1" "i \<noteq> 2" "i \<noteq> 3" using c(3) u by metis+
  ultimately have "i = 4" using c(2) by linarith
  with c r show ?thesis by (auto simp: ring_def)
qed

theorem wut_cancel_removes_witness:
  "\<exists>s'. wut_step (Cancel 2) (demo [Create 1, Create 2, Create 3]) = Inr (Returned 0, s') \<and>
    ready s' = [1, 3]"
proof -
  let ?s = "demo [Create 1, Create 2, Create 3]"
  have r: "ring ?s = [0, 1, 2, 3]" by code_simp
  have "case thread ?s 2 of None \<Rightarrow> False | Some t \<Rightarrow> t_status t = -1 \<and> t_join t = 0 \<and> t_block t = 0" by code_simp
  then obtain t where "thread ?s 2 = Some t" "t_status t = -1" "t_join t = 0" "t_block t = 0"
    by (auto split: option.splits)
  moreover have "next_errno ?s = None" by code_simp
  then have "cancel_errno t ?s = None" by (simp add: cancel_errno_def)
  ultimately show ?thesis using r wut_cancel_removes [OF demo_reachable(1), of 2 t] by (auto simp: ring_def)
qed

theorem wut_refused_calls_witness:
  "wut_step (Join 1) (demo [Create 1, Create 2, Join 1, Exit 7]) =
     Inr (Returned 7, demo [Create 1, Create 2, Join 1, Exit 7])"
  by (rule wut_refused_calls [OF demo_reachable(6), THEN conjunct2, THEN conjunct1, rule_format]) code_simp+

theorem wut_last_exit_witness:
  "wut_step (Exit 3) (demo [Create 1, Exit 0]) = Inl Stack_unmapped"
proof -
  let ?s = "demo [Create 1, Exit 0]"
  have l: "last_thread ?s" by code_simp
  have r: "running_stack ?s = Inr (Some 1)" by code_simp
  have "sys_errno ?s = (\<lambda>_. None)" by (rule ext) code_simp
  then show ?thesis using wut_last_exit [OF demo_reachable(5) l r, of 3] no_failure(1) by auto
qed

end
