(* ===== verification/WutRuns.thy ===== *)
theory WutRuns
  imports WutProps
begin

text \<open>
  Uses of the thread library that go wrong, outside the calls \<open>call_ok\<close> permits: a lost wakeup as a run
  of the model, and for every reachable state the stale marks of a join, the crashes of \<open>wut_join\<close> and
  the out of bounds read of \<open>wut_cancel\<close>.
\<close>

section \<open>Runs that go wrong\<close>

text \<open>What a run shows, or how it stops.\<close>

definition wut_trace :: "wut_call list \<Rightarrow> wut_stop + (int \<times> event) list" where
  "wut_trace cs = map_sum id fst (wut_run cs initialised)"

text \<open>A run up to the moment things have gone wrong.\<close>

definition lost_wakeup :: "wut_call list" where
  "lost_wakeup = [Create 1, Create 2, Create 3, Join 1, Join 2, Yield, Cancel 2, Yield, Return]"

text \<open>
  A lost wakeup. Thread 0 joins thread 1 and thread 1 joins thread 2; cancelling thread 2 wakes
  thread 1 and clears the mark that thread 0 waits for it.  When thread 1 then finishes, thread 0 is
  not woken: only thread 3 can run, while thread 0 still waits for a thread that has finished.
\<close>

theorem cancel_loses_wakeup:
  "ring (demo lost_wakeup) = [3] \<and> status_of (demo lost_wakeup) 0 = Some (-1) \<and>
    map_option t_block (thread (demo lost_wakeup) 0) = Some 1 \<and>
    map_option t_join_to (thread (demo lost_wakeup) 0) = Some 1 \<and>
    status_of (demo lost_wakeup) 1 = Some 0"
  by (intro conjI; code_simp)

text \<open>A thread marked as joined that nobody joins any more keeps its slot after its exit.\<close>

lemma exit_keeps_slot:
  assumes "reachable s" "thread s (wut_id s) = Some t" "t_join t \<noteq> 1" "t_enable t = 0"
    and "wut_step (Exit v) s = Inr (ev, s')"
  shows "\<not> reusable s' (wut_id s)"
proof -
  let ?c = "CURRENT_RUNNING_THREAD_ID s"
  have ok: "wut_ok s" by (rule reachable_ok [OF assms(1)])
  obtain p t0 where o: "wf_slots s" "wf_nodes s" "wf_rest {?c} s" "slot s ?c = Some p" "tcbs s p = Some t0"
    "thread s ?c = Some t0" "alive t0" "?c \<notin> set (ready s)" by (rule wut_okD [OF ok])
  have t: "t0 = t" using o(6) assms(2) by (simp add: wut_id_def)
  let ?f = "finished v s" and ?t = "t\<lparr>t_status := v AND 0xFF\<rparr>"
  have f: "?f = put p ?t s" using o(4,5) assms(3) t by (simp add: finished_def Let_def)
  obtain on where "wut_exit on v s = Inr (ev, s')"
    using assms(5) by (auto simp: wut_step_def result_simps)
  then obtain i "is" where r: "ready ?f = i # is" "resumed ?f i ev s'"
    using wut_exit_ok [OF ok, of on v] by (cases "ready ?f") auto
  have i: "i \<in> set (ready s)" "i \<noteq> ?c" using r(1) o(8) by (auto simp: f)
  then obtain x where x: "thread s i = Some x" using ready_thread [OF o(2)] by blast
  then obtain k where k: "t_ucontext x = Some k" "runnable s k"
    using o(3) i(1) by (auto simp: wf_rest_def rest_ready_def)
  have "thread ?f i = Some x" using x i(2) thread_put_slot [OF o(1,4)] by (simp add: f)
  have "\<exists>u. tcbs s' p = Some u \<and> \<not> alive u \<and> t_enable u = 0"
  proof (cases "\<exists>q. k = In_join q")
    case True
    then obtain q where q: "k = In_join q" by blast
    then have "q \<noteq> p" using k(2) o(5,7) by (auto simp: runnable_def)
    moreover obtain u where "s' = put q (u\<lparr>t_enable := 1\<rparr>) (run_next i ?f)"
      using r(2) \<open>thread ?f i = Some x\<close> k(1) q by (auto simp: resumed_def)
    ultimately show ?thesis using assms(4) status_byte(3) by (simp add: f)
  next
    case False
    then have "s' = run_next i ?f"
      using r(2) \<open>thread ?f i = Some x\<close> k(1) by (cases k) (auto simp: resumed_def)
    then show ?thesis using assms(4) status_byte(3) by (simp add: f)
  qed
  moreover have "slot s' ?c = Some p" using resumed_view(3) [OF r(2)] o(4) by (simp add: f)
  ultimately show ?thesis by (auto simp: reusable_def thread_def wut_id_def)
qed

text \<open>A cancelled thread that stays at the head of the queue is run by the next yield.\<close>

lemma cancelled_runs:
  assumes "reachable s" "thread s i = Some t" "alive t" "i \<noteq> wut_id s" "ready s = i # is"
    and c: "wf_slots s'" "wf_nodes s'" "slot s i = Some p" "keeps {p} s s'" "wut_id s' = wut_id s"
      "ready s' = i # js" "wut_id s \<notin> set js" "thread s' i = Some t'" "t_ucontext t' = t_ucontext t"
  shows "\<exists>ev s''. wut_step Yield s' = Inr (ev, s'') \<and> wut_id s'' = i"
proof -
  let ?c = "wut_id s"
  have ok: "wut_ok s" by (rule reachable_ok [OF assms(1)])
  obtain q u where o: "wf_slots s" "wf_rest {?c} s" "slot s ?c = Some q" "tcbs s q = Some u" "alive u"
    "t_ucontext u \<noteq> None" by (rule wut_okD [OF ok]) (simp add: wut_id_def)
  have "q \<noteq> p" using slot_inj [OF o(1,3)] c(3) assms(4) by blast
  moreover obtain u' where u': "tcbs s' q = Some u'" "follows s {p} q u u'" by (rule keepsD [OF c(4) o(4)])
  ultimately have ctx: "t_ucontext u' \<noteq> None" "alive u'" using o(5,6) by (simp_all add: follows_def)
  have "slot s' ?c = Some q" using c(4) o(3) by (simp add: keeps_def)
  then have out: "outside s' (CURRENT_RUNNING_THREAD_ID s') q u'"
    using c(1,2,5,6,7) u'(1) assms(4) by (auto simp: outside_def wut_id_def)
  obtain k where k: "t_ucontext t = Some k" "runnable s k"
    using o(2) assms(2,5) by (auto simp: wf_rest_def rest_ready_def)
  have "runnable s' k"
  proof (rule runnable_frame [OF k(2)])
    fix r x assume x: "tcbs s r = Some x" "\<not> alive x"
    obtain x' where "tcbs s' r = Some x'" "follows s {p} r x x'" by (rule keepsD [OF c(4) x(1)])
    then show "\<exists>x'. tcbs s' r = Some x' \<and> \<not> alive x'" using x(2) by (auto simp: follows_def)
  qed
  then obtain ev s'' where "wut_yield s' = Inr (ev, s'')" "CURRENT_RUNNING_THREAD_ID s'' = i"
    using yield_runs [OF out ctx(1) c(6,8) _ _ ctx(2)] k(1) c(9) by auto
  then show ?thesis by (auto simp: wut_step_def wut_id_def)
qed

text \<open>
  C21: Stale join marks. A thread that has joined and was resumed keeps its mark \<open>block_\<close>.
  If it is cancelled while it is in the queue, the call returns 0 and records status 128, but the thread
  stays in the queue, and if it is at the head the next yield runs it. If it is cancelled while it
  waits, its target is no longer marked as joined but still as not reusable; and whenever a thread
  with such marks exits, its slot is not reusable afterwards.
\<close>

theorem cancel_stale_marks:
  assumes "reachable s" "thread s i = Some t" "t_status t = -1" "i \<noteq> wut_id s" "t_block t = 1"
  shows "(\<exists>s'. wut_step (Cancel i) s = Inr (Returned 0, s') \<and> status_of s' i = Some 128 \<and>
      (if i \<in> set (ready s)
       then i \<in> set (ready s') \<and> (i = hd (ready s) \<longrightarrow>
         (\<exists>ev s''. wut_step Yield s' = Inr (ev, s'') \<and> wut_id s'' = i))
       else \<exists>v. thread s' (t_join_to t) = Some v \<and> t_status v = -1 \<and> t_join v = 0 \<and> t_enable v = 0)) \<and>
    (\<forall>r u v ev r'. reachable r \<and> thread r (wut_id r) = Some u \<and> t_join u \<noteq> 1 \<and> t_enable u = 0 \<and>
      wut_step (Exit v) r = Inr (ev, r') \<longrightarrow> \<not> reusable r' (wut_id r))"
proof -
  let ?c = "CURRENT_RUNNING_THREAD_ID s"
  have ok: "wut_ok s" and marks: "marks_ok s"
    by (rule reachable_ok [OF assms(1)], rule reachable_marks [OF assms(1)])
  have o: "wf_rest {?c} s" "?c \<notin> set (ready s)" using ok by (simp_all add: wut_ok_def)
  have "cancel_errno t s = None" using assms(5) by (simp add: cancel_errno_def)
  then obtain s' t' p where d: "wut_cancel i s = Inr (0, s')" "wf_slots s'" "wf_nodes s'" "slot s i = Some p"
    "keeps {p} s s'" "CURRENT_RUNNING_THREAD_ID s' = ?c"
    "ready s' = ready s @ (if t_join t = 1 then [t_join_from t] else [])"
    "thread s' i = Some t'" "t_status t' = 128" "t_ucontext t' = t_ucontext t" "released s t s'"
    using cancel_effect [OF ok marks assms(2,3)] assms(4,5) by (auto simp: wut_id_def)
  have step: "wut_step (Cancel i) s = Inr (Returned 0, s')" "status_of s' i = Some 128"
    using d(1,8,9) by (simp_all add: wut_step_def status_of_def)
  have stays: "i \<in> set (ready s') \<and> (i = hd (ready s) \<longrightarrow>
      (\<exists>ev s''. wut_step Yield s' = Inr (ev, s'') \<and> wut_id s'' = i))" if i: "i \<in> set (ready s)"
  proof (intro conjI impI)
    show "i \<in> set (ready s')" using i d(7) by simp
    assume "i = hd (ready s)"
    then obtain "is" where r: "ready s = i # is" using i by (cases "ready s") auto
    have j: "t_join_from t \<noteq> ?c" if j: "t_join t = 1"
      by (rule joiner_waits [OF o(1) assms(2,3)]) (use j in auto)
    show "\<exists>ev s''. wut_step Yield s' = Inr (ev, s'') \<and> wut_id s'' = i"
      by (rule cancelled_runs [OF assms(1-4) r d(2-5) _ _ _ d(8,10),
            of "is @ (if t_join t = 1 then [t_join_from t] else [])"])
        (use d(6,7) r o(2) j in \<open>auto simp: wut_id_def\<close>)
  qed
  have freed: "\<exists>v. thread s' (t_join_to t) = Some v \<and> t_status v = -1 \<and> t_join v = 0 \<and> t_enable v = 0"
    if i: "i \<notin> set (ready s)"
  proof -
    have "i = ?c \<or> (\<exists>j. waits_on s i t j)" using o(1) assms(2,3) i unfolding wf_rest_def rest_live_def by blast
    then obtain j where w: "waits_on s i t j" using assms(4) by (auto simp: wut_id_def)
    obtain q u where u: "thread s j = Some u" "tcbs s q = Some u" "alive u" "t_join u = 1" "t_join_to t = j"
      by (rule waits_target [OF w])
    then have "t_enable u = 0" using marks unfolding marks_ok_def by blast
    then show ?thesis using d(11) u by (auto simp: released_def)
  qed
  have "if i \<in> set (ready s)
       then i \<in> set (ready s') \<and> (i = hd (ready s) \<longrightarrow>
         (\<exists>ev s''. wut_step Yield s' = Inr (ev, s'') \<and> wut_id s'' = i))
       else \<exists>v. thread s' (t_join_to t) = Some v \<and> t_status v = -1 \<and> t_join v = 0 \<and> t_enable v = 0"
  proof (cases "i \<in> set (ready s)")
    case True
    show ?thesis unfolding if_P [OF True] by (rule stays [OF True])
  next
    case False
    show ?thesis unfolding if_not_P [OF False] by (rule freed [OF False])
  qed
  moreover have "\<forall>r u v ev r'. reachable r \<and> thread r (wut_id r) = Some u \<and> t_join u \<noteq> 1 \<and> t_enable u = 0 \<and>
      wut_step (Exit v) r = Inr (ev, r') \<longrightarrow> \<not> reusable r' (wut_id r)"
    by (intro allI impI, elim conjE) (rule exit_keeps_slot)
  ultimately show ?thesis using step by blast
qed

text \<open>Thread 0 joined thread 1 and was resumed; thread 2 runs.\<close>

definition stale_block :: "wut_call list" where
  "stale_block = [Create 1, Join 1, Create 2, Exit 7, Yield, Yield]"

theorem cancel_stale_marks_witness:
  "\<exists>s' ev s''. wut_step (Cancel 0) (demo stale_block) = Inr (Returned 0, s') \<and> status_of s' 0 = Some 128 \<and>
    wut_step Yield s' = Inr (ev, s'') \<and> wut_id s'' = 0"
proof -
  let ?s = "demo stale_block"
  have R: "reachable ?s" by (rule reachable_demo) code_simp
  have r: "ring ?s = [2, 0]" by code_simp
  have "case thread ?s 0 of None \<Rightarrow> False | Some t \<Rightarrow> t_status t = -1 \<and> t_block t = 1" by code_simp
  then obtain t where "thread ?s 0 = Some t" "t_status t = -1" "t_block t = 1" by (auto split: option.splits)
  with cancel_stale_marks [OF R, of 0 t] r show ?thesis by (auto simp: ring_def)
qed

text \<open>
  C22: The crashes of \<open>wut_join\<close>, exactly. In a reachable state a join dereferences a null pointer if and
  only if its id is below the number of threads created, is not the caller's, and either has an empty
  slot, as ids above a reused slot have, or belongs to an unfinished thread nobody joins while no other
  thread can run. Every other join returns or switches to a reachable state.
\<close>

theorem wut_join_crashes:
  assumes "reachable s"
  shows "if 0 \<le> j \<and> j \<noteq> wut_id s \<and> j < THREAD_NUM s \<and>
        (case thread s j of None \<Rightarrow> True | Some u \<Rightarrow> t_status u = -1 \<and> t_join u \<noteq> 1 \<and> ready s = [])
      then wut_step (Join j) s = Inl Null_deref
      else \<exists>ev s'. wut_step (Join j) s = Inr (ev, s') \<and> reachable s'"
proof -
  have ok: "wut_ok s" by (rule reachable_ok [OF assms])
  let ?bad = "0 \<le> j \<and> j \<noteq> wut_id s \<and> j < THREAD_NUM s \<and>
        (case thread s j of None \<Rightarrow> True | Some u \<Rightarrow> t_status u = -1 \<and> t_join u \<noteq> 1 \<and> ready s = [])"
  show ?thesis
  proof (cases ?bad)
    case True
    have "wut_join j s = Inl Null_deref"
    proof (cases "thread s j")
      case None
      then show ?thesis using True by (intro wut_join_refused(2) [OF ok]) (simp_all add: wut_id_def)
    next
      case (Some u)
      then show ?thesis using wut_join_ok [OF ok Some] True by (simp add: wut_id_def)
    qed
    then show ?thesis unfolding if_P [OF True] by (simp add: wut_step_def)
  next
    case False
    then have c: "call_ok s (Join j)" by (auto split: option.splits)
    then obtain ev s' where "wut_step (Join j) s = Inr (ev, s')"
      using join_step [OF ok c] by (cases "wut_step (Join j) s") auto
    then show ?thesis unfolding if_not_P [OF False] using reachable.call [OF assms c] by blast
  qed
qed

theorem wut_join_crashes_witness:
  "wut_step (Join 2) (demo [Create 1, Yield, Exit 0, Create 1]) = Inl Null_deref \<and>
    wut_step (Join 0) (demo [Create 1, Join 1]) = Inl Null_deref"
proof
  let ?s = "demo [Create 1, Yield, Exit 0, Create 1]" and ?t = "demo [Create 1, Join 1]"
  have R: "reachable ?s" by (rule reachable_demo) code_simp
  have "wut_id ?s = 0" "THREAD_NUM ?s = 3" by code_simp+
  moreover have "case thread ?s 2 of None \<Rightarrow> True | Some t \<Rightarrow> False" by code_simp
  then have "thread ?s 2 = None" by (cases "thread ?s 2") auto
  ultimately show "wut_step (Join 2) ?s = Inl Null_deref" using wut_join_crashes [OF R, of 2] by simp
  have "ring ?t = [1]" "THREAD_NUM ?t = 2" by code_simp+
  moreover have "case thread ?t 0 of None \<Rightarrow> False | Some u \<Rightarrow> t_status u = -1 \<and> t_join u \<noteq> 1" by code_simp
  then obtain u where "thread ?t 0 = Some u" "t_status u = -1" "t_join u \<noteq> 1" by (auto split: option.splits)
  ultimately show "wut_step (Join 0) ?t = Inl Null_deref"
    using wut_join_crashes [OF demo_reachable(3), of 0] by (simp add: ring_def)
qed

text \<open>
  The range check of \<open>wut_cancel\<close> lets through the id one past the array: when as many threads were
  created as the array has slots, cancelling that id reads outside the array.
\<close>

theorem cancel_out_of_bounds:
  assumes "reachable s" "THREAD_NUM s = MAX_THREAD_NUM s"
  shows "wut_step (Cancel (THREAD_NUM s)) s = Inl Out_of_bounds"
proof -
  have ok: "wut_ok s" by (rule reachable_ok [OF assms(1)])
  then have wf: "wf_slots s" by (simp add: wut_ok_def)
  obtain t where "thread s (wut_id s) = Some t" by (rule running_stack_ok [OF ok])
  then have "wut_id s < MAX_THREAD_NUM s" using thread_range [OF wf] assms(2) by metis
  moreover have "array_at (THREAD_NUM s) s = Inl Out_of_bounds"
    using wf assms(2) by (simp add: array_at_def wf_slots_def)
  moreover have "1 \<le> THREAD_NUM s" using wf by (simp add: wf_slots_def)
  ultimately show ?thesis using assms(2) by (simp add: wut_step_def wut_cancel_def wut_id_def)
qed

lemma full_table: "n < 256 \<Longrightarrow> \<exists>s. reachable s \<and> sys_errno s = (\<lambda>_. None) \<and> THREAD_NUM s = int n + 1 \<and> MAX_THREAD_NUM s = 256"
proof (induction n)
  case 0
  have "THREAD_NUM initialised = 1" "MAX_THREAD_NUM initialised = 256" by code_simp+
  then show ?case using reachable_initialised initialised_env by (intro exI [of _ initialised]) simp
next
  case (Suc n)
  then obtain s where s: "reachable s" "THREAD_NUM s = int n + 1" "MAX_THREAD_NUM s = 256"
    "sys_errno s = (\<lambda>_. None)" by auto
  obtain i s' where c: "wut_create 0 s = Inr (i, s')" "created 0 s i s'"
    using wut_create_ok [OF reachable_ok [OF s(1)] no_failure(2) [OF s(4)], of 0] by blast
  have "reachable s'" by (rule reachable.call [OF s(1), of "Create 0"]) (simp_all add: wut_step_def c(1))
  then show ?case using c(2) s Suc.prems by (intro exI [of _ s']) (simp add: created_def)
qed

theorem cancel_out_of_bounds_witness:
  "\<exists>s. reachable s \<and> wut_step (Cancel 256) s = Inl Out_of_bounds"
proof -
  obtain s where "reachable s" "THREAD_NUM s = 256" "MAX_THREAD_NUM s = 256" using full_table [of 255] by auto
  with cancel_out_of_bounds [of s] show ?thesis by auto
qed

end
