(* ===== verification/Ext2.thy ===== *)
theory Ext2
  imports Prelude
begin

text \<open>
  The ext2 image writer \<open>hello-ext2/src/ext2-create.c\<close>: the on-disk structures with their little-endian
  layout, the image file with its offset, and the functions that write the superblock, the block
  group descriptor, the bitmaps, the inodes, the two directories and the file.  The environment
  decides which system call fails and with what \<open>errno\<close>, what the clock shows, and what the memory
  after the entry holds that \<open>write_root_dir_block\<close> writes beyond its end.
\<close>

section \<open>Constants\<close>

definition BLOCK_SIZE :: nat where "BLOCK_SIZE = 1024"
definition NUM_BLOCKS :: nat where "NUM_BLOCKS = 1024"
definition NUM_INODES :: nat where "NUM_INODES = 128"
definition BLOCK_OFFSET :: "nat \<Rightarrow> nat" where "BLOCK_OFFSET i = i * BLOCK_SIZE"

definition EXT2_ROOT_INO :: u32 where "EXT2_ROOT_INO = 2"
definition LOST_AND_FOUND_INO :: u32 where "LOST_AND_FOUND_INO = 11"
definition HELLO_WORLD_INO :: u32 where "HELLO_WORLD_INO = 12"
definition HELLO_INO :: u32 where "HELLO_INO = 13"
definition LAST_INO :: nat where "LAST_INO = 13"

definition EXT2_S_IFLNK :: u16 where "EXT2_S_IFLNK = 0xA000"
definition EXT2_S_IFREG :: u16 where "EXT2_S_IFREG = 0x8000"
definition EXT2_S_IFDIR :: u16 where "EXT2_S_IFDIR = 0x4000"
definition EXT2_S_IRUSR :: u16 where "EXT2_S_IRUSR = 0x0100"
definition EXT2_S_IWUSR :: u16 where "EXT2_S_IWUSR = 0x0080"
definition EXT2_S_IXUSR :: u16 where "EXT2_S_IXUSR = 0x0040"
definition EXT2_S_IRGRP :: u16 where "EXT2_S_IRGRP = 0x0020"
definition EXT2_S_IXGRP :: u16 where "EXT2_S_IXGRP = 0x0008"
definition EXT2_S_IROTH :: u16 where "EXT2_S_IROTH = 0x0004"
definition EXT2_S_IXOTH :: u16 where "EXT2_S_IXOTH = 0x0001"

definition BLOCK_BITMAP_BLOCKNO :: nat where "BLOCK_BITMAP_BLOCKNO = 3"
definition INODE_BITMAP_BLOCKNO :: nat where "INODE_BITMAP_BLOCKNO = 4"
definition INODE_TABLE_BLOCKNO :: nat where "INODE_TABLE_BLOCKNO = 5"
definition ROOT_DIR_BLOCKNO :: nat where "ROOT_DIR_BLOCKNO = 21"
definition LOST_AND_FOUND_DIR_BLOCKNO :: nat where "LOST_AND_FOUND_DIR_BLOCKNO = 22"
definition HELLO_WORLD_FILE_BLOCKNO :: nat where "HELLO_WORLD_FILE_BLOCKNO = 23"
definition LAST_BLOCK :: nat where "LAST_BLOCK = HELLO_WORLD_FILE_BLOCKNO"
definition NUM_FREE_BLOCKS :: nat where "NUM_FREE_BLOCKS = NUM_BLOCKS - LAST_BLOCK - 1"
definition NUM_FREE_INODES :: nat where "NUM_FREE_INODES = NUM_INODES - LAST_INO"
definition EXT2_SUPER_MAGIC :: u16 where "EXT2_SUPER_MAGIC = 0xEF53"
definition EXT2_VALID_FS :: u16 where "EXT2_VALID_FS = 1"
definition EXT2_ERRORS_CONTINUE :: u16 where "EXT2_ERRORS_CONTINUE = 1"
definition EXT2_NAME_LEN :: nat where "EXT2_NAME_LEN = 255"
definition EXT2_N_BLOCKS :: nat where "EXT2_N_BLOCKS = 15"

lemmas ext2_consts =
  BLOCK_SIZE_def NUM_BLOCKS_def NUM_INODES_def
  BLOCK_OFFSET_def EXT2_ROOT_INO_def LOST_AND_FOUND_INO_def
  HELLO_WORLD_INO_def HELLO_INO_def LAST_INO_def
  EXT2_S_IFLNK_def EXT2_S_IFREG_def EXT2_S_IFDIR_def
  EXT2_S_IRUSR_def EXT2_S_IWUSR_def EXT2_S_IXUSR_def
  EXT2_S_IRGRP_def EXT2_S_IXGRP_def EXT2_S_IROTH_def
  EXT2_S_IXOTH_def BLOCK_BITMAP_BLOCKNO_def INODE_BITMAP_BLOCKNO_def
  INODE_TABLE_BLOCKNO_def ROOT_DIR_BLOCKNO_def LOST_AND_FOUND_DIR_BLOCKNO_def
  HELLO_WORLD_FILE_BLOCKNO_def LAST_BLOCK_def NUM_FREE_BLOCKS_def
  NUM_FREE_INODES_def EXT2_SUPER_MAGIC_def EXT2_VALID_FS_def
  EXT2_ERRORS_CONTINUE_def EXT2_NAME_LEN_def EXT2_N_BLOCKS_def

section \<open>On-disk structures\<close>

text \<open>
  Each C struct with its fields in order, its value for the initializer \<open>{0}\<close> and its bytes in memory;
  the fields are aligned, so only the directory entry has padding (one byte at the end).
\<close>

record ext2_superblock =
  s_inodes_count :: u32
  s_blocks_count :: u32
  s_r_blocks_count :: u32
  s_free_blocks_count :: u32
  s_free_inodes_count :: u32
  s_first_data_block :: u32
  s_log_block_size :: u32
  s_log_frag_size :: u32
  s_blocks_per_group :: u32
  s_frags_per_group :: u32
  s_inodes_per_group :: u32
  s_mtime :: u32
  s_wtime :: u32
  s_mnt_count :: u16
  s_max_mnt_count :: u16
  s_magic :: u16
  s_state :: u16
  s_errors :: u16
  s_minor_rev_level :: u16
  s_lastcheck :: u32
  s_checkinterval :: u32
  s_creator_os :: u32
  s_rev_level :: u32
  s_def_resuid :: u16
  s_def_resgid :: u16
  s_pad :: "u32 list"
  s_uuid :: "u8 list"
  s_volume_name :: "u8 list"
  s_reserved :: "u32 list"

definition superblock0 :: ext2_superblock where
  "superblock0 = \<lparr>s_inodes_count = 0, s_blocks_count = 0, s_r_blocks_count = 0,
     s_free_blocks_count = 0, s_free_inodes_count = 0, s_first_data_block = 0,
     s_log_block_size = 0, s_log_frag_size = 0, s_blocks_per_group = 0,
     s_frags_per_group = 0, s_inodes_per_group = 0, s_mtime = 0, s_wtime = 0,
     s_mnt_count = 0, s_max_mnt_count = 0, s_magic = 0, s_state = 0, s_errors = 0,
     s_minor_rev_level = 0, s_lastcheck = 0, s_checkinterval = 0, s_creator_os = 0,
     s_rev_level = 0, s_def_resuid = 0, s_def_resgid = 0, s_pad = replicate 5 0,
     s_uuid = replicate 16 0, s_volume_name = replicate 16 0,
     s_reserved = replicate 229 0\<rparr>"

definition superblock_bytes :: "ext2_superblock \<Rightarrow> u8 list" where
  "superblock_bytes b =
    le_bytes 4 (s_inodes_count b) @ le_bytes 4 (s_blocks_count b) @
    le_bytes 4 (s_r_blocks_count b) @ le_bytes 4 (s_free_blocks_count b) @
    le_bytes 4 (s_free_inodes_count b) @ le_bytes 4 (s_first_data_block b) @
    le_bytes 4 (s_log_block_size b) @ le_bytes 4 (s_log_frag_size b) @
    le_bytes 4 (s_blocks_per_group b) @ le_bytes 4 (s_frags_per_group b) @
    le_bytes 4 (s_inodes_per_group b) @ le_bytes 4 (s_mtime b) @ le_bytes 4 (s_wtime b) @
    le_bytes 2 (s_mnt_count b) @ le_bytes 2 (s_max_mnt_count b) @ le_bytes 2 (s_magic b) @
    le_bytes 2 (s_state b) @ le_bytes 2 (s_errors b) @ le_bytes 2 (s_minor_rev_level b) @
    le_bytes 4 (s_lastcheck b) @ le_bytes 4 (s_checkinterval b) @
    le_bytes 4 (s_creator_os b) @ le_bytes 4 (s_rev_level b) @ le_bytes 2 (s_def_resuid b) @
    le_bytes 2 (s_def_resgid b) @ concat (map (le_bytes 4) (s_pad b)) @ s_uuid b @
    s_volume_name b @ concat (map (le_bytes 4) (s_reserved b))"

record ext2_block_group_descriptor =
  bg_block_bitmap :: u32
  bg_inode_bitmap :: u32
  bg_inode_table :: u32
  bg_free_blocks_count :: u16
  bg_free_inodes_count :: u16
  bg_used_dirs_count :: u16
  bg_pad :: u16
  bg_reserved :: "u32 list"

definition descriptor0 :: ext2_block_group_descriptor where
  "descriptor0 = \<lparr>bg_block_bitmap = 0, bg_inode_bitmap = 0, bg_inode_table = 0,
     bg_free_blocks_count = 0, bg_free_inodes_count = 0, bg_used_dirs_count = 0,
     bg_pad = 0, bg_reserved = replicate 3 0\<rparr>"

definition descriptor_bytes :: "ext2_block_group_descriptor \<Rightarrow> u8 list" where
  "descriptor_bytes b =
    le_bytes 4 (bg_block_bitmap b) @ le_bytes 4 (bg_inode_bitmap b) @
    le_bytes 4 (bg_inode_table b) @ le_bytes 2 (bg_free_blocks_count b) @
    le_bytes 2 (bg_free_inodes_count b) @ le_bytes 2 (bg_used_dirs_count b) @
    le_bytes 2 (bg_pad b) @ concat (map (le_bytes 4) (bg_reserved b))"

record ext2_inode =
  i_mode :: u16
  i_uid :: u16
  i_size :: u32
  i_atime :: u32
  i_ctime :: u32
  i_mtime :: u32
  i_dtime :: u32
  i_gid :: u16
  i_links_count :: u16
  i_blocks :: u32
  i_flags :: u32
  i_reserved1 :: u32
  i_block :: "u32 list"
  i_version :: u32
  i_file_acl :: u32
  i_dir_acl :: u32
  i_faddr :: u32
  i_frag :: u8
  i_fsize :: u8
  i_pad1 :: u16
  i_reserved2 :: "u32 list"

definition inode0 :: ext2_inode where
  "inode0 = \<lparr>i_mode = 0, i_uid = 0, i_size = 0, i_atime = 0, i_ctime = 0, i_mtime = 0,
     i_dtime = 0, i_gid = 0, i_links_count = 0, i_blocks = 0, i_flags = 0,
     i_reserved1 = 0, i_block = replicate 15 0, i_version = 0, i_file_acl = 0,
     i_dir_acl = 0, i_faddr = 0, i_frag = 0, i_fsize = 0, i_pad1 = 0,
     i_reserved2 = replicate 2 0\<rparr>"

definition inode_bytes :: "ext2_inode \<Rightarrow> u8 list" where
  "inode_bytes n =
    le_bytes 2 (i_mode n) @ le_bytes 2 (i_uid n) @ le_bytes 4 (i_size n) @
    le_bytes 4 (i_atime n) @ le_bytes 4 (i_ctime n) @ le_bytes 4 (i_mtime n) @
    le_bytes 4 (i_dtime n) @ le_bytes 2 (i_gid n) @ le_bytes 2 (i_links_count n) @
    le_bytes 4 (i_blocks n) @ le_bytes 4 (i_flags n) @ le_bytes 4 (i_reserved1 n) @
    concat (map (le_bytes 4) (i_block n)) @ le_bytes 4 (i_version n) @
    le_bytes 4 (i_file_acl n) @ le_bytes 4 (i_dir_acl n) @ le_bytes 4 (i_faddr n) @
    le_bytes 1 (i_frag n) @ le_bytes 1 (i_fsize n) @ le_bytes 2 (i_pad1 n) @
    concat (map (le_bytes 4) (i_reserved2 n))"

record ext2_dir_entry =
  d_inode :: u32
  d_rec_len :: u16
  d_name_len :: u16
  d_name :: "u8 list"

definition dir_entry0 :: ext2_dir_entry where
  "dir_entry0 = \<lparr>d_inode = 0, d_rec_len = 0, d_name_len = 0, d_name = replicate EXT2_NAME_LEN 0\<rparr>"

definition dir_entry_bytes :: "ext2_dir_entry \<Rightarrow> u8 list" where
  "dir_entry_bytes e = le_bytes 4 (d_inode e) @ le_bytes 2 (d_rec_len e) @ le_bytes 2 (d_name_len e) @
     d_name e @ [0]"

text \<open>The characters of a C string, \<open>memcpy\<close> to the start of an array of bytes or words, \<open>strncpy\<close>.\<close>

definition chars :: "string \<Rightarrow> u8 list" where
  "chars s = map of_char s"

definition memcpy_bytes :: "u8 list \<Rightarrow> u8 list \<Rightarrow> u8 list" where
  "memcpy_bytes dst src = src @ drop (length src) dst"

fun words_of_bytes :: "u8 list \<Rightarrow> u32 list" where
  "words_of_bytes (a # b # c # d # bs) = of_le_bytes [a, b, c, d] # words_of_bytes bs"
| "words_of_bytes bs = []"

definition memcpy_words :: "u32 list \<Rightarrow> u8 list \<Rightarrow> u32 list" where
  "memcpy_words dst src = words_of_bytes (memcpy_bytes (concat (map (le_bytes 4) dst)) src)"

definition strncpy :: "u8 list \<Rightarrow> nat \<Rightarrow> u8 list" where
  "strncpy s n = take n s @ replicate (n - length s) 0"

section \<open>The image file\<close>

record image =
  img_bytes :: "nat \<Rightarrow> u8"
  img_size :: nat
  img_pos :: nat
  img_calls :: nat

text \<open>
  The environment: \<open>sys_fails n\<close> is the \<open>errno\<close> with which the n-th system call fails (a short \<open>write\<close>
  counts as failed, as the code treats it, and so does a \<open>time\<close> of \<open>-1\<close>), \<open>sys_clock n\<close> what \<open>time\<close>
  returns as the n-th call if that does not fail, and \<open>stack_after\<close> the memory that follows a directory entry on the stack.
\<close>

record ext2_env =
  sys_fails :: "nat \<Rightarrow> int option"
  sys_clock :: "nat \<Rightarrow> u64"
  stack_after :: "nat \<Rightarrow> u8"

text \<open>A result is a state or the status the process exits with.\<close>

type_synonym 'a ext2_result = "int + 'a"

definition syscall :: "ext2_env \<Rightarrow> image \<Rightarrow> image ext2_result" where
  "syscall env s = (case sys_fails env (img_calls s) of
       Some e \<Rightarrow> Inl e
     | None \<Rightarrow> Inr (s\<lparr>img_calls := img_calls s + 1\<rparr>))"

text \<open>\<open>errno_exit\<close> exits with \<open>errno\<close>; the other handlers exit with \<open>EXIT_FAILURE\<close>.\<close>

definition exit_failure :: "'a ext2_result \<Rightarrow> 'a ext2_result" where
  "exit_failure r = (case r of Inl e \<Rightarrow> Inl 1 | Inr x \<Rightarrow> Inr x)"

definition lseek :: "ext2_env \<Rightarrow> nat \<Rightarrow> image \<Rightarrow> image ext2_result" where
  "lseek env off s = and_then (syscall env s) (\<lambda>s. Inr (s\<lparr>img_pos := off\<rparr>))"

definition patch :: "nat \<Rightarrow> u8 list \<Rightarrow> (nat \<Rightarrow> u8) \<Rightarrow> nat \<Rightarrow> u8" where
  "patch p bs f = (\<lambda>i. if p \<le> i \<and> i < p + length bs then bs ! (i - p) else f i)"

definition sys_write :: "ext2_env \<Rightarrow> u8 list \<Rightarrow> image \<Rightarrow> image ext2_result" where
  "sys_write env bs s = and_then (syscall env s) (\<lambda>s.
     Inr (s\<lparr>img_bytes := patch (img_pos s) bs (img_bytes s), img_pos := img_pos s + length bs,
       img_size := max (img_size s) (img_pos s + length bs)\<rparr>))"

definition ftruncate :: "ext2_env \<Rightarrow> nat \<Rightarrow> image \<Rightarrow> image ext2_result" where
  "ftruncate env n s = and_then (syscall env s) (\<lambda>s.
     Inr (s\<lparr>img_size := n, img_bytes := (\<lambda>i. if i < min n (img_size s) then img_bytes s i else 0)\<rparr>))"

definition get_current_time :: "ext2_env \<Rightarrow> image \<Rightarrow> (u32 \<times> image) ext2_result" where
  "get_current_time env s = and_then (syscall env s) (\<lambda>s'. Inr (ucast (sys_clock env (img_calls s)), s'))"

end
