(* ===== verification/Ext2Write.thy ===== *)
theory Ext2Write
  imports Ext2
begin

text \<open>
  The functions of \<open>hello-ext2/src/ext2-create.c\<close> that fill the image, in the order of the file, and
  \<open>main\<close>.  Every function checks every system call; the first one to fail ends the process.
\<close>

section \<open>Superblock and block group descriptor\<close>

definition the_superblock :: "u32 \<Rightarrow> ext2_superblock" where
  "the_superblock current_time = superblock0\<lparr>
     s_inodes_count := of_nat NUM_INODES,
     s_blocks_count := of_nat NUM_BLOCKS,
     s_r_blocks_count := 0,
     s_free_blocks_count := of_nat NUM_FREE_BLOCKS,
     s_free_inodes_count := of_nat NUM_FREE_INODES,
     s_first_data_block := 1,
     s_log_block_size := 0,
     s_log_frag_size := 0,
     s_blocks_per_group := of_nat (BLOCK_SIZE * 8),
     s_frags_per_group := of_nat (BLOCK_SIZE * 8),
     s_inodes_per_group := of_nat NUM_INODES,
     s_mtime := 0,
     s_wtime := current_time,
     s_mnt_count := 0,
     s_max_mnt_count := -1,
     s_magic := EXT2_SUPER_MAGIC,
     s_state := EXT2_VALID_FS,
     s_errors := EXT2_ERRORS_CONTINUE,
     s_minor_rev_level := 0,
     s_lastcheck := current_time,
     s_checkinterval := 1,
     s_creator_os := 0,
     s_rev_level := 0,
     s_def_resuid := 0,
     s_def_resgid := 0,
     s_uuid := [0x5A, 0x1E, 0xAB, 0x1E, 0x13, 0x37, 0x13, 0x37, 0x13, 0x37, 0xC0, 0xFF, 0xEE, 0xC0, 0xFF, 0xEE],
     s_volume_name := memcpy_bytes (s_volume_name superblock0) (chars ''hello'')\<rparr>"

definition write_superblock :: "ext2_env \<Rightarrow> image \<Rightarrow> image ext2_result" where
  "write_superblock env s =
     and_then (lseek env (BLOCK_OFFSET 1) s) (\<lambda>s.
     and_then (get_current_time env s) (\<lambda>(current_time, s).
     sys_write env (superblock_bytes (the_superblock current_time)) s))"

definition the_descriptor :: ext2_block_group_descriptor where
  "the_descriptor = descriptor0\<lparr>
     bg_block_bitmap := of_nat BLOCK_BITMAP_BLOCKNO,
     bg_inode_bitmap := of_nat INODE_BITMAP_BLOCKNO,
     bg_inode_table := of_nat INODE_TABLE_BLOCKNO,
     bg_free_blocks_count := of_nat NUM_FREE_BLOCKS,
     bg_free_inodes_count := of_nat NUM_FREE_INODES,
     bg_used_dirs_count := 2\<rparr>"

definition write_block_group_descriptor_table :: "ext2_env \<Rightarrow> image \<Rightarrow> image ext2_result" where
  "write_block_group_descriptor_table env s =
     and_then (lseek env (BLOCK_OFFSET 2) s) (sys_write env (descriptor_bytes the_descriptor))"

section \<open>Bitmaps\<close>

definition set_bit_at :: "nat \<Rightarrow> u8 list \<Rightarrow> u8 list" where
  "set_bit_at i bm = bm[i div 8 := bm ! (i div 8) OR push_bit (i mod 8) 1]"

definition block_bitmap :: "u8 list" where
  "block_bitmap = fold set_bit_at [1023..<BLOCK_SIZE * 8]
     (fold set_bit_at [0..<LAST_BLOCK] (replicate BLOCK_SIZE 0))"

definition write_block_bitmap :: "ext2_env \<Rightarrow> image \<Rightarrow> image ext2_result" where
  "write_block_bitmap env s =
     and_then (lseek env (BLOCK_OFFSET BLOCK_BITMAP_BLOCKNO) s) (sys_write env block_bitmap)"

definition inode_bitmap :: "u8 list" where
  "inode_bitmap = fold set_bit_at [128..<BLOCK_SIZE * 8]
     (fold set_bit_at [0..<LAST_INO] (replicate BLOCK_SIZE 0))"

definition write_inode_bitmap :: "ext2_env \<Rightarrow> image \<Rightarrow> image ext2_result" where
  "write_inode_bitmap env s =
     and_then (lseek env (BLOCK_OFFSET INODE_BITMAP_BLOCKNO) s) (sys_write env inode_bitmap)"

section \<open>Inodes\<close>

definition write_inode :: "ext2_env \<Rightarrow> u32 \<Rightarrow> ext2_inode \<Rightarrow> image \<Rightarrow> image ext2_result" where
  "write_inode env index ino s =
     and_then (lseek env (BLOCK_OFFSET INODE_TABLE_BLOCKNO + unat (index - 1) * 128) s)
       (sys_write env (inode_bytes ino))"

definition dir_mode :: u16 where
  "dir_mode = EXT2_S_IFDIR OR EXT2_S_IRUSR OR EXT2_S_IWUSR OR EXT2_S_IXUSR OR EXT2_S_IRGRP OR
     EXT2_S_IXGRP OR EXT2_S_IROTH OR EXT2_S_IXOTH"

definition lost_and_found_inode :: "u32 \<Rightarrow> ext2_inode" where
  "lost_and_found_inode current_time = inode0\<lparr>
     i_mode := dir_mode, i_uid := 0, i_size := 1024, i_atime := current_time, i_ctime := current_time,
     i_mtime := current_time, i_dtime := 0, i_gid := 0, i_links_count := 2, i_blocks := 2,
     i_block := (i_block inode0)[0 := of_nat LOST_AND_FOUND_DIR_BLOCKNO]\<rparr>"

definition root_inode :: "u32 \<Rightarrow> ext2_inode" where
  "root_inode current_time = inode0\<lparr>
     i_mode := dir_mode, i_uid := 0, i_gid := 0, i_size := 1024, i_atime := current_time,
     i_ctime := current_time, i_mtime := current_time, i_links_count := 3, i_blocks := 2,
     i_block := (i_block inode0)[0 := of_nat ROOT_DIR_BLOCKNO]\<rparr>"

definition hello_world_inode :: "u32 \<Rightarrow> ext2_inode" where
  "hello_world_inode current_time = inode0\<lparr>
     i_mode := EXT2_S_IFREG OR EXT2_S_IRUSR OR EXT2_S_IWUSR OR EXT2_S_IRGRP OR EXT2_S_IROTH,
     i_uid := 1000, i_gid := 1000, i_size := 12, i_atime := current_time, i_ctime := current_time,
     i_mtime := current_time, i_links_count := 1, i_blocks := 2,
     i_block := (i_block inode0)[0 := of_nat HELLO_WORLD_FILE_BLOCKNO]\<rparr>"

definition hello_inode :: "u32 \<Rightarrow> ext2_inode" where
  "hello_inode current_time =
     (let hello_target = chars ''hello-world'' in
      inode0\<lparr>
        i_mode := EXT2_S_IFLNK OR EXT2_S_IRUSR OR EXT2_S_IWUSR OR EXT2_S_IRGRP OR EXT2_S_IROTH,
        i_uid := 1000, i_gid := 1000, i_size := of_nat (length hello_target), i_atime := current_time,
        i_ctime := current_time, i_mtime := current_time, i_links_count := 1, i_blocks := 0,
        i_block := memcpy_words (i_block inode0) hello_target\<rparr>)"

definition write_inode_table :: "ext2_env \<Rightarrow> image \<Rightarrow> image ext2_result" where
  "write_inode_table env s =
     and_then (get_current_time env s) (\<lambda>(current_time, s).
     and_then (write_inode env LOST_AND_FOUND_INO (lost_and_found_inode current_time) s) (\<lambda>s.
     and_then (write_inode env EXT2_ROOT_INO (root_inode current_time) s) (\<lambda>s.
     and_then (write_inode env HELLO_WORLD_INO (hello_world_inode current_time) s)
       (write_inode env HELLO_INO (hello_inode current_time)))))"

section \<open>Directories\<close>

text \<open>
  The memory \<open>write\<close> reads when it is given the address of an entry and \<open>n\<close> bytes: the entry and, past
  its end, what lies behind it on the stack.
\<close>

definition entry_memory :: "ext2_env \<Rightarrow> ext2_dir_entry \<Rightarrow> nat \<Rightarrow> u8 list" where
  "entry_memory env e n =
     take n (dir_entry_bytes e) @ map (stack_after env) [0..<n - length (dir_entry_bytes e)]"

definition write_entry :: "ext2_env \<Rightarrow> ext2_dir_entry \<Rightarrow> image \<Rightarrow> image ext2_result" where
  "write_entry env e s = sys_write env (entry_memory env e (unat (d_rec_len e))) s"

definition named_entry :: "u32 \<Rightarrow> string \<Rightarrow> u16 \<Rightarrow> ext2_dir_entry" where
  "named_entry ino name rec_len =
     \<lparr>d_inode = ino, d_rec_len = rec_len, d_name_len = of_nat (length name),
      d_name = strncpy (chars name) EXT2_NAME_LEN\<rparr>"

definition padded_rec_len :: "string \<Rightarrow> u16" where
  "padded_rec_len name = of_nat (12 + (length name + 3) div 4 * 4)"

definition dot_entry :: ext2_dir_entry where
  "dot_entry = named_entry EXT2_ROOT_INO ''.'' 12"

definition dotdot_entry :: ext2_dir_entry where
  "dotdot_entry = named_entry EXT2_ROOT_INO ''..'' 12"

definition lost_and_found_entry :: ext2_dir_entry where
  "lost_and_found_entry = named_entry LOST_AND_FOUND_INO ''lost+found'' (padded_rec_len ''lost+found'')"

definition hello_world_entry :: ext2_dir_entry where
  "hello_world_entry = named_entry HELLO_WORLD_INO ''hello-world'' (padded_rec_len ''hello-world'')"

definition hello_entry :: ext2_dir_entry where
  "hello_entry = named_entry HELLO_INO ''hello'' (of_nat BLOCK_SIZE -
     (d_rec_len dot_entry + d_rec_len dotdot_entry + d_rec_len lost_and_found_entry +
      d_rec_len hello_world_entry))"

definition write_root_dir_block :: "ext2_env \<Rightarrow> image \<Rightarrow> image ext2_result" where
  "write_root_dir_block env s = exit_failure (
     and_then (lseek env (BLOCK_OFFSET ROOT_DIR_BLOCKNO) s) (\<lambda>s.
     and_then (write_entry env dot_entry s) (\<lambda>s.
     and_then (write_entry env dotdot_entry s) (\<lambda>s.
     and_then (write_entry env lost_and_found_entry s) (\<lambda>s.
     and_then (write_entry env hello_world_entry s)
       (write_entry env hello_entry))))))"

definition dir_entry_set :: "u32 \<Rightarrow> string \<Rightarrow> ext2_dir_entry \<Rightarrow> ext2_dir_entry" where
  "dir_entry_set inode_num str e =
     (let len = length str;
          e = e\<lparr>d_inode := inode_num, d_name_len := of_nat len, d_name := memcpy_bytes (d_name e) (chars str)\<rparr> in
      if len mod 4 \<noteq> 0 then e\<lparr>d_rec_len := of_nat (12 + len div 4 * 4)\<rparr>
      else e\<lparr>d_rec_len := of_nat (8 + len)\<rparr>)"

definition dir_entry_write_fill :: "ext2_env \<Rightarrow> int \<Rightarrow> image \<Rightarrow> image ext2_result" where
  "dir_entry_write_fill env bytes_remaining s =
     sys_write env (entry_memory env (dir_entry0\<lparr>d_rec_len := word_of_int bytes_remaining\<rparr>) 6) s"

definition write_lost_and_found_dir_block :: "ext2_env \<Rightarrow> image \<Rightarrow> image ext2_result" where
  "write_lost_and_found_dir_block env s =
     and_then (lseek env (BLOCK_OFFSET LOST_AND_FOUND_DIR_BLOCKNO) s) (\<lambda>s.
     let bytes_remaining = int BLOCK_SIZE;
         current_entry = dir_entry_set LOST_AND_FOUND_INO ''.'' dir_entry0 in
     and_then (write_entry env current_entry s) (\<lambda>s.
     let bytes_remaining = bytes_remaining - uint (d_rec_len current_entry);
         parent_entry = dir_entry_set EXT2_ROOT_INO ''..'' dir_entry0 in
     and_then (write_entry env parent_entry s) (\<lambda>s.
     let bytes_remaining = bytes_remaining - uint (d_rec_len parent_entry) in
     dir_entry_write_fill env bytes_remaining s)))"

section \<open>The file and main\<close>

definition file_content :: "u8 list" where
  "file_content = chars ''Hello world'' @ [10]"

definition write_hello_world_file_block :: "ext2_env \<Rightarrow> image \<Rightarrow> image ext2_result" where
  "write_hello_world_file_block env s = exit_failure (
     and_then (lseek env (BLOCK_OFFSET HELLO_WORLD_FILE_BLOCKNO) s) (sys_write env file_content))"

text \<open>
  \<open>main\<close> on a file that holds \<open>s\<close> or is created empty: \<open>open\<close> does not truncate, the two \<open>ftruncate\<close>
  calls clear the file and give it its size.
\<close>

definition ext2_main :: "ext2_env \<Rightarrow> image \<Rightarrow> image ext2_result" where
  "ext2_main env s =
     and_then (syscall env (s\<lparr>img_pos := 0, img_calls := 0\<rparr>)) (\<lambda>s.
     and_then (ftruncate env 0 s) (\<lambda>s.
     and_then (ftruncate env (NUM_BLOCKS * BLOCK_SIZE) s) (\<lambda>s.
     and_then (write_superblock env s) (\<lambda>s.
     and_then (write_block_group_descriptor_table env s) (\<lambda>s.
     and_then (write_block_bitmap env s) (\<lambda>s.
     and_then (write_inode_bitmap env s) (\<lambda>s.
     and_then (write_inode_table env s) (\<lambda>s.
     and_then (write_root_dir_block env s) (\<lambda>s.
     and_then (write_lost_and_found_dir_block env s) (\<lambda>s.
     and_then (write_hello_world_file_block env s)
       (syscall env)))))))))))"

end
