(* ===== verification/Ext2Props.thy ===== *)
theory Ext2Props
  imports Ext2Write
begin

text \<open>
  What the image holds after \<open>main\<close>: it is read back the way an ext2 driver reads it, through a reader
  that knows the format and not the writer.
\<close>

section \<open>The image as a list of writes\<close>

definition sys_ok :: "ext2_env \<Rightarrow> nat \<Rightarrow> bool" where
  "sys_ok env n \<longleftrightarrow> (\<forall>i < n. sys_fails env i = None)"

definition patches :: "(nat \<times> u8 list) list \<Rightarrow> (nat \<Rightarrow> u8) \<Rightarrow> nat \<Rightarrow> u8" where
  "patches ws f = fold (\<lambda>(p, bs) f. patch p bs f) ws f"

definition clock_at :: "ext2_env \<Rightarrow> nat \<Rightarrow> u32" where
  "clock_at env n = ucast (sys_clock env n)"

definition main_writes :: "ext2_env \<Rightarrow> (nat \<times> u8 list) list" where
  "main_writes env = (let t = clock_at env 4; u = clock_at env 12 in
     [(1024, superblock_bytes (the_superblock t)), (2048, descriptor_bytes the_descriptor),
      (3072, block_bitmap), (4096, inode_bitmap),
      (6400, inode_bytes (lost_and_found_inode u)), (5248, inode_bytes (root_inode u)),
      (6528, inode_bytes (hello_world_inode u)), (6656, inode_bytes (hello_inode u)),
      (21504, entry_memory env dot_entry 12), (21516, entry_memory env dotdot_entry 12),
      (21528, entry_memory env lost_and_found_entry 24), (21552, entry_memory env hello_world_entry 24),
      (21576, entry_memory env hello_entry 952),
      (22528, entry_memory env (dir_entry_set LOST_AND_FOUND_INO ''.'' dir_entry0) 12),
      (22540, entry_memory env (dir_entry_set EXT2_ROOT_INO ''..'' dir_entry0) 12),
      (22552, entry_memory env (dir_entry0\<lparr>d_rec_len := 1000\<rparr>) 6),
      (23552, file_content)])"

definition ext2_image :: "ext2_env \<Rightarrow> nat \<Rightarrow> u8" where
  "ext2_image env = patches (main_writes env) (\<lambda>_. 0)"

lemma syscall_ok [simp]:
  "sys_fails env (img_calls s) = None \<Longrightarrow> syscall env s = Inr (s\<lparr>img_calls := img_calls s + 1\<rparr>)"
  by (simp add: syscall_def)

lemma length_concat_words: "length (concat (map (le_bytes 4) ws)) = 4 * length ws"
  by (induction ws) simp_all

lemma length_struct_bytes:
  "length (s_pad b) = 5 \<Longrightarrow> length (s_uuid b) = 16 \<Longrightarrow> length (s_volume_name b) = 16 \<Longrightarrow>
    length (s_reserved b) = 229 \<Longrightarrow> length (superblock_bytes b) = 1052"
  "length (bg_reserved d) = 3 \<Longrightarrow> length (descriptor_bytes d) = 32"
  "length (i_block n) = 15 \<Longrightarrow> length (i_reserved2 n) = 2 \<Longrightarrow> length (inode_bytes n) = 128"
  "length (d_name e) = 255 \<Longrightarrow> length (dir_entry_bytes e) = 264"
  by (simp_all add: superblock_bytes_def descriptor_bytes_def inode_bytes_def dir_entry_bytes_def
      length_concat_words)

lemma length_chars [simp]: "length (chars s) = length s"
  by (simp add: chars_def)

lemma length_name: "length (strncpy (chars s) 255) = 255"
  by (simp add: strncpy_def)

lemma length_entry_memory [simp]:
  "length (d_name e) = 255 \<Longrightarrow> length (entry_memory env e n) = n"
  by (simp add: entry_memory_def length_struct_bytes)

lemma length_fold_set_bit [simp]: "length (fold set_bit_at is bm) = length bm"
  by (induction "is" arbitrary: bm) (simp_all add: set_bit_at_def)

lemma length_words_of_bytes: "length (words_of_bytes bs) = length bs div 4"
  by (induction bs rule: words_of_bytes.induct) simp_all

lemma length_memcpy_words:
  "length src \<le> 4 * length dst \<Longrightarrow> length (memcpy_words dst src) = length dst"
  by (simp add: memcpy_words_def length_words_of_bytes memcpy_bytes_def length_concat_words)

lemma length_bitmaps [simp]: "length block_bitmap = 1024" "length inode_bitmap = 1024"
  by (simp_all only: block_bitmap_def inode_bitmap_def length_fold_set_bit length_replicate BLOCK_SIZE_def)

lemma length_written [simp]:
  "length (superblock_bytes (the_superblock t)) = 1052"
  "length (descriptor_bytes the_descriptor) = 32"
  "length (inode_bytes (lost_and_found_inode t)) = 128" "length (inode_bytes (root_inode t)) = 128"
  "length (inode_bytes (hello_world_inode t)) = 128" "length (inode_bytes (hello_inode t)) = 128"
  "length (d_name dot_entry) = 255" "length (d_name dotdot_entry) = 255"
  "length (d_name lost_and_found_entry) = 255" "length (d_name hello_world_entry) = 255"
  "length (d_name hello_entry) = 255"
  "length (d_name (dir_entry_set i ''.'' dir_entry0)) = 255"
  "length (d_name (dir_entry_set i ''..'' dir_entry0)) = 255"
  "length (d_name dir_entry0) = 255"
  "length file_content = 12"
  by (simp_all add: length_struct_bytes the_superblock_def superblock0_def memcpy_bytes_def the_descriptor_def
      descriptor0_def lost_and_found_inode_def root_inode_def
      hello_world_inode_def hello_inode_def inode0_def length_memcpy_words
      dot_entry_def dotdot_entry_def lost_and_found_entry_def hello_world_entry_def
      hello_entry_def named_entry_def EXT2_NAME_LEN_def length_name dir_entry_set_def dir_entry0_def
      Let_def file_content_def)

lemma rec_lens [simp]:
  "d_rec_len dot_entry = 12" "d_rec_len dotdot_entry = 12" "d_rec_len lost_and_found_entry = 24"
  "d_rec_len hello_world_entry = 24" "d_rec_len hello_entry = 952"
  "d_rec_len (dir_entry_set i ''.'' e) = 12" "d_rec_len (dir_entry_set i ''..'' e) = 12"
  by (simp_all add: dot_entry_def dotdot_entry_def lost_and_found_entry_def hello_world_entry_def
      hello_entry_def named_entry_def padded_rec_len_def dir_entry_set_def Let_def BLOCK_SIZE_def)

lemma ext2_main_writes:
  assumes "sys_ok env 34"
  shows "\<exists>s'. ext2_main env s = Inr s' \<and> img_size s' = 1048576 \<and> img_bytes s' = ext2_image env"
proof -
  have ok: "sys_fails env n = None" if "n < 34" for n using assms that by (simp add: sys_ok_def)
  have four: "Suc (Suc (Suc (Suc 0))) = 4" by simp
  show ?thesis
    by (simp add: four ext2_main_def ok ftruncate_def write_superblock_def lseek_def get_current_time_def
        sys_write_def write_block_group_descriptor_table_def write_block_bitmap_def write_inode_bitmap_def
        write_inode_table_def write_inode_def write_root_dir_block_def write_entry_def exit_failure_def
        write_lost_and_found_dir_block_def dir_entry_write_fill_def write_hello_world_file_block_def
        Let_def ext2_image_def patches_def main_writes_def clock_at_def
        BLOCK_OFFSET_def BLOCK_SIZE_def NUM_BLOCKS_def BLOCK_BITMAP_BLOCKNO_def INODE_BITMAP_BLOCKNO_def
        INODE_TABLE_BLOCKNO_def ROOT_DIR_BLOCKNO_def LOST_AND_FOUND_DIR_BLOCKNO_def
        HELLO_WORLD_FILE_BLOCKNO_def LOST_AND_FOUND_INO_def EXT2_ROOT_INO_def HELLO_WORLD_INO_def
        HELLO_INO_def)
qed

section \<open>Reading the image\<close>

definition rd :: "(nat \<Rightarrow> u8) \<Rightarrow> nat \<Rightarrow> nat \<Rightarrow> u8 list" where
  "rd f p n = map f [p..<p + n]"

definition u16_at :: "(nat \<Rightarrow> u8) \<Rightarrow> nat \<Rightarrow> u16" where
  "u16_at f p = of_le_bytes (rd f p 2)"

definition u32_at :: "(nat \<Rightarrow> u8) \<Rightarrow> nat \<Rightarrow> u32" where
  "u32_at f p = of_le_bytes (rd f p 4)"

lemma length_rd [simp]: "length (rd f p n) = n"
  by (simp add: rd_def)

lemma rd_sub:
  assumes "rd f p n = bs" "q + m \<le> n"
  shows "rd f (p + q) m = take m (drop q bs)"
proof -
  have "take m (drop q [p..<p + n]) = [p + q..<p + q + m]"
    using assms(2) by (simp add: take_upt drop_upt)
  then show ?thesis unfolding assms(1) [symmetric] rd_def take_map drop_map by simp
qed

lemma rd_patch_same: "n \<le> length bs \<Longrightarrow> rd (patch p bs f) p n = take n bs"
  by (rule nth_equalityI) (simp_all add: rd_def patch_def)

lemma rd_patch_other: "q + n \<le> p \<or> p + length bs \<le> q \<Longrightarrow> rd (patch p bs f) q n = rd f q n"
  by (rule nth_equalityI) (auto simp: rd_def patch_def)

text \<open>Every write is found in the image, except the last bytes of the first, which the second covers.\<close>

lemma image_regions:
  "rd (ext2_image env) 1024 1024 = take 1024 (superblock_bytes (the_superblock (clock_at env 4)))"
  "rd (ext2_image env) 2048 32 = descriptor_bytes the_descriptor"
  "rd (ext2_image env) 3072 1024 = block_bitmap"
  "rd (ext2_image env) 4096 1024 = inode_bitmap"
  "rd (ext2_image env) 6400 128 = inode_bytes (lost_and_found_inode (clock_at env 12))"
  "rd (ext2_image env) 5248 128 = inode_bytes (root_inode (clock_at env 12))"
  "rd (ext2_image env) 6528 128 = inode_bytes (hello_world_inode (clock_at env 12))"
  "rd (ext2_image env) 6656 128 = inode_bytes (hello_inode (clock_at env 12))"
  "rd (ext2_image env) 21504 12 = entry_memory env dot_entry 12"
  "rd (ext2_image env) 21516 12 = entry_memory env dotdot_entry 12"
  "rd (ext2_image env) 21528 24 = entry_memory env lost_and_found_entry 24"
  "rd (ext2_image env) 21552 24 = entry_memory env hello_world_entry 24"
  "rd (ext2_image env) 21576 952 = entry_memory env hello_entry 952"
  "rd (ext2_image env) 22528 12 = entry_memory env (dir_entry_set LOST_AND_FOUND_INO ''.'' dir_entry0) 12"
  "rd (ext2_image env) 22540 12 = entry_memory env (dir_entry_set EXT2_ROOT_INO ''..'' dir_entry0) 12"
  "rd (ext2_image env) 22552 6 = entry_memory env (dir_entry0\<lparr>d_rec_len := 1000\<rparr>) 6"
  "rd (ext2_image env) 22558 2 = [0, 0]"
  "rd (ext2_image env) 23552 12 = file_content"
  by (simp_all add: ext2_image_def patches_def main_writes_def Let_def rd_patch_same rd_patch_other)
     (simp add: rd_def numeral_2_eq_2)

section \<open>Bitmaps and counts\<close>

definition bit_in :: "u8 list \<Rightarrow> nat \<Rightarrow> bool" where
  "bit_in bm i \<longleftrightarrow> bit (bm ! (i div 8)) (i mod 8)"

lemma bit_in_set_bits:
  assumes "\<forall>j \<in> set is. j < 8 * length bm" "i < 8 * length bm"
  shows "bit_in (fold set_bit_at is bm) i \<longleftrightarrow> bit_in bm i \<or> i \<in> set is"
  using assms
proof (induction "is" arbitrary: bm)
  case (Cons j "is")
  have len: "length (set_bit_at j bm) = length bm" by (simp add: set_bit_at_def)
  have "j div 8 < length bm" using Cons.prems(1) by (auto simp: div_less_iff_less_mult mult.commute)
  moreover have "i = j \<longleftrightarrow> i div 8 = j div 8 \<and> i mod 8 = j mod 8" by (metis div_mult_mod_eq)
  ultimately have "bit_in (set_bit_at j bm) i \<longleftrightarrow> bit_in bm i \<or> i = j"
    by (cases "i div 8 = j div 8") (auto simp: bit_in_def set_bit_at_def bit_simps)
  with Cons.IH [of "set_bit_at j bm"] Cons.prems len show ?case by auto
qed simp

lemma bit_in_zeros: "i < 8 * n \<Longrightarrow> \<not> bit_in (replicate n 0) i"
proof -
  assume "i < 8 * n"
  then have "i div 8 < n" by (simp add: div_less_iff_less_mult mult.commute)
  then show "\<not> bit_in (replicate n 0) i" by (simp add: bit_in_def)
qed

lemma bit_in_two_ranges:
  assumes "i < n * 8" "b \<le> n * 8"
  shows "bit_in (fold set_bit_at [a..<n * 8] (fold set_bit_at [0..<b] (replicate n 0))) i \<longleftrightarrow> i < b \<or> a \<le> i"
proof -
  have "bit_in (fold set_bit_at [0..<b] (replicate n 0)) i \<longleftrightarrow> i < b"
    using assms bit_in_zeros [of i n] by (subst bit_in_set_bits) auto
  then show ?thesis using assms by (subst bit_in_set_bits) auto
qed

lemma bit_in_bitmaps:
  assumes "i < 8192"
  shows "bit_in block_bitmap i \<longleftrightarrow> i < 23 \<or> 1023 \<le> i" "bit_in inode_bitmap i \<longleftrightarrow> i < 13 \<or> 128 \<le> i"
proof -
  note c = BLOCK_SIZE_def LAST_BLOCK_def LAST_INO_def HELLO_WORLD_FILE_BLOCKNO_def
  have "bit_in block_bitmap i \<longleftrightarrow> i < LAST_BLOCK \<or> 1023 \<le> i"
    unfolding block_bitmap_def by (rule bit_in_two_ranges) (use assms in \<open>simp_all add: c\<close>)
  moreover have "bit_in inode_bitmap i \<longleftrightarrow> i < LAST_INO \<or> 128 \<le> i"
    unfolding inode_bitmap_def by (rule bit_in_two_ranges) (use assms in \<open>simp_all add: c\<close>)
  ultimately show "bit_in block_bitmap i \<longleftrightarrow> i < 23 \<or> 1023 \<le> i" "bit_in inode_bitmap i \<longleftrightarrow> i < 13 \<or> 128 \<le> i"
    by (simp_all add: c)
qed

text \<open>
  A reader of the format: the superblock is at byte 1024, the group descriptor in the block after
  it, and blocks have 1024 bytes.  Bit \<open>b\<close> of the block bitmap stands for block
  \<open>s_first_data_block + b\<close>, bit \<open>n\<close> of the inode bitmap for inode \<open>n + 1\<close>.
\<close>

definition table_at :: "(nat \<Rightarrow> u8) \<Rightarrow> nat \<Rightarrow> nat" where
  "table_at f k = unat (u32_at f (2048 + k)) * 1024"

definition block_used :: "(nat \<Rightarrow> u8) \<Rightarrow> nat \<Rightarrow> bool" where
  "block_used f b = bit_in (rd f (table_at f 0) 1024) (b - unat (u32_at f (1024 + 20)))"

definition inode_used :: "(nat \<Rightarrow> u8) \<Rightarrow> nat \<Rightarrow> bool" where
  "inode_used f n = bit_in (rd f (table_at f 4) 1024) (n - 1)"

definition inode_pos :: "(nat \<Rightarrow> u8) \<Rightarrow> nat \<Rightarrow> nat" where
  "inode_pos f n = table_at f 8 + (n - 1) * 128"

lemma u32_sub: "rd f p n = bs \<Longrightarrow> q + 4 \<le> n \<Longrightarrow> u32_at f (p + q) = of_le_bytes (take 4 (drop q bs))"
  unfolding u32_at_def by (subst rd_sub) simp_all

lemma u16_sub: "rd f p n = bs \<Longrightarrow> q + 2 \<le> n \<Longrightarrow> u16_at f (p + q) = of_le_bytes (take 2 (drop q bs))"
  unfolding u16_at_def by (subst rd_sub) simp_all

lemma superblock_read:
  "u32_at (ext2_image env) (1024 + 0) = 128" "u32_at (ext2_image env) (1024 + 4) = 1024"
  "u32_at (ext2_image env) (1024 + 12) = 1000" "u32_at (ext2_image env) (1024 + 16) = 115"
  "u32_at (ext2_image env) (1024 + 20) = 1" "u32_at (ext2_image env) (1024 + 24) = 0"
  "u16_at (ext2_image env) (1024 + 56) = 0xEF53"
  by (simp_all only: u32_sub [OF image_regions(1)] u16_sub [OF image_regions(1)])
     (simp_all add: superblock_bytes_def the_superblock_def ext2_consts)

lemma descriptor_read:
  "u32_at (ext2_image env) (2048 + 0) = 3" "u32_at (ext2_image env) (2048 + 4) = 4"
  "u32_at (ext2_image env) (2048 + 8) = 5" "u16_at (ext2_image env) (2048 + 12) = 1000"
  "u16_at (ext2_image env) (2048 + 14) = 115" "u16_at (ext2_image env) (2048 + 16) = 2"
  by (simp_all only: u32_sub [OF image_regions(2)] u16_sub [OF image_regions(2)])
     (simp_all add: descriptor_bytes_def the_descriptor_def ext2_consts)

lemma tables: "table_at (ext2_image env) 0 = 3072" "table_at (ext2_image env) 4 = 4096"
  "table_at (ext2_image env) 8 = 5120"
  by (simp_all only: table_at_def descriptor_read) simp_all

lemma block_used_image: "1 \<le> b \<Longrightarrow> b \<le> 8192 \<Longrightarrow> block_used (ext2_image env) b \<longleftrightarrow> b \<le> 23 \<or> 1024 \<le> b"
proof -
  assume b: "1 \<le> b" "b \<le> 8192"
  have "block_used (ext2_image env) b \<longleftrightarrow> bit_in block_bitmap (b - 1)"
    by (simp only: block_used_def tables image_regions superblock_read) simp
  also have "\<dots> \<longleftrightarrow> b \<le> 23 \<or> 1024 \<le> b" using b bit_in_bitmaps(1) [of "b - 1"] by auto
  finally show ?thesis .
qed

lemma inode_used_image: "1 \<le> n \<Longrightarrow> n \<le> 8192 \<Longrightarrow> inode_used (ext2_image env) n \<longleftrightarrow> n \<le> 13 \<or> 129 \<le> n"
  using bit_in_bitmaps(2) [of "n - 1"] by (auto simp only: inode_used_def tables image_regions)

text \<open>
  C24: The image is consistent with itself. Its magic number is that of ext2, the superblock and the
  group descriptor give as free as many blocks and inodes as the bitmaps leave clear, the blocks in
  use are exactly the 23 from the superblock to the file, and the inodes in use the first 13.
\<close>

theorem ext2_counts:
  assumes "sys_ok env 34" "ext2_main env s = Inr s'"
  defines "f \<equiv> img_bytes s'"
  shows "img_size s' = 1024 * unat (u32_at f 1028) \<and> u16_at f 1080 = 0xEF53 \<and>
    (\<forall>b \<in> {1..<1024}. block_used f b \<longleftrightarrow> b \<le> 23) \<and> (\<forall>n \<in> {1..128}. inode_used f n \<longleftrightarrow> n \<le> 13) \<and>
    unat (u32_at f 1036) = card {b \<in> {1..<1024}. \<not> block_used f b} \<and>
    unat (u16_at f 2060) = card {b \<in> {1..<1024}. \<not> block_used f b} \<and>
    unat (u32_at f 1040) = card {n \<in> {1..128}. \<not> inode_used f n} \<and>
    unat (u16_at f 2062) = card {n \<in> {1..128}. \<not> inode_used f n}"
proof (intro conjI)
  have f: "f = ext2_image env" "img_size s' = 1048576"
    using ext2_main_writes [OF assms(1), of s] assms(2) by (auto simp: f_def)
  note r = superblock_read [where env = env] descriptor_read [where env = env]
  have B: "block_used f b \<longleftrightarrow> b \<le> 23" if "b \<in> {1..<1024}" for b
    using that block_used_image [of b env] f(1) by auto
  have N: "inode_used f n \<longleftrightarrow> n \<le> 13" if "n \<in> {1..128}" for n
    using that inode_used_image [of n env] f(1) by auto
  have "{b \<in> {1..<1024}. \<not> block_used f b} = {24..<1024}" using B by auto
  then have cb: "card {b \<in> {1..<1024}. \<not> block_used f b} = 1000" by simp
  have "{n \<in> {1..128}. \<not> inode_used f n} = {14..128}" using N by auto
  then have cn: "card {n \<in> {1..128}. \<not> inode_used f n} = 115" by simp
  show "img_size s' = 1024 * unat (u32_at f 1028)" "u16_at f 1080 = 0xEF53"
    "unat (u32_at f 1036) = card {b \<in> {1..<1024}. \<not> block_used f b}"
    "unat (u16_at f 2060) = card {b \<in> {1..<1024}. \<not> block_used f b}"
    "unat (u32_at f 1040) = card {n \<in> {1..128}. \<not> inode_used f n}"
    "unat (u16_at f 2062) = card {n \<in> {1..128}. \<not> inode_used f n}"
    using r f(2) unfolding cb cn unfolding f(1) by simp_all
  show "\<forall>b \<in> {1..<1024}. block_used f b \<longleftrightarrow> b \<le> 23" "\<forall>n \<in> {1..128}. inode_used f n \<longleftrightarrow> n \<le> 13"
    using B N by blast+
qed

definition demo_env :: ext2_env where
  "demo_env = \<lparr>sys_fails = (\<lambda>_. None), sys_clock = (\<lambda>_. 0x65000000), stack_after = (\<lambda>i. of_nat i)\<rparr>"

definition no_file :: image where
  "no_file = \<lparr>img_bytes = (\<lambda>_. 0), img_size = 0, img_pos = 0, img_calls = 0\<rparr>"

lemma sys_ok_demo: "sys_ok demo_env n"
  by (simp add: sys_ok_def demo_env_def)

theorem ext2_counts_witness:
  "\<exists>s'. ext2_main demo_env no_file = Inr s' \<and> unat (u32_at (img_bytes s') 1036) =
     card {b \<in> {1..<1024}. \<not> block_used (img_bytes s') b}"
proof -
  obtain s' where "ext2_main demo_env no_file = Inr s'" using ext2_main_writes [OF sys_ok_demo] by blast
  with ext2_counts [OF sys_ok_demo this] show ?thesis by blast
qed

section \<open>Directories and files\<close>

text \<open>
  The entries of a directory between two positions: an entry shorter than its header and name, not
  a multiple of four bytes long or reaching past the end makes the directory unreadable.
\<close>

function dir_entries :: "(nat \<Rightarrow> u8) \<Rightarrow> nat \<Rightarrow> nat \<Rightarrow> (nat \<times> u8 list) list option" where
  "dir_entries f p e =
     (let r = unat (u16_at f (p + 4)); k = unat (u16_at f (p + 6)) in
      if e \<le> p then (if e = p then Some [] else None)
      else if r < 8 + k \<or> r mod 4 \<noteq> 0 \<or> e < p + r then None
      else map_option ((#) (unat (u32_at f p), rd f (p + 8) k)) (dir_entries f (p + r) e))"
  by pat_completeness auto
termination
  by (relation "measure (\<lambda>(f, p, e). e - p)") auto

declare dir_entries.simps [simp del]

definition list_dir :: "(nat \<Rightarrow> u8) \<Rightarrow> nat \<Rightarrow> (nat \<times> u8 list) list option" where
  "list_dir f n = (let b = unat (u32_at f (inode_pos f n + 40)) in
     dir_entries f (b * 1024) (b * 1024 + unat (u32_at f (inode_pos f n + 4))))"

definition inode_mode :: "(nat \<Rightarrow> u8) \<Rightarrow> nat \<Rightarrow> u16" where
  "inode_mode f n = u16_at f (inode_pos f n)"

text \<open>A regular file of one block, and a symbolic link whose target is in the inode.\<close>

definition read_file :: "(nat \<Rightarrow> u8) \<Rightarrow> nat \<Rightarrow> u8 list" where
  "read_file f n = rd f (unat (u32_at f (inode_pos f n + 40)) * 1024) (unat (u32_at f (inode_pos f n + 4)))"

definition read_link :: "(nat \<Rightarrow> u8) \<Rightarrow> nat \<Rightarrow> u8 list" where
  "read_link f n = rd f (inode_pos f n + 40) (unat (u32_at f (inode_pos f n + 4)))"

lemma entry_read:
  assumes r: "rd f p n = entry_memory env e n" and l: "length (d_name e) = 255" "8 \<le> n"
  shows "u32_at f p = d_inode e" "u16_at f (p + 4) = d_rec_len e" "u16_at f (p + 6) = d_name_len e"
    "k \<le> 255 \<Longrightarrow> 8 + k \<le> n \<Longrightarrow> rd f (p + 8) k = take k (d_name e)"
proof -
  have m: "take m (drop q (entry_memory env e n)) = take m (drop q (dir_entry_bytes e))"
    if "q + m \<le> n" "q + m \<le> 264" for m q
  proof (rule nth_equalityI)
    show "length (take m (drop q (entry_memory env e n))) = length (take m (drop q (dir_entry_bytes e)))"
      using that l(1) by (simp add: length_struct_bytes)
    fix i assume "i < length (take m (drop q (entry_memory env e n)))"
    then have "i < m" "q + i < n" "q + i < 264" using that by auto
    then show "take m (drop q (entry_memory env e n)) ! i = take m (drop q (dir_entry_bytes e)) ! i"
      using l(1) by (simp add: length_struct_bytes) (simp add: entry_memory_def nth_append length_struct_bytes)
  qed
  have s: "take 4 (drop 0 (dir_entry_bytes e)) = le_bytes 4 (d_inode e)"
    "take 2 (drop 4 (dir_entry_bytes e)) = le_bytes 2 (d_rec_len e)"
    "take 2 (drop 6 (dir_entry_bytes e)) = le_bytes 2 (d_name_len e)"
    "k \<le> 255 \<Longrightarrow> take k (drop 8 (dir_entry_bytes e)) = take k (d_name e)"
    using l(1) by (simp_all add: dir_entry_bytes_def)
  have "u32_at f (p + 0) = of_le_bytes (take 4 (drop 0 (dir_entry_bytes e)))"
    using l(2) by (subst u32_sub [OF r]) (simp, subst m, simp_all)
  then show "u32_at f p = d_inode e" unfolding s by simp
  have "u16_at f (p + 4) = of_le_bytes (take 2 (drop 4 (dir_entry_bytes e)))"
    using l(2) by (subst u16_sub [OF r]) (simp, subst m, simp_all)
  then show "u16_at f (p + 4) = d_rec_len e" unfolding s by simp
  have "u16_at f (p + 6) = of_le_bytes (take 2 (drop 6 (dir_entry_bytes e)))"
    using l(2) by (subst u16_sub [OF r]) (simp, subst m, simp_all)
  then show "u16_at f (p + 6) = d_name_len e" unfolding s by simp
  show "rd f (p + 8) k = take k (d_name e)" if k: "k \<le> 255" "8 + k \<le> n"
    unfolding rd_sub [OF r k(2)] using s(4) [OF k(1)] m [OF k(2)] k(1) by simp
qed

lemma inode_read:
  assumes r: "rd f p 128 = inode_bytes n" and l: "length (i_block n) = 15"
  shows "u16_at f p = i_mode n" "u32_at f (p + 4) = i_size n" "u16_at f (p + 26) = i_links_count n"
    "u32_at f (p + 40) = i_block n ! 0"
    "k \<le> 60 \<Longrightarrow> rd f (p + 40) k = take k (concat (map (le_bytes 4) (i_block n)))"
proof -
  have "u16_at f (p + 0) = i_mode n" by (subst u16_sub [OF r]) (simp_all add: inode_bytes_def)
  then show "u16_at f p = i_mode n" by simp
  show "u32_at f (p + 4) = i_size n" "u16_at f (p + 26) = i_links_count n"
    by (subst u32_sub [OF r] u16_sub [OF r], simp, simp add: inode_bytes_def)+
  have B: "take k (drop 40 (inode_bytes n)) = take k (concat (map (le_bytes 4) (i_block n)))" if "k \<le> 60" for k
    using that l by (simp add: inode_bytes_def length_concat_words)
  show "rd f (p + 40) k = take k (concat (map (le_bytes 4) (i_block n)))" if "k \<le> 60"
    using rd_sub [OF r, of 40 k] that B by simp
  obtain b bs where "i_block n = b # bs" using l by (cases "i_block n") auto
  then show "u32_at f (p + 40) = i_block n ! 0"
    by (subst u32_sub [OF r]) (simp, subst B, simp_all)
qed

lemma length_blocks [simp]:
  "length (i_block (lost_and_found_inode t)) = 15" "length (i_block (root_inode t)) = 15"
  "length (i_block (hello_world_inode t)) = 15" "length (i_block (hello_inode t)) = 15"
  by (simp_all add: lost_and_found_inode_def root_inode_def hello_world_inode_def hello_inode_def
      inode0_def length_memcpy_words Let_def)

lemma inode_places: "inode_pos (ext2_image env) 2 = 5248" "inode_pos (ext2_image env) 11 = 6400"
  "inode_pos (ext2_image env) 12 = 6528" "inode_pos (ext2_image env) 13 = 6656"
  by (simp_all add: inode_pos_def tables)

lemma bytes_words_of_bytes: "length bs mod 4 = 0 \<Longrightarrow> concat (map (le_bytes 4) (words_of_bytes bs)) = bs"
proof (induction bs rule: words_of_bytes.induct)
  case (1 a b c d bs)
  then have "length bs mod 4 = 0" by (simp add: mod_Suc split: if_splits)
  moreover have "le_bytes 4 (of_le_bytes [a, b, c, d] :: u32) = [a, b, c, d]" by (rule le_bytes_of_le_bytes) simp_all
  ultimately show ?case using 1 by (simp del: of_le_bytes.simps)
qed simp_all

lemma bytes_memcpy_words:
  assumes "length src \<le> 4 * length dst"
  shows "concat (map (le_bytes 4) (memcpy_words dst src)) = src @ drop (length src) (concat (map (le_bytes 4) dst))"
  using assms unfolding memcpy_words_def
  by (subst bytes_words_of_bytes) (simp_all add: memcpy_bytes_def length_concat_words)

lemmas inode_defs = root_inode_def lost_and_found_inode_def hello_world_inode_def hello_inode_def inode0_def

lemmas inode_reads =
  inode_read [OF image_regions(6) length_blocks(2)] inode_read [OF image_regions(5) length_blocks(1)]
  inode_read [OF image_regions(7) length_blocks(3)] inode_read [OF image_regions(8) length_blocks(4)]

lemma dir_entries_end: "dir_entries f e e = Some []"
  by (simp add: dir_entries.simps [of f e e])

lemma dir_entries_step:
  assumes "p < e" "unat (u16_at f (p + 4)) = r" "unat (u16_at f (p + 6)) = k"
    "8 + k \<le> r" "r mod 4 = 0" "p + r \<le> e" "unat (u32_at f p) = i" "rd f (p + 8) k = nm"
    "dir_entries f (p + r) e = Some es"
  shows "dir_entries f p e = Some ((i, nm) # es)"
  using assms by (simp add: dir_entries.simps [of f p e] Let_def)

lemma take_strncpy: "length s \<le> 255 \<Longrightarrow> take (length s) (strncpy (chars s) 255) = chars s"
  by (simp add: strncpy_def)

lemma named_entry_read:
  assumes "rd f p n = entry_memory env (named_entry i s r) n" "length s \<le> 255" "8 + length s \<le> n"
  shows "u32_at f p = i" "u16_at f (p + 4) = r" "unat (u16_at f (p + 6)) = length s"
    "rd f (p + 8) (length s) = chars s"
proof -
  have l: "length (d_name (named_entry i s r)) = 255" by (simp add: named_entry_def EXT2_NAME_LEN_def length_name)
  note E = entry_read [OF assms(1) l]
  show "u32_at f p = i" "u16_at f (p + 4) = r" "unat (u16_at f (p + 6)) = length s"
    "rd f (p + 8) (length s) = chars s"
    using E assms(2,3) by (simp_all add: named_entry_def EXT2_NAME_LEN_def take_strncpy unat_of_nat)
qed

lemma root_dir_entries:
  "dir_entries (ext2_image env) 21504 22528 = Some [(2, chars ''.''), (2, chars ''..''),
     (11, chars ''lost+found''), (12, chars ''hello-world''), (13, chars ''hello'')]"
proof -
  let ?f = "ext2_image env"
  note c = EXT2_ROOT_INO_def LOST_AND_FOUND_INO_def HELLO_WORLD_INO_def HELLO_INO_def
  have pads: "padded_rec_len ''lost+found'' = 24" "padded_rec_len ''hello-world'' = 24"
    by (simp_all add: padded_rec_len_def)
  note e = image_regions(9-13) [where env = env]
  have 5: "dir_entries ?f 21576 22528 = Some [(13, chars ''hello'')]"
    by (rule dir_entries_step [where r = 952 and k = "length ''hello''"])
       (use named_entry_read [OF e(5) [unfolded hello_entry_def rec_lens BLOCK_SIZE_def]] in \<open>simp_all add: dir_entries_end c\<close>)
  have 4: "dir_entries ?f 21552 22528 = Some [(12, chars ''hello-world''), (13, chars ''hello'')]"
    by (rule dir_entries_step [where r = 24 and k = "length ''hello-world''"])
       (use named_entry_read [OF e(4) [unfolded hello_world_entry_def pads]] 5 in \<open>simp_all add: c\<close>)
  have 3: "dir_entries ?f 21528 22528 = Some [(11, chars ''lost+found''), (12, chars ''hello-world''),
      (13, chars ''hello'')]"
    by (rule dir_entries_step [where r = 24 and k = "length ''lost+found''"])
       (use named_entry_read [OF e(3) [unfolded lost_and_found_entry_def pads]] 4 in \<open>simp_all add: c\<close>)
  have 2: "dir_entries ?f 21516 22528 = Some [(2, chars ''..''), (11, chars ''lost+found''),
      (12, chars ''hello-world''), (13, chars ''hello'')]"
    by (rule dir_entries_step [where r = 12 and k = "length ''..''"])
       (use named_entry_read [OF e(2) [unfolded dotdot_entry_def]] 3 in \<open>simp_all add: c\<close>)
  show ?thesis
    by (rule dir_entries_step [where r = 12 and k = "length ''.''"])
       (use named_entry_read [OF e(1) [unfolded dot_entry_def]] 2 in \<open>simp_all add: c\<close>)
qed

lemma lost_and_found_entries:
  "dir_entries (ext2_image env) 22528 23552 = Some [(11, chars ''.''), (2, chars ''..''), (0, [])]"
proof -
  let ?f = "ext2_image env"
  note e = image_regions(14-17) [where env = env]
  have l: "length (d_name (dir_entry_set i ''.'' dir_entry0)) = 255"
    "length (d_name (dir_entry_set i ''..'' dir_entry0)) = 255" for i by simp_all
  have z: "length (d_name dir_entry0) = 255" "d_inode dir_entry0 = 0"
    by (simp_all add: dir_entry0_def EXT2_NAME_LEN_def)
  have "entry_memory env (dir_entry0\<lparr>d_rec_len := 1000\<rparr>) 6 = [0, 0, 0, 0, 0xE8, 3]"
    by (simp add: entry_memory_def dir_entry_bytes_def dir_entry0_def le_bytes_def byte_at_def upt_rec)
  then have e3: "rd ?f 22552 6 = [0, 0, 0, 0, 0xE8, 3]" using e(3) by simp
  have h: "u32_at ?f (22552 + 0) = 0" "u16_at ?f (22552 + 4) = 1000"
    by (simp_all only: u32_sub [OF e3] u16_sub [OF e3]) simp_all
  have "u16_at ?f 22558 = 0" using e(4) by (simp add: u16_at_def)
  with h have 3: "dir_entries ?f 22552 23552 = Some [(0, [])]"
    by (intro dir_entries_step [where r = 1000 and k = 0]) (simp_all add: dir_entries_end rd_def)
  have 2: "dir_entries ?f 22540 23552 = Some [(2, chars ''..''), (0, [])]"
    by (rule dir_entries_step [where r = 12 and k = "length ''..''"])
       (use entry_read(1-3) [OF e(2) l(2)] entry_read(4) [OF e(2) l(2), of "length ''..''"] 3 in \<open>simp_all add: dir_entry_set_def EXT2_ROOT_INO_def Let_def memcpy_bytes_def\<close>)
  show ?thesis
    by (rule dir_entries_step [where r = 12 and k = "length ''.''"])
       (use entry_read(1-3) [OF e(1) l(1)] entry_read(4) [OF e(1) l(1), of "length ''.''"] 2 in \<open>simp_all add: dir_entry_set_def LOST_AND_FOUND_INO_def Let_def memcpy_bytes_def\<close>)
qed

lemma ext2_tree_facts:
  assumes "sys_ok env 34" "ext2_main env s = Inr s'"
  defines "f \<equiv> img_bytes s'"
  shows "list_dir f 2 = Some [(2, chars ''.''), (2, chars ''..''), (11, chars ''lost+found''),
      (12, chars ''hello-world''), (13, chars ''hello'')]"
    "list_dir f 11 = Some [(11, chars ''.''), (2, chars ''..''), (0, [])]"
    "inode_mode f 2 = 0x41ED" "inode_mode f 11 = 0x41ED" "inode_mode f 12 = 0x81A4" "inode_mode f 13 = 0xA1A4"
    "read_file f 12 = chars ''Hello world'' @ [10]"
    "read_link f 13 = chars ''hello-world''"
proof -
  have f: "f = ext2_image env" using ext2_main_writes [OF assms(1), of s] assms(2) by (auto simp: f_def)
  note I = inode_reads [where env = env] and d = inode_defs Let_def ext2_consts dir_mode_def
  have "unat (u32_at f (inode_pos f 2 + 40)) = 21" "unat (u32_at f (inode_pos f 2 + 4)) = 1024"
    "unat (u32_at f (inode_pos f 11 + 40)) = 22" "unat (u32_at f (inode_pos f 11 + 4)) = 1024"
    "unat (u32_at f (inode_pos f 12 + 40)) = 23" "unat (u32_at f (inode_pos f 12 + 4)) = 12"
    and size: "unat (u32_at f (inode_pos f 13 + 4)) = 11"
    using I unfolding f inode_places by (simp_all add: d)
  then show "list_dir f 2 = Some [(2, chars ''.''), (2, chars ''..''), (11, chars ''lost+found''),
      (12, chars ''hello-world''), (13, chars ''hello'')]"
    "list_dir f 11 = Some [(11, chars ''.''), (2, chars ''..''), (0, [])]"
    "read_file f 12 = chars ''Hello world'' @ [10]"
    using root_dir_entries [of env] lost_and_found_entries [of env] image_regions(18) [of env]
    unfolding f by (simp_all add: list_dir_def read_file_def Let_def file_content_def)
  show "inode_mode f 2 = 0x41ED" "inode_mode f 11 = 0x41ED" "inode_mode f 12 = 0x81A4" "inode_mode f 13 = 0xA1A4"
    using I unfolding f inode_mode_def inode_places by (simp_all add: d)
  have "take 11 (concat (map (le_bytes 4) (i_block (hello_inode u)))) = chars ''hello-world''" for u
    by (simp add: hello_inode_def inode0_def Let_def bytes_memcpy_words)
  then show "read_link f 13 = chars ''hello-world''"
    using I(20) [of 11] size unfolding f read_link_def inode_places by simp
qed

text \<open>
  C23: The file system in the image, as a driver reads it. The root directory lists itself, its
  parent, \<open>lost+found\<close>, \<open>hello-world\<close> and \<open>hello\<close>; \<open>lost+found\<close> lists itself and the root and is
  otherwise empty; \<open>hello-world\<close> is a regular file holding its twelve bytes, and \<open>hello\<close> a symbolic
  link to it.
\<close>

theorem ext2_tree:
  assumes "sys_ok env 34" "ext2_main env s = Inr s'"
  defines "f \<equiv> img_bytes s'"
  shows "list_dir f 2 = Some [(2, chars ''.''), (2, chars ''..''), (11, chars ''lost+found''),
      (12, chars ''hello-world''), (13, chars ''hello'')] \<and>
    list_dir f 11 = Some [(11, chars ''.''), (2, chars ''..''), (0, [])] \<and>
    inode_mode f 2 = 0x41ED \<and> inode_mode f 11 = 0x41ED \<and> inode_mode f 12 = 0x81A4 \<and> inode_mode f 13 = 0xA1A4 \<and>
    read_file f 12 = chars ''Hello world'' @ [10] \<and>
    read_link f 13 = chars ''hello-world''"
  unfolding f_def by (intro conjI ext2_tree_facts [OF assms(1,2)])

theorem ext2_tree_witness:
  "\<exists>s'. ext2_main demo_env no_file = Inr s' \<and> read_file (img_bytes s') 12 = chars ''Hello world'' @ [10]"
proof -
  obtain s' where "ext2_main demo_env no_file = Inr s'" using ext2_main_writes [OF sys_ok_demo] by blast
  with ext2_tree [OF sys_ok_demo this] show ?thesis by blast
qed

definition links_to :: "nat \<Rightarrow> (nat \<times> u8 list) list \<Rightarrow> nat" where
  "links_to n es = length (filter (\<lambda>e. fst e = n) es)"

text \<open>
  C25: Links and allocation agree with the tree. Every inode in use after the reserved ones has as many
  links as the directories have entries for it, every entry names an inode in use or is empty, the
  group descriptor counts the directories, and the data blocks of the inodes are marked in use.
\<close>

theorem ext2_links:
  assumes "sys_ok env 34" "ext2_main env s = Inr s'"
  defines "f \<equiv> img_bytes s'"
  shows "(\<exists>root lost. list_dir f 2 = Some root \<and> list_dir f 11 = Some lost \<and>
      (\<forall>n \<in> {2, 11, 12, 13}. unat (u16_at f (inode_pos f n + 26)) = links_to n (root @ lost)) \<and>
      (\<forall>(n, nm) \<in> set (root @ lost). n \<noteq> 0 \<longrightarrow> inode_used f n)) \<and>
    unat (u16_at f 2064) = card {n \<in> {2, 11, 12, 13}. inode_mode f n AND 0xF000 = EXT2_S_IFDIR} \<and>
    (\<forall>n \<in> {2, 11, 12}. block_used f (unat (u32_at f (inode_pos f n + 40))))"
proof (intro conjI)
  have f: "f = ext2_image env" using ext2_main_writes [OF assms(1), of s] assms(2) by (auto simp: f_def)
  note T = ext2_tree_facts [OF assms(1,2), folded f_def]
  note I = inode_reads [where env = env] and d = inode_defs Let_def
    LOST_AND_FOUND_DIR_BLOCKNO_def ROOT_DIR_BLOCKNO_def HELLO_WORLD_FILE_BLOCKNO_def
  have L: "unat (u16_at f (inode_pos f 2 + 26)) = 3" "unat (u16_at f (inode_pos f 11 + 26)) = 2"
    "unat (u16_at f (inode_pos f 12 + 26)) = 1" "unat (u16_at f (inode_pos f 13 + 26)) = 1"
    using I unfolding f inode_places by (simp_all add: d)
  have U: "inode_used f 2" "inode_used f 11" "inode_used f 12" "inode_used f 13"
    by (simp_all add: f inode_used_image)
  show "\<exists>root lost. list_dir f 2 = Some root \<and> list_dir f 11 = Some lost \<and>
      (\<forall>n \<in> {2, 11, 12, 13}. unat (u16_at f (inode_pos f n + 26)) = links_to n (root @ lost)) \<and>
      (\<forall>(n, nm) \<in> set (root @ lost). n \<noteq> 0 \<longrightarrow> inode_used f n)"
    unfolding T(1,2) using L U by (simp add: links_to_def)
  have "{n \<in> {2, 11, 12, 13}. inode_mode f n AND 0xF000 = EXT2_S_IFDIR} = {2, 11}"
    using T(3-6) by (auto simp: EXT2_S_IFDIR_def)
  moreover have "unat (u16_at f 2064) = 2" using descriptor_read(6) [of env] f by simp
  ultimately show "unat (u16_at f 2064) = card {n \<in> {2, 11, 12, 13}. inode_mode f n AND 0xF000 = EXT2_S_IFDIR}"
    by simp
  have "unat (u32_at f (inode_pos f 2 + 40)) = 21" "unat (u32_at f (inode_pos f 11 + 40)) = 22"
    "unat (u32_at f (inode_pos f 12 + 40)) = 23" using I unfolding f inode_places by (simp_all add: d)
  then show "\<forall>n \<in> {2, 11, 12}. block_used f (unat (u32_at f (inode_pos f n + 40)))"
    by (simp add: f block_used_image)
qed

theorem ext2_links_witness:
  "\<exists>s'. ext2_main demo_env no_file = Inr s' \<and> unat (u16_at (img_bytes s') 2064) =
     card {n \<in> {2, 11, 12, 13}. inode_mode (img_bytes s') n AND 0xF000 = EXT2_S_IFDIR}"
proof -
  obtain s' where "ext2_main demo_env no_file = Inr s'" using ext2_main_writes [OF sys_ok_demo] by blast
  with ext2_links [OF sys_ok_demo this] show ?thesis by blast
qed

section \<open>Order of the writes and failures\<close>

lemma zero_words: "concat (replicate k (le_bytes 4 (0::u32))) = replicate (4 * k) 0"
proof (induction k)
  case (Suc k)
  have "le_bytes 4 (0::u32) = replicate 4 0"
    by (rule nth_equalityI) (simp_all add: byte_at_def)
  with Suc show ?case by (simp add: replicate_add [symmetric])
qed simp

lemma superblock_tail: "drop 1024 (superblock_bytes (the_superblock t)) = replicate 28 0"
  by (simp add: superblock_bytes_def the_superblock_def superblock0_def zero_words memcpy_bytes_def)

text \<open>
  The superblock structure is 28 bytes longer than a block, so \<open>write_superblock\<close> also clears the
  start of the block after it. The order of \<open>main\<close> repairs that, as the group descriptor is written
  next; in the other order the locations of the bitmaps and the free counts would be lost.
\<close>

theorem superblock_spills:
  assumes "sys_ok env 5" "img_calls s = 0"
  shows "length (superblock_bytes (the_superblock t)) = BLOCK_SIZE + 28 \<and>
    (\<exists>s'. and_then (write_superblock env s) (write_block_group_descriptor_table env) = Inr s' \<and>
      rd (img_bytes s') 2048 32 = descriptor_bytes the_descriptor) \<and>
    (\<exists>s'. and_then (write_block_group_descriptor_table env s) (write_superblock env) = Inr s' \<and>
      rd (img_bytes s') 2048 28 = replicate 28 0)"
proof (intro conjI)
  have ok: "sys_fails env n = None" if "n < 5" for n using assms that by (simp add: sys_ok_def)
  note c = write_superblock_def write_block_group_descriptor_table_def lseek_def get_current_time_def
    sys_write_def BLOCK_OFFSET_def BLOCK_SIZE_def
  show "length (superblock_bytes (the_superblock t)) = BLOCK_SIZE + 28" by (simp add: BLOCK_SIZE_def)
  show "\<exists>s'. and_then (write_superblock env s) (write_block_group_descriptor_table env) = Inr s' \<and>
      rd (img_bytes s') 2048 32 = descriptor_bytes the_descriptor"
    using ok assms(2) by (simp add: c rd_patch_same)
  have "rd (patch 1024 (superblock_bytes (the_superblock u)) g) 2048 28 = replicate 28 0" for u g
    using rd_sub [OF rd_patch_same, of 1052 "superblock_bytes (the_superblock u)" 1024 28 1024 g]
    by (simp add: superblock_tail)
  then show "\<exists>s'. and_then (write_block_group_descriptor_table env s) (write_superblock env) = Inr s' \<and>
      rd (img_bytes s') 2048 28 = replicate 28 0"
    using ok assms(2) by (simp add: c)
qed

theorem superblock_spills_witness:
  "\<exists>s'. and_then (write_block_group_descriptor_table demo_env no_file) (write_superblock demo_env) = Inr s' \<and>
     rd (img_bytes s') 2048 28 = replicate 28 0"
  using superblock_spills [OF sys_ok_demo, of no_file] by (simp add: no_file_def)

text \<open>
  The exits of a function, call by call: \<open>exits m xs P\<close> says that when the first call to fail is the
  one numbered \<open>m\<close>, then \<open>P\<close> exits with the entry of \<open>xs\<close> for it or makes all its calls.
\<close>

definition exits :: "nat \<Rightarrow> int list \<Rightarrow> (image \<Rightarrow> image ext2_result) \<Rightarrow> bool" where
  "exits m xs P \<longleftrightarrow> (\<forall>s. img_calls s \<le> m \<longrightarrow>
     (if m < img_calls s + length xs then P s = Inl (xs ! (m - img_calls s))
      else \<exists>s'. P s = Inr s' \<and> img_calls s' = img_calls s + length xs))"

lemma exits_and_then:
  assumes "exits m xs P" "exits m ys Q"
  shows "exits m (xs @ ys) (\<lambda>s. and_then (P s) Q)"
  unfolding exits_def
proof (intro allI impI)
  fix s :: image
  assume s: "img_calls s \<le> m"
  show "if m < img_calls s + length (xs @ ys) then and_then (P s) Q = Inl ((xs @ ys) ! (m - img_calls s))
      else \<exists>s'. and_then (P s) Q = Inr s' \<and> img_calls s' = img_calls s + length (xs @ ys)"
  proof (cases "m < img_calls s + length xs")
    case True
    then have "m - img_calls s < length xs" using s by simp
    with True assms(1) s show ?thesis by (simp add: exits_def nth_append)
  next
    case False
    with assms(1) s obtain s' where s': "P s = Inr s'" "img_calls s' = img_calls s + length xs"
      unfolding exits_def by (metis (full_types))
    then have le: "img_calls s' \<le> m" "m - img_calls s - length xs = m - img_calls s'"
      "\<not> m - img_calls s < length xs" using False by simp_all
    show ?thesis
      using assms(2) [unfolded exits_def, rule_format, OF le(1)] s' le
      by (auto simp: nth_append add.assoc split: if_splits)
  qed
qed

lemma exits_time:
  assumes "\<And>t. exits m xs (Q t)" "sys_ok env m" "sys_fails env m = Some e"
  shows "exits m (e # xs) (\<lambda>s. and_then (get_current_time env s) (\<lambda>(t, s). Q t s))"
  unfolding exits_def
proof (intro allI impI)
  fix s :: image
  let ?t = "ucast (sys_clock env (img_calls s))" and ?s = "s\<lparr>img_calls := img_calls s + 1\<rparr>"
  assume s: "img_calls s \<le> m"
  show "if m < img_calls s + length (e # xs)
      then and_then (get_current_time env s) (\<lambda>(t, s). Q t s) = Inl ((e # xs) ! (m - img_calls s))
      else \<exists>s'. and_then (get_current_time env s) (\<lambda>(t, s). Q t s) = Inr s' \<and>
        img_calls s' = img_calls s + length (e # xs)"
  proof (cases "img_calls s = m")
    case True
    with assms(3) show ?thesis by (simp add: get_current_time_def syscall_def)
  next
    case False
    with s assms(2) have "get_current_time env s = Inr (?t, ?s)"
      by (simp add: get_current_time_def syscall_def sys_ok_def)
    with assms(1) [of ?t] s False show ?thesis
      unfolding exits_def by (auto simp: nth_Cons' dest!: spec [of _ ?s])
  qed
qed

lemma exits_failure: "exits m xs P \<Longrightarrow> exits m (replicate (length xs) 1) (\<lambda>s. exit_failure (P s))"
  unfolding exits_def exit_failure_def by (fastforce simp: nth_replicate split: if_splits)

lemma exits_call:
  assumes "sys_ok env m" "sys_fails env m = Some e"
  shows "exits m [e] (syscall env)" "exits m [e] (lseek env off)" "exits m [e] (sys_write env bs)"
    "exits m [e] (ftruncate env k)"
  using assms unfolding exits_def lseek_def sys_write_def ftruncate_def syscall_def sys_ok_def
  by (auto simp: le_less)

text \<open>
  C35: Failures. The first system call to fail ends the process at once: with \<open>errno\<close>, except in the
  functions that write the root directory and the file, which exit with \<open>EXIT_FAILURE\<close>.
\<close>

theorem ext2_failure:
  assumes "sys_ok env n" "n < 34" "sys_fails env n = Some e"
  shows "ext2_main env s = Inl (if n \<in> {21..26} \<or> n \<in> {31, 32} then 1 else e)"
proof -
  note c = exits_call [OF assms(1,3)]
  note step = exits_and_then [where m = n] exits_time [OF _ assms(1,3)]
  have sb: "exits n [e, e, e] (write_superblock env)"
    using step(1) [OF c(2) step(2) [OF c(3)]] by (simp add: write_superblock_def [abs_def] case_prod_beta)
  have bg: "exits n [e, e] (write_block_group_descriptor_table env)"
    "exits n [e, e] (write_block_bitmap env)" "exits n [e, e] (write_inode_bitmap env)"
    "exits n [e, e] (write_inode env i d)" for i d
    using step(1) [OF c(2) c(3)] by (simp_all add: write_block_group_descriptor_table_def [abs_def]
        write_block_bitmap_def [abs_def] write_inode_bitmap_def [abs_def] write_inode_def [abs_def])
  have tab: "exits n (replicate 9 e) (write_inode_table env)"
    using step(2) [OF step(1) [OF bg(4) step(1) [OF bg(4) step(1) [OF bg(4) bg(4)]]]]
    by (simp add: write_inode_table_def [abs_def] case_prod_beta numeral_eq_Suc)
  have we: "exits n [e] (write_entry env d)" for d using c(3) by (simp add: write_entry_def [abs_def])
  have root: "exits n (replicate 6 1) (write_root_dir_block env)"
    using exits_failure [OF step(1) [OF c(2) step(1) [OF we step(1) [OF we step(1) [OF we step(1) [OF we we]]]]]]
    by (simp add: write_root_dir_block_def [abs_def] numeral_eq_Suc)
  have lost: "exits n (replicate 4 e) (write_lost_and_found_dir_block env)"
    using step(1) [OF c(2) step(1) [OF we step(1) [OF we c(3)]]]
    by (simp add: write_lost_and_found_dir_block_def [abs_def] dir_entry_write_fill_def Let_def numeral_eq_Suc)
  have hello: "exits n (replicate 2 1) (write_hello_world_file_block env)"
    using exits_failure [OF step(1) [OF c(2) c(3)]]
    by (simp add: write_hello_world_file_block_def [abs_def] numeral_eq_Suc)
  note step(1) [OF c(1) step(1) [OF c(4) step(1) [OF c(4) step(1) [OF sb step(1) [OF bg(1) step(1) [OF bg(2)
    step(1) [OF bg(3) step(1) [OF tab step(1) [OF root step(1) [OF lost step(1) [OF hello c(1)]]]]]]]]]]]
  from this [unfolded exits_def, rule_format, of "s\<lparr>img_pos := 0, img_calls := 0\<rparr>"] assms(2)
  have "ext2_main env s = Inl ((replicate 21 e @ replicate 6 1 @ replicate 4 e @ replicate 2 1 @ [e]) ! n)"
    by (simp add: ext2_main_def numeral_eq_Suc)
  with assms(2) show ?thesis by (auto simp: nth_append)
qed

theorem ext2_failure_witness:
  "ext2_main (demo_env\<lparr>sys_fails := (\<lambda>n. if n = 22 then Some 28 else None)\<rparr>) no_file = Inl 1"
  using ext2_failure [of "demo_env\<lparr>sys_fails := (\<lambda>n. if n = 22 then Some 28 else None)\<rparr>" 22 28 no_file]
  by (simp add: sys_ok_def)

text \<open>
  The record length \<open>dir_entry_set\<close> computes is the least multiple of four that holds the header and
  the name, for every name an entry can hold.
\<close>

lemma dir_entry_set_rec_len:
  fixes i :: u32 and e :: ext2_dir_entry
  assumes "length nm \<le> 255"
  defines "r \<equiv> unat (d_rec_len (dir_entry_set i nm e))"
  shows "8 + length nm \<le> r" "r mod 4 = 0" "r < 8 + length nm + 4"
proof -
  have r: "r = (if length nm mod 4 \<noteq> 0 then 12 + length nm div 4 * 4 else 8 + length nm)"
  proof -
    have "length nm div 4 * 4 \<le> 255" using assms(1) div_times_less_eq_dividend [of "length nm" 4] by linarith
    moreover have "unat (of_nat x :: u16) = x" if "x < 65536" for x using that by (simp add: unat_of_nat)
    ultimately show ?thesis
      using assms(1) by (simp add: r_def dir_entry_set_def Let_def del: of_nat_add of_nat_mult)
  qed
  show "8 + length nm \<le> r" "r mod 4 = 0" "r < 8 + length nm + 4"
    unfolding r by (simp_all split: if_split) presburger+
qed

text \<open>
  Stack contents in the image. The last entry of the root directory is written with its record
  length of 952 bytes from a structure of 264, so the 688 bytes after it in the image are whatever
  followed the structure in memory.
\<close>

theorem hello_entry_overread:
  assumes "sys_ok env 34" "ext2_main env s = Inr s'"
  shows "length (dir_entry_bytes hello_entry) = 264 \<and> unat (d_rec_len hello_entry) = 952 \<and>
    rd (img_bytes s') (21576 + 264) 688 = map (stack_after env) [0..<688]"
proof (intro conjI)
  have f: "img_bytes s' = ext2_image env" using ext2_main_writes [OF assms(1), of s] assms(2) by auto
  show l: "length (dir_entry_bytes hello_entry) = 264" by (rule length_struct_bytes(4)) simp
  show "unat (d_rec_len hello_entry) = 952" by simp
  show "rd (img_bytes s') (21576 + 264) 688 = map (stack_after env) [0..<688]"
    unfolding f using rd_sub [OF image_regions(13) [of env], of 264 688] l
    by (simp only: entry_memory_def) simp
qed

theorem hello_entry_overread_witness:
  "\<exists>s'. ext2_main demo_env no_file = Inr s' \<and>
     rd (img_bytes s') (21576 + 264) 688 = map of_nat [0..<688]"
proof -
  obtain s' where "ext2_main demo_env no_file = Inr s'" using ext2_main_writes [OF sys_ok_demo] by blast
  with hello_entry_overread [OF sys_ok_demo this] show ?thesis by (auto simp: demo_env_def)
qed

end
