(* ===== verification/Pht.thy ===== *)
theory Pht
  imports Prelude
begin

text \<open>
  The hash tables of \<open>pht/src\<close> used by one thread: the hash function, the bucket lists and the
  operations of \<open>hash-table-base.c\<close>, and the read operations of \<open>hash-table-v1.c\<close> and
  \<open>hash-table-v2.c\<close>, whose insertions are in \<open>PhtThreads\<close>.  A table stores pointers to keys; \<open>text\<close> is
  the memory they point to: the characters of the string at an address, up to its NUL.  \<open>calloc\<close>
  does not fail.
\<close>

section \<open>Hashing\<close>

definition HASH_TABLE_CAPACITY :: nat where "HASH_TABLE_CAPACITY = 4096"

text \<open>\<open>hash = (33 * hash) + c\<close> for each \<open>char\<close>, which is signed, in 32 bits.\<close>

fun bernstein_loop :: "u8 list \<Rightarrow> u32 \<Rightarrow> u32" where
  "bernstein_loop [] h = h"
| "bernstein_loop (c # cs) h = bernstein_loop cs (33 * h + scast c)"

definition bernstein_hash :: "u8 list \<Rightarrow> u32" where
  "bernstein_hash s = bernstein_loop s 0"

definition slot_of :: "u8 list \<Rightarrow> nat" where
  "slot_of s = unat (bernstein_hash s mod of_nat HASH_TABLE_CAPACITY)"

section \<open>The table\<close>

record list_entry =
  e_key :: u64
  e_value :: u32

type_synonym hash_table = "list_entry list list"

datatype pht_stop = Pht_assert | Pht_exit int | Pht_bounds

type_synonym 'a pht_result = "pht_stop + 'a"

definition hash_table_base_create :: hash_table where
  "hash_table_base_create = replicate HASH_TABLE_CAPACITY []"

text \<open>\<open>get_list_head\<close> gives the index of the list, \<open>get_list_entry\<close> the position of the entry in it.\<close>

definition get_list_head :: "(u64 \<Rightarrow> u8 list) \<Rightarrow> u64 \<Rightarrow> nat pht_result" where
  "get_list_head text key = (if key = 0 then Inl Pht_assert else Inr (slot_of (text key)))"

fun find_entry :: "(u64 \<Rightarrow> u8 list) \<Rightarrow> u8 list \<Rightarrow> list_entry list \<Rightarrow> nat option" where
  "find_entry text s [] = None"
| "find_entry text s (e # es) = (if text (e_key e) = s then Some 0 else map_option Suc (find_entry text s es))"

definition get_list_entry :: "(u64 \<Rightarrow> u8 list) \<Rightarrow> list_entry list \<Rightarrow> u64 \<Rightarrow> nat option pht_result" where
  "get_list_entry text es key = (if key = 0 then Inl Pht_assert else Inr (find_entry text (text key) es))"

definition hash_table_base_contains :: "(u64 \<Rightarrow> u8 list) \<Rightarrow> hash_table \<Rightarrow> u64 \<Rightarrow> bool pht_result" where
  "hash_table_base_contains text t key =
     and_then (get_list_head text key) (\<lambda>i.
     and_then (get_list_entry text (t ! i) key) (\<lambda>p. Inr (p \<noteq> None)))"

definition set_value :: "nat \<Rightarrow> nat \<Rightarrow> u32 \<Rightarrow> hash_table \<Rightarrow> hash_table" where
  "set_value i n v t = t[i := (t ! i)[n := (t ! i ! n)\<lparr>e_value := v\<rparr>]]"

definition hash_table_base_add_entry ::
  "(u64 \<Rightarrow> u8 list) \<Rightarrow> u64 \<Rightarrow> u32 \<Rightarrow> hash_table \<Rightarrow> hash_table pht_result" where
  "hash_table_base_add_entry text key v t =
     and_then (get_list_head text key) (\<lambda>i.
     and_then (get_list_entry text (t ! i) key) (\<lambda>p.
     case p of
       Some n \<Rightarrow> Inr (set_value i n v t)
     | None \<Rightarrow> Inr (t[i := \<lparr>e_key = key, e_value = v\<rparr> # t ! i])))"

definition hash_table_base_get_value :: "(u64 \<Rightarrow> u8 list) \<Rightarrow> hash_table \<Rightarrow> u64 \<Rightarrow> u32 pht_result" where
  "hash_table_base_get_value text t key =
     and_then (get_list_head text key) (\<lambda>i.
     and_then (get_list_entry text (t ! i) key) (\<lambda>p.
     case p of None \<Rightarrow> Inl Pht_assert | Some n \<Rightarrow> Inr (e_value (t ! i ! n))))"

text \<open>\<open>hash_table_base_destroy\<close>: the entries in the order in which they are freed.\<close>

fun free_list :: "list_entry list \<Rightarrow> list_entry list \<Rightarrow> list_entry list" where
  "free_list [] freed = freed"
| "free_list (e # es) freed = free_list es (freed @ [e])"

definition hash_table_base_destroy :: "hash_table \<Rightarrow> list_entry list" where
  "hash_table_base_destroy t = fold (\<lambda>i freed. free_list (t ! i) freed) [0..<HASH_TABLE_CAPACITY] []"

text \<open>The read operations of the other two tables, on their entries; neither takes a lock.\<close>

definition get_hash_table_entry :: "(u64 \<Rightarrow> u8 list) \<Rightarrow> u64 \<Rightarrow> nat pht_result" where
  "get_hash_table_entry text key = (if key = 0 then Inl Pht_assert else Inr (slot_of (text key)))"

definition v1_get_list_entry :: "(u64 \<Rightarrow> u8 list) \<Rightarrow> list_entry list \<Rightarrow> u64 \<Rightarrow> nat option pht_result" where
  "v1_get_list_entry text es key = (if key = 0 then Inl Pht_assert else Inr (find_entry text (text key) es))"

definition hash_table_v1_contains :: "(u64 \<Rightarrow> u8 list) \<Rightarrow> hash_table \<Rightarrow> u64 \<Rightarrow> bool pht_result" where
  "hash_table_v1_contains text t key =
     and_then (get_hash_table_entry text key) (\<lambda>i.
     and_then (v1_get_list_entry text (t ! i) key) (\<lambda>p. Inr (p \<noteq> None)))"

definition hash_table_v1_get_value :: "(u64 \<Rightarrow> u8 list) \<Rightarrow> hash_table \<Rightarrow> u64 \<Rightarrow> u32 pht_result" where
  "hash_table_v1_get_value text t key =
     and_then (get_hash_table_entry text key) (\<lambda>i.
     and_then (v1_get_list_entry text (t ! i) key) (\<lambda>p.
     case p of None \<Rightarrow> Inl Pht_assert | Some n \<Rightarrow> Inr (e_value (t ! i ! n))))"

definition v2_get_hash_table_entry :: "(u64 \<Rightarrow> u8 list) \<Rightarrow> u64 \<Rightarrow> nat pht_result" where
  "v2_get_hash_table_entry text key = (if key = 0 then Inl Pht_assert else Inr (slot_of (text key)))"

definition v2_get_list_entry :: "(u64 \<Rightarrow> u8 list) \<Rightarrow> list_entry list \<Rightarrow> u64 \<Rightarrow> nat option pht_result" where
  "v2_get_list_entry text es key = (if key = 0 then Inl Pht_assert else Inr (find_entry text (text key) es))"

definition hash_table_v2_contains :: "(u64 \<Rightarrow> u8 list) \<Rightarrow> hash_table \<Rightarrow> u64 \<Rightarrow> bool pht_result" where
  "hash_table_v2_contains text t key =
     and_then (v2_get_hash_table_entry text key) (\<lambda>i.
     and_then (v2_get_list_entry text (t ! i) key) (\<lambda>p. Inr (p \<noteq> None)))"

definition hash_table_v2_get_value :: "(u64 \<Rightarrow> u8 list) \<Rightarrow> hash_table \<Rightarrow> u64 \<Rightarrow> u32 pht_result" where
  "hash_table_v2_get_value text t key =
     and_then (v2_get_hash_table_entry text key) (\<lambda>i.
     and_then (v2_get_list_entry text (t ! i) key) (\<lambda>p.
     case p of None \<Rightarrow> Inl Pht_assert | Some n \<Rightarrow> Inr (e_value (t ! i ! n))))"

section \<open>The map a table stands for\<close>

definition view :: "(u64 \<Rightarrow> u8 list) \<Rightarrow> hash_table \<Rightarrow> u8 list \<Rightarrow> u32 option" where
  "view text t s = map_option (\<lambda>n. e_value (t ! slot_of s ! n)) (find_entry text s (t ! slot_of s))"

text \<open>Every entry is in the bucket of its key, and no key occurs twice.\<close>

definition table_ok :: "(u64 \<Rightarrow> u8 list) \<Rightarrow> hash_table \<Rightarrow> bool" where
  "table_ok text t \<longleftrightarrow> length t = HASH_TABLE_CAPACITY \<and>
     (\<forall>i < length t. distinct (map (\<lambda>e. text (e_key e)) (t ! i)) \<and>
        (\<forall>e \<in> set (t ! i). slot_of (text (e_key e)) = i))"

lemma slot_of_less [simp]: "slot_of s < HASH_TABLE_CAPACITY"
proof -
  have "bernstein_hash s mod of_nat HASH_TABLE_CAPACITY < of_nat HASH_TABLE_CAPACITY"
    by (rule word_mod_less_divisor) (simp add: HASH_TABLE_CAPACITY_def)
  then show ?thesis unfolding slot_of_def by (simp add: word_less_nat_alt HASH_TABLE_CAPACITY_def)
qed

lemma find_entry_Some:
  "find_entry text s es = Some n \<Longrightarrow> n < length es \<and> text (e_key (es ! n)) = s"
  by (induction es arbitrary: n) (auto split: if_splits)

lemma find_entry_None: "find_entry text s es = None \<longleftrightarrow> s \<notin> (\<lambda>e. text (e_key e)) ` set es"
  by (induction es) auto

lemma find_entry_cong:
  "map (\<lambda>e. text (e_key e)) es = map (\<lambda>e. text (e_key e)) es' \<Longrightarrow> find_entry text s es = find_entry text s es'"
proof (induction es arbitrary: es')
  case (Cons e es)
  then obtain e' rest where "es' = e' # rest" by (cases es') auto
  with Cons.prems Cons.IH [of rest] show ?case by simp
qed simp

lemma map_keys_set_value:
  "n < length es \<Longrightarrow> map (\<lambda>e. text (e_key e)) (es[n := (es ! n)\<lparr>e_value := v\<rparr>]) = map (\<lambda>e. text (e_key e)) es"
  by (rule nth_equalityI) (simp_all add: nth_list_update)

text \<open>The two ways an insertion changes a bucket.\<close>

lemma set_value_ok:
  assumes "table_ok text t" "find_entry text s (t ! slot_of s) = Some n"
  shows "table_ok text (set_value (slot_of s) n v t)" "view text (set_value (slot_of s) n v t) = (view text t)(s \<mapsto> v)"
proof -
  let ?i = "slot_of s" let ?b = "(t ! ?i)[n := (t ! ?i ! n)\<lparr>e_value := v\<rparr>]"
  have n: "n < length (t ! ?i)" "text (e_key (t ! ?i ! n)) = s" using find_entry_Some [OF assms(2)] by blast+
  have len: "length t = HASH_TABLE_CAPACITY" using assms(1) by (simp add: table_ok_def)
  have keys: "map (\<lambda>e. text (e_key e)) ?b = map (\<lambda>e. text (e_key e)) (t ! ?i)" by (rule map_keys_set_value [OF n(1)])
  have kset: "(\<lambda>e. text (e_key e)) ` set ?b = (\<lambda>e. text (e_key e)) ` set (t ! ?i)"
    by (metis keys list.set_map)
  have bucket: "set_value ?i n v t ! j = (if j = ?i then ?b else t ! j)" for j
    using len by (simp add: set_value_def nth_list_update)
  show "table_ok text (set_value ?i n v t)"
    unfolding table_ok_def
  proof (intro conjI allI impI)
    show "length (set_value ?i n v t) = HASH_TABLE_CAPACITY" using len by (simp add: set_value_def)
    fix j assume "j < length (set_value ?i n v t)"
    then have j: "j < length t" by (simp add: set_value_def)
    then have old: "distinct (map (\<lambda>e. text (e_key e)) (t ! j))" "\<forall>e \<in> set (t ! j). slot_of (text (e_key e)) = j"
      using assms(1) by (auto simp: table_ok_def)
    show "distinct (map (\<lambda>e. text (e_key e)) (set_value ?i n v t ! j))" using old keys bucket by auto
    show "\<forall>e \<in> set (set_value ?i n v t ! j). slot_of (text (e_key e)) = j"
    proof (cases "j = ?i")
      case True
      then show ?thesis using old(2) kset bucket by (smt (verit, best) image_iff)
    qed (use old bucket in simp)
  qed
  show "view text (set_value ?i n v t) = (view text t)(s \<mapsto> v)"
  proof
    fix s'
    have f: "find_entry text s' ?b = find_entry text s' (t ! ?i)" by (rule find_entry_cong [OF keys])
    show "view text (set_value ?i n v t) s' = ((view text t)(s \<mapsto> v)) s'"
    proof (cases "s' = s")
      case True
      with f assms(2) n bucket show ?thesis by (simp add: view_def)
    next
      case False
      have "m \<noteq> n" if "find_entry text s' (t ! ?i) = Some m" "slot_of s' = ?i" for m
        using find_entry_Some [OF that(1)] n(2) False by auto
      with False f bucket show ?thesis
        by (cases "slot_of s' = ?i"; cases "find_entry text s' (t ! ?i)") (auto simp: view_def)
    qed
  qed
qed

lemma insert_head_ok:
  fixes v :: u32
  assumes "table_ok text t" "find_entry text (text k) (t ! slot_of (text k)) = None"
  defines "t' \<equiv> t[slot_of (text k) := \<lparr>e_key = k, e_value = v\<rparr> # t ! slot_of (text k)]"
  shows "table_ok text t'" "view text t' = (view text t)(text k \<mapsto> v)"
proof -
  let ?i = "slot_of (text k)"
  have len: "length t = HASH_TABLE_CAPACITY" using assms(1) by (simp add: table_ok_def)
  have bucket: "t' ! j = (if j = ?i then \<lparr>e_key = k, e_value = v\<rparr> # t ! ?i else t ! j)" for j
    using len by (simp add: t'_def nth_list_update)
  have new: "text k \<notin> (\<lambda>e. text (e_key e)) ` set (t ! ?i)" using assms(2) by (simp add: find_entry_None)
  show "table_ok text t'"
    using assms(1) new len unfolding table_ok_def bucket by (auto simp: t'_def)
  show "view text t' = (view text t)(text k \<mapsto> v)"
  proof
    fix s
    show "view text t' s = ((view text t)(text k \<mapsto> v)) s"
      by (cases "s = text k"; cases "find_entry text s (t ! ?i)") (auto simp: view_def bucket)
  qed
qed

end
