(* ===== verification/PhtMap.thy ===== *)
theory PhtMap
  imports Pht
begin

text \<open>
  The contract of the hash tables: \<open>string_lookup\<close> for the read operations all three share,
  \<open>string_table\<close> for a table that one thread fills, and what the loops of \<open>pht-tester.c\<close> that insert
  and that count missing keys do over any table with that contract.
\<close>

section \<open>The loops of the tester\<close>

fun add_all :: "(u64 \<Rightarrow> u32 \<Rightarrow> 't \<Rightarrow> 'e + 't) \<Rightarrow> (u64 \<times> u32) list \<Rightarrow> 't \<Rightarrow> 'e + 't" where
  "add_all add [] t = Inr t"
| "add_all add ((k, v) # kvs) t = and_then (add k v t) (add_all add kvs)"

fun count_missing :: "('t \<Rightarrow> u64 \<Rightarrow> 'e + bool) \<Rightarrow> 't \<Rightarrow> u64 list \<Rightarrow> nat \<Rightarrow> 'e + nat" where
  "count_missing contains t [] missing = Inr missing"
| "count_missing contains t (k # ks) missing =
     and_then (contains t k) (\<lambda>b. count_missing contains t ks (if \<not> b then missing + 1 else missing))"

text \<open>What the insertions mean: the last value given for a string wins.\<close>

definition inserted :: "(u64 \<Rightarrow> u8 list) \<Rightarrow> (u64 \<times> u32) list \<Rightarrow> u8 list \<Rightarrow> u32 option" where
  "inserted text kvs = map_of (rev (map (\<lambda>(k, v). (text k, v)) kvs))"

lemma inserted_Nil [simp]: "inserted text [] = Map.empty"
  by (simp add: inserted_def)

lemma inserted_snoc [simp]: "inserted text (kvs @ [(k, v)]) = (inserted text kvs)(text k \<mapsto> v)"
  by (simp add: inserted_def)

lemma inserted_dom: "dom (inserted text kvs) = text ` fst ` set kvs"
  by (force simp: inserted_def dom_map_of_conv_image_fst)

lemma add_all_append: "add_all add (xs @ ys) t = and_then (add_all add xs t) (add_all add ys)"
proof (induction add xs t rule: add_all.induct)
  case (2 add k v kvs t)
  then show ?case by (cases "add k v t") simp_all
qed simp

section \<open>The contracts\<close>

locale string_lookup =
  fixes str :: "u64 \<Rightarrow> u8 list"
    and has_key :: "'t \<Rightarrow> u64 \<Rightarrow> bool pht_result"
    and get_value :: "'t \<Rightarrow> u64 \<Rightarrow> u32 pht_result"
    and ok :: "'t \<Rightarrow> bool"
    and lookup :: "'t \<Rightarrow> u8 list \<Rightarrow> u32 option"
  assumes contains_lookup: "ok t \<Longrightarrow> k \<noteq> 0 \<Longrightarrow> has_key t k = Inr (lookup t (str k) \<noteq> None)"
    and get_lookup: "ok t \<Longrightarrow> k \<noteq> 0 \<Longrightarrow>
      get_value t k = (case lookup t (str k) of None \<Rightarrow> Inl Pht_assert | Some v \<Rightarrow> Inr v)"
begin

lemma missing_keys:
  "ok t \<Longrightarrow> 0 \<notin> set ks \<Longrightarrow>
    count_missing has_key t ks m = Inr (m + length (filter (\<lambda>k. lookup t (str k) = None) ks))"
  by (induction ks arbitrary: m) (auto simp: contains_lookup)

lemma none_missing:
  "ok t \<Longrightarrow> 0 \<notin> set ks \<Longrightarrow> str ` set ks \<subseteq> dom (lookup t) \<Longrightarrow> count_missing has_key t ks 0 = Inr 0"
  by (simp add: missing_keys filter_empty_conv subset_iff domIff image_iff) blast

end

locale string_table = string_lookup str has_key get_value ok lookup
  for str has_key get_value and ok :: "'t \<Rightarrow> bool" and lookup +
  fixes empty :: 't
    and add :: "u64 \<Rightarrow> u32 \<Rightarrow> 't \<Rightarrow> 't pht_result"
  assumes ok_empty: "ok empty" "lookup empty = Map.empty"
    and add_lookup: "ok t \<Longrightarrow> k \<noteq> 0 \<Longrightarrow> \<exists>t'. add k v t = Inr t' \<and> ok t' \<and> lookup t' = (lookup t)(str k \<mapsto> v)"
begin

lemma filled:
  assumes "0 \<notin> fst ` set kvs"
  shows "\<exists>t. add_all add kvs empty = Inr t \<and> ok t \<and> lookup t = inserted str kvs"
  using assms
proof (induction kvs rule: rev_induct)
  case Nil
  then show ?case by (simp add: ok_empty)
next
  case (snoc kv kvs)
  obtain k v where kv: "kv = (k, v)" by (cases kv)
  from snoc obtain t where t: "add_all add kvs empty = Inr t" "ok t" "lookup t = inserted str kvs" by auto
  obtain t' where "add k v t = Inr t'" "ok t'" "lookup t' = (lookup t)(str k \<mapsto> v)"
    using add_lookup [OF t(2), of k v] snoc.prems kv by auto
  with t show ?case unfolding kv by (simp add: add_all_append fun_upd_def)
qed

end

section \<open>The tables keep the contracts\<close>

lemma lookup_view:
  assumes "k \<noteq> 0"
  shows "hash_table_base_contains text t k = Inr (view text t (text k) \<noteq> None)"
    "hash_table_base_get_value text t k = (case view text t (text k) of None \<Rightarrow> Inl Pht_assert | Some v \<Rightarrow> Inr v)"
  using assms by (auto simp: hash_table_base_contains_def hash_table_base_get_value_def get_list_head_def
      get_list_entry_def view_def split: option.split)

lemma reads_alike:
  "hash_table_v1_contains = hash_table_base_contains" "hash_table_v2_contains = hash_table_base_contains"
  "hash_table_v1_get_value = hash_table_base_get_value" "hash_table_v2_get_value = hash_table_base_get_value"
  by (intro ext, simp add: hash_table_base_contains_def hash_table_v1_contains_def hash_table_v2_contains_def
      hash_table_base_get_value_def hash_table_v1_get_value_def hash_table_v2_get_value_def
      get_list_head_def get_list_entry_def get_hash_table_entry_def v1_get_list_entry_def
      v2_get_hash_table_entry_def v2_get_list_entry_def)+

lemma create_ok: "table_ok text hash_table_base_create" "view text hash_table_base_create = Map.empty"
  by (auto simp: table_ok_def view_def hash_table_base_create_def)

lemma add_entry_ok:
  assumes "table_ok text t" "k \<noteq> 0"
  shows "\<exists>t'. hash_table_base_add_entry text k v t = Inr t' \<and> table_ok text t' \<and>
    view text t' = (view text t)(text k \<mapsto> v)"
proof (cases "find_entry text (text k) (t ! slot_of (text k))")
  case None
  with insert_head_ok [OF assms(1) None, of v] assms(2) show ?thesis
    by (simp add: hash_table_base_add_entry_def get_list_head_def get_list_entry_def)
next
  case (Some n)
  with set_value_ok [OF assms(1) Some, of v] assms(2) show ?thesis
    by (simp add: hash_table_base_add_entry_def get_list_head_def get_list_entry_def)
qed

interpretation base: string_table str "hash_table_base_contains str" "hash_table_base_get_value str"
    "table_ok str" "view str" hash_table_base_create "hash_table_base_add_entry str"
  for str
  by unfold_locales (simp_all add: lookup_view create_ok add_entry_ok)

interpretation v1: string_lookup str "hash_table_v1_contains str" "hash_table_v1_get_value str"
    "table_ok str" "view str"
  for str
  by unfold_locales (simp_all add: reads_alike lookup_view)

interpretation v2: string_lookup str "hash_table_v2_contains str" "hash_table_v2_get_value str"
    "table_ok str" "view str"
  for str
  by unfold_locales (simp_all add: reads_alike lookup_view)

text \<open>
  C31: The table is a map. After any insertions with valid keys, \<open>hash_table_base_get_value\<close> returns the
  value inserted last for an equal string, whatever pointer it was inserted or is looked up with,
  the process stops on a string never inserted, and \<open>contains\<close> tells the two apart.
\<close>

theorem base_table_is_map:
  assumes "0 \<notin> fst ` set kvs" "k \<noteq> 0"
  shows "\<exists>t. add_all (hash_table_base_add_entry text) kvs hash_table_base_create = Inr t \<and>
    hash_table_base_get_value text t k =
      (case inserted text kvs (text k) of None \<Rightarrow> Inl Pht_assert | Some v \<Rightarrow> Inr v) \<and>
    hash_table_base_contains text t k = Inr (text k \<in> text ` fst ` set kvs)"
proof -
  obtain t where t: "add_all (hash_table_base_add_entry text) kvs hash_table_base_create = Inr t"
    "table_ok text t" "view text t = inserted text kvs" using base.filled [OF assms(1), of "text"] by blast
  have "inserted text kvs (text k) \<noteq> None \<longleftrightarrow> text k \<in> text ` fst ` set kvs"
    using inserted_dom [of "text" kvs] by (metis domIff)
  with t base.contains_lookup [OF t(2) assms(2)] base.get_lookup [OF t(2) assms(2)] show ?thesis by simp
qed

theorem base_table_is_map_witness:
  "\<exists>t. add_all (hash_table_base_add_entry (\<lambda>p. [ucast (p div 16)])) [(16, 1), (32, 2), (17, 3)]
      hash_table_base_create = Inr t \<and>
    hash_table_base_get_value (\<lambda>p. [ucast (p div 16)]) t 16 = Inr 3"
  using base_table_is_map [of "[(16, 1), (32, 2), (17, 3)]" 16 "\<lambda>p. [ucast (p div 16)]"]
  by (auto simp: inserted_def)

end
