(* ===== verification/PhtThreads.thy ===== *)
theory PhtThreads
  imports PhtMap
begin

text \<open>
  Concurrent insertions: \<open>hash_table_v1_add_entry\<close> and \<open>hash_table_v2_add_entry\<close> as the steps a thread
  takes, interleaved with those of the others.  The two differ in which mutex guards a bucket: one
  for the table, or one in each entry.  Each thread runs \<open>run_v1\<close> or \<open>run_v2\<close>, a list of insertions.
  The mutex calls do not fail, and the default mutexes are used by the thread that locked them.
\<close>

section \<open>Steps\<close>

definition mutex_v1 :: "nat \<Rightarrow> nat" where "mutex_v1 i = 0"
definition mutex_v2 :: "nat \<Rightarrow> nat" where "mutex_v2 i = i"

text \<open>
  Where a thread is in its call: before the lock, holding it, after the search with its result (as
  nodes are added at the head only, a node is identified by its distance from the end), after the
  new node is filled and linked to what was the head, or before the unlock.
\<close>

datatype phase = Idle | Holding | Found "nat option" | Linked "list_entry list" | Unlocking

record worker =
  w_todo :: "(u64 \<times> u32) list"
  w_phase :: phase

text \<open>\<open>c_log\<close> records which thread made which insertion take effect, in that order.\<close>

record conc =
  c_table :: hash_table
  c_owner :: "nat \<Rightarrow> nat option"
  c_workers :: "nat \<Rightarrow> worker"
  c_log :: "(nat \<times> u64 \<times> u32) list"

definition set_phase :: "nat \<Rightarrow> phase \<Rightarrow> conc \<Rightarrow> conc" where
  "set_phase tid p s = s\<lparr>c_workers := (c_workers s)(tid := (c_workers s tid)\<lparr>w_phase := p\<rparr>)\<rparr>"

definition add_entry_step :: "(u64 \<Rightarrow> u8 list) \<Rightarrow> (nat \<Rightarrow> nat) \<Rightarrow> nat \<Rightarrow> conc \<Rightarrow> conc option" where
  "add_entry_step text mutex tid s = (case w_todo (c_workers s tid) of
     [] \<Rightarrow> None
   | (key, v) # rest \<Rightarrow>
       let i = slot_of (text key); m = mutex i; t = c_table s in
       (case w_phase (c_workers s tid) of
          Idle \<Rightarrow>
            if c_owner s m = None
            then Some (set_phase tid Holding (s\<lparr>c_owner := (c_owner s)(m \<mapsto> tid)\<rparr>)) else None
        | Holding \<Rightarrow>
            Some (set_phase tid (Found (map_option (\<lambda>n. length (t ! i) - Suc n) (find_entry text (text key) (t ! i)))) s)
        | Found (Some d) \<Rightarrow>
            Some (set_phase tid Unlocking (s\<lparr>c_table := set_value i (length (t ! i) - Suc d) v t,
              c_log := c_log s @ [(tid, key, v)]\<rparr>))
        | Found None \<Rightarrow> Some (set_phase tid (Linked (t ! i)) s)
        | Linked old \<Rightarrow>
            Some (set_phase tid Unlocking (s\<lparr>c_table := t[i := \<lparr>e_key = key, e_value = v\<rparr> # old],
              c_log := c_log s @ [(tid, key, v)]\<rparr>))
        | Unlocking \<Rightarrow>
            Some (s\<lparr>c_owner := (c_owner s)(m := None),
              c_workers := (c_workers s)(tid := \<lparr>w_todo = rest, w_phase = Idle\<rparr>)\<rparr>)))"

definition hash_table_v1_add_entry :: "(u64 \<Rightarrow> u8 list) \<Rightarrow> nat \<Rightarrow> conc \<Rightarrow> conc option" where
  "hash_table_v1_add_entry text = add_entry_step text mutex_v1"

definition hash_table_v2_add_entry :: "(u64 \<Rightarrow> u8 list) \<Rightarrow> nat \<Rightarrow> conc \<Rightarrow> conc option" where
  "hash_table_v2_add_entry text = add_entry_step text mutex_v2"

text \<open>The table just created and the threads just started.\<close>

definition conc_start :: "(nat \<Rightarrow> (u64 \<times> u32) list) \<Rightarrow> conc" where
  "conc_start prog = \<lparr>c_table = hash_table_base_create, c_owner = (\<lambda>_. None),
     c_workers = (\<lambda>tid. \<lparr>w_todo = prog tid, w_phase = Idle\<rparr>), c_log = []\<rparr>"

text \<open>An execution of \<open>n\<close> steps by the threads below \<open>N\<close>, in any order the mutexes allow.\<close>

inductive exec :: "(nat \<Rightarrow> conc \<Rightarrow> conc option) \<Rightarrow> nat \<Rightarrow> (nat \<Rightarrow> (u64 \<times> u32) list) \<Rightarrow> nat \<Rightarrow> conc \<Rightarrow> bool"
  for step N prog where
  start: "exec step N prog 0 (conc_start prog)"
| step: "exec step N prog n s \<Longrightarrow> tid < N \<Longrightarrow> step tid s = Some s' \<Longrightarrow> exec step N prog (Suc n) s'"

inductive_cases exec_SucE: "exec step N prog (Suc n) s"

definition finished_all :: "nat \<Rightarrow> conc \<Rightarrow> bool" where
  "finished_all N s \<longleftrightarrow> (\<forall>tid < N. w_todo (c_workers s tid) = [])"

section \<open>The invariant\<close>

text \<open>What the phase of a worker says about the bucket it works on.\<close>

fun phase_ok :: "(u64 \<Rightarrow> u8 list) \<Rightarrow> hash_table \<Rightarrow> u64 \<Rightarrow> phase \<Rightarrow> bool" where
  "phase_ok text t key (Found r) \<longleftrightarrow> r = map_option (\<lambda>n. length (t ! slot_of (text key)) - Suc n)
     (find_entry text (text key) (t ! slot_of (text key)))"
| "phase_ok text t key (Linked old) \<longleftrightarrow> old = t ! slot_of (text key) \<and> find_entry text (text key) old = None"
| "phase_ok text t key p \<longleftrightarrow> True"

definition worker_ok :: "(u64 \<Rightarrow> u8 list) \<Rightarrow> (nat \<Rightarrow> nat) \<Rightarrow> hash_table \<Rightarrow> (nat \<Rightarrow> nat option) \<Rightarrow> nat \<Rightarrow> worker \<Rightarrow> bool" where
  "worker_ok text mutex t owner tid w \<longleftrightarrow> (w_phase w \<noteq> Idle \<longrightarrow>
     (\<exists>key v rest. w_todo w = (key, v) # rest \<and> owner (mutex (slot_of (text key))) = Some tid \<and>
        phase_ok text t key (w_phase w)))"

definition pending :: "worker \<Rightarrow> (u64 \<times> u32) list" where
  "pending w = (if w_phase w = Unlocking then tl (w_todo w) else w_todo w)"

definition logged :: "nat \<Rightarrow> conc \<Rightarrow> (u64 \<times> u32) list" where
  "logged tid s = map snd (filter (\<lambda>x. fst x = tid) (c_log s))"

definition conc_ok ::
  "(u64 \<Rightarrow> u8 list) \<Rightarrow> (nat \<Rightarrow> nat) \<Rightarrow> nat \<Rightarrow> (nat \<Rightarrow> (u64 \<times> u32) list) \<Rightarrow> conc \<Rightarrow> bool" where
  "conc_ok text mutex N prog s \<longleftrightarrow>
     add_all (hash_table_base_add_entry text) (map snd (c_log s)) hash_table_base_create = Inr (c_table s) \<and>
     fst ` set (c_log s) \<subseteq> {..<N} \<and>
     (\<forall>tid < N. worker_ok text mutex (c_table s) (c_owner s) tid (c_workers s tid) \<and>
        logged tid s @ pending (c_workers s tid) = prog tid) \<and>
     (\<forall>m tid. c_owner s m = Some tid \<longrightarrow> tid < N \<and> w_phase (c_workers s tid) \<noteq> Idle \<and>
        (\<exists>key v rest. w_todo (c_workers s tid) = (key, v) # rest \<and> m = mutex (slot_of (text key))))"

lemma phase_ok_cong:
  "t' ! slot_of (text key) = t ! slot_of (text key) \<Longrightarrow> phase_ok text t' key p = phase_ok text t key p"
  by (cases p) simp_all

lemma worker_frame:
  assumes "worker_ok text mutex t owner tid w"
    and "\<And>m. owner m = Some tid \<Longrightarrow> owner' m = Some tid"
    and "\<And>j. owner (mutex j) = Some tid \<Longrightarrow> t' ! j = t ! j"
  shows "worker_ok text mutex t' owner' tid w"
  using assms phase_ok_cong unfolding worker_ok_def by metis

text \<open>A step of one worker keeps the invariant if it changes buckets only under its own mutex.\<close>

lemma conc_ok_update:
  assumes ok: "conc_ok text mutex N prog s" and tid: "tid < N"
    and s': "c_workers s' = (c_workers s)(tid := w')"
    and run: "add_all (hash_table_base_add_entry text) (map snd (c_log s')) hash_table_base_create = Inr (c_table s')"
    and log: "c_log s' = c_log s \<or> (\<exists>x. c_log s' = c_log s @ [(tid, x)])"
    and me: "worker_ok text mutex (c_table s') (c_owner s') tid w'" "logged tid s' @ pending w' = prog tid"
    and others: "\<And>m u. u \<noteq> tid \<Longrightarrow> c_owner s' m = Some u \<longleftrightarrow> c_owner s m = Some u"
    and mine: "\<And>m. c_owner s' m = Some tid \<Longrightarrow> w_phase w' \<noteq> Idle \<and>
        (\<exists>key v rest. w_todo w' = (key, v) # rest \<and> m = mutex (slot_of (text key)))"
    and frame: "\<And>j. c_table s' ! j \<noteq> c_table s ! j \<Longrightarrow> c_owner s (mutex j) = Some tid"
  shows "conc_ok text mutex N prog s'"
  unfolding conc_ok_def
proof (intro conjI allI impI)
  note o = ok [unfolded conc_ok_def]
  show "add_all (hash_table_base_add_entry text) (map snd (c_log s')) hash_table_base_create = Inr (c_table s')"
    by (rule run)
  show "fst ` set (c_log s') \<subseteq> {..<N}" using log o tid by (elim disjE exE) simp_all
  fix u assume u: "u < N"
  show "worker_ok text mutex (c_table s') (c_owner s') u (c_workers s' u)"
  proof (cases "u = tid")
    case False
    have "worker_ok text mutex (c_table s) (c_owner s) u (c_workers s u)" using o u by blast
    then have "worker_ok text mutex (c_table s') (c_owner s') u (c_workers s u)"
      by (rule worker_frame) (use others frame False in \<open>metis option.inject\<close>)+
    with False s' show ?thesis by simp
  qed (use me s' in simp)
  show "logged u s' @ pending (c_workers s' u) = prog u"
    using o u me(2) log s' by (cases "u = tid") (auto simp: logged_def)
next
  note o = ok [unfolded conc_ok_def]
  fix m u assume m: "c_owner s' m = Some u"
  have "u = tid \<or> c_owner s m = Some u" using m others by blast
  then show "u < N" using o tid by blast
  show "w_phase (c_workers s' u) \<noteq> Idle"
    using m mine others o s' by (cases "u = tid") auto
  show "\<exists>key v rest. w_todo (c_workers s' u) = (key, v) # rest \<and> m = mutex (slot_of (text key))"
    using m mine others o s' by (cases "u = tid") auto
qed

lemma add_all_snoc:
  "add_all add kvs t0 = Inr t \<Longrightarrow> add_all add (kvs @ [(k, v)]) t0 = add k v t"
  by (cases "add k v t") (simp_all add: add_all_append)

text \<open>What the invariant says of a worker that has a pair left to add.\<close>

lemma conc_ok_worker:
  assumes ok: "conc_ok text mutex N prog s" and tid: "tid < N"
    and todo: "w_todo (c_workers s tid) = (key, v) # rest"
  shows "w_phase (c_workers s tid) \<noteq> Idle \<Longrightarrow> c_owner s (mutex (slot_of (text key))) = Some tid"
    and "phase_ok text (c_table s) key (w_phase (c_workers s tid))"
    and "c_owner s m = Some tid \<Longrightarrow> w_phase (c_workers s tid) \<noteq> Idle \<and> m = mutex (slot_of (text key))"
    and "logged tid s @ pending (c_workers s tid) = prog tid"
proof -
  note o = ok [unfolded conc_ok_def]
  have w: "worker_ok text mutex (c_table s) (c_owner s) tid (c_workers s tid)" using o tid by blast
  show "w_phase (c_workers s tid) \<noteq> Idle \<Longrightarrow> c_owner s (mutex (slot_of (text key))) = Some tid"
    using w todo by (auto simp: worker_ok_def)
  show "phase_ok text (c_table s) key (w_phase (c_workers s tid))"
    using w todo by (cases "w_phase (c_workers s tid)") (auto simp: worker_ok_def)
  show "c_owner s m = Some tid \<Longrightarrow> w_phase (c_workers s tid) \<noteq> Idle \<and> m = mutex (slot_of (text key))"
    using o todo by fastforce
  show "logged tid s @ pending (c_workers s tid) = prog tid" using o tid by blast
qed

lemma conc_ok_key:
  assumes "conc_ok text mutex N prog s" "tid < N" "w_todo (c_workers s tid) = (key, v) # rest"
    and "0 \<notin> fst ` set (prog tid)" "w_phase (c_workers s tid) \<noteq> Unlocking"
  shows "key \<noteq> 0"
proof -
  have "(key, v) \<in> set (pending (c_workers s tid))" using assms(3,5) by (simp add: pending_def)
  moreover have "set (pending (c_workers s tid)) \<subseteq> set (prog tid)"
    using conc_ok_worker(4) [OF assms(1-3)] by (metis Un_upper2 set_append)
  ultimately have "key \<in> fst ` set (prog tid)" by force
  with assms(4) show ?thesis by metis
qed

text \<open>The kinds of steps: taking the mutex, looking at the bucket, changing it, releasing the mutex.\<close>

lemma conc_ok_acquire:
  assumes ok: "conc_ok text mutex N prog s" and tid: "tid < N"
    and todo: "w_todo (c_workers s tid) = (key, v) # rest"
    and idle: "w_phase (c_workers s tid) = Idle" and free: "c_owner s (mutex (slot_of (text key))) = None"
  shows "conc_ok text mutex N prog
    (set_phase tid Holding (s\<lparr>c_owner := (c_owner s)(mutex (slot_of (text key)) \<mapsto> tid)\<rparr>))"
    (is "conc_ok text mutex N prog ?s'")
proof -
  let ?w = "(c_workers s tid)\<lparr>w_phase := Holding\<rparr>"
  note W = conc_ok_worker [OF ok tid todo]
  have none: "c_owner s m \<noteq> Some tid" for m using W(3) idle by blast
  show ?thesis
  proof (rule conc_ok_update [OF ok tid, where w' = ?w])
    show "logged tid ?s' @ pending ?w = prog tid"
      using W(4) idle by (simp add: set_phase_def pending_def logged_def)
    show "c_owner ?s' m = Some u \<longleftrightarrow> c_owner s m = Some u" if "u \<noteq> tid" for m u
      using that free by (simp add: set_phase_def)
    show "w_phase ?w \<noteq> Idle \<and> (\<exists>key v rest. w_todo ?w = (key, v) # rest \<and> m = mutex (slot_of (text key)))"
      if "c_owner ?s' m = Some tid" for m
      using that none todo by (simp add: set_phase_def split: if_splits)
  qed (simp_all add: set_phase_def ok [unfolded conc_ok_def] worker_ok_def todo)
qed

lemma conc_ok_quiet:
  assumes ok: "conc_ok text mutex N prog s" and tid: "tid < N"
    and todo: "w_todo (c_workers s tid) = (key, v) # rest"
    and p: "p \<noteq> Unlocking" "p \<noteq> Idle" "phase_ok text (c_table s) key p"
    and old: "w_phase (c_workers s tid) \<noteq> Unlocking" "w_phase (c_workers s tid) \<noteq> Idle"
  shows "conc_ok text mutex N prog (set_phase tid p s)"
proof -
  let ?w = "(c_workers s tid)\<lparr>w_phase := p\<rparr>"
  note W = conc_ok_worker [OF ok tid todo]
  show ?thesis
  proof (rule conc_ok_update [OF ok tid, where w' = ?w])
    show "logged tid (set_phase tid p s) @ pending ?w = prog tid"
      using W(4) p old by (simp add: set_phase_def pending_def logged_def)
    show "worker_ok text mutex (c_table (set_phase tid p s)) (c_owner (set_phase tid p s)) tid ?w"
      using p old W(1) todo by (simp add: set_phase_def worker_ok_def)
    show "w_phase ?w \<noteq> Idle \<and> (\<exists>key v rest. w_todo ?w = (key, v) # rest \<and> m = mutex (slot_of (text key)))"
      if "c_owner (set_phase tid p s) m = Some tid" for m
      using that p W(3) [of m] todo by (simp add: set_phase_def)
  qed (simp_all add: set_phase_def ok [unfolded conc_ok_def])
qed

lemma conc_ok_effect:
  assumes ok: "conc_ok text mutex N prog s" and tid: "tid < N"
    and todo: "w_todo (c_workers s tid) = (key, v) # rest"
    and old: "w_phase (c_workers s tid) \<noteq> Unlocking" "w_phase (c_workers s tid) \<noteq> Idle"
    and add: "hash_table_base_add_entry text key v (c_table s) = Inr t'"
    and frame: "\<And>j. j \<noteq> slot_of (text key) \<Longrightarrow> t' ! j = c_table s ! j"
  shows "conc_ok text mutex N prog
    (set_phase tid Unlocking (s\<lparr>c_table := t', c_log := c_log s @ [(tid, key, v)]\<rparr>))"
    (is "conc_ok text mutex N prog ?s'")
proof -
  let ?w = "(c_workers s tid)\<lparr>w_phase := Unlocking\<rparr>"
  note W = conc_ok_worker [OF ok tid todo] and o = ok [unfolded conc_ok_def]
  show ?thesis
  proof (rule conc_ok_update [OF ok tid, where w' = ?w])
    show "add_all (hash_table_base_add_entry text) (map snd (c_log ?s')) hash_table_base_create = Inr (c_table ?s')"
      using add_all_snoc [OF o [THEN conjunct1], of key v] add by (simp add: set_phase_def)
    show "logged tid ?s' @ pending ?w = prog tid"
      using W(4) old todo by (simp add: set_phase_def pending_def logged_def)
    show "worker_ok text mutex (c_table ?s') (c_owner ?s') tid ?w"
      using old W(1) todo by (simp add: set_phase_def worker_ok_def)
    show "w_phase ?w \<noteq> Idle \<and> (\<exists>key v rest. w_todo ?w = (key, v) # rest \<and> m = mutex (slot_of (text key)))"
      if "c_owner ?s' m = Some tid" for m
      using that W(3) [of m] todo by (simp add: set_phase_def)
    show "c_owner s (mutex j) = Some tid" if "c_table ?s' ! j \<noteq> c_table s ! j" for j
      using that frame W(1) old by (cases "j = slot_of (text key)") (auto simp: set_phase_def)
  qed (simp_all add: set_phase_def)
qed

lemma conc_ok_release:
  assumes ok: "conc_ok text mutex N prog s" and tid: "tid < N"
    and todo: "w_todo (c_workers s tid) = (key, v) # rest" and old: "w_phase (c_workers s tid) = Unlocking"
  shows "conc_ok text mutex N prog (s\<lparr>c_owner := (c_owner s)(mutex (slot_of (text key)) := None),
    c_workers := (c_workers s)(tid := \<lparr>w_todo = rest, w_phase = Idle\<rparr>)\<rparr>)"
    (is "conc_ok text mutex N prog ?s'")
proof -
  let ?w = "\<lparr>w_todo = rest, w_phase = Idle\<rparr>"
  note W = conc_ok_worker [OF ok tid todo]
  have held: "c_owner s (mutex (slot_of (text key))) = Some tid" using W(1) old by simp
  show ?thesis
  proof (rule conc_ok_update [OF ok tid, where w' = ?w])
    show "logged tid ?s' @ pending ?w = prog tid" using W(4) old todo by (simp add: pending_def logged_def)
    show "c_owner ?s' m = Some u \<longleftrightarrow> c_owner s m = Some u" if "u \<noteq> tid" for m u using that held by simp
    show "w_phase ?w \<noteq> Idle \<and> (\<exists>key v rest'. w_todo ?w = (key, v) # rest' \<and> m = mutex (slot_of (text key)))"
      if "c_owner ?s' m = Some tid" for m
      using that W(3) [of m] by (simp split: if_splits)
  qed (simp_all add: ok [unfolded conc_ok_def] worker_ok_def)
qed

lemma conc_ok_step:
  assumes ok: "conc_ok text mutex N prog s" and tid: "tid < N" and keys: "0 \<notin> fst ` set (prog tid)"
    and step: "add_entry_step text mutex tid s = Some s'"
  shows "conc_ok text mutex N prog s'"
proof -
  let ?t = "c_table s" and ?p = "w_phase (c_workers s tid)"
  obtain key v rest where todo: "w_todo (c_workers s tid) = (key, v) # rest"
    using step by (auto simp: add_entry_step_def split: list.splits)
  note d = add_entry_step_def Let_def todo and ph = conc_ok_worker(2) [OF ok tid todo]
    and key = conc_ok_key [OF ok tid todo keys] and c = ok tid todo
  let ?i = "slot_of (text key)" and ?look = "find_entry text (text key) (?t ! slot_of (text key))"
  show ?thesis
  proof (cases ?p)
    case Idle
    then show ?thesis using step conc_ok_acquire [OF c] by (auto simp: d split: if_splits)
  next
    case Holding
    then show ?thesis using step conc_ok_quiet [OF c, of "Found _"] by (auto simp: d)
  next
    case (Found r)
    show ?thesis
    proof (cases r)
      case None
      then have "?look = None" using ph Found by simp
      then show ?thesis using step Found None conc_ok_quiet [OF c, of "Linked (?t ! ?i)"] by (auto simp: d)
    next
      case (Some k)
      then obtain n where n: "?look = Some n" "k = length (?t ! ?i) - Suc n" using ph Found by (cases ?look) auto
      then have pos: "length (?t ! ?i) - Suc k = n" using find_entry_Some [OF n(1)] by simp
      have "hash_table_base_add_entry text key v ?t = Inr (set_value ?i n v ?t)"
        using key Found n(1) by (simp add: hash_table_base_add_entry_def get_list_head_def get_list_entry_def)
      then have "conc_ok text mutex N prog (set_phase tid Unlocking
          (s\<lparr>c_table := set_value ?i n v ?t, c_log := c_log s @ [(tid, key, v)]\<rparr>))"
        by (rule conc_ok_effect [OF c, rotated 2]) (use Found in \<open>simp_all add: set_value_def nth_list_update_neq\<close>)
      then show ?thesis using step Found Some pos by (simp add: d)
    qed
  next
    case (Linked old)
    let ?t' = "?t[?i := \<lparr>e_key = key, e_value = v\<rparr> # ?t ! ?i]"
    have old: "old = ?t ! ?i" "?look = None" using ph Linked by auto
    have "hash_table_base_add_entry text key v ?t = Inr ?t'"
      using key Linked old(2) by (simp add: hash_table_base_add_entry_def get_list_head_def get_list_entry_def)
    then have "conc_ok text mutex N prog (set_phase tid Unlocking
        (s\<lparr>c_table := ?t', c_log := c_log s @ [(tid, key, v)]\<rparr>))"
      by (rule conc_ok_effect [OF c, rotated 2]) (use Linked in simp_all)
    then show ?thesis using step Linked old(1) by (simp add: d)
  next
    case Unlocking
    then show ?thesis using step conc_ok_release [OF c] by (auto simp: d)
  qed
qed

lemma exec_ok:
  assumes "exec (add_entry_step text mutex) N prog n s" "\<forall>tid < N. 0 \<notin> fst ` set (prog tid)"
  shows "conc_ok text mutex N prog s"
  using assms(1)
proof (induction rule: exec.induct)
  case start
  show ?case by (simp add: conc_ok_def conc_start_def worker_ok_def pending_def logged_def)
next
  case (step n s tid s')
  with conc_ok_step [OF step.IH step.hyps(2) _ step.hyps(3)] assms(2) show ?case by blast
qed


section \<open>Progress\<close>

text \<open>Each insertion takes at most five steps; the steps a worker has left.\<close>

fun phase_steps :: "phase \<Rightarrow> nat" where
  "phase_steps Idle = 5"
| "phase_steps Holding = 4"
| "phase_steps (Found r) = 3"
| "phase_steps (Linked old) = 2"
| "phase_steps Unlocking = 1"

definition steps_left :: "worker \<Rightarrow> nat" where
  "steps_left w = (if w_todo w = [] then 0 else phase_steps (w_phase w) + 5 * (length (w_todo w) - 1))"

lemma step_decreases:
  assumes "add_entry_step text mutex tid s = Some s'"
  shows "steps_left (c_workers s' tid) < steps_left (c_workers s tid)"
    "u \<noteq> tid \<Longrightarrow> c_workers s' u = c_workers s u"
proof -
  obtain key v rest where todo: "w_todo (c_workers s tid) = (key, v) # rest"
    using assms by (auto simp: add_entry_step_def split: list.splits)
  show "steps_left (c_workers s' tid) < steps_left (c_workers s tid)"
    using assms todo
    by (cases "w_phase (c_workers s tid)")
       (auto simp: add_entry_step_def set_phase_def Let_def steps_left_def neq_Nil_conv
         split: option.splits if_splits)
  show "u \<noteq> tid \<Longrightarrow> c_workers s' u = c_workers s u"
    using assms todo
    by (cases "w_phase (c_workers s tid)")
       (auto simp: add_entry_step_def set_phase_def Let_def split: option.splits if_splits)
qed

definition total_left :: "nat \<Rightarrow> conc \<Rightarrow> nat" where
  "total_left N s = (\<Sum>tid < N. steps_left (c_workers s tid))"

lemma total_decreases:
  assumes "add_entry_step text mutex tid s = Some s'" "tid < N"
  shows "total_left N s' < total_left N s"
  unfolding total_left_def
proof (rule sum_strict_mono_ex1)
  show "\<forall>u \<in> {..<N}. steps_left (c_workers s' u) \<le> steps_left (c_workers s u)"
    using step_decreases [OF assms(1)] by (metis less_imp_le order_refl)
  show "\<exists>u \<in> {..<N}. steps_left (c_workers s' u) < steps_left (c_workers s u)"
    using step_decreases(1) [OF assms(1)] assms(2) by blast
qed simp

lemma exec_bounded:
  assumes "exec (add_entry_step text mutex) N prog n s"
  shows "n + total_left N s \<le> 5 * (\<Sum>tid < N. length (prog tid))"
  using assms
proof (induction rule: exec.induct)
  case start
  have "steps_left (c_workers (conc_start prog) tid) = 5 * length (prog tid)" for tid
    by (cases "prog tid") (simp_all add: conc_start_def steps_left_def)
  then show ?case by (simp add: total_left_def sum_distrib_left)
next
  case (step n s tid s')
  with total_decreases [OF step.hyps(3,2)] show ?case by simp
qed

lemma can_step:
  assumes "conc_ok text mutex N prog s" "\<not> finished_all N s"
  shows "\<exists>tid < N. add_entry_step text mutex tid s \<noteq> None"
proof -
  have busy: "add_entry_step text mutex tid s \<noteq> None"
    if "w_phase (c_workers s tid) \<noteq> Idle" "w_todo (c_workers s tid) = (key, v) # rest" for tid key v rest
    using that by (cases "w_phase (c_workers s tid)")
      (auto simp: add_entry_step_def Let_def split: option.split)
  obtain tid where tid: "tid < N" "w_todo (c_workers s tid) \<noteq> []" using assms(2) by (auto simp: finished_all_def)
  then obtain key v rest where todo: "w_todo (c_workers s tid) = (key, v) # rest"
    by (cases "w_todo (c_workers s tid)") auto
  show ?thesis
  proof (cases "w_phase (c_workers s tid) = Idle")
    case False
    with busy todo tid show ?thesis by blast
  next
    case True
    show ?thesis
    proof (cases "c_owner s (mutex (slot_of (text key)))")
      case None
      with True todo have "add_entry_step text mutex tid s \<noteq> None" by (simp add: add_entry_step_def Let_def)
      with tid show ?thesis by blast
    next
      case (Some u)
      then have "u < N" "w_phase (c_workers s u) \<noteq> Idle" "\<exists>key v rest. w_todo (c_workers s u) = (key, v) # rest"
        using assms(1) unfolding conc_ok_def by blast+
      with busy show ?thesis by blast
    qed
  qed
qed

lemma exec_finishes:
  assumes "\<forall>tid < N. 0 \<notin> fst ` set (prog tid)"
  shows "\<exists>n s. exec (add_entry_step text mutex) N prog n s \<and> finished_all N s"
proof (rule ccontr)
  assume no: "\<not> ?thesis"
  have "\<exists>s. exec (add_entry_step text mutex) N prog n s" for n
  proof (induction n)
    case 0
    show ?case by (blast intro: exec.start)
  next
    case (Suc n)
    then obtain s where s: "exec (add_entry_step text mutex) N prog n s" by blast
    with no have "\<not> finished_all N s" by blast
    from can_step [OF exec_ok [OF s assms] this] show ?case using exec.step [OF s] by blast
  qed
  then obtain s where "exec (add_entry_step text mutex) N prog (Suc (5 * (\<Sum>tid < N. length (prog tid)))) s"
    by blast
  from exec_bounded [OF this] show False by simp
qed

section \<open>Both tables\<close>

lemma linearized:
  assumes "step = hash_table_v1_add_entry text \<or> step = hash_table_v2_add_entry text"
    and "exec step N prog n s" "finished_all N s" "\<forall>tid < N. 0 \<notin> fst ` set (prog tid)"
  shows "\<exists>log. fst ` set log \<subseteq> {..<N} \<and> (\<forall>tid < N. map snd (filter (\<lambda>x. fst x = tid) log) = prog tid) \<and>
    add_all (hash_table_base_add_entry text) (map snd log) hash_table_base_create = Inr (c_table s)"
proof -
  obtain mutex where step: "step = add_entry_step text mutex"
    using assms(1) by (auto simp: hash_table_v1_add_entry_def hash_table_v2_add_entry_def)
  have ok: "conc_ok text mutex N prog s" using exec_ok assms(2,4) step by blast
  have "logged tid s = prog tid" if "tid < N" for tid
    using ok assms(3) that by (auto simp: conc_ok_def finished_all_def pending_def worker_ok_def
      dest!: spec [of _ tid])
  with ok show ?thesis by (intro exI [of _ "c_log s"]) (auto simp: conc_ok_def logged_def)
qed

text \<open>
  C28: Linearizability. When all threads have finished, the table is exactly what one thread gets from
  the plain table by making all their insertions one after another, in an order that keeps the order
  of each thread; this holds with one mutex for the table and with one for each bucket.
\<close>

theorem hash_tables_linearizable:
  assumes "step = hash_table_v1_add_entry text \<or> step = hash_table_v2_add_entry text"
    and "exec step N prog n s" "finished_all N s" "\<forall>tid < N. 0 \<notin> fst ` set (prog tid)"
  shows "\<exists>log. fst ` set log \<subseteq> {..<N} \<and> (\<forall>tid < N. map snd (filter (\<lambda>x. fst x = tid) log) = prog tid) \<and>
    add_all (hash_table_base_add_entry text) (map snd log) hash_table_base_create = Inr (c_table s)"
  by (rule linearized [OF assms])

text \<open>
  C29: Progress. The threads never deadlock: until all of them have finished some thread can take a
  step, no execution takes more than five steps for each insertion, and so every execution that goes
  on as long as it can ends with all insertions made.
\<close>

theorem hash_tables_progress:
  assumes "step = hash_table_v1_add_entry text \<or> step = hash_table_v2_add_entry text"
    and "exec step N prog n s" "\<forall>tid < N. 0 \<notin> fst ` set (prog tid)"
  shows "n \<le> 5 * (\<Sum>tid < N. length (prog tid)) \<and>
    (finished_all N s \<or> (\<exists>tid < N. \<exists>s'. step tid s = Some s' \<and> exec step N prog (Suc n) s'))"
proof
  obtain mutex where step: "step = add_entry_step text mutex"
    using assms(1) by (auto simp: hash_table_v1_add_entry_def hash_table_v2_add_entry_def)
  show "n \<le> 5 * (\<Sum>tid < N. length (prog tid))" using exec_bounded assms(2) step by fastforce
  show "finished_all N s \<or> (\<exists>tid < N. \<exists>s'. step tid s = Some s' \<and> exec step N prog (Suc n) s')"
    using can_step [OF exec_ok [OF assms(2) [unfolded step] assms(3)]] exec.step [OF assms(2)] step by blast
qed

definition demo_prog :: "nat \<Rightarrow> (u64 \<times> u32) list" where
  "demo_prog tid = [(16, of_nat tid), (32, 7)]"

lemma demo_prog_keys: "\<forall>tid < 2. 0 \<notin> fst ` set (demo_prog tid)"
  by (simp add: demo_prog_def)

theorem hash_tables_linearizable_witness:
  "\<exists>n s log. exec (hash_table_v2_add_entry (\<lambda>p. [ucast p])) 2 demo_prog n s \<and> finished_all 2 s \<and>
    map snd (filter (\<lambda>x. fst x = (1::nat)) log) = [(16, 1), (32, 7)] \<and>
    add_all (hash_table_base_add_entry (\<lambda>p. [ucast p])) (map snd log) hash_table_base_create = Inr (c_table s)"
proof -
  obtain n s where e: "exec (hash_table_v2_add_entry (\<lambda>p. [ucast p])) 2 demo_prog n s" "finished_all 2 s"
    using exec_finishes [OF demo_prog_keys] unfolding hash_table_v2_add_entry_def by blast
  have "hash_table_v2_add_entry (\<lambda>p. [ucast p]) = hash_table_v1_add_entry (\<lambda>p. [ucast p]) \<or>
      hash_table_v2_add_entry (\<lambda>p. [ucast p]) = hash_table_v2_add_entry (\<lambda>p. [ucast p])" by blast
  from hash_tables_linearizable [OF this e demo_prog_keys] obtain log where
    log: "\<forall>tid < 2. map snd (filter (\<lambda>x. fst x = tid) log) = demo_prog tid"
      "add_all (hash_table_base_add_entry (\<lambda>p. [ucast p])) (map snd log) hash_table_base_create = Inr (c_table s)"
    by blast
  have "demo_prog 1 = [(16, 1), (32, 7)]" by (simp add: demo_prog_def)
  with log(1) have "map snd (filter (\<lambda>x. fst x = 1) log) = [(16, 1), (32, 7)]"
    by (metis one_less_numeral_iff semiring_norm(76))
  then show ?thesis by (intro exI [of _ n] exI [of _ s] exI [of _ log] conjI e log(2))
qed

theorem hash_tables_progress_witness:
  "\<exists>tid < 2. \<exists>s'. hash_table_v1_add_entry (\<lambda>p. [ucast p]) tid (conc_start demo_prog) = Some s'"
proof -
  have "\<not> finished_all 2 (conc_start demo_prog)"
    by (auto simp: finished_all_def conc_start_def demo_prog_def intro: exI [of _ 0])
  with hash_tables_progress [OF _ exec.start demo_prog_keys, of "hash_table_v1_add_entry (\<lambda>p. [ucast p])"
      "\<lambda>p. [ucast p]"] show ?thesis by blast
qed

end

