(* ===== verification/PhtTester.thy ===== *)
theory PhtTester
  imports PhtThreads
begin

text \<open>
  \<open>pht/src/pht-tester.c\<close>: the parser of its arguments, the strings it generates, and the insertions
  and counts of \<open>main\<close> and of the threads it starts.  What \<open>rand\<close> and \<open>calloc\<close> return are parameters;
  the timing is a definition, the printing is not modelled.
\<close>

section \<open>Arguments\<close>

text \<open>The characters of the argument up to its NUL; the counter \<open>i\<close> never passes ten.\<close>

fun parse_loop :: "u8 list \<Rightarrow> nat \<Rightarrow> u32 \<Rightarrow> u32 pht_result" where
  "parse_loop [] i current = Inr current"
| "parse_loop (c # cs) i current =
     (if i = 10 then Inl (Pht_exit 22)
      else if sint c < 0x30 \<or> sint c > 0x39 then Inl (Pht_exit 22)
      else let digit = c - 0x30 in
        if i = 9 \<and> (current > 429496729 \<or> current = 429496729 \<and> digit > 5) then Inl (Pht_exit 22)
        else parse_loop cs (i + 1) (current * 10 + ucast digit))"

definition parse_uint32_t :: "u8 list \<Rightarrow> u32 pht_result" where
  "parse_uint32_t s = parse_loop s 0 0"

record arguments =
  threads :: u32
  size_arg :: u32

definition parse_opt :: "u8 \<Rightarrow> u8 list \<Rightarrow> arguments \<Rightarrow> arguments pht_result" where
  "parse_opt key arg args =
     (if key = of_char (CHR ''t'') then and_then (parse_uint32_t arg) (\<lambda>n. Inr (args\<lparr>threads := n\<rparr>))
      else if key = of_char (CHR ''s'') then and_then (parse_uint32_t arg) (\<lambda>n. Inr (args\<lparr>size_arg := n\<rparr>))
      else Inr args)"

definition arguments0 :: arguments where
  "arguments0 = \<lparr>threads = 4, size_arg = 25000\<rparr>"

section \<open>Strings\<close>

definition get_global_index :: "arguments \<Rightarrow> u32 \<Rightarrow> u32 \<Rightarrow> nat" where
  "get_global_index args thread index = unat (thread * size_arg args + index)"

definition BYTES_PER_STRING :: nat where "BYTES_PER_STRING = 8"

definition get_string :: "u64 \<Rightarrow> nat \<Rightarrow> u64" where
  "get_string data global_index = data + of_nat (global_index * BYTES_PER_STRING)"

text \<open>The character for one value of \<open>rand()\<close>, and the seven of a string.\<close>

definition letter :: "int \<Rightarrow> u8" where
  "letter n = (let r = n mod 52 in if r < 26 then word_of_int (r + 0x41) else word_of_int (r + 0x47))"

definition generated :: "(nat \<Rightarrow> int) \<Rightarrow> nat \<Rightarrow> u8 list" where
  "generated rand n = map (\<lambda>k. letter (rand (n * (BYTES_PER_STRING - 1) + k))) [0..<BYTES_PER_STRING - 1]"

record timeval =
  tv_sec :: u64
  tv_usec :: u64

definition usec_diff :: "timeval \<Rightarrow> timeval \<Rightarrow> u64" where
  "usec_diff a b = (tv_sec b - tv_sec a) * 1000000 + (tv_usec b - tv_usec a)"

section \<open>Insertions\<close>

definition run_v1 :: "arguments \<Rightarrow> u64 \<Rightarrow> u32 \<Rightarrow> (u64 \<times> u32) list" where
  "run_v1 args data thread = map (\<lambda>j. let global_index = get_global_index args thread (of_nat j) in
     (get_string data global_index, of_nat global_index)) [0..<unat (size_arg args)]"

definition run_v2 :: "arguments \<Rightarrow> u64 \<Rightarrow> u32 \<Rightarrow> (u64 \<times> u32) list" where
  "run_v2 args data thread = map (\<lambda>j. let global_index = get_global_index args thread (of_nat j) in
     (get_string data global_index, of_nat global_index)) [0..<unat (size_arg args)]"

text \<open>The nested loops of \<open>main\<close> that fill the plain table, and the keys it then looks for.\<close>

definition main_entries :: "arguments \<Rightarrow> u64 \<Rightarrow> (u64 \<times> u32) list" where
  "main_entries args data = concat (map (\<lambda>i. map (\<lambda>j.
     let global_index = get_global_index args (of_nat i) (of_nat j) in
     (get_string data global_index, of_nat global_index)) [0..<unat (size_arg args)])
     [0..<unat (threads args)])"

definition main_keys :: "arguments \<Rightarrow> u64 \<Rightarrow> u64 list" where
  "main_keys args data = concat (map (\<lambda>i. map (\<lambda>j.
     get_string data (get_global_index args (of_nat i) (of_nat j))) [0..<unat (size_arg args)])
     [0..<unat (threads args)])"

section \<open>Parsing\<close>

definition digits :: "u8 list \<Rightarrow> bool" where
  "digits s \<longleftrightarrow> (\<forall>c \<in> set s. 48 \<le> c \<and> c \<le> 57)"

fun decimal :: "u8 list \<Rightarrow> nat \<Rightarrow> nat" where
  "decimal [] v = v"
| "decimal (c # cs) v = decimal cs (10 * v + (unat c - 48))"

lemma decimal_mono: "v \<le> decimal cs v"
  by (induction cs v rule: decimal.induct) auto

lemma digit_char: "\<not> (sint (c::u8) < 0x30 \<or> sint c > 0x39) \<longleftrightarrow> 48 \<le> c \<and> c \<le> 57"
proof -
  define x where "x = uint c"
  have x: "0 \<le> x" "x < 256" using uint_bounded [of c] by (simp_all add: x_def)
  have "sint c = (x + 128) mod 256 - 128"
    by (simp add: sint_uint signed_take_bit_eq_take_bit_shift take_bit_eq_mod x_def)
  also have "(x + 128) mod 256 = (if x < 128 then x + 128 else x - 128)"
  proof (cases "x < 128")
    case False
    have "(x + 128) mod 256 = (x - 128 + 256) mod 256" by (simp add: add.commute)
    also have "\<dots> = x - 128" unfolding mod_add_self2 using False x by (intro mod_pos_pos_trivial) simp_all
    finally show ?thesis using False by simp
  qed (use x in simp)
  finally have "sint c = (if x < 128 then x else x - 256)" by simp
  moreover have "48 \<le> c \<longleftrightarrow> 48 \<le> x" "c \<le> 57 \<longleftrightarrow> x \<le> 57" by (simp_all add: word_le_def x_def)
  ultimately show ?thesis using x by auto
qed

text \<open>One round of the loop: the digit, the wrapped sum, and the guard against wrapping.\<close>

lemma parse_round:
  assumes "v < 2 ^ 32" "48 \<le> c" "c \<le> 57"
  defines "d \<equiv> unat (c :: u8) - 48"
  shows "d \<le> 9" "of_nat v * 10 + ucast (c - 48) = (of_nat (10 * v + d) :: u32)"
    "(of_nat v > (429496729 :: u32) \<or> of_nat v = (429496729 :: u32) \<and> c - 48 > 5) \<longleftrightarrow> 2 ^ 32 \<le> 10 * v + d"
proof -
  have "48 \<le> unat c" "unat c \<le> 57" using assms by (simp_all add: word_le_nat_alt)
  then have dig: "unat (c - 48) = d" and d9: "d \<le> 9" by (simp_all add: unat_sub word_le_nat_alt d_def)
  then show "d \<le> 9" by simp
  have "(ucast (c - 48) :: u32) = of_nat d" using dig by (metis of_nat_unat)
  then show "of_nat v * 10 + ucast (c - 48) = (of_nat (10 * v + d) :: u32)" by (simp add: mult.commute)
  have cur: "unat (of_nat v :: u32) = v" using assms(1) by (simp add: unat_of_nat)
  have "of_nat v > (429496729 :: u32) \<longleftrightarrow> v > 429496729" using cur by (simp add: word_less_nat_alt)
  moreover have "of_nat v = (429496729 :: u32) \<longleftrightarrow> v = 429496729" using cur by (auto simp: word_unat_eq_iff)
  moreover have "c - 48 > 5 \<longleftrightarrow> d > 5" using dig by (simp add: word_less_nat_alt)
  ultimately show "(of_nat v > (429496729 :: u32) \<or> of_nat v = (429496729 :: u32) \<and> c - 48 > 5) \<longleftrightarrow>
      2 ^ 32 \<le> 10 * v + d" using d9 by auto
qed

text \<open>A number of fewer than ten digits does not wrap.\<close>

lemma digits_bound:
  assumes "v < 10 ^ i" "d \<le> (9 :: nat)"
  shows "10 * v + d < 10 ^ (i + 1)"
proof -
  have "10 * (v + 1) \<le> 10 * 10 ^ i" using assms(1) by (intro mult_le_mono2) simp
  with assms(2) show ?thesis by simp
qed

lemma wraps_at_ten:
  assumes "i \<le> 9" "v < 10 ^ i" "d \<le> (9 :: nat)" "2 ^ 32 \<le> 10 * v + d"
  shows "i = 9"
proof (rule ccontr)
  assume "i \<noteq> 9"
  then have "10 * v + d < 10 ^ 9"
    using digits_bound [OF assms(2,3)] power_increasing [of "i + 1" 9 "10 :: nat"] assms(1) by force
  with assms(4) show False by simp
qed

lemma parse_loop_correct:
  assumes "i \<le> 10" "v < 2 ^ 32" "i \<le> 9 \<longrightarrow> v < 10 ^ i"
  shows "parse_loop cs i (of_nat v) =
    (if i + length cs \<le> 10 \<and> digits cs \<and> decimal cs v < 2 ^ 32 then Inr (of_nat (decimal cs v))
     else Inl (Pht_exit 22))"
  using assms
proof (induction cs arbitrary: i v)
  case Nil
  then show ?case by (simp add: digits_def)
next
  case (Cons c cs)
  show ?case
  proof (cases "i < 10 \<and> 48 \<le> c \<and> c \<le> 57")
    case False
    then show ?thesis using Cons.prems(1) digit_char [of c] by (auto simp: digits_def)
  next
    case True
    let ?v = "10 * v + (unat c - 48)"
    have i: "i \<le> 9" "v < 10 ^ i" and c: "48 \<le> c" "c \<le> 57" using True Cons.prems(3) by auto
    note R = parse_round [OF Cons.prems(2) c]
    show ?thesis
    proof (cases "2 ^ 32 \<le> ?v")
      case big: True
      have "2 ^ 32 \<le> decimal cs ?v" using big decimal_mono [of ?v cs] by (rule le_trans)
      then show ?thesis
        using wraps_at_ten [OF i R(1) big] big R(3) True digit_char [of c] by (simp add: Let_def)
    next
      case fits: False
      have "i + 1 \<le> 9 \<longrightarrow> ?v < 10 ^ (i + 1)" using digits_bound [OF i(2) R(1)] by simp
      from Cons.IH [OF _ _ this] fits True
      have IH: "parse_loop cs (i + 1) (of_nat ?v) =
        (if i + 1 + length cs \<le> 10 \<and> digits cs \<and> decimal cs ?v < 2 ^ 32 then Inr (of_nat (decimal cs ?v))
         else Inl (Pht_exit 22))" by simp
      have "parse_loop (c # cs) i (of_nat v) = parse_loop cs (i + 1) (of_nat v * 10 + ucast (c - 48))"
        using fits R(3) True digit_char [of c] by (auto simp: Let_def)
      then show ?thesis using IH R(2) True by (simp add: digits_def)
    qed
  qed
qed

text \<open>
  C34: \<open>parse_uint32_t\<close> accepts exactly the strings of at most ten decimal digits whose value fits in 32
  bits, the empty string included, and returns that value; on anything else the process exits with
  \<open>EINVAL\<close>. Its overflow check never lets the accumulator wrap.
\<close>

theorem parse_uint32_t_correct:
  "parse_uint32_t s = (if length s \<le> 10 \<and> digits s \<and> decimal s 0 < 2 ^ 32 then Inr (of_nat (decimal s 0))
     else Inl (Pht_exit 22))"
  using parse_loop_correct [of 0 0 s] by (simp add: parse_uint32_t_def)

section \<open>No key is missing\<close>

lemma main_entries_keys: "map fst (main_entries args data) = main_keys args data"
  by (simp add: main_entries_def main_keys_def map_concat comp_def Let_def)

lemma main_entries_threads:
  "set (main_entries args data) = (\<Union>i < unat (threads args). set (run_v1 args data (of_nat i)))"
  "run_v2 = run_v1"
  by (auto simp: main_entries_def run_v1_def run_v2_def fun_eq_iff)

lemma get_string_valid:
  assumes "data \<noteq> 0" "unat data + 2 ^ 35 \<le> 2 ^ 64"
  shows "get_string data (get_global_index args i j) \<noteq> 0"
proof -
  let ?g = "get_global_index args i j"
  have "?g < 2 ^ 32" unfolding get_global_index_def using unsigned_less [of "i * size_arg args + j", where ?'a = nat] by simp
  then have g: "?g * 8 < 2 ^ 35" by simp
  then have u: "unat (of_nat (?g * 8) :: u64) = ?g * 8" by (subst unat_of_nat) simp
  have "unat data + unat (of_nat (?g * 8) :: u64) < 2 ^ 64" unfolding u using g assms(2) by linarith
  then have "unat (data + of_nat (?g * 8)) = unat data + ?g * 8"
    using unat_add_lem [of data "of_nat (?g * 8)"] u by simp
  moreover have "0 < unat data" using assms(1) by (simp add: unat_gt_0)
  ultimately have "0 < unat (get_string data ?g)" by (simp add: get_string_def BYTES_PER_STRING_def)
  then show ?thesis by auto
qed

lemma valid_keys:
  assumes "data \<noteq> 0" "unat data + 2 ^ 35 \<le> 2 ^ 64"
  shows "0 \<notin> set (main_keys args data)" "0 \<notin> fst ` set (run_v1 args data i)"
  using get_string_valid [OF assms, of args] by (auto simp: main_keys_def run_v1_def Let_def)

lemma set_of_log:
  assumes "fst ` set log \<subseteq> {..<N}" "\<forall>tid < N. map snd (filter (\<lambda>x. fst x = tid) log) = prog tid"
  shows "set (map snd log) = (\<Union>i < N. set (prog i))"
proof (rule set_eqI)
  fix x
  have "x \<in> set (map snd log) \<longleftrightarrow> (\<exists>i < N. (i, x) \<in> set log)" using assms(1) by force
  also have "\<dots> \<longleftrightarrow> (\<exists>i < N. x \<in> set (map snd (filter (\<lambda>y. fst y = i) log)))" by force
  also have "\<dots> \<longleftrightarrow> (\<exists>i < N. x \<in> set (prog i))" using assms(2) by metis
  also have "\<dots> \<longleftrightarrow> x \<in> (\<Union>i < N. set (prog i))" by blast
  finally show "x \<in> set (map snd log) \<longleftrightarrow> x \<in> (\<Union>i < N. set (prog i))" .
qed

text \<open>
  However a table was filled, by the loops of \<open>main\<close> or by the threads in any order, it then has every
  generated string.
\<close>

lemma all_inserted:
  assumes "data \<noteq> 0" "unat data + 2 ^ 35 \<le> 2 ^ 64" and kvs: "set kvs = set (main_entries args data)"
    and t: "add_all (hash_table_base_add_entry text) kvs hash_table_base_create = Inr t"
  shows "table_ok text t" "text ` set (main_keys args data) \<subseteq> dom (view text t)"
proof -
  have k: "fst ` set kvs = set (main_keys args data)"
    using kvs main_entries_keys [of args data] by (metis set_map)
  then have "0 \<notin> fst ` set kvs" using valid_keys(1) [OF assms(1,2)] by simp
  from base.filled [OF this, of "text"] t have "table_ok text t" "view text t = inserted text kvs" by auto
  then show "table_ok text t" "text ` set (main_keys args data) \<subseteq> dom (view text t)"
    using inserted_dom [of "text" kvs] k by simp_all
qed

lemma base_filled:
  assumes "data \<noteq> 0" "unat data + 2 ^ 35 \<le> 2 ^ 64"
  shows "\<exists>t. add_all (hash_table_base_add_entry text) (main_entries args data) hash_table_base_create = Inr t \<and>
    count_missing (hash_table_base_contains text) t (main_keys args data) 0 = Inr 0"
proof -
  note keys = valid_keys(1) [OF assms, of args]
  obtain t where t: "add_all (hash_table_base_add_entry text) (main_entries args data) hash_table_base_create = Inr t"
    using base.filled [of "main_entries args data" "text"] keys main_entries_keys [of args data] by (metis set_map)
  then show ?thesis using all_inserted [OF assms refl t] base.none_missing [OF _ keys] by blast
qed

lemma threads_filled:
  assumes "data \<noteq> 0" "unat data + 2 ^ 35 \<le> 2 ^ 64"
    and step: "step = hash_table_v1_add_entry text \<or> step = hash_table_v2_add_entry text"
    and run: "exec step (unat (threads args)) (\<lambda>i. run_v1 args data (of_nat i)) n s"
      "finished_all (unat (threads args)) s"
  shows "length (c_table s) = HASH_TABLE_CAPACITY"
    "count_missing (hash_table_v1_contains text) (c_table s) (main_keys args data) 0 = Inr 0"
    "count_missing (hash_table_v2_contains text) (c_table s) (main_keys args data) 0 = Inr 0"
proof -
  let ?N = "unat (threads args)" and ?prog = "\<lambda>i. run_v1 args data (of_nat i)"
  note keys = valid_keys [OF assms(1,2), of args]
  have "\<forall>tid < ?N. 0 \<notin> fst ` set (?prog tid)" using keys(2) by blast
  from linearized [OF step run this] obtain log where log: "fst ` set log \<subseteq> {..<?N}"
    "\<forall>tid < ?N. map snd (filter (\<lambda>x. fst x = tid) log) = ?prog tid"
    "add_all (hash_table_base_add_entry text) (map snd log) hash_table_base_create = Inr (c_table s)" by blast
  have "set (map snd log) = set (main_entries args data)"
    using set_of_log [OF log(1,2)] main_entries_threads(1) by metis
  note F = all_inserted [OF assms(1,2) this log(3)]
  show "length (c_table s) = HASH_TABLE_CAPACITY" using F(1) by (simp add: table_ok_def)
  show "count_missing (hash_table_v1_contains text) (c_table s) (main_keys args data) 0 = Inr 0"
    by (rule v1.none_missing [OF F(1) keys(1) F(2)])
  show "count_missing (hash_table_v2_contains text) (c_table s) (main_keys args data) 0 = Inr 0"
    by (rule v2.none_missing [OF F(1) keys(1) F(2)])
qed

end
