(* ===== verification/PhtGen.thy ===== *)
theory PhtGen
  imports PhtTester
begin

text \<open>
  The strings of the hash table tester: the memory \<open>data\<close> that \<open>main\<close> allocates and the loops that fill
  it with random letters.  \<open>rand n\<close> is the result of the \<open>n\<close>th call of \<open>rand\<close>.  A store outside the
  allocated bytes stops the model with \<open>Pht_bounds\<close>.
\<close>

section \<open>The code\<close>

text \<open>\<open>calloc(arguments.threads * arguments.size, BYTES_PER_STRING)\<close>: the product is one of 32 bits.\<close>

definition allocated_strings :: "arguments \<Rightarrow> u8 list" where
  "allocated_strings args = replicate (unat (threads args * size_arg args) * BYTES_PER_STRING) 0"

definition store_char :: "u64 \<Rightarrow> u64 \<Rightarrow> u8 \<Rightarrow> u8 list \<Rightarrow> u8 list pht_result" where
  "store_char data p c area =
     (let off = unat (p - data) in if off < length area then Inr (area[off := c]) else Inl Pht_bounds)"

definition generate_char :: "(nat \<Rightarrow> int) \<Rightarrow> u64 \<Rightarrow> u64 \<Rightarrow> nat \<Rightarrow> u8 list \<times> nat \<Rightarrow> (u8 list \<times> nat) pht_result" where
  "generate_char rand data string k = (\<lambda>(area, n).
     and_then (store_char data (string + of_nat k) (letter (rand n)) area) (\<lambda>area. Inr (area, Suc n)))"

definition generate_string :: "(nat \<Rightarrow> int) \<Rightarrow> u64 \<Rightarrow> nat \<Rightarrow> u8 list \<times> nat \<Rightarrow> (u8 list \<times> nat) pht_result" where
  "generate_string rand data global_index st =
     (let string = get_string data global_index in
      and_then (for_each (generate_char rand data string) [0..<BYTES_PER_STRING - 1] st) (\<lambda>(area, n).
      and_then (store_char data (string + of_nat (BYTES_PER_STRING - 1)) 0 area) (\<lambda>area. Inr (area, n))))"

definition generate :: "arguments \<Rightarrow> (nat \<Rightarrow> int) \<Rightarrow> u64 \<Rightarrow> (u8 list \<times> nat) pht_result" where
  "generate args rand data =
     for_each (\<lambda>i. for_each (\<lambda>j.
         generate_string rand data (get_global_index args (of_nat i) (of_nat j)))
       [0..<unat (size_arg args)]) [0..<unat (threads args)] (allocated_strings args, 0)"

text \<open>What a pointer into \<open>data\<close> points to, as a string.\<close>

definition text_of :: "u64 \<Rightarrow> u8 list \<Rightarrow> u64 \<Rightarrow> u8 list" where
  "text_of data area p = takeWhile (\<lambda>c. c \<noteq> 0) (drop (unat (p - data)) area)"

section \<open>One string\<close>

abbreviation (input) filled :: "(nat \<Rightarrow> int) \<Rightarrow> nat \<Rightarrow> u8 list" where
  "filled rand n \<equiv> map (\<lambda>k. letter (rand (n + k))) [0..<7] @ [0]"

lemma string_offset:
  assumes "8 * g + k < 2 ^ 64"
  shows "unat (get_string data g + of_nat k - data) = 8 * g + k"
proof -
  have "get_string data g + of_nat k - data = of_nat (8 * g + k)"
    by (simp add: get_string_def BYTES_PER_STRING_def)
  then show ?thesis using assms by (simp only: unat_of_nat) simp
qed

lemma store_in:
  assumes "length pre = 8 * g + k" "8 * g + k < 2 ^ 64"
  shows "store_char data (get_string data g + of_nat k) c (pre @ x # post) = Inr (pre @ c # post)"
  unfolding store_char_def Let_def string_offset [OF assms(2)] using assms(1) by (simp add: list_update_append)

lemma generate_chars:
  assumes "length pre = 8 * g" "8 * g + m < 2 ^ 64" "m \<le> length old"
  shows "for_each (generate_char rand data (get_string data g)) [0..<m] (pre @ old @ post, n) =
    Inr (pre @ map (\<lambda>k. letter (rand (n + k))) [0..<m] @ drop m old @ post, n + m)"
  using assms
proof (induction m)
  case (Suc m)
  have "drop m old @ post = old ! m # drop (Suc m) old @ post" using Suc.prems by (simp add: Cons_nth_drop_Suc)
  moreover have "store_char data (get_string data g + of_nat m) (letter (rand (n + m)))
      ((pre @ map (\<lambda>k. letter (rand (n + k))) [0..<m]) @ old ! m # drop (Suc m) old @ post) =
      Inr ((pre @ map (\<lambda>k. letter (rand (n + k))) [0..<m]) @ letter (rand (n + m)) # drop (Suc m) old @ post)"
    by (rule store_in) (use Suc.prems in simp_all)
  ultimately show ?case using Suc by (simp add: for_each_append generate_char_def)
qed simp

lemma generate_string_in:
  assumes "length pre = 8 * g" "8 * g + 8 \<le> 2 ^ 64" "length old = 8"
  shows "generate_string rand data g (pre @ old @ post, n) = Inr (pre @ filled rand n @ post, n + 7)"
proof -
  have d: "drop 7 old = [old ! 7]"
    using assms(3) by (intro nth_equalityI) simp_all
  have "store_char data (get_string data g + of_nat 7) 0
      ((pre @ map (\<lambda>k. letter (rand (n + k))) [0..<7]) @ old ! 7 # post) =
      Inr ((pre @ map (\<lambda>k. letter (rand (n + k))) [0..<7]) @ 0 # post)"
    by (rule store_in) (use assms in simp_all)
  then show ?thesis
    using generate_chars [of pre g 7 old rand data post n] assms d
    by (simp add: generate_string_def BYTES_PER_STRING_def Let_def del: upt_rec_numeral)
qed

lemma generate_string_out:
  assumes "length area \<le> 8 * g" "8 * g + 8 \<le> 2 ^ 64"
  shows "generate_string rand data g (area, n) = Inl Pht_bounds"
proof -
  have "[0..<7] = 0 # [1..<7]" by (simp add: upt_conv_Cons)
  moreover have "generate_char rand data (get_string data g) 0 (area, n) = Inl Pht_bounds"
    using assms string_offset [of g 0 data] by (simp add: generate_char_def store_char_def Let_def)
  ultimately show ?thesis
    by (simp add: generate_string_def BYTES_PER_STRING_def Let_def del: upt_rec_numeral)
qed

section \<open>All strings\<close>

text \<open>Two nested loops are one loop over the positions.\<close>

lemma for_each_cong:
  "(\<And>i s. i \<in> set is \<Longrightarrow> f i s = g i s) \<Longrightarrow> for_each f is s = for_each g is s"
proof (induction "is" arbitrary: s)
  case (Cons i "is")
  have "for_each f is = for_each g is" by (rule ext, rule Cons.IH) (use Cons.prems in simp)
  then show ?case using Cons.prems by simp
qed simp

lemma for_each_map: "for_each f (map h is) s = for_each (\<lambda>i. f (h i)) is s"
proof (induction "is" arbitrary: s)
  case (Cons i "is")
  have "for_each f (map h is) = for_each (\<lambda>i. f (h i)) is" by (rule ext) (rule Cons.IH)
  then show ?case by simp
qed simp

lemma for_each_nested:
  "for_each (\<lambda>i. for_each (f i) [0..<b]) [0..<a] s = for_each (\<lambda>m. f (m div b) (m mod b)) [0..<a * b] s"
proof (induction a)
  case (Suc a)
  have "for_each (\<lambda>m. f (m div b) (m mod b)) [a * b..<a * b + b] u = for_each (f a) [0..<b] u" for u
  proof -
    have "[a * b..<a * b + b] = map (\<lambda>j. a * b + j) [0..<b]"
      using map_add_upt [of "a * b" b] by (simp add: add.commute)
    then have "for_each (\<lambda>m. f (m div b) (m mod b)) [a * b..<a * b + b] u =
        for_each (\<lambda>j. f ((a * b + j) div b) ((a * b + j) mod b)) [0..<b] u" by (simp add: for_each_map)
    also have "\<dots> = for_each (f a) [0..<b] u" by (rule for_each_cong) simp
    finally show ?thesis .
  qed
  then have last: "for_each (\<lambda>m. f (m div b) (m mod b)) [a * b..<a * b + b] = for_each (f a) [0..<b]"
    by (rule ext)
  have "[0..<Suc a * b] = [0..<a * b] @ [a * b..<a * b + b]"
    using upt_add_eq_append [of 0 "a * b" b] by (simp add: add.commute)
  then show ?case using Suc last by (simp add: for_each_append)
qed simp

lemma global_index_nested:
  "get_global_index args (of_nat (m div unat (size_arg args))) (of_nat (m mod unat (size_arg args))) = m mod 2 ^ 32"
proof -
  let ?b = "unat (size_arg args)"
  have s: "size_arg args = of_nat ?b" by simp
  have "of_nat (m div ?b) * size_arg args + of_nat (m mod ?b) = (of_nat (m div ?b * ?b + m mod ?b) :: u32)"
    by (subst (2) s) (simp only: of_nat_add of_nat_mult)
  then show ?thesis unfolding get_global_index_def by (simp add: unat_of_nat)
qed

lemma generate_positions:
  "generate args rand data = for_each (\<lambda>m. generate_string rand data (m mod 2 ^ 32))
     [0..<unat (threads args) * unat (size_arg args)] (allocated_strings args, 0)"
  unfolding generate_def for_each_nested [of "\<lambda>i j. generate_string rand data (get_global_index args (of_nat i) (of_nat j))"]
  by (simp only: global_index_nested)

lemma generate_prefix:
  assumes "m \<le> N" "N < 2 ^ 32"
  shows "for_each (\<lambda>m. generate_string rand data (m mod 2 ^ 32)) [0..<m] (replicate (N * 8) 0, 0) =
    Inr (concat (map (\<lambda>g. filled rand (7 * g)) [0..<m]) @ replicate ((N - m) * 8) 0, 7 * m)"
  using assms(1)
proof (induction m)
  case (Suc m)
  let ?pre = "concat (map (\<lambda>g. filled rand (7 * g)) [0..<m])"
  have len: "length ?pre = 8 * m" by (induction m) simp_all
  have "(N - m) * 8 = 8 + (N - Suc m) * 8" using Suc.prems by (simp add: Suc_diff_Suc flip: mult_Suc)
  then have rep: "replicate ((N - m) * 8) (0 :: u8) = replicate 8 0 @ replicate ((N - Suc m) * 8) 0"
    by (simp only: replicate_add)
  have "generate_string rand data m (?pre @ replicate 8 0 @ replicate ((N - Suc m) * 8) 0, 7 * m) =
      Inr (?pre @ filled rand (7 * m) @ replicate ((N - Suc m) * 8) 0, 7 * m + 7)"
    by (rule generate_string_in [OF len]) (use Suc.prems assms(2) in simp_all)
  moreover have "m mod 2 ^ 32 = m" using Suc.prems assms(2) by simp
  ultimately show ?case using Suc by (simp add: for_each_append rep)
qed simp

lemma letter_code: "uint (letter n) = (if n mod 52 < 26 then n mod 52 + 65 else n mod 52 + 71)"
proof -
  have r: "0 \<le> n mod 52" "n mod 52 < 52" by simp_all
  have small: "uint (word_of_int x :: u8) = x" if "0 \<le> x" "x < 256" for x
    using that by (simp add: uint_word_of_int)
  show ?thesis
  proof (cases "n mod 52 < 26")
    case True
    then have "letter n = word_of_int (n mod 52 + 65)" unfolding letter_def Let_def by (simp only: if_True)
    then show ?thesis using small [of "n mod 52 + 65"] r True by (simp only: if_True)
  next
    case False
    then have "letter n = word_of_int (n mod 52 + 71)" unfolding letter_def Let_def by (simp only: if_False)
    then show ?thesis using small [of "n mod 52 + 71"] r False by (simp only: if_False)
  qed
qed

lemma letter_ascii: "uint (letter n) \<in> {65..90} \<union> {97..122}"
proof -
  have "0 \<le> n mod 52" "n mod 52 < 52" by simp_all
  then show ?thesis unfolding letter_code by auto
qed

lemma letter_nonzero: "letter n \<noteq> 0"
  using letter_ascii [of n] by auto

lemma filled_text:
  assumes "g < m" "m < 2 ^ 32"
  shows "text_of data (concat (map (\<lambda>g. filled rand (7 * g)) [0..<m])) (get_string data g) = generated rand g"
proof -
  let ?s = "\<lambda>g. filled rand (7 * g)"
  have "[0..<m] = [0..<g] @ g # [Suc g..<m]"
    using assms(1) upt_add_eq_append [of 0 g "m - g"] by (simp add: upt_conv_Cons)
  then have "concat (map ?s [0..<m]) = concat (map ?s [0..<g]) @ ?s g @ concat (map ?s [Suc g..<m])" by simp
  moreover have "length (concat (map ?s [0..<g])) = 8 * g" by (induction g) simp_all
  ultimately have "drop (8 * g) (concat (map ?s [0..<m])) = ?s g @ concat (map ?s [Suc g..<m])" by simp
  moreover have "unat (get_string data g - data) = 8 * g" using string_offset [of g 0 data] assms by simp
  moreover have "takeWhile (\<lambda>c. c \<noteq> 0) (?s g @ concat (map ?s [Suc g..<m])) =
      map (\<lambda>k. letter (rand (7 * g + k))) [0..<7]"
    using letter_nonzero by (subst append_assoc, subst takeWhile_append2) auto
  ultimately show ?thesis
    by (simp add: text_of_def generated_def BYTES_PER_STRING_def mult.commute)
qed

lemma unat_allocated:
  "unat (threads args * size_arg args) = unat (threads args) * unat (size_arg args) mod 2 ^ 32"
  by (simp add: unat_word_ariths)

lemma generate_ok:
  assumes "unat (threads args) * unat (size_arg args) < 2 ^ 32"
  obtains area where "generate args rand data = Inr (area, 7 * (unat (threads args) * unat (size_arg args)))"
    "\<And>g. g < unat (threads args) * unat (size_arg args) \<Longrightarrow> text_of data area (get_string data g) = generated rand g"
proof -
  let ?n = "unat (threads args) * unat (size_arg args)"
  have "generate args rand data = Inr (concat (map (\<lambda>g. filled rand (7 * g)) [0..<?n]), 7 * ?n)"
    using generate_prefix [of ?n ?n rand data] assms
    by (simp add: generate_positions allocated_strings_def unat_allocated BYTES_PER_STRING_def)
  then show thesis using that filled_text [OF _ assms] by blast
qed

lemma generate_overflow:
  assumes "2 ^ 32 \<le> unat (threads args) * unat (size_arg args)"
  shows "generate args rand data = Inl Pht_bounds"
proof -
  let ?n = "unat (threads args) * unat (size_arg args)" let ?N = "?n mod 2 ^ 32"
  have N: "?N < 2 ^ 32" by simp
  then have N: "?N < 2 ^ 32" "?N < ?n" using assms by linarith+
  have split: "[0..<?n] = [0..<?N] @ ?N # [Suc ?N..<?n]"
    using N(2) upt_add_eq_append [of 0 ?N "?n - ?N"] by (simp add: upt_conv_Cons)
  have len: "length (concat (map (\<lambda>g. filled rand (7 * g)) [0..<m])) = 8 * m" for m by (induction m) simp_all
  have "generate_string rand data ?N (concat (map (\<lambda>g. filled rand (7 * g)) [0..<?N]), 7 * ?N) = Inl Pht_bounds"
    by (rule generate_string_out) (use len N in simp_all)
  then show ?thesis
    using generate_prefix [of ?N ?N rand data] N(1)
    by (simp add: generate_positions split for_each_append allocated_strings_def unat_allocated BYTES_PER_STRING_def)
qed

text \<open>
  C33: The strings fit into the memory allocated for them exactly when there are fewer than \<open>2\<^sup>3\<^sup>2\<close>:
  then every string is the seven letters of seven successive calls of \<open>rand\<close>, all letters being
  ASCII letters.  Otherwise the product given to \<open>calloc\<close> wraps, and the loops write past the end.
\<close>

theorem generated_in_bounds:
  "if unat (threads args) * unat (size_arg args) < 2 ^ 32
   then \<exists>area. generate args rand data = Inr (area, 7 * (unat (threads args) * unat (size_arg args))) \<and>
     (\<forall>g < unat (threads args) * unat (size_arg args).
        text_of data area (get_string data g) = map (\<lambda>k. letter (rand (7 * g + k))) [0..<7]) \<and>
     (\<forall>n. uint (letter n) \<in> {65..90} \<union> {97..122})
   else generate args rand data = Inl Pht_bounds"
proof -
  let ?n = "unat (threads args) * unat (size_arg args)"
  show ?thesis
  proof (cases "?n < 2 ^ 32")
    case True
    obtain area where "generate args rand data = Inr (area, 7 * ?n)"
      "\<And>g. g < ?n \<Longrightarrow> text_of data area (get_string data g) = generated rand g"
      by (rule generate_ok [OF True, of rand data]) (rule that)
    then show ?thesis
      unfolding if_P [OF True] generated_def BYTES_PER_STRING_def using letter_ascii
      by (intro exI [of _ area]) (simp add: mult.commute [of _ 7])
  next
    case False
    then show ?thesis using generate_overflow [of args rand data] by simp
  qed
qed

theorem generated_in_bounds_witness:
  "\<exists>area. generate \<lparr>threads = 2, size_arg = 3\<rparr> int 4096 = Inr (area, 42) \<and>
     text_of 4096 area (get_string 4096 5) = map (\<lambda>k. letter (int (35 + k))) [0..<7]"
proof -
  let ?args = "\<lparr>threads = 2, size_arg = 3\<rparr> :: arguments"
  have n: "unat (threads ?args) * unat (size_arg ?args) = 6" and small: "(6::nat) < 2 ^ 32"
    by simp_all
  note claim = generated_in_bounds [of ?args int 4096, unfolded n]
  obtain area where area: "generate ?args int 4096 = Inr (area, 7 * 6)"
    "\<forall>g < 6. text_of 4096 area (get_string 4096 g) = map (\<lambda>k. letter (int (7 * g + k))) [0..<7]"
    using claim unfolding if_P [OF small] by blast
  have "text_of 4096 area (get_string 4096 5) = map (\<lambda>k. letter (int (7 * 5 + k))) [0..<7]"
    by (rule area(2) [rule_format]) simp
  with area(1) show ?thesis by (intro exI [of _ area]) simp
qed

end
