(* ===== verification/PhtLife.thy ===== *)
theory PhtLife
  imports Pht "HOL-Library.Multiset"
begin

text \<open>
  Creation and destruction of the two tables with mutexes, \<^verbatim>\<open>hash-table-v1.c\<close> and
  \<^verbatim>\<open>hash-table-v2.c\<close>.  The calls \<open>pthread_mutex_init\<close> and \<open>pthread_mutex_destroy\<close> may fail:
  \<open>mutex_call n\<close> is the result of the \<open>n\<close>th of them.  A mutex is named by its entry, 0 for the one of
  \<open>hash_table_v1\<close>; \<open>l_mutexes\<close> lists those initialised and \<open>l_destroyed\<close> those destroyed, in the order
  of the calls, so that a mutex destroyed twice occurs twice.  \<open>calloc\<close> does not fail.
\<close>

record life =
  l_calls :: nat
  l_mutexes :: "nat list"
  l_destroyed :: "nat list"
  l_freed :: "list_entry list"
  l_table_freed :: bool

definition born :: life where
  "born = \<lparr>l_calls = 0, l_mutexes = [], l_destroyed = [], l_freed = [], l_table_freed = False\<rparr>"

definition PHT_EXIT_FAILURE :: int where "PHT_EXIT_FAILURE = 1"

definition mutex_init :: "(nat \<Rightarrow> int) \<Rightarrow> nat \<Rightarrow> life \<Rightarrow> life pht_result" where
  "mutex_init mutex_call m s = (if mutex_call (l_calls s) \<noteq> 0 then Inl (Pht_exit PHT_EXIT_FAILURE)
     else Inr (s\<lparr>l_calls := Suc (l_calls s), l_mutexes := l_mutexes s @ [m]\<rparr>))"

definition mutex_destroy :: "(nat \<Rightarrow> int) \<Rightarrow> nat \<Rightarrow> life \<Rightarrow> life pht_result" where
  "mutex_destroy mutex_call m s = (if mutex_call (l_calls s) \<noteq> 0 then Inl (Pht_exit PHT_EXIT_FAILURE)
     else Inr (s\<lparr>l_calls := Suc (l_calls s), l_destroyed := l_destroyed s @ [m]\<rparr>))"

text \<open>\<open>calloc\<close> zeroes the entries and \<open>SLIST_INIT\<close> empties every list.\<close>

definition hash_table_v1_create :: "(nat \<Rightarrow> int) \<Rightarrow> life \<Rightarrow> (hash_table \<times> life) pht_result" where
  "hash_table_v1_create mutex_call s =
    (let t = fold (\<lambda>i t. t[i := []]) [0..<HASH_TABLE_CAPACITY] (replicate HASH_TABLE_CAPACITY [])
     in and_then (mutex_init mutex_call 0 s) (\<lambda>s. Inr (t, s)))"

definition v2_create_entry :: "(nat \<Rightarrow> int) \<Rightarrow> nat \<Rightarrow> hash_table \<times> life \<Rightarrow> (hash_table \<times> life) pht_result" where
  "v2_create_entry mutex_call i = (\<lambda>(t, s).
    let t = t[i := []] in and_then (mutex_init mutex_call i s) (\<lambda>s. Inr (t, s)))"

definition hash_table_v2_create :: "(nat \<Rightarrow> int) \<Rightarrow> life \<Rightarrow> (hash_table \<times> life) pht_result" where
  "hash_table_v2_create mutex_call s =
    for_each (v2_create_entry mutex_call) [0..<HASH_TABLE_CAPACITY] (replicate HASH_TABLE_CAPACITY [], s)"

text \<open>The inner loop takes the head off the list and frees it until the list is empty.\<close>

fun drain :: "nat \<Rightarrow> list_entry list \<Rightarrow> hash_table \<Rightarrow> life \<Rightarrow> hash_table \<times> life" where
  "drain i [] t s = (t[i := []], s)"
| "drain i (e # es) t s = drain i es (t[i := es]) (s\<lparr>l_freed := l_freed s @ [e]\<rparr>)"

definition hash_table_v1_destroy :: "(nat \<Rightarrow> int) \<Rightarrow> hash_table \<Rightarrow> life \<Rightarrow> life pht_result" where
  "hash_table_v1_destroy mutex_call t s =
    (let (t, s) = fold (\<lambda>i (t, s). drain i (t ! i) t s) [0..<HASH_TABLE_CAPACITY] (t, s)
     in and_then (mutex_destroy mutex_call 0 s) (\<lambda>s. Inr (s\<lparr>l_table_freed := True\<rparr>)))"

definition v2_destroy_entry :: "(nat \<Rightarrow> int) \<Rightarrow> nat \<Rightarrow> hash_table \<times> life \<Rightarrow> (hash_table \<times> life) pht_result" where
  "v2_destroy_entry mutex_call i = (\<lambda>(t, s).
    let (t, s) = drain i (t ! i) t s in and_then (mutex_destroy mutex_call i s) (\<lambda>s. Inr (t, s)))"

definition hash_table_v2_destroy :: "(nat \<Rightarrow> int) \<Rightarrow> hash_table \<Rightarrow> life \<Rightarrow> life pht_result" where
  "hash_table_v2_destroy mutex_call t s =
    and_then (for_each (v2_destroy_entry mutex_call) [0..<HASH_TABLE_CAPACITY] (t, s))
      (\<lambda>(t, s). Inr (s\<lparr>l_table_freed := True\<rparr>))"

section \<open>Nothing is leaked\<close>

lemma drain_eq: "drain i es t s = (t[i := []], s\<lparr>l_freed := l_freed s @ es\<rparr>)"
  by (induction es arbitrary: t s) simp_all

lemma replicate_update: "(replicate m x)[n := x] = replicate m x"
  by (cases "n < m") (simp_all add: list_update_same_conv list_update_beyond not_less)

lemma clear_buckets:
  "fold (\<lambda>i t. t[i := []]) [0..<n] (replicate m ([] :: list_entry list)) = replicate m []"
  by (induction n) (simp_all add: replicate_update)

lemma v2_create_entry:
  "v2_create_entry mutex_call i (t, s) = (if mutex_call (l_calls s) \<noteq> 0 then Inl (Pht_exit PHT_EXIT_FAILURE)
     else Inr (t[i := []], s\<lparr>l_calls := Suc (l_calls s), l_mutexes := l_mutexes s @ [i]\<rparr>))"
  by (simp add: v2_create_entry_def mutex_init_def Let_def)

lemma v2_create_rounds:
  assumes "\<forall>k < n. mutex_call (l_calls s + k) = 0"
  shows "for_each (v2_create_entry mutex_call) [0..<n] (replicate m [], s) =
    Inr (replicate m [], s\<lparr>l_calls := l_calls s + n, l_mutexes := l_mutexes s @ [0..<n]\<rparr>)"
  using assms
  by (induction n) (simp_all add: for_each_append v2_create_entry replicate_update)

lemma v2_create_fails:
  assumes "k < n" "\<forall>j < k. mutex_call (l_calls s + j) = 0" "mutex_call (l_calls s + k) \<noteq> 0"
  shows "for_each (v2_create_entry mutex_call) [0..<n] (replicate m [], s) = Inl (Pht_exit PHT_EXIT_FAILURE)"
proof -
  have "[0..<n] = [0..<k] @ k # [Suc k..<n]"
    using assms(1) upt_add_eq_append [of 0 k "n - k"] by (simp add: upt_conv_Cons)
  then show ?thesis
    using v2_create_rounds [OF assms(2), of m] assms(3) by (simp add: for_each_append v2_create_entry)
qed

lemma drained_bucket:
  assumes "n < length t"
  shows "drop n t = t ! n # drop (Suc n) t"
    "(replicate n [] @ t ! n # drop (Suc n) t)[n := []] = replicate (Suc n) [] @ drop (Suc n) t"
    "(replicate n [] @ t ! n # drop (Suc n) t) ! n = t ! n"
proof -
  show "drop n t = t ! n # drop (Suc n) t" using assms by (simp add: Cons_nth_drop_Suc)
  show "(replicate n [] @ t ! n # drop (Suc n) t)[n := []] = replicate (Suc n) [] @ drop (Suc n) t"
    by (simp add: list_update_append replicate_app_Cons_same)
  show "(replicate n [] @ t ! n # drop (Suc n) t) ! n = t ! n" by (simp add: nth_append)
qed

lemma drain_rounds:
  assumes "n \<le> length t"
  shows "fold (\<lambda>i (t, s). drain i (t ! i) t s) [0..<n] (t, s) =
    (replicate n [] @ drop n t, s\<lparr>l_freed := l_freed s @ concat (take n t)\<rparr>)"
  using assms
proof (induction n)
  case (Suc n)
  then have "n < length t" by simp
  note d = drained_bucket [OF this]
  show ?case
    using Suc by (simp add: drain_eq d take_Suc_conv_app_nth del: replicate.simps)
qed simp

lemma v2_destroy_entry:
  "v2_destroy_entry mutex_call i (t, s) = (if mutex_call (l_calls s) \<noteq> 0 then Inl (Pht_exit PHT_EXIT_FAILURE)
     else Inr (t[i := []], s\<lparr>l_calls := Suc (l_calls s), l_freed := l_freed s @ t ! i,
       l_destroyed := l_destroyed s @ [i]\<rparr>))"
  by (simp add: v2_destroy_entry_def mutex_destroy_def drain_eq)

lemma v2_destroy_rounds:
  assumes "n \<le> length t" "\<forall>k < n. mutex_call (l_calls s + k) = 0"
  shows "for_each (v2_destroy_entry mutex_call) [0..<n] (t, s) =
    Inr (replicate n [] @ drop n t, s\<lparr>l_calls := l_calls s + n, l_freed := l_freed s @ concat (take n t),
      l_destroyed := l_destroyed s @ [0..<n]\<rparr>)"
  using assms
proof (induction n)
  case (Suc n)
  then have "n < length t" by simp
  note d = drained_bucket [OF this]
  show ?case
    using Suc
    by (simp add: for_each_append v2_destroy_entry d take_Suc_conv_app_nth del: replicate.simps)
qed simp

lemma v2_destroy_fails:
  assumes "k < n" "n \<le> length t" "\<forall>j < k. mutex_call (l_calls s + j) = 0" "mutex_call (l_calls s + k) \<noteq> 0"
  shows "for_each (v2_destroy_entry mutex_call) [0..<n] (t, s) = Inl (Pht_exit PHT_EXIT_FAILURE)"
proof -
  have "[0..<n] = [0..<k] @ k # [Suc k..<n]"
    using assms(1) upt_add_eq_append [of 0 k "n - k"] by (simp add: upt_conv_Cons)
  then show ?thesis
    using v2_destroy_rounds [OF _ assms(3), of t] assms(1,2,4) by (simp add: for_each_append v2_destroy_entry)
qed

text \<open>Without a failing call each table is created empty, and destroyed without leaving anything behind.\<close>

lemma v1_life:
  assumes "\<forall>n. mutex_call n = 0" "length t = HASH_TABLE_CAPACITY"
  shows "\<exists>s1. hash_table_v1_create mutex_call born = Inr (hash_table_base_create, s1) \<and> l_mutexes s1 = [0] \<and>
    (\<exists>s. hash_table_v1_destroy mutex_call t s1 = Inr s \<and> mset (l_freed s) = mset (concat t) \<and>
       l_mutexes s = [0] \<and> l_destroyed s = [0] \<and> l_table_freed s)"
proof (rule exI [of _ "born\<lparr>l_calls := 1, l_mutexes := [0]\<rparr>"], intro conjI)
  show "hash_table_v1_create mutex_call born =
      Inr (hash_table_base_create, born\<lparr>l_calls := 1, l_mutexes := [0]\<rparr>)"
    using assms(1) by (simp add: hash_table_v1_create_def clear_buckets mutex_init_def hash_table_base_create_def born_def)
  show "\<exists>s. hash_table_v1_destroy mutex_call t (born\<lparr>l_calls := 1, l_mutexes := [0]\<rparr>) = Inr s \<and>
      mset (l_freed s) = mset (concat t) \<and> l_mutexes s = [0] \<and> l_destroyed s = [0] \<and> l_table_freed s"
    using assms by (simp add: hash_table_v1_destroy_def drain_rounds [of _ t] mutex_destroy_def born_def)
qed simp

lemma v2_life:
  assumes "\<forall>n. mutex_call n = 0" "length t = HASH_TABLE_CAPACITY"
  shows "\<exists>s2. hash_table_v2_create mutex_call born = Inr (hash_table_base_create, s2) \<and>
    l_mutexes s2 = [0..<HASH_TABLE_CAPACITY] \<and>
    (\<exists>s. hash_table_v2_destroy mutex_call t s2 = Inr s \<and> mset (l_freed s) = mset (concat t) \<and>
       l_mutexes s = [0..<HASH_TABLE_CAPACITY] \<and> l_destroyed s = [0..<HASH_TABLE_CAPACITY] \<and> l_table_freed s)"
proof -
  let ?n = HASH_TABLE_CAPACITY let ?s2 = "born\<lparr>l_calls := ?n, l_mutexes := [0..<?n]\<rparr>"
  have "hash_table_v2_create mutex_call born = Inr (hash_table_base_create, ?s2)"
    using assms(1) v2_create_rounds [of ?n mutex_call born ?n]
    by (simp add: hash_table_v2_create_def hash_table_base_create_def born_def)
  moreover have "\<exists>s. hash_table_v2_destroy mutex_call t ?s2 = Inr s \<and> mset (l_freed s) = mset (concat t) \<and>
      l_mutexes s = [0..<?n] \<and> l_destroyed s = [0..<?n] \<and> l_table_freed s"
    using assms by (simp add: hash_table_v2_destroy_def v2_destroy_rounds [of ?n t] born_def)
  ultimately show ?thesis by auto
qed

lemma mutex_call_fails:
  assumes "k < HASH_TABLE_CAPACITY" "\<forall>j < k. mutex_call (l_calls s + j) = 0" "mutex_call (l_calls s + k) \<noteq> 0"
  shows "hash_table_v2_create mutex_call s = Inl (Pht_exit 1)"
    and "length t = HASH_TABLE_CAPACITY \<Longrightarrow> hash_table_v2_destroy mutex_call t s = Inl (Pht_exit 1)"
    and "k = 0 \<Longrightarrow> hash_table_v1_create mutex_call s = Inl (Pht_exit 1)"
    and "k = 0 \<Longrightarrow> length t = HASH_TABLE_CAPACITY \<Longrightarrow> hash_table_v1_destroy mutex_call t s = Inl (Pht_exit 1)"
  using v2_create_fails [of k HASH_TABLE_CAPACITY mutex_call s]
    v2_destroy_fails [of k HASH_TABLE_CAPACITY t mutex_call s] assms
  by (simp_all add: hash_table_v2_create_def hash_table_v1_create_def mutex_init_def mutex_destroy_def
      hash_table_v1_destroy_def hash_table_v2_destroy_def drain_rounds PHT_EXIT_FAILURE_def)

text \<open>
  C39: The life of the tables with mutexes. When no mutex call fails, creating either table gives an
  empty one with its mutexes initialised, one for the table or one per entry; destroying it after any
  insertions frees every entry once and the table, and destroys each of its mutexes exactly once.
  From any state, the first mutex call of either creation or of either destruction to fail ends the
  process with \<open>EXIT_FAILURE\<close>: the only call of the first table, or the \<open>k\<close>th of the second.
\<close>

theorem hash_table_lifecycle:
  assumes "length t = HASH_TABLE_CAPACITY"
  shows "((\<forall>n. mutex_call n = 0) \<longrightarrow>
      (\<exists>s1. hash_table_v1_create mutex_call born = Inr (hash_table_base_create, s1) \<and> l_mutexes s1 = [0] \<and>
        (\<exists>s. hash_table_v1_destroy mutex_call t s1 = Inr s \<and> mset (l_freed s) = mset (concat t) \<and>
           l_mutexes s = [0] \<and> l_destroyed s = [0] \<and> l_table_freed s)) \<and>
      (\<exists>s2. hash_table_v2_create mutex_call born = Inr (hash_table_base_create, s2) \<and>
        l_mutexes s2 = [0..<HASH_TABLE_CAPACITY] \<and>
        (\<exists>s. hash_table_v2_destroy mutex_call t s2 = Inr s \<and> mset (l_freed s) = mset (concat t) \<and>
           l_mutexes s = [0..<HASH_TABLE_CAPACITY] \<and> l_destroyed s = [0..<HASH_TABLE_CAPACITY] \<and>
           l_table_freed s))) \<and>
    (\<forall>s. \<forall>k < HASH_TABLE_CAPACITY.
      (\<forall>j < k. mutex_call (l_calls s + j) = 0) \<and> mutex_call (l_calls s + k) \<noteq> 0 \<longrightarrow>
      hash_table_v2_create mutex_call s = Inl (Pht_exit 1) \<and>
      hash_table_v2_destroy mutex_call t s = Inl (Pht_exit 1) \<and>
      (k = 0 \<longrightarrow> hash_table_v1_create mutex_call s = Inl (Pht_exit 1) \<and>
         hash_table_v1_destroy mutex_call t s = Inl (Pht_exit 1)))"
  using v1_life [OF _ assms] v2_life [OF _ assms] mutex_call_fails assms by blast

theorem hash_table_lifecycle_witness:
  "(\<exists>s2. hash_table_v2_create (\<lambda>_. 0) born = Inr (hash_table_base_create, s2) \<and>
     (\<exists>s. hash_table_v2_destroy (\<lambda>_. 0) hash_table_base_create s2 = Inr s \<and>
        l_destroyed s = [0..<HASH_TABLE_CAPACITY])) \<and>
   hash_table_v2_destroy (\<lambda>n. if n = 7 then 16 else 0) hash_table_base_create born = Inl (Pht_exit 1)"
proof
  have t: "length hash_table_base_create = HASH_TABLE_CAPACITY" by (simp add: hash_table_base_create_def)
  show "\<exists>s2. hash_table_v2_create (\<lambda>_. 0) born = Inr (hash_table_base_create, s2) \<and>
     (\<exists>s. hash_table_v2_destroy (\<lambda>_. 0) hash_table_base_create s2 = Inr s \<and>
        l_destroyed s = [0..<HASH_TABLE_CAPACITY])"
    using hash_table_lifecycle [OF t, of "\<lambda>_. 0"] by auto
  have "7 < HASH_TABLE_CAPACITY" by (simp add: HASH_TABLE_CAPACITY_def)
  then show "hash_table_v2_destroy (\<lambda>n. if n = 7 then 16 else 0) hash_table_base_create born = Inl (Pht_exit 1)"
    using hash_table_lifecycle [OF t, of "\<lambda>n. if n = 7 then 16 else 0"] by (auto simp: born_def)
qed

end
