(* ===== verification/PhtMain.thy ===== *)
theory PhtMain
  imports PhtGen PhtLife
begin

text \<open>
  \<open>main\<close> of the hash table tester from its arguments to its exit status, with what it prints apart
  from the timings.  Parameters: \<open>opts\<close>, the options \<open>argp\<close> hands to \<open>parse_opt\<close>; \<open>data\<close>, the memory
  \<open>calloc\<close> returns; the results of the mutex calls, of \<open>pthread_create\<close> and of \<open>pthread_join\<close>, each
  numbered in the order of the calls; and \<open>after_v1\<close>, \<open>after_v2\<close>, what the threads make of the table
  they are given.
\<close>

section \<open>The code\<close>

fun parse_args :: "(u8 \<times> u8 list) list \<Rightarrow> arguments \<Rightarrow> arguments pht_result" where
  "parse_args [] args = Inr args"
| "parse_args ((key, arg) # opts) args = and_then (parse_opt key arg args) (parse_args opts)"

datatype report = Missing nat | Create_returned int | Join_returned int

text \<open>The loop over \<open>pthread_create\<close> and the loop over \<open>pthread_join\<close>: the report of the first failure.\<close>

definition run_threads :: "(nat \<Rightarrow> int) \<Rightarrow> (nat \<Rightarrow> int) \<Rightarrow> nat \<Rightarrow> nat \<Rightarrow> (int \<times> report) option" where
  "run_threads create join start n =
     (case find (\<lambda>err. err \<noteq> 0) (map create [start..<start + n]) of
        Some err \<Rightarrow> Some (err, Create_returned err)
      | None \<Rightarrow> map_option (\<lambda>err. (err, Join_returned err)) (find (\<lambda>err. err \<noteq> 0) (map join [start..<start + n])))"

definition main_base :: "(u64 \<Rightarrow> u8 list) \<Rightarrow> arguments \<Rightarrow> u64 \<Rightarrow> (nat \<times> list_entry list) pht_result" where
  "main_base text args data =
     and_then (add_all (hash_table_base_add_entry text) (main_entries args data) hash_table_base_create) (\<lambda>t.
     and_then (count_missing (hash_table_base_contains text) t (main_keys args data) 0) (\<lambda>missing.
     Inr (missing, hash_table_base_destroy t)))"

definition main_v1 ::
  "(u64 \<Rightarrow> u8 list) \<Rightarrow> arguments \<Rightarrow> u64 \<Rightarrow> (nat \<Rightarrow> int) \<Rightarrow> (int \<times> report) option \<Rightarrow>
     (hash_table \<Rightarrow> hash_table) \<Rightarrow> life \<Rightarrow> ((int \<times> report) + nat \<times> life) pht_result" where
  "main_v1 text args data mutex_call failure after life =
     and_then (hash_table_v1_create mutex_call life) (\<lambda>(t, life).
     case failure of Some f \<Rightarrow> Inr (Inl f)
     | None \<Rightarrow>
       let t = after t in
       and_then (count_missing (hash_table_v1_contains text) t (main_keys args data) 0) (\<lambda>missing.
       and_then (hash_table_v1_destroy mutex_call t life) (\<lambda>life. Inr (Inr (missing, life)))))"

definition main_v2 ::
  "(u64 \<Rightarrow> u8 list) \<Rightarrow> arguments \<Rightarrow> u64 \<Rightarrow> (nat \<Rightarrow> int) \<Rightarrow> (int \<times> report) option \<Rightarrow>
     (hash_table \<Rightarrow> hash_table) \<Rightarrow> life \<Rightarrow> ((int \<times> report) + nat \<times> life) pht_result" where
  "main_v2 text args data mutex_call failure after life =
     and_then (hash_table_v2_create mutex_call life) (\<lambda>(t, life).
     case failure of Some f \<Rightarrow> Inr (Inl f)
     | None \<Rightarrow>
       let t = after t in
       and_then (count_missing (hash_table_v2_contains text) t (main_keys args data) 0) (\<lambda>missing.
       and_then (hash_table_v2_destroy mutex_call t life) (\<lambda>life. Inr (Inr (missing, life)))))"

definition tester_main ::
  "(u8 \<times> u8 list) list \<Rightarrow> u64 \<Rightarrow> (nat \<Rightarrow> int) \<Rightarrow> (nat \<Rightarrow> int) \<Rightarrow> (nat \<Rightarrow> int) \<Rightarrow> (nat \<Rightarrow> int) \<Rightarrow>
     (hash_table \<Rightarrow> hash_table) \<Rightarrow> (hash_table \<Rightarrow> hash_table) \<Rightarrow> (int \<times> report list) pht_result" where
  "tester_main opts data rand mutex_call create join after_v1 after_v2 =
     and_then (parse_args opts arguments0) (\<lambda>args.
     and_then (generate args rand data) (\<lambda>(area, _).
     let text = text_of data area; n = unat (threads args) in
     and_then (main_base text args data) (\<lambda>(m0, _).
     and_then (main_v1 text args data mutex_call (run_threads create join 0 n) after_v1 born) (\<lambda>r1.
     case r1 of Inl (err, report) \<Rightarrow> Inr (err, [Missing m0, report])
     | Inr (m1, life) \<Rightarrow>
       and_then (main_v2 text args data mutex_call (run_threads create join n n) after_v2 life) (\<lambda>r2.
       case r2 of Inl (err, report) \<Rightarrow> Inr (err, [Missing m0, Missing m1, report])
       | Inr (m2, _) \<Rightarrow> Inr (0, [Missing m0, Missing m1, Missing m2]))))))"

section \<open>Its parts\<close>

lemma find_none: "(\<forall>k. i \<le> k \<and> k < i + n \<longrightarrow> call k = 0) \<Longrightarrow> find (\<lambda>err. err \<noteq> 0) (map call [i..<i + n]) = None"
  by (simp add: find_None_iff)

lemma find_first:
  fixes call :: "nat \<Rightarrow> int"
  assumes "i \<le> k" "k < i + n" "\<forall>j. i \<le> j \<and> j < k \<longrightarrow> call j = 0" "call k \<noteq> 0"
  shows "find (\<lambda>err. err \<noteq> 0) (map call [i..<i + n]) = Some (call k)"
  unfolding find_Some_iff using assms by (intro exI [of _ "k - i"]) auto

lemma run_threads_ok:
  assumes "\<forall>k. i \<le> k \<and> k < i + n \<longrightarrow> create k = 0 \<and> join k = 0"
  shows "run_threads create join i n = None"
  using find_none [of i n create] find_none [of i n join] assms by (simp add: run_threads_def)

lemma run_threads_create:
  assumes "i \<le> k" "k < i + n" "\<forall>j. i \<le> j \<and> j < k \<longrightarrow> create j = 0" "create k \<noteq> 0"
  shows "run_threads create join i n = Some (create k, Create_returned (create k))"
  using find_first [OF assms] by (simp add: run_threads_def)

lemma run_threads_join:
  assumes "\<forall>k. i \<le> k \<and> k < i + n \<longrightarrow> create k = 0"
    and "i \<le> k" "k < i + n" "\<forall>j. i \<le> j \<and> j < k \<longrightarrow> join j = 0" "join k \<noteq> 0"
  shows "run_threads create join i n = Some (join k, Join_returned (join k))"
  using find_none [OF assms(1)] find_first [OF assms(2-5)] by (simp add: run_threads_def)

lemma create_calls:
  assumes "\<forall>k. mutex_call k = 0"
  shows "\<exists>life'. hash_table_v1_create mutex_call life = Inr (hash_table_base_create, life')"
    "\<exists>life'. hash_table_v2_create mutex_call life = Inr (hash_table_base_create, life')"
proof -
  let ?n = HASH_TABLE_CAPACITY
  show "\<exists>life'. hash_table_v1_create mutex_call life = Inr (hash_table_base_create, life')"
    using assms by (simp add: hash_table_v1_create_def clear_buckets mutex_init_def hash_table_base_create_def)
  show "\<exists>life'. hash_table_v2_create mutex_call life = Inr (hash_table_base_create, life')"
    using assms v2_create_rounds [of ?n mutex_call life ?n]
    by (simp add: hash_table_v2_create_def hash_table_base_create_def)
qed

lemma destroy_calls:
  assumes "\<forall>k. mutex_call k = 0" "length t = HASH_TABLE_CAPACITY"
  shows "\<exists>life'. hash_table_v1_destroy mutex_call t life = Inr life'"
    "\<exists>life'. hash_table_v2_destroy mutex_call t life = Inr life'"
  using assms
  by (simp_all add: hash_table_v1_destroy_def drain_rounds mutex_destroy_def
      hash_table_v2_destroy_def v2_destroy_rounds)

section \<open>The tester as a whole\<close>

text \<open>
  \<open>left_by args area after_v1 after_v2\<close>: the tables the threads leave are those of some execution of
  each concurrent table in which every thread ran to its end.
\<close>

definition left_by ::
  "arguments \<Rightarrow> u64 \<Rightarrow> (u64 \<Rightarrow> u8 list) \<Rightarrow> (hash_table \<Rightarrow> hash_table) \<Rightarrow> (hash_table \<Rightarrow> hash_table) \<Rightarrow> bool" where
  "left_by args data text after_v1 after_v2 \<longleftrightarrow>
     (\<exists>n s. exec (hash_table_v1_add_entry text) (unat (threads args)) (\<lambda>i. run_v1 args data (of_nat i)) n s \<and>
        finished_all (unat (threads args)) s \<and> after_v1 hash_table_base_create = c_table s) \<and>
     (\<exists>n s. exec (hash_table_v2_add_entry text) (unat (threads args)) (\<lambda>i. run_v2 args data (of_nat i)) n s \<and>
        finished_all (unat (threads args)) s \<and> after_v2 hash_table_base_create = c_table s)"

lemma main_base_ok:
  assumes "data \<noteq> 0" "unat data + 2 ^ 35 \<le> 2 ^ 64"
  obtains freed where "main_base text args data = Inr (0, freed)"
  using base_filled [OF assms, of "text" args] by (auto simp: main_base_def)

lemma main_tables_ok:
  assumes "data \<noteq> 0" "unat data + 2 ^ 35 \<le> 2 ^ 64" "left_by args data text after_v1 after_v2"
    and "\<forall>k. mutex_call k = 0"
  shows "\<exists>life'. main_v1 text args data mutex_call None after_v1 life = Inr (Inr (0, life'))"
    "\<exists>life'. main_v2 text args data mutex_call None after_v2 life = Inr (Inr (0, life'))"
proof -
  obtain n s where 1: "exec (hash_table_v1_add_entry text) (unat (threads args)) (\<lambda>i. run_v1 args data (of_nat i)) n s"
    "finished_all (unat (threads args)) s" "after_v1 hash_table_base_create = c_table s"
    using assms(3) by (auto simp: left_by_def)
  obtain n' s' where 2: "exec (hash_table_v2_add_entry text) (unat (threads args)) (\<lambda>i. run_v1 args data (of_nat i)) n' s'"
    "finished_all (unat (threads args)) s'" "after_v2 hash_table_base_create = c_table s'"
    using assms(3) by (auto simp: left_by_def main_entries_threads(2))
  note f1 = threads_filled [OF assms(1,2) disjI1, OF refl 1(1,2)]
  note f2 = threads_filled [OF assms(1,2) disjI2, OF refl 2(1,2)]
  obtain l1 where c1: "hash_table_v1_create mutex_call life = Inr (hash_table_base_create, l1)"
    using create_calls(1) [OF assms(4)] by blast
  obtain l1' where d1: "hash_table_v1_destroy mutex_call (c_table s) l1 = Inr l1'"
    using destroy_calls(1) [OF assms(4) f1(1)] by blast
  show "\<exists>life'. main_v1 text args data mutex_call None after_v1 life = Inr (Inr (0, life'))"
    by (simp add: main_v1_def c1 1(3) f1(2) d1)
  obtain l2 where c2: "hash_table_v2_create mutex_call life = Inr (hash_table_base_create, l2)"
    using create_calls(2) [OF assms(4)] by blast
  obtain l2' where d2: "hash_table_v2_destroy mutex_call (c_table s') l2 = Inr l2'"
    using destroy_calls(2) [OF assms(4) f2(1)] by blast
  show "\<exists>life'. main_v2 text args data mutex_call None after_v2 life = Inr (Inr (0, life'))"
    by (simp add: main_v2_def c2 2(3) f2(3) d2)
qed

text \<open>What \<open>main\<close> prints and returns when the threads of the first or of the second table fail.\<close>

lemma tester_first_fails:
  assumes "parse_args opts arguments0 = Inr args" "generate args rand data = Inr (area, calls)"
    and "data \<noteq> 0" "unat data + 2 ^ 35 \<le> 2 ^ 64" "\<forall>k. mutex_call k = 0"
    and "run_threads create join 0 (unat (threads args)) = Some (err, r)"
  shows "tester_main opts data rand mutex_call create join after_v1 after_v2 = Inr (err, [Missing 0, r])"
proof -
  obtain freed where b: "main_base (text_of data area) args data = Inr (0, freed)"
    by (rule main_base_ok [OF assms(3,4)])
  obtain l1 where c1: "hash_table_v1_create mutex_call born = Inr (hash_table_base_create, l1)"
    using create_calls(1) [OF assms(5)] by blast
  show ?thesis by (simp add: tester_main_def assms(1,2,6) b main_v1_def c1 Let_def)
qed

lemma tester_second_fails:
  assumes "parse_args opts arguments0 = Inr args" "generate args rand data = Inr (area, calls)"
    and "data \<noteq> 0" "unat data + 2 ^ 35 \<le> 2 ^ 64" "\<forall>k. mutex_call k = 0"
    and "left_by args data (text_of data area) after_v1 after_v2"
    and "run_threads create join 0 (unat (threads args)) = None"
    and "run_threads create join (unat (threads args)) (unat (threads args)) = Some (err, r)"
  shows "tester_main opts data rand mutex_call create join after_v1 after_v2 =
    Inr (err, [Missing 0, Missing 0, r])"
proof -
  obtain freed where b: "main_base (text_of data area) args data = Inr (0, freed)"
    by (rule main_base_ok [OF assms(3,4)])
  obtain l1 where 1: "main_v1 (text_of data area) args data mutex_call None after_v1 born = Inr (Inr (0, l1))"
    using main_tables_ok(1) [OF assms(3,4,6,5)] by blast
  obtain l2 where c2: "hash_table_v2_create mutex_call l1 = Inr (hash_table_base_create, l2)"
    using create_calls(2) [OF assms(5)] by blast
  show ?thesis by (simp add: tester_main_def assms(1,2,7,8) b 1 main_v2_def c2 Let_def)
qed

text \<open>
  C32: The tester reports nothing missing from any of the three tables and returns 0, for all
  arguments for which the strings fit, all values of \<open>rand\<close> (equal strings included) and all orders in
  which the threads may run, provided the mutex and thread calls succeed.  With \<open>n\<close> threads the calls of
  \<open>pthread_create\<close> are numbered \<open>0\<close> to \<open>n - 1\<close> for the first table and \<open>n\<close> to \<open>2 n - 1\<close> for the
  second, and so are those of \<open>pthread_join\<close>.  The first call to fail, for either table and of either
  kind, is reported after what was reported before, and its error is what \<open>main\<close> returns.  When there
  are \<open>2\<^sup>3\<^sup>2\<close> strings or more, the tester writes past the memory it allocated.
\<close>

theorem tester_main_output:
  assumes "parse_args opts arguments0 = Inr args" "data \<noteq> 0" "unat data + 2 ^ 35 \<le> 2 ^ 64"
    and "\<forall>k. mutex_call k = 0" and "n = unat (threads args)"
  shows "if n * unat (size_arg args) < 2 ^ 32
    then \<exists>area calls. generate args rand data = Inr (area, calls) \<and>
      ((\<forall>k < 2 * n. create k = 0 \<and> join k = 0) \<longrightarrow> left_by args data (text_of data area) after_v1 after_v2 \<longrightarrow>
         tester_main opts data rand mutex_call create join after_v1 after_v2 =
           Inr (0, [Missing 0, Missing 0, Missing 0])) \<and>
      (\<forall>k < n. (\<forall>j < k. create j = 0) \<longrightarrow> create k \<noteq> 0 \<longrightarrow>
         tester_main opts data rand mutex_call create join after_v1 after_v2 =
           Inr (create k, [Missing 0, Create_returned (create k)])) \<and>
      (\<forall>k < n. (\<forall>j < n. create j = 0) \<longrightarrow> (\<forall>j < k. join j = 0) \<longrightarrow> join k \<noteq> 0 \<longrightarrow>
         tester_main opts data rand mutex_call create join after_v1 after_v2 =
           Inr (join k, [Missing 0, Join_returned (join k)])) \<and>
      (left_by args data (text_of data area) after_v1 after_v2 \<longrightarrow>
        (\<forall>k. n \<le> k \<and> k < 2 * n \<longrightarrow> (\<forall>j < k. create j = 0) \<longrightarrow> (\<forall>j < n. join j = 0) \<longrightarrow> create k \<noteq> 0 \<longrightarrow>
           tester_main opts data rand mutex_call create join after_v1 after_v2 =
             Inr (create k, [Missing 0, Missing 0, Create_returned (create k)])) \<and>
        (\<forall>k. n \<le> k \<and> k < 2 * n \<longrightarrow> (\<forall>j < 2 * n. create j = 0) \<longrightarrow> (\<forall>j < k. join j = 0) \<longrightarrow> join k \<noteq> 0 \<longrightarrow>
           tester_main opts data rand mutex_call create join after_v1 after_v2 =
             Inr (join k, [Missing 0, Missing 0, Join_returned (join k)])))
    else tester_main opts data rand mutex_call create join after_v1 after_v2 = Inl Pht_bounds"
proof (cases "n * unat (size_arg args) < 2 ^ 32")
  case True
  let ?run = "tester_main opts data rand mutex_call create join after_v1 after_v2"
  obtain area calls where g: "generate args rand data = Inr (area, calls)"
    by (rule generate_ok [OF True [unfolded assms(5)], of rand data]) (rule that)
  note first = tester_first_fails [OF assms(1) g assms(2-4), folded assms(5)]
  note second = tester_second_fails [OF assms(1) g assms(2-4), folded assms(5)]
  let ?left = "left_by args data (text_of data area) after_v1 after_v2"
  have ok: "?run = Inr (0, [Missing 0, Missing 0, Missing 0])"
    if "\<forall>k < 2 * n. create k = 0 \<and> join k = 0" "?left"
  proof -
    obtain freed where b: "main_base (text_of data area) args data = Inr (0, freed)"
      by (rule main_base_ok [OF assms(2,3)])
    note T = main_tables_ok [OF assms(2,3) that(2) assms(4)]
    obtain l1 where 1: "main_v1 (text_of data area) args data mutex_call None after_v1 born = Inr (Inr (0, l1))"
      using T(1) by blast
    obtain l2 where 2: "main_v2 (text_of data area) args data mutex_call None after_v2 l1 = Inr (Inr (0, l2))"
      using T(2) by blast
    have "run_threads create join 0 n = None" "run_threads create join n n = None"
      using that(1) by (auto intro: run_threads_ok)
    then show ?thesis by (simp add: tester_main_def assms(1) g b 1 2 Let_def flip: assms(5))
  qed
  have c1: "?run = Inr (create k, [Missing 0, Create_returned (create k)])"
    if "k < n" "\<forall>j < k. create j = 0" "create k \<noteq> 0" for k
    by (rule first, rule run_threads_create) (use that in auto)
  have j1: "?run = Inr (join k, [Missing 0, Join_returned (join k)])"
    if "k < n" "\<forall>j < n. create j = 0" "\<forall>j < k. join j = 0" "join k \<noteq> 0" for k
    by (rule first, rule run_threads_join) (use that in auto)
  have c2: "?run = Inr (create k, [Missing 0, Missing 0, Create_returned (create k)])"
    if "?left" "n \<le> k \<and> k < 2 * n" "\<forall>j < k. create j = 0" "\<forall>j < n. join j = 0" "create k \<noteq> 0" for k
    by (rule second [OF that(1)], rule run_threads_ok, use that in simp, rule run_threads_create)
      (use that in auto)
  have j2: "?run = Inr (join k, [Missing 0, Missing 0, Join_returned (join k)])"
    if "?left" "n \<le> k \<and> k < 2 * n" "\<forall>j < 2 * n. create j = 0" "\<forall>j < k. join j = 0" "join k \<noteq> 0" for k
    by (rule second [OF that(1)], rule run_threads_ok, use that in simp, rule run_threads_join)
      (use that in auto)
  show ?thesis unfolding if_P [OF True] using g ok c1 j1 c2 j2 by blast
next
  case False
  then show ?thesis
    using generate_overflow [of args rand data] by (simp add: tester_main_def assms(1,5) not_less)
qed

theorem tester_main_output_witness:
  "\<exists>after_v1 after_v2. tester_main [(of_char (CHR ''t''), [50]), (of_char (CHR ''s''), [51])] 4096 int
      (\<lambda>_. 0) (\<lambda>_. 0) (\<lambda>_. 0) after_v1 after_v2 = Inr (0, [Missing 0, Missing 0, Missing 0])"
proof -
  let ?opts = "[(of_char (CHR ''t''), [50]), (of_char (CHR ''s''), [51])] :: (u8 \<times> u8 list) list"
  let ?args = "\<lparr>threads = 2, size_arg = 3\<rparr> :: arguments"
  have p: "parse_args ?opts arguments0 = Inr ?args"
    by (simp add: parse_opt_def parse_uint32_t_def arguments0_def)
  have d: "(4096 :: u64) \<noteq> 0" "unat (4096 :: u64) + 2 ^ 35 \<le> 2 ^ 64" by simp_all
  have small: "unat (threads ?args) * unat (size_arg ?args) < 2 ^ 32" by simp
  obtain area calls where g: "generate ?args int 4096 = Inr (area, calls)"
    by (rule generate_ok [OF small, of int 4096]) (rule that)
  have keys: "\<forall>i < unat (threads ?args). 0 \<notin> fst ` set (run_v1 ?args 4096 (of_nat i))"
    using valid_keys(2) [OF d, of ?args] by blast
  obtain n s where 1: "exec (hash_table_v1_add_entry (text_of 4096 area)) (unat (threads ?args))
      (\<lambda>i. run_v1 ?args 4096 (of_nat i)) n s" "finished_all (unat (threads ?args)) s"
    using exec_finishes [OF keys] unfolding hash_table_v1_add_entry_def by blast
  obtain n' s' where 2: "exec (hash_table_v2_add_entry (text_of 4096 area)) (unat (threads ?args))
      (\<lambda>i. run_v2 ?args 4096 (of_nat i)) n' s'" "finished_all (unat (threads ?args)) s'"
    using exec_finishes [OF keys] unfolding hash_table_v2_add_entry_def main_entries_threads(2) by blast
  have "left_by ?args 4096 (text_of 4096 area) (\<lambda>_. c_table s) (\<lambda>_. c_table s')"
    unfolding left_by_def using 1 2 by blast
  moreover have "left_by ?args 4096 (text_of 4096 area) after_v1 after_v2 \<Longrightarrow>
      tester_main ?opts 4096 int (\<lambda>_. 0) (\<lambda>_. 0) (\<lambda>_. 0) after_v1 after_v2 =
        Inr (0, [Missing 0, Missing 0, Missing 0])" for after_v1 after_v2
    using tester_main_output [OF p d, of "\<lambda>_. 0" _ int "\<lambda>_. 0" "\<lambda>_. 0" after_v1 after_v2,
        OF _ refl, unfolded if_P [OF small] g] by auto
  ultimately show ?thesis by blast
qed

end
