(* ===== verification/PhtReaders.thy ===== *)
theory PhtReaders
  imports PhtThreads
begin

text \<open>
  Reads of the concurrent tables while insertions run: \<open>hash_table_v1_contains\<close> and
  \<open>hash_table_v1_get_value\<close>, and their copies in \<open>hash-table-v2.c\<close>, take no lock, so a read is a
  sequence of steps between which the bucket changes.  Memory is sequentially consistent here: one
  step reads one pointer or value that other threads write.
\<close>

section \<open>Steps of a read\<close>

datatype query = Contains | Get_value

datatype answer = Present bool | Value u32 | Aborted

text \<open>
  Where a read is: before it has read the head pointer, in the loop of \<open>get_list_entry\<close> at the node
  with so many nodes from it to the end of the list (none: the null pointer), holding a pointer to
  the node that matched, with that many nodes after it, or returned.
\<close>

datatype cursor = Before | At nat | Hit nat | Done answer

record reader =
  r_query :: query
  r_key :: u64
  r_cursor :: cursor

text \<open>One round of \<open>SLIST_FOREACH\<close> in \<open>get_list_entry\<close>.\<close>

fun foreach_round :: "(u64 \<Rightarrow> u8 list) \<Rightarrow> u64 \<Rightarrow> list_entry list \<Rightarrow> nat \<Rightarrow> cursor" where
  "foreach_round text key es 0 = At 0"
| "foreach_round text key es (Suc d) =
     (if text (e_key (es ! (length es - Suc d))) = text key then Hit d else At d)"

definition contains_step :: "(u64 \<Rightarrow> u8 list) \<Rightarrow> u64 \<Rightarrow> list_entry list \<Rightarrow> cursor \<Rightarrow> cursor option" where
  "contains_step text key es c = (case c of
     Before \<Rightarrow> Some (if key = 0 then Done Aborted else At (length es))
   | At 0 \<Rightarrow> Some (Done (Present False))
   | At (Suc d) \<Rightarrow> Some (foreach_round text key es (Suc d))
   | Hit d \<Rightarrow> Some (Done (Present True))
   | Done a \<Rightarrow> None)"

definition get_value_step :: "(u64 \<Rightarrow> u8 list) \<Rightarrow> u64 \<Rightarrow> list_entry list \<Rightarrow> cursor \<Rightarrow> cursor option" where
  "get_value_step text key es c = (case c of
     Before \<Rightarrow> Some (if key = 0 then Done Aborted else At (length es))
   | At 0 \<Rightarrow> Some (Done Aborted)
   | At (Suc d) \<Rightarrow> Some (foreach_round text key es (Suc d))
   | Hit d \<Rightarrow> Some (Done (Value (e_value (es ! (length es - Suc d)))))
   | Done a \<Rightarrow> None)"

definition read_step :: "(u64 \<Rightarrow> u8 list) \<Rightarrow> hash_table \<Rightarrow> reader \<Rightarrow> reader option" where
  "read_step text t r = map_option (\<lambda>c. r\<lparr>r_cursor := c\<rparr>)
     ((case r_query r of Contains \<Rightarrow> contains_step text | Get_value \<Rightarrow> get_value_step text)
       (r_key r) (t ! slot_of (text (r_key r))) (r_cursor r))"

text \<open>What the same call returns when nothing else runs.\<close>

definition answer_at :: "(u64 \<Rightarrow> u8 list) \<Rightarrow> query \<Rightarrow> u64 \<Rightarrow> hash_table \<Rightarrow> answer" where
  "answer_at text q key t = (case q of
     Contains \<Rightarrow> (case hash_table_v1_contains text t key of Inl e \<Rightarrow> Aborted | Inr b \<Rightarrow> Present b)
   | Get_value \<Rightarrow> (case hash_table_v1_get_value text t key of Inl e \<Rightarrow> Aborted | Inr v \<Rightarrow> Value v))"

section \<open>Writers and readers together\<close>

record system =
  s_conc :: conc
  s_readers :: "nat \<Rightarrow> reader"

definition system_start :: "(nat \<Rightarrow> (u64 \<times> u32) list) \<Rightarrow> (nat \<Rightarrow> query \<times> u64) \<Rightarrow> system" where
  "system_start prog asks = \<lparr>s_conc = conc_start prog,
     s_readers = (\<lambda>r. \<lparr>r_query = fst (asks r), r_key = snd (asks r), r_cursor = Before\<rparr>)\<rparr>"

text \<open>The states of an execution, the latest first.\<close>

inductive mixed ::
  "(nat \<Rightarrow> conc \<Rightarrow> conc option) \<Rightarrow> (u64 \<Rightarrow> u8 list) \<Rightarrow> nat \<Rightarrow> (nat \<Rightarrow> (u64 \<times> u32) list) \<Rightarrow>
    (nat \<Rightarrow> query \<times> u64) \<Rightarrow> system list \<Rightarrow> bool"
  for step :: "nat \<Rightarrow> conc \<Rightarrow> conc option" and "text" :: "u64 \<Rightarrow> u8 list" and N :: nat
    and prog :: "nat \<Rightarrow> (u64 \<times> u32) list" and asks :: "nat \<Rightarrow> query \<times> u64" where
  start: "mixed step text N prog asks [system_start prog asks]"
| writes: "mixed step text N prog asks (s # tr) \<Longrightarrow> tid < N \<Longrightarrow> step tid (s_conc s) = Some c \<Longrightarrow>
    mixed step text N prog asks (s\<lparr>s_conc := c\<rparr> # s # tr)"
| reads: "mixed step text N prog asks (s # tr) \<Longrightarrow> read_step text (c_table (s_conc s)) (s_readers s r) = Some rd \<Longrightarrow>
    mixed step text N prog asks (s\<lparr>s_readers := (s_readers s)(r := rd)\<rparr> # s # tr)"

text \<open>A read is under way from its access to the head pointer until it returns.\<close>

definition under_way :: "nat \<Rightarrow> system \<Rightarrow> bool" where
  "under_way r s \<longleftrightarrow> (case r_cursor (s_readers s r) of At d \<Rightarrow> True | Hit d \<Rightarrow> True | _ \<Rightarrow> False)"

section \<open>What a read has seen\<close>

text \<open>
  \<open>skipped\<close>: since the head pointer was read, when the bucket was \<open>old\<close>, nodes were only added in
  front, and the nodes already passed do not hold the string.
\<close>

definition skipped :: "(u64 \<Rightarrow> u8 list) \<Rightarrow> u8 list \<Rightarrow> list_entry list \<Rightarrow> list_entry list \<Rightarrow> nat \<Rightarrow> bool" where
  "skipped text s old es d \<longleftrightarrow> d \<le> length old \<and> (\<exists>new. map e_key es = new @ map e_key old) \<and>
     (\<forall>n < length old - d. text (e_key (old ! n)) \<noteq> s)"

definition matched :: "(u64 \<Rightarrow> u8 list) \<Rightarrow> u8 list \<Rightarrow> list_entry list \<Rightarrow> nat \<Rightarrow> bool" where
  "matched text s es d \<longleftrightarrow> d < length es \<and> text (e_key (es ! (length es - Suc d))) = s"

lemma keys_length: "map e_key es = new @ map e_key old \<Longrightarrow> length es = length new + length old"
  by (metis length_append length_map)

lemma key_from_end:
  assumes "map e_key es = new @ map e_key old" "d < length old"
  shows "e_key (es ! (length es - Suc d)) = e_key (old ! (length old - Suc d))"
proof -
  have at: "length es - Suc d = length new + (length old - Suc d)"
    using keys_length [OF assms(1)] assms(2) by simp
  have "e_key (es ! (length es - Suc d)) = map e_key es ! (length es - Suc d)"
    using keys_length [OF assms(1)] assms(2) by simp
  also have "\<dots> = map e_key old ! (length old - Suc d)"
    unfolding assms(1) at by (rule nth_append_length_plus)
  finally show ?thesis using assms(2) by simp
qed

lemma skipped_start: "skipped text s es es (length es)"
  by (simp add: skipped_def)

lemma skipped_round:
  assumes "skipped text s old es (Suc d)" "text (e_key (es ! (length es - Suc d))) \<noteq> s"
  shows "skipped text s old es d"
proof -
  obtain new where sk: "Suc d \<le> length old" "map e_key es = new @ map e_key old"
    "\<forall>n < length old - Suc d. text (e_key (old ! n)) \<noteq> s" using assms(1) by (auto simp: skipped_def)
  have "text (e_key (old ! (length old - Suc d))) \<noteq> s"
    using assms(2) key_from_end [OF sk(2), of d] sk(1) by simp
  then have "text (e_key (old ! n)) \<noteq> s" if "n < length old - d" for n
    using sk(3) that by (cases "n = length old - Suc d") auto
  then show ?thesis using sk(1,2) by (auto simp: skipped_def)
qed

lemma skipped_round_hit:
  assumes "skipped text s old es (Suc d)" "text (e_key (es ! (length es - Suc d))) = s"
  shows "matched text s es d"
proof -
  obtain new where "Suc d \<le> length old" "map e_key es = new @ map e_key old"
    using assms(1) by (auto simp: skipped_def)
  with keys_length [OF this(2)] assms(2) show ?thesis by (simp add: matched_def)
qed

lemma skipped_grows:
  assumes "skipped text s old es d" "map e_key es' = new @ map e_key es"
  shows "skipped text s old es' d"
  using assms by (auto simp: skipped_def)

lemma matched_grows:
  assumes "matched text s es d" "map e_key es' = new @ map e_key es"
  shows "matched text s es' d"
proof -
  show ?thesis using keys_length [OF assms(2)] assms(1) key_from_end [OF assms(2), of d] by (simp add: matched_def)
qed

text \<open>The two ends of the search, as the map the table stands for.\<close>

lemma skipped_absent:
  assumes "skipped text s (t ! slot_of s) es 0"
  shows "view text t s = None"
proof -
  have "s \<notin> (\<lambda>e. text (e_key e)) ` set (t ! slot_of s)"
    using assms unfolding skipped_def by (metis (no_types, lifting) diff_zero imageE in_set_conv_nth)
  then show ?thesis using find_entry_None by (simp add: view_def)
qed

lemma matched_view:
  assumes "table_ok text t" "matched text s (t ! slot_of s) d"
  shows "view text t s = Some (e_value (t ! slot_of s ! (length (t ! slot_of s) - Suc d)))"
proof -
  let ?es = "t ! slot_of s" let ?n = "length ?es - Suc d"
  have n: "?n < length ?es" "text (e_key (?es ! ?n)) = s" using assms(2) by (auto simp: matched_def)
  then have "s \<in> (\<lambda>e. text (e_key e)) ` set ?es" by (metis image_eqI nth_mem)
  then obtain m where m: "find_entry text s ?es = Some m" using find_entry_None [of "text" s ?es] by auto
  have "distinct (map (\<lambda>e. text (e_key e)) ?es)" using assms(1) by (simp add: table_ok_def)
  then have "m = ?n" using nth_eq_iff_index_eq [of "map (\<lambda>e. text (e_key e)) ?es" m ?n] find_entry_Some [OF m] n by simp
  then show ?thesis using m by (simp add: view_def)
qed

lemma answer_view:
  assumes "key \<noteq> 0"
  shows "answer_at text Contains key t = Present (view text t (text key) \<noteq> None)"
    "answer_at text Get_value key t = (case view text t (text key) of None \<Rightarrow> Aborted | Some v \<Rightarrow> Value v)"
  using assms by (simp_all add: answer_at_def reads_alike lookup_view split: option.split)

section \<open>The invariant of the writers, seen by readers\<close>

lemma conc_ok_table:
  assumes "conc_ok text mutex N prog s" "\<forall>tid < N. 0 \<notin> fst ` set (prog tid)"
  shows "table_ok text (c_table s)"
proof -
  note o = assms(1) [unfolded conc_ok_def]
  have "0 \<notin> fst ` set (map snd (c_log s))"
  proof
    assume "0 \<in> fst ` set (map snd (c_log s))"
    then obtain tid v where x: "(tid, 0, v) \<in> set (c_log s)" by force
    then have "tid < N" using o by force
    moreover have "(0, v) \<in> set (logged tid s)" using x by (force simp: logged_def)
    then have "(0, v) \<in> set (prog tid)" using o calculation by (metis Un_iff set_append)
    ultimately show False using assms(2) by force
  qed
  from base.filled [OF this, where str = "text"] show ?thesis using o by auto
qed

text \<open>Insertions add nodes in front, and change no key.\<close>

lemma insertion_grows:
  assumes ok: "conc_ok text mutex N prog s" and tid: "tid < N"
    and step: "add_entry_step text mutex tid s = Some s'"
  shows "\<exists>new. map e_key (c_table s' ! j) = new @ map e_key (c_table s ! j)"
proof -
  let ?t = "c_table s"
  obtain key v rest where todo: "w_todo (c_workers s tid) = (key, v) # rest"
    using step by (auto simp: add_entry_step_def split: list.splits)
  have ph: "phase_ok text ?t key (w_phase (c_workers s tid))" by (rule conc_ok_worker(2) [OF ok tid todo])
  let ?i = "slot_of (text key)"
  have upd: "map e_key (es[n := (es ! n)\<lparr>e_value := v\<rparr>]) = map e_key es" for es n and v :: u32
    by (cases "n < length es") (simp_all add: map_update list_update_same_conv list_update_beyond)
  consider "c_table s' = ?t" | n where "c_table s' = set_value ?i n v ?t"
    | "c_table s' = ?t[?i := \<lparr>e_key = key, e_value = v\<rparr> # ?t ! ?i]"
    using step ph todo by (cases "w_phase (c_workers s tid)")
      (auto simp: add_entry_step_def set_phase_def Let_def split: option.splits if_splits)
  then show ?thesis
  proof cases
    case 1
    then show ?thesis by simp
  next
    case (2 n)
    then show ?thesis by (cases "j = ?i \<and> ?i < length ?t") (auto simp: set_value_def upd nth_list_update list_update_beyond)
  next
    case 3
    then show ?thesis by (cases "j = ?i \<and> ?i < length ?t") (auto simp: nth_list_update list_update_beyond)
  qed
qed

section \<open>Linearizability of reads\<close>

text \<open>The bucket reader \<open>r\<close> searches, in a state.\<close>

definition bucket_of :: "(u64 \<Rightarrow> u8 list) \<Rightarrow> nat \<Rightarrow> system \<Rightarrow> list_entry list" where
  "bucket_of text r s = c_table (s_conc s) ! slot_of (text (r_key (s_readers s r)))"

definition read_ok :: "(u64 \<Rightarrow> u8 list) \<Rightarrow> (nat \<Rightarrow> query \<times> u64) \<Rightarrow> nat \<Rightarrow> system list \<Rightarrow> bool" where
  "read_ok text asks r tr \<longleftrightarrow> (let s = hd tr; key = snd (asks r); es = bucket_of text r s in
     r_query (s_readers s r) = fst (asks r) \<and> r_key (s_readers s r) = key \<and>
     (case r_cursor (s_readers s r) of
        Before \<Rightarrow> True
      | At d \<Rightarrow> key \<noteq> 0 \<and> (\<exists>u \<in> set tr. under_way r u \<and>
          skipped text (text key) (c_table (s_conc u) ! slot_of (text key)) es d)
      | Hit d \<Rightarrow> key \<noteq> 0 \<and> matched text (text key) es d
      | Done a \<Rightarrow> if key = 0 then a = Aborted
          else \<exists>u \<in> set tr. under_way r u \<and> answer_at text (fst (asks r)) key (c_table (s_conc u)) = a))"

lemma read_ok_writes:
  assumes "read_ok text asks r (s # tr)"
    and "\<And>j. \<exists>new. map e_key (c_table c ! j) = new @ map e_key (c_table (s_conc s) ! j)"
  shows "read_ok text asks r (s\<lparr>s_conc := c\<rparr> # s # tr)"
proof -
  let ?s' = "s\<lparr>s_conc := c\<rparr>"
  obtain new where "map e_key (bucket_of text r ?s') = new @ map e_key (bucket_of text r s)"
    using assms(2) by (auto simp: bucket_of_def)
  note grow = skipped_grows [OF _ this] matched_grows [OF _ this]
  show ?thesis
    using assms(1) grow by (cases "r_cursor (s_readers s r)") (auto simp: read_ok_def Let_def)
qed

lemma read_ok_others:
  assumes "read_ok text asks r (s # tr)" "s_conc s' = s_conc s" "s_readers s' r = s_readers s r"
  shows "read_ok text asks r (s' # s # tr)"
  using assms by (cases "r_cursor (s_readers s r)") (auto simp: read_ok_def Let_def bucket_of_def)

text \<open>The answer of a search that found nothing, and of one that found a node with the value \<open>v\<close>.\<close>

definition missing :: "query \<Rightarrow> answer" where
  "missing q = (case q of Contains \<Rightarrow> Present False | Get_value \<Rightarrow> Aborted)"

definition found :: "query \<Rightarrow> u32 \<Rightarrow> answer" where
  "found q v = (case q of Contains \<Rightarrow> Present True | Get_value \<Rightarrow> Value v)"

lemma read_cursor:
  "(case q of Contains \<Rightarrow> contains_step text | Get_value \<Rightarrow> get_value_step text) key es c = (case c of
     Before \<Rightarrow> Some (if key = 0 then Done Aborted else At (length es))
   | At d \<Rightarrow> Some (if d = 0 then Done (missing q) else foreach_round text key es d)
   | Hit d \<Rightarrow> Some (Done (found q (e_value (es ! (length es - Suc d)))))
   | Done a \<Rightarrow> None)"
  by (auto simp: contains_step_def get_value_step_def missing_def found_def split: query.split cursor.split nat.split)

lemma search_answer:
  assumes "key \<noteq> 0"
  shows "skipped text (text key) (t ! slot_of (text key)) es 0 \<Longrightarrow> answer_at text q key t = missing q"
    "table_ok text t \<Longrightarrow> matched text (text key) (t ! slot_of (text key)) d \<Longrightarrow> answer_at text q key t =
       found q (e_value (t ! slot_of (text key) ! (length (t ! slot_of (text key)) - Suc d)))"
  using answer_view [OF assms, of "text" t] skipped_absent [of "text" "text key" t es] matched_view [of "text" t "text key" d]
  by (cases q; simp add: missing_def found_def)+

lemma read_ok_reads:
  assumes ok: "read_ok text asks r (s # tr)" and tab: "table_ok text (c_table (s_conc s))"
    and step: "read_step text (c_table (s_conc s)) (s_readers s r) = Some rd"
  shows "read_ok text asks r (s\<lparr>s_readers := (s_readers s)(r := rd)\<rparr> # s # tr)"
proof -
  let ?s' = "s\<lparr>s_readers := (s_readers s)(r := rd)\<rparr>" let ?key = "snd (asks r)" let ?q = "fst (asks r)"
  let ?t = "c_table (s_conc s)" let ?es = "?t ! slot_of (text ?key)"
  note o = ok [unfolded read_ok_def Let_def bucket_of_def] and goal = read_ok_def Let_def bucket_of_def
  have r: "r_query (s_readers s r) = ?q" "r_key (s_readers s r) = ?key" using o by simp_all
  obtain c where c: "(case r_cursor (s_readers s r) of
      Before \<Rightarrow> Some (if ?key = 0 then Done Aborted else At (length ?es))
    | At d \<Rightarrow> Some (if d = 0 then Done (missing ?q) else foreach_round text ?key ?es d)
    | Hit d \<Rightarrow> Some (Done (found ?q (e_value (?es ! (length ?es - Suc d)))))
    | Done a \<Rightarrow> None) = Some c" and rd: "rd = (s_readers s r)\<lparr>r_cursor := c\<rparr>"
    using step r by (auto simp: read_step_def read_cursor)
  show ?thesis
  proof (cases "r_cursor (s_readers s r)")
    case Before
    then have "c = (if ?key = 0 then Done Aborted else At (length ?es))" using c by simp
    moreover have "under_way r ?s'" if "?key \<noteq> 0" using that calculation by (simp add: under_way_def rd)
    ultimately show ?thesis using r skipped_start by (auto simp: goal rd)
  next
    case (At d)
    then have key: "?key \<noteq> 0" using o by (auto simp: under_way_def)
    obtain u where u: "u \<in> set (s # tr)" "under_way r u"
      "skipped text (text ?key) (c_table (s_conc u) ! slot_of (text ?key)) ?es d" using o At r by auto
    show ?thesis
    proof (cases d)
      case 0
      with c At search_answer(1) [OF key u(3) [unfolded 0], of ?q] show ?thesis
        using r u(1,2) key by (auto simp: goal rd)
    next
      case (Suc m)
      then have "c = (if text (e_key (?es ! (length ?es - Suc m))) = text ?key then Hit m else At m)"
        using c At by simp
      then show ?thesis
        using skipped_round [OF u(3) [unfolded Suc]] skipped_round_hit [OF u(3) [unfolded Suc]] u(1,2) r key
        by (auto simp: goal rd)
    qed
  next
    case (Hit d)
    then have key: "?key \<noteq> 0" and way: "under_way r s" and m: "matched text (text ?key) ?es d"
      using o r by (auto simp: under_way_def)
    with c Hit search_answer(2) [OF key tab m, of ?q] show ?thesis using r by (auto simp: goal rd)
  qed (use c in simp)
qed

lemma mixed_ok:
  assumes "mixed (add_entry_step text mutex) text N prog asks tr" "\<forall>tid < N. 0 \<notin> fst ` set (prog tid)"
  shows "tr \<noteq> [] \<and> conc_ok text mutex N prog (s_conc (hd tr)) \<and> read_ok text asks r tr"
  using assms(1)
proof (induction rule: mixed.induct)
  case start
  have "conc_ok text mutex N prog (conc_start prog)" by (rule exec_ok [OF exec.start assms(2)])
  then show ?case by (simp add: system_start_def read_ok_def Let_def)
next
  case (writes s tr tid c)
  then have ok: "conc_ok text mutex N prog (s_conc s)" and rd: "read_ok text asks r (s # tr)" by simp_all
  have "conc_ok text mutex N prog c" using conc_ok_step [OF ok writes.hyps(2) _ writes.hyps(3)] assms(2) writes.hyps(2) by blast
  with read_ok_writes [OF rd insertion_grows [OF ok writes.hyps(2,3)]] show ?case by simp
next
  case (reads s tr q rd)
  then have ok: "conc_ok text mutex N prog (s_conc s)" and r: "read_ok text asks r (s # tr)" by simp_all
  have "read_ok text asks r (s\<lparr>s_readers := (s_readers s)(q := rd)\<rparr> # s # tr)"
  proof (cases "q = r")
    case True
    with read_ok_reads [OF r conc_ok_table [OF ok assms(2)]] reads.hyps(2) show ?thesis by simp
  next
    case False
    then show ?thesis using read_ok_others [OF r] by simp
  qed
  with ok show ?case by simp
qed

text \<open>The steps a read has left once it has read the head pointer.\<close>

fun read_left :: "cursor \<Rightarrow> nat" where
  "read_left (At d) = d + 2"
| "read_left (Hit d) = 1"
| "read_left c = 0"

lemma read_progress:
  assumes "\<forall>a. r_cursor r \<noteq> Done a"
  shows "\<exists>rd. read_step text t r = Some rd \<and> (r_cursor r \<noteq> Before \<longrightarrow> read_left (r_cursor rd) < read_left (r_cursor r))"
  using assms by (cases "r_cursor r"; cases "r_query r")
    (auto simp: read_step_def contains_step_def get_value_step_def split: nat.split)

text \<open>
  C30: Reads without a lock are linearizable. Whatever insertions run at the same time, in either
  table, a read that has returned gave the answer the same call gives, undisturbed, on the table at
  some moment between its access to the head pointer and its return. A read never waits: until it
  returns it can take a step, and once it has the head pointer each step brings its end nearer,
  however much is inserted meanwhile.
\<close>

theorem unlocked_reads_linearizable:
  assumes "step = hash_table_v1_add_entry text \<or> step = hash_table_v2_add_entry text"
    and "mixed step text N prog asks (s # tr)" "\<forall>tid < N. 0 \<notin> fst ` set (prog tid)"
    and "asks r = (q, key)" "key \<noteq> 0"
  shows "case r_cursor (s_readers s r) of
      Done a \<Rightarrow> \<exists>u \<in> set tr. under_way r u \<and> answer_at text q key (c_table (s_conc u)) = a
    | c \<Rightarrow> \<exists>rd. read_step text (c_table (s_conc s)) (s_readers s r) = Some rd \<and>
        (under_way r s \<longrightarrow> read_left (r_cursor rd) < read_left c)"
proof -
  obtain mutex where step: "step = add_entry_step text mutex"
    using assms(1) by (auto simp: hash_table_v1_add_entry_def hash_table_v2_add_entry_def)
  have ok: "read_ok text asks r (s # tr)" using mixed_ok assms(2,3) step by blast
  show ?thesis
  proof (cases "r_cursor (s_readers s r)")
    case (Done a)
    then have "\<not> under_way r s" by (simp add: under_way_def)
    then show ?thesis using ok Done assms(4,5) by (auto simp: read_ok_def Let_def)
  qed (use read_progress [of "s_readers s r"] in \<open>auto simp: under_way_def\<close>)
qed

definition demo_asks :: "nat \<Rightarrow> query \<times> u64" where
  "demo_asks r = (Contains, 16)"

lemma created_bucket [simp]: "hash_table_base_create ! slot_of s = []"
  by (simp add: hash_table_base_create_def)

text \<open>The read gets the head pointer just before the new node is linked, and returns just after.\<close>

lemma demo_mixed:
  "\<exists>s tr. mixed (hash_table_v2_add_entry (\<lambda>p. [ucast p])) (\<lambda>p. [ucast p]) 1 demo_prog demo_asks (s # tr) \<and>
    r_cursor (s_readers s 0) = Done (Present False) \<and>
    hash_table_v2_contains (\<lambda>p. [ucast p]) (c_table (s_conc s)) 16 = Inr True"
proof -
  let ?text = "\<lambda>p :: u64. [ucast p] :: u8 list" let ?W = "hash_table_v2_add_entry (\<lambda>p. [ucast p]) 0"
  let ?s0 = "system_start demo_prog demo_asks"
  obtain c1 c2 c3 c4 where w: "?W (s_conc ?s0) = Some c1" "?W c1 = Some c2" "?W c2 = Some c3" "?W c3 = Some c4"
    and t: "c_table c3 = hash_table_base_create"
      "c_table c4 = hash_table_base_create[slot_of (?text 16) := [\<lparr>e_key = 16, e_value = 0\<rparr>]]"
    by (simp add: system_start_def hash_table_v2_add_entry_def add_entry_step_def conc_start_def demo_prog_def
        set_phase_def Let_def)
  have M: "\<exists>s' tr'. mixed (hash_table_v2_add_entry ?text) ?text 1 demo_prog demo_asks (s' # tr') \<and>
      s_conc s' = c' \<and> s_readers s' = s_readers s"
    if "mixed (hash_table_v2_add_entry ?text) ?text 1 demo_prog demo_asks (s # tr)" "?W (s_conc s) = Some c'" for s tr c'
    using mixed.writes [OF that(1) zero_less_one that(2)] by fastforce
  have m3: "\<exists>s tr. mixed (hash_table_v2_add_entry ?text) ?text 1 demo_prog demo_asks (s # tr) \<and>
      s_conc s = c3 \<and> s_readers s = s_readers ?s0"
    using M [OF mixed.start w(1)] M w(2,3) by metis
  then obtain s3 tr where s3: "mixed (hash_table_v2_add_entry ?text) ?text 1 demo_prog demo_asks (s3 # tr)"
    "s_conc s3 = c3" "s_readers s3 = s_readers ?s0" by blast
  let ?rd = "(s_readers ?s0 0)\<lparr>r_cursor := At 0\<rparr>"
  have r: "read_step ?text (c_table (s_conc s3)) (s_readers s3 0) = Some ?rd"
    by (simp add: s3 t system_start_def demo_asks_def read_step_def contains_step_def)
  let ?s4 = "s3\<lparr>s_readers := (s_readers s3)(0 := ?rd)\<rparr>"
  have s4: "mixed (hash_table_v2_add_entry ?text) ?text 1 demo_prog demo_asks (?s4 # s3 # tr)"
    by (rule mixed.reads [OF s3(1) r])
  have "?W (s_conc ?s4) = Some c4" using w(4) s3(2) by simp
  note s5 = mixed.writes [OF s4 zero_less_one this]
  let ?s5 = "?s4\<lparr>s_conc := c4\<rparr>"
  have r5: "read_step ?text (c_table (s_conc ?s5)) (s_readers ?s5 0) = Some (?rd\<lparr>r_cursor := Done (Present False)\<rparr>)"
    by (simp add: system_start_def demo_asks_def read_step_def contains_step_def)
  have "hash_table_v2_contains ?text (c_table c4) 16 = Inr True"
    by (simp add: t reads_alike lookup_view view_def hash_table_base_create_def)
  with mixed.reads [OF s5 r5] show ?thesis by fastforce
qed

theorem unlocked_reads_linearizable_witness:
  "\<exists>s tr u. mixed (hash_table_v2_add_entry (\<lambda>p. [ucast p])) (\<lambda>p. [ucast p]) 1 demo_prog demo_asks (s # tr) \<and>
    r_cursor (s_readers s 0) = Done (Present False) \<and> u \<in> set tr \<and> under_way 0 u \<and>
    answer_at (\<lambda>p. [ucast p]) Contains 16 (c_table (s_conc u)) = Present False"
proof -
  obtain s tr where m: "mixed (hash_table_v2_add_entry (\<lambda>p. [ucast p])) (\<lambda>p. [ucast p]) 1 demo_prog demo_asks (s # tr)"
    and d: "r_cursor (s_readers s 0) = Done (Present False)" using demo_mixed by blast
  have k: "\<forall>tid < 1. 0 \<notin> fst ` set (demo_prog tid)" and a: "demo_asks 0 = (Contains, 16)"
    by (simp_all add: demo_prog_def demo_asks_def)
  from unlocked_reads_linearizable [OF disjI2 [OF refl] m k a] d m show ?thesis by auto
qed

end
