(* ===== verification/Ssp.thy ===== *)
theory Ssp
  imports Prelude "HOL-Library.AList"
begin

text \<open>
  The process supervisor, \<^verbatim>\<open>src/ssp/src/ssp.c\<close>: a table of the children the caller started, a
  second table for orphans the process has inherited as a subreaper, and the status of each.

  The kernel is modelled as far as the code uses it.  \<open>children\<close> holds the children the process
  has not yet reaped, \<open>script\<close> what other processes are going to do, in order.  A system call that
  does not block first lets everything happen up to the next \<open>Time_passes\<close>; a blocking \<open>waitpid\<close>
  lets things happen until its child has ended, and never returns when the script holds no such
  event.  A theorem for every script therefore covers every interleaving of the supervisor with
  its children.
\<close>

section \<open>Wait statuses\<close>

text \<open>How a child ends and the other changes \<open>waitpid\<close> can report, with the encoding of Linux.\<close>

datatype fate = Exited u8 | Killed nat bool

datatype change = Stopped nat | Continued

fun fate_status :: "fate \<Rightarrow> u32" where
  "fate_status (Exited c) = push_bit 8 (ucast c)"
| "fate_status (Killed sig core) = of_nat sig OR (if core then 0x80 else 0)"

fun change_status :: "change \<Rightarrow> u32" where
  "change_status (Stopped sig) = push_bit 8 (of_nat sig) OR 0x7F"
| "change_status Continued = 0xFFFF"

fun fate_ok :: "fate \<Rightarrow> bool" where
  "fate_ok (Exited c) = True"
| "fate_ok (Killed sig core) = (1 \<le> sig \<and> sig \<le> 64)"

text \<open>The macros of \<^verbatim>\<open>sys/wait.h\<close>.\<close>

definition WTERMSIG :: "u32 \<Rightarrow> u32" where
  "WTERMSIG st = st AND 0x7F"

definition WIFEXITED :: "u32 \<Rightarrow> bool" where
  "WIFEXITED st = (WTERMSIG st = 0)"

definition WEXITSTATUS :: "u32 \<Rightarrow> u32" where
  "WEXITSTATUS st = drop_bit 8 (st AND 0xFF00)"

definition WIFSIGNALED :: "u32 \<Rightarrow> bool" where
  "WIFSIGNALED st = (0 < sint (signed_drop_bit 1 (ucast ((st AND 0x7F) + 1) :: u8)))"

section \<open>Children\<close>

datatype child = Running | Changed change | Ended fate

type_synonym children = "(int \<times> child) list"

datatype os_event =
    Child_ends int fate
  | Child_changes int change
  | Child_appears int
  | Time_passes

definition change_child :: "int \<Rightarrow> child \<Rightarrow> children \<Rightarrow> children" where
  "change_child p c cs = (case map_of cs p of
      None \<Rightarrow> cs
    | Some (Ended f) \<Rightarrow> cs
    | Some _ \<Rightarrow> AList.update p c cs)"

fun happens :: "os_event \<Rightarrow> children \<Rightarrow> children" where
  "happens (Child_ends p f) cs = change_child p (Ended f) cs"
| "happens (Child_changes p c) cs = change_child p (Changed c) cs"
| "happens (Child_appears p) cs = (if map_of cs p = None then AList.update p Running cs else cs)"
| "happens Time_passes cs = cs"

text \<open>What happens before a call that does not block.\<close>

fun elapse :: "os_event list \<Rightarrow> children \<Rightarrow> children \<times> os_event list" where
  "elapse [] cs = (cs, [])"
| "elapse (e # es) cs = (if e = Time_passes then (cs, es) else elapse es (happens e cs))"

section \<open>The supervisor's state\<close>

text \<open>
  A table is a pointer to an array of which the first entries are written; a failed \<open>realloc\<close>
  makes it \<open>None\<close>.  A name is \<open>None\<close> where \<open>strdup\<close> returned the null pointer.  \<open>malloc_ok\<close> says which allocations succeed and \<open>fresh_status\<close> what the status
  field of the \<open>n\<close>th allocated entry holds before it is assigned; \<open>allocs\<close> counts.  \<open>signals\<close> and
  \<open>printed\<close> are the observable output; the text around the numbers is left out.
\<close>

record sub_process =
  pid :: int
  name :: "string option"
  status :: u32

datatype row = Heading int | Row int int string u32

record ssp =
  processes :: "sub_process list option"
  process_num :: int
  unknown_processes :: "sub_process list option"
  unknown_processes_num :: int
  arr_size_proc :: int
  arr_size_unknown :: int
  subreaper :: bool
  children :: children
  script :: "os_event list"
  descriptors :: "int \<rightharpoonup> nat"
  malloc_ok :: "nat \<Rightarrow> bool"
  fresh_status :: "nat \<Rightarrow> u32"
  allocs :: nat
  signals :: "(int \<times> int) list"
  printed :: "row list"

text \<open>
  How a call ends without returning: the process exits, waits for ever, accesses memory outside
  every object, or, in a forked child, goes on as another program with the given open files.
\<close>

datatype ssp_stop = Exit int | Blocks | Wild_pointer | Becomes "string list" "int \<rightharpoonup> nat"

type_synonym 'a ssp_result = "ssp_stop + 'a"

definition EXIT_FAILURE :: int where "EXIT_FAILURE = 1"

definition entry_at :: "sub_process list option \<Rightarrow> int \<Rightarrow> sub_process ssp_result" where
  "entry_at tab i = (case tab of
      None \<Rightarrow> Inl Wild_pointer
    | Some ps \<Rightarrow> if 0 \<le> i \<and> i < int (length ps) then Inr (ps ! nat i) else Inl Wild_pointer)"

text \<open>\<open>processes[i]->status = st\<close>, after \<open>processes[i]\<close> has been read.\<close>

definition set_status :: "int \<Rightarrow> u32 \<Rightarrow> ssp \<Rightarrow> ssp" where
  "set_status i st s = s\<lparr>processes := map_option (\<lambda>ps. ps[nat i := (ps ! nat i)\<lparr>status := st\<rparr>])
    (processes s)\<rparr>"

text \<open>\<open>arr[num] = proc\<close>: the array has room for \<open>room\<close> pointers and its first \<open>num\<close> are written.\<close>

definition store_entry ::
    "sub_process list option \<Rightarrow> int \<Rightarrow> int \<Rightarrow> sub_process \<Rightarrow> sub_process list ssp_result" where
  "store_entry tab num room p = (case tab of
      None \<Rightarrow> Inl Wild_pointer
    | Some ps \<Rightarrow> if num = int (length ps) \<and> num < room then Inr (ps @ [p]) else Inl Wild_pointer)"

section \<open>System calls\<close>

text \<open>What \<open>waitpid\<close> reports of a child; the flag stands for \<open>WUNTRACED | WCONTINUED\<close>.\<close>

fun report :: "bool \<Rightarrow> child \<Rightarrow> u32 option" where
  "report changes Running = None"
| "report changes (Changed c) = (if changes then Some (change_status c) else None)"
| "report changes (Ended f) = Some (fate_status f)"

fun collect :: "int \<Rightarrow> child \<Rightarrow> children \<Rightarrow> children" where
  "collect p (Ended f) cs = AList.delete p cs"
| "collect p c cs = AList.update p Running cs"

text \<open>The first child with something to report; the order of \<open>children\<close> is arbitrary.\<close>

definition reportable :: "bool \<Rightarrow> children \<Rightarrow> (int \<times> child) option" where
  "reportable changes cs =
    (case filter (\<lambda>p. Option.bind (map_of cs p) (report changes) \<noteq> None) (map fst cs) of
      [] \<Rightarrow> None
    | p # ps \<Rightarrow> map_option (Pair p) (map_of cs p))"

text \<open>
  \<open>waitpid\<close> with \<open>WNOHANG\<close>, for one child or, with \<open>None\<close> for -1, for any.  \<open>None\<close> is a result that
  is not positive, with which the status is not written.
\<close>

definition waitpid_nohang :: "int option \<Rightarrow> bool \<Rightarrow> ssp \<Rightarrow> (int \<times> u32) option \<times> ssp" where
  "waitpid_nohang target changes s =
    (let (cs, es) = elapse (script s) (children s);
         s = s\<lparr>children := cs, script := es\<rparr>;
         found = (case target of
             None \<Rightarrow> reportable changes cs
           | Some p \<Rightarrow> map_option (Pair p) (map_of cs p))
     in case found of
          None \<Rightarrow> (None, s)
        | Some (p, c) \<Rightarrow> (case report changes c of
              None \<Rightarrow> (None, s)
            | Some st \<Rightarrow> (Some (p, st), s\<lparr>children := collect p c cs\<rparr>)))"

text \<open>\<open>waitpid(p, &st, 0)\<close>: an error without such a child, else the status once it has ended.\<close>

fun wait_for :: "int \<Rightarrow> os_event list \<Rightarrow> children \<Rightarrow>
    (u32 option \<times> children \<times> os_event list) ssp_result" where
  "wait_for p [] cs = (case map_of cs p of
      None \<Rightarrow> Inr (None, cs, [])
    | Some (Ended f) \<Rightarrow> Inr (Some (fate_status f), AList.delete p cs, [])
    | Some _ \<Rightarrow> Inl Blocks)"
| "wait_for p (e # es) cs = (case map_of cs p of
      None \<Rightarrow> Inr (None, cs, e # es)
    | Some (Ended f) \<Rightarrow> Inr (Some (fate_status f), AList.delete p cs, e # es)
    | Some _ \<Rightarrow> wait_for p es (happens e cs))"

definition waitpid_blocking :: "int \<Rightarrow> ssp \<Rightarrow> (u32 option \<times> ssp) ssp_result" where
  "waitpid_blocking p s = and_then (wait_for p (script s) (children s)) (\<lambda>(st, cs, es).
    Inr (st, s\<lparr>children := cs, script := es\<rparr>))"

text \<open>An allocation: whether it succeeds, and what its status field holds.\<close>

definition malloc :: "ssp \<Rightarrow> (bool \<times> u32) \<times> ssp" where
  "malloc s = ((malloc_ok s (allocs s), fresh_status s (allocs s)), s\<lparr>allocs := Suc (allocs s)\<rparr>)"

definition strdup :: "string \<Rightarrow> ssp \<Rightarrow> string option \<times> ssp" where
  "strdup str s = (let ((ok, _), s) = malloc s in (if ok then Some str else None, s))"

section \<open>Growing and creating the tables\<close>

text \<open>
  \<open>size_increase\<close>: the test after \<open>realloc\<close> is on the address of the array pointer, which is never
  null, so a failed \<open>realloc\<close> leaves the table null and the process runs on.
\<close>

definition size_increase ::
    "sub_process list option \<Rightarrow> int \<Rightarrow> ssp \<Rightarrow> (sub_process list option \<times> int) \<times> ssp" where
  "size_increase arr arr_size s =
    (let arr_size = arr_size * 2;
         ((ok, _), s) = malloc s;
         arr = (if ok then arr else None)
     in ((arr, arr_size), s))"

definition ssp_init :: "ssp \<Rightarrow> ssp ssp_result" where
  "ssp_init s =
    (let ((ok_processes, _), s) = malloc s;
         ((ok_unknown, _), s) = malloc s
     in if \<not> ok_processes \<or> \<not> ok_unknown then Inl (Exit EXIT_FAILURE)
        else Inr (s\<lparr>processes := Some [], unknown_processes := Some [], subreaper := True\<rparr>))"

text \<open>The process before \<open>ssp_init\<close>: the initialised globals, in a given environment.\<close>

definition initial :: "children \<Rightarrow> os_event list \<Rightarrow> (int \<rightharpoonup> nat) \<Rightarrow> (nat \<Rightarrow> bool) \<Rightarrow>
    (nat \<Rightarrow> u32) \<Rightarrow> ssp" where
  "initial cs es ds mal fresh = \<lparr>processes = None, process_num = 0, unknown_processes = None,
    unknown_processes_num = 0, arr_size_proc = 128, arr_size_unknown = 128, subreaper = False,
    children = cs, script = es, descriptors = ds, malloc_ok = mal, fresh_status = fresh,
    allocs = 0, signals = [], printed = []\<rparr>"

section \<open>Starting a process\<close>

text \<open>
  \<open>dup2\<close> and \<open>close\<close> ignore descriptors that are not open, as the code ignores their errors.  An
  entry of \<^verbatim>\<open>/proc/self/fd\<close> is its type with the number \<open>atoi\<close> reads from its name.
\<close>

definition dup2 :: "int \<Rightarrow> int \<Rightarrow> (int \<rightharpoonup> nat) \<Rightarrow> (int \<rightharpoonup> nat)" where
  "dup2 old new ds = (case ds old of None \<Rightarrow> ds | Some f \<Rightarrow> ds(new \<mapsto> f))"

definition DT_LNK :: nat where "DT_LNK = 10"

fun close_listed :: "(nat \<times> int) list \<Rightarrow> (int \<rightharpoonup> nat) \<Rightarrow> (int \<rightharpoonup> nat)" where
  "close_listed [] ds = ds"
| "close_listed ((d_type, fd) # ents) ds =
    (if d_type = DT_LNK
     then if fd \<noteq> 0 \<and> fd \<noteq> 1 \<and> fd \<noteq> 2 then close_listed ents (ds(fd := None))
          else close_listed ents ds
     else close_listed ents ds)"

text \<open>
  What \<open>fork\<close>, \<open>opendir\<close> and \<open>execvp\<close> do in one call: the value \<open>fork\<close> returns in the process the
  model follows, the listing (\<open>None\<close> if the directory does not open) and \<open>errno\<close> of a failed
  \<open>execvp\<close>.
\<close>

record spawn =
  fork_pid :: int
  listing :: "(nat \<times> int) list option"
  exec_errno :: "int option"

text \<open>
  The branch of the child, which never returns.  The listing holds the entries \<open>readdir\<close> returned,
  however many; the descriptor of the directory itself is closed again before the program runs, by the
  loop or by \<open>closedir\<close>, and is left out.
\<close>

definition child_branch :: "spawn \<Rightarrow> string list \<Rightarrow> int \<Rightarrow> int \<Rightarrow> int \<Rightarrow> ssp \<Rightarrow> ssp_stop" where
  "child_branch k argv fd0 fd1 fd2 s =
    (let ds = dup2 fd0 0 (descriptors s);
         ds = dup2 fd1 1 ds;
         ds = dup2 fd2 2 ds;
         ds = (case listing k of None \<Rightarrow> ds | Some ents \<Rightarrow> close_listed ents ds)
     in case exec_errno k of
          Some errno \<Rightarrow> Exit errno
        | None \<Rightarrow> Becomes argv ds)"

definition ssp_create :: "spawn \<Rightarrow> string list \<Rightarrow> int \<Rightarrow> int \<Rightarrow> int \<Rightarrow> ssp \<Rightarrow> (int \<times> ssp) ssp_result" where
  "ssp_create k argv fd0 fd1 fd2 s =
    (let p = fork_pid k in
     if p = -1 then Inr (-1, s)
     else if p = 0 then Inl (child_branch k argv fd0 fd1 fd2 s)
     else
      (let s = s\<lparr>children := AList.update p Running (children s)\<rparr>;
           ((ok, _), s) = malloc s
       in if \<not> ok then Inl (Exit EXIT_FAILURE)
          else if argv = [] then Inl Wild_pointer
          else let (duplicate, s) = strdup (hd argv) s in
            and_then (store_entry (processes s) (process_num s) (arr_size_proc s)
              \<lparr>pid = p, name = duplicate, status = -1\<rparr>) (\<lambda>ps.
            let s = s\<lparr>processes := Some ps, process_num := process_num s + 1\<rparr>;
                s = (if process_num s \<ge> arr_size_proc s
                     then let ((arr, sz), s) = size_increase (processes s) (arr_size_proc s) s
                          in s\<lparr>processes := arr, arr_size_proc := sz\<rparr>
                     else s)
            in Inr (process_num s - 1, s))))"

section \<open>Status, signals, waiting\<close>

definition ssp_get_status :: "int \<Rightarrow> ssp \<Rightarrow> (u32 \<times> ssp) ssp_result" where
  "ssp_get_status ssp_id s =
    (if ssp_id \<ge> process_num s \<or> ssp_id < 0 then Inr (-1, s)
     else and_then (entry_at (processes s) ssp_id) (\<lambda>e.
       if status e \<noteq> -1 then Inr (status e, s)
       else
        (let (r, s) = waitpid_nohang (Some (pid e)) False s;
             s = (case r of
                 None \<Rightarrow> s
               | Some (_, st) \<Rightarrow>
                   if WIFEXITED st then set_status ssp_id (WEXITSTATUS st) s
                   else if WIFSIGNALED st then set_status ssp_id (WTERMSIG (status e) + 128) s
                   else s)
         in and_then (entry_at (processes s) ssp_id) (\<lambda>e. Inr (status e, s)))))"

definition ssp_send_signal :: "int \<Rightarrow> int \<Rightarrow> ssp \<Rightarrow> ssp ssp_result" where
  "ssp_send_signal ssp_id signum s =
    (if ssp_id \<ge> process_num s \<or> process_num s < 0 then Inr s
     else and_then (ssp_get_status ssp_id s) (\<lambda>(st, s).
       if st = -1
       then and_then (entry_at (processes s) ssp_id) (\<lambda>e.
         Inr (s\<lparr>signals := signals s @ [(pid e, signum)]\<rparr>))
       else Inr s))"

text \<open>One round of the loop of \<open>ssp_wait\<close>; \<open>waitpid\<close> writes the raw status into the entry.\<close>

definition wait_round :: "nat \<Rightarrow> ssp \<Rightarrow> ssp ssp_result" where
  "wait_round i s = and_then (entry_at (processes s) (int i)) (\<lambda>e.
    if status e \<noteq> -1 then Inr s
    else and_then (waitpid_blocking (pid e) s) (\<lambda>(r, s).
      case r of
        None \<Rightarrow> Inr s
      | Some st \<Rightarrow>
         (let s = set_status (int i) st s in
          if WIFEXITED st then Inr (set_status (int i) (WEXITSTATUS st) s)
          else if WIFSIGNALED st then Inr (set_status (int i) (WTERMSIG st + 128) s)
          else Inr s)))"

definition ssp_wait :: "ssp \<Rightarrow> ssp ssp_result" where
  "ssp_wait s = for_each wait_round [0..<nat (process_num s)] s"

section \<open>Orphans and printing\<close>

text \<open>
  \<open>record_unknown_processes\<close>.  The test for a signal reads the status field of the new entry
  before anything is stored there.  A known child that is found is skipped after \<open>waitpid\<close> has
  reaped it.
\<close>

definition known_pid :: "sub_process list option \<Rightarrow> int \<Rightarrow> int \<Rightarrow> bool ssp_result" where
  "known_pid tab num p = (if num \<le> 0 then Inr False else case tab of
      None \<Rightarrow> Inl Wild_pointer
    | Some ps \<Rightarrow> Inr (\<exists>e\<in>set (take (nat num) ps). pid e = p))"

definition record_one :: "int \<Rightarrow> u32 \<Rightarrow> ssp \<Rightarrow> ssp ssp_result" where
  "record_one p st s = and_then (known_pid (processes s) (process_num s) p) (\<lambda>found.
    if found then Inr s
    else
     (let ((ok, junk), s) = malloc s
      in if \<not> ok then Inl (Exit EXIT_FAILURE)
         else
          (let (duplicate, s) = strdup ''<unknown>'' s;
               entry_status =
               (if WIFEXITED st then WEXITSTATUS st
                else if WIFSIGNALED junk then WTERMSIG st + 128
                else junk)
           in and_then (store_entry (unknown_processes s) (unknown_processes_num s)
                (arr_size_unknown s) \<lparr>pid = p, name = duplicate, status = entry_status\<rparr>) (\<lambda>ps.
              let s = s\<lparr>unknown_processes := Some ps,
                        unknown_processes_num := unknown_processes_num s + 1\<rparr>;
                  s = (if unknown_processes_num s \<ge> arr_size_unknown s
                       then let ((arr, sz), s) =
                              size_increase (unknown_processes s) (arr_size_unknown s) s
                            in s\<lparr>unknown_processes := arr, arr_size_unknown := sz\<rparr>
                       else s)
              in Inr s))))"

text \<open>
  The loop around it ends because every round takes a report away and the script only ever gets
  shorter: \<open>work\<close> bounds the rounds.
\<close>

fun child_work :: "child \<Rightarrow> nat" where
  "child_work Running = 0"
| "child_work (Changed c) = 1"
| "child_work (Ended f) = 1"

definition children_work :: "children \<Rightarrow> nat" where
  "children_work cs = (\<Sum>(p, c) \<leftarrow> cs. child_work c)"

lemma children_work_simps [simp]:
  "children_work [] = 0" "children_work ((p, c) # cs) = child_work c + children_work cs"
  by (simp_all add: children_work_def)

lemma child_work_le_1: "child_work c \<le> 1"
  by (cases c) auto

lemma work_update_le: "children_work (AList.update p c cs) \<le> children_work cs + child_work c"
  by (induction cs) auto

lemma work_delete_le: "children_work (AList.delete p cs) \<le> children_work cs"
  by (induction cs) (auto simp: AList.delete_eq)

lemma work_happens: "children_work (happens e cs) \<le> Suc (children_work cs)"
proof -
  have le: "children_work (AList.update p c cs) \<le> Suc (children_work cs)" for p c
    using work_update_le [of p c cs] child_work_le_1 [of c] by linarith
  show ?thesis
    by (cases e) (auto simp: change_child_def le split: option.splits child.splits)
qed

lemma work_elapse:
  "elapse es cs = (cs', es') \<Longrightarrow>
    children_work cs' + 2 * length es' \<le> children_work cs + 2 * length es"
proof (induction es cs rule: elapse.induct)
  case (2 e es cs)
  then show ?case
    using work_happens [of e cs] by (cases "e = Time_passes") auto
qed simp

lemma reportable_Some:
  assumes "reportable changes cs = Some (p, c)"
  shows "map_of cs p = Some c" "report changes c \<noteq> None"
proof -
  from assms obtain ps where "filter (\<lambda>p. Option.bind (map_of cs p) (report changes) \<noteq> None) (map fst cs) = p # ps"
    and c: "map_of cs p = Some c"
    by (auto simp: reportable_def split: list.splits)
  then have "p \<in> set (filter (\<lambda>p. Option.bind (map_of cs p) (report changes) \<noteq> None) (map fst cs))" by simp
  with c show "map_of cs p = Some c" "report changes c \<noteq> None" by auto
qed

lemma work_collect:
  assumes "map_of cs p = Some c" "report changes c \<noteq> None"
  shows "children_work (collect p c cs) < children_work cs"
  using assms
proof (induction cs)
  case (Cons x cs)
  then show ?case
    using work_delete_le [of p cs] by (cases x; cases c) (auto split: if_splits simp: AList.delete_eq)
qed simp

text \<open>
  What a round of \<open>waitpid\<close> leaves to be done; the body of the loop leaves the children alone, so
  every round leaves less.
\<close>

definition work :: "ssp \<Rightarrow> nat" where
  "work s = children_work (children s) + 2 * length (script s)"

lemma waitpid_any_Some:
  assumes "waitpid_nohang None changes s = (Some (p, st), s')"
  obtains cs es c where "elapse (script s) (children s) = (cs, es)" "map_of cs p = Some c"
    "report changes c = Some st" "s' = s\<lparr>script := es, children := collect p c cs\<rparr>"
proof -
  obtain cs es where e: "elapse (script s) (children s) = (cs, es)" by fastforce
  obtain q c where r: "reportable changes cs = Some (q, c)"
    using assms by (cases "reportable changes cs") (auto simp: waitpid_nohang_def e Let_def)
  obtain st' where st': "report changes c = Some st'" using reportable_Some(2) [OF r] by auto
  have "(Some (q, st'), s\<lparr>script := es, children := collect q c cs\<rparr>) = (Some (p, st), s')"
    using assms by (auto simp: waitpid_nohang_def e Let_def r st')
  then have "q = p" "st' = st" "s' = s\<lparr>script := es, children := collect q c cs\<rparr>" by auto
  then show ?thesis using that [OF e] reportable_Some(1) [OF r] st' by simp
qed

lemma work_waitpid:
  assumes "waitpid_nohang None changes s = (Some (p, st), s')"
  shows "work s' < work s"
proof (rule waitpid_any_Some [OF assms])
  fix cs es c
  assume "elapse (script s) (children s) = (cs, es)" "map_of cs p = Some c"
    "report changes c = Some st" "s' = s\<lparr>script := es, children := collect p c cs\<rparr>"
  then show ?thesis
    using work_elapse [of "script s" "children s" cs es] work_collect [of cs p c changes]
    by (simp add: work_def)
qed

lemma size_increase_fields:
  "size_increase arr n s = ((if malloc_ok s (allocs s) then arr else None, n * 2), s\<lparr>allocs := Suc (allocs s)\<rparr>)"
  by (simp add: size_increase_def malloc_def Let_def)

lemma record_one_frame:
  assumes "record_one p st s = Inr s'"
  shows "children s' = children s \<and> script s' = script s"
proof -
  obtain found where f: "known_pid (processes s) (process_num s) p = Inr found"
    using assms by (auto simp: record_one_def result_simps)
  show ?thesis
  proof (cases "found \<or> \<not> malloc_ok s (allocs s)")
    case True
    then show ?thesis using assms by (auto simp: record_one_def f malloc_def Let_def split: if_splits)
  next
    case False
    then show ?thesis
      using assms
      by (auto simp: record_one_def f malloc_def strdup_def Let_def size_increase_fields and_then_eq_Inr split: if_splits)
  qed
qed

function record_unknown_processes :: "ssp \<Rightarrow> ssp ssp_result" where
  "record_unknown_processes s =
    (case waitpid_nohang None True s of
      (None, s) \<Rightarrow> Inr s
    | (Some (p, st), s) \<Rightarrow> and_then (record_one p st s) record_unknown_processes)"
  by pat_completeness auto
termination
proof (relation "measure work")
  fix s r s1 x p st s2
  assume "(r, s1) = waitpid_nohang None True s" "r = Some x" "(p, st) = x" "record_one p st s1 = Inr s2"
  then show "(s2, s) \<in> measure work"
    using work_waitpid [of True s p st s1] record_one_frame [of p st s1 s2] by (auto simp: work_def)
qed simp

declare record_unknown_processes.simps [simp del]

text \<open>
  \<open>ssp_print\<close>: \<open>space\<close> is the width of the command column, and the rows are printed one by one.
  A name is read through its pointer, by \<open>strlen\<close> or by the conversion \<open>%s\<close>.
\<close>

definition print_row :: "row \<Rightarrow> ssp \<Rightarrow> ssp" where
  "print_row r s = s\<lparr>printed := printed s @ [r]\<rparr>"

definition widen :: "nat \<Rightarrow> ssp \<Rightarrow> int \<Rightarrow> int ssp_result" where
  "widen i s space = and_then (entry_at (processes s) (int i)) (\<lambda>e.
    case name e of None \<Rightarrow> Inl Wild_pointer
    | Some str \<Rightarrow> let current = int (length str) in Inr (if current > space then current else space))"

definition print_known :: "int \<Rightarrow> nat \<Rightarrow> ssp \<Rightarrow> ssp ssp_result" where
  "print_known space i s = and_then (ssp_get_status (int i) s) (\<lambda>(st, s).
    and_then (entry_at (processes s) (int i)) (\<lambda>e. case name e of
      None \<Rightarrow> Inl Wild_pointer
    | Some str \<Rightarrow> Inr (print_row (Row (pid e) space str st) s)))"

definition print_unknown :: "nat \<Rightarrow> ssp \<Rightarrow> ssp ssp_result" where
  "print_unknown i s = and_then (entry_at (unknown_processes s) (int i)) (\<lambda>e.
    case name e of None \<Rightarrow> Inl Wild_pointer
    | Some str \<Rightarrow> Inr (print_row (Row (pid e) 9 str (status e)) s))"

definition ssp_print :: "ssp \<Rightarrow> ssp ssp_result" where
  "ssp_print s = and_then (for_each (\<lambda>i. widen i s) [0..<nat (process_num s)] 3) (\<lambda>space.
    let space = (if process_num s = 0 then 9 else space);
        s = print_row (Heading space) s
    in and_then (for_each (print_known space) [0..<nat (process_num s)] s) (\<lambda>s.
       and_then (record_unknown_processes s) (\<lambda>s.
       for_each print_unknown [0..<nat (unknown_processes_num s)] s)))"

section \<open>Clients\<close>

text \<open>The calls of the interface and a run of them.\<close>

datatype ssp_call =
    Create spawn "string list" int int int
  | Get_status int
  | Send_signal int int
  | Wait
  | Print

fun ssp_do :: "ssp_call \<Rightarrow> ssp \<Rightarrow> (u32 \<times> ssp) ssp_result" where
  "ssp_do (Create k argv fd0 fd1 fd2) s =
    and_then (ssp_create k argv fd0 fd1 fd2 s) (\<lambda>(i, s). Inr (word_of_int i, s))"
| "ssp_do (Get_status i) s = ssp_get_status i s"
| "ssp_do (Send_signal i sig) s = and_then (ssp_send_signal i sig s) (\<lambda>s. Inr (0, s))"
| "ssp_do Wait s = and_then (ssp_wait s) (\<lambda>s. Inr (0, s))"
| "ssp_do Print s = and_then (ssp_print s) (\<lambda>s. Inr (0, s))"

fun ssp_run :: "ssp_call list \<Rightarrow> ssp \<Rightarrow> ssp ssp_result" where
  "ssp_run [] s = Inr s"
| "ssp_run (c # cs) s = and_then (ssp_do c s) (\<lambda>(_, s). ssp_run cs s)"

end
