(* ===== verification/SspProps.thy ===== *)
theory SspProps
  imports Ssp
begin

text \<open>
  What the process supervisor guarantees: its tables stay consistent under every sequence of calls,
  statuses once recorded are final, \<open>ssp_wait\<close> collects the fate of every child, and the open files
  of a new process are the requested ones.  The deviation of \<open>ssp_get_status\<close> for killed children is
  part of what it is shown to return; the others are in \<open>SspRuns\<close>.
\<close>

section \<open>Decoding wait statuses\<close>

lemma and_7F: "x AND 0x7F = take_bit 7 (x :: u32)"
proof -
  have "(0x7F :: u32) = mask 7" by (simp add: mask_eq_exp_minus_1)
  then show ?thesis by (simp add: take_bit_eq_mask)
qed

lemma exited_status:
  "WIFEXITED (fate_status (Exited c))" "WEXITSTATUS (fate_status (Exited c)) = ucast c"
proof -
  have "take_bit 7 (push_bit 8 (ucast c :: u32)) = 0"
    by (rule bit_word_eqI) (auto simp: bit_simps)
  then show "WIFEXITED (fate_status (Exited c))" by (simp add: WIFEXITED_def WTERMSIG_def and_7F)
  have m: "(0xFF00 :: u32) = push_bit 8 (mask 8)" by (simp add: mask_eq_exp_minus_1 push_bit_eq_mult)
  show "WEXITSTATUS (fate_status (Exited c)) = ucast c"
    unfolding WEXITSTATUS_def m by (rule bit_word_eqI) (auto simp: bit_simps dest: bit_imp_le_length)
qed

lemma killed_status_table:
  "\<forall>sig \<in> set [1..<65]. \<forall>core \<in> {True, False}. let st = fate_status (Killed sig core) in
     \<not> WIFEXITED st \<and> WIFSIGNALED st \<and> WTERMSIG st = of_nat sig"
  by code_simp

lemma killed_status:
  assumes "fate_ok (Killed sig core)"
  shows "\<not> WIFEXITED (fate_status (Killed sig core))" "WIFSIGNALED (fate_status (Killed sig core))"
    "WTERMSIG (fate_status (Killed sig core)) = of_nat sig"
proof -
  have "sig \<in> set [1..<65]" "core \<in> {True, False}" using assms by auto
  with killed_status_table show "\<not> WIFEXITED (fate_status (Killed sig core))"
    "WIFSIGNALED (fate_status (Killed sig core))" "WTERMSIG (fate_status (Killed sig core)) = of_nat sig"
    unfolding Let_def by blast+
qed

text \<open>The code a shell gives a finished process.\<close>

fun shell_code :: "fate \<Rightarrow> u32" where
  "shell_code (Exited c) = ucast c"
| "shell_code (Killed sig core) = 128 + of_nat sig"

text \<open>A status of the table: -1 while the child runs, else at most 255.\<close>

definition code_ok :: "u32 \<Rightarrow> bool" where
  "code_ok st \<longleftrightarrow> st = -1 \<or> st < 256"

lemma shell_code_less:
  assumes "fate_ok f"
  shows "shell_code f < 256"
proof (cases f)
  case (Exited c)
  have "unat c < 2 ^ LENGTH(8)" by (rule unsigned_less)
  then have less: "unat c < 256" by simp
  have "unat (ucast c :: u32) = unat c" using less by (simp add: unsigned_ucast_eq take_bit_eq_mod)
  with less show ?thesis by (simp add: Exited word_less_nat_alt)
next
  case (Killed sig core)
  then have "sig \<le> 64" using assms by simp
  then have "unat (128 + of_nat sig :: u32) = 128 + sig"
    by (simp add: unat_word_ariths unsigned_of_nat take_bit_eq_mod)
  with \<open>sig \<le> 64\<close> show ?thesis by (simp add: Killed word_less_nat_alt)
qed

lemma take_bit_word_less: "unat (take_bit n (x :: u32)) < 2 ^ n"
  unfolding unsigned_take_bit_eq by (rule take_bit_nat_less_exp)

lemma termsig_less: "WTERMSIG st + 128 < 256"
proof -
  have "unat (WTERMSIG st) < 128"
    unfolding WTERMSIG_def and_7F using take_bit_word_less [of 7 st] by (rule less_le_trans) simp
  then show ?thesis by (simp add: word_less_nat_alt unat_word_ariths)
qed

lemma exitstatus_less: "WEXITSTATUS st < 256"
proof -
  have "WEXITSTATUS st = take_bit 8 (WEXITSTATUS st)"
  proof -
    have m: "(0xFF00 :: u32) = push_bit 8 (mask 8)" by (simp add: mask_eq_exp_minus_1 push_bit_eq_mult)
    show ?thesis unfolding WEXITSTATUS_def m by (rule bit_word_eqI) (auto simp: bit_simps)
  qed
  moreover have "take_bit 8 (WEXITSTATUS st) < 256"
    unfolding word_less_nat_alt using take_bit_word_less [of 8 "WEXITSTATUS st"] by (rule less_le_trans) simp
  ultimately show ?thesis by simp
qed

section \<open>The invariant\<close>

text \<open>
  What other processes do is possible; every table is an array with room for one more entry, whose
  written part has the counted length, the second unless a \<open>realloc\<close> of it has failed; every status of
  the first table is -1 or a byte.  \<open>grows\<close>: no id, name or recorded status changes.  \<open>denied\<close>: an
  allocation between two states has failed; only then is the second table lost or a name null.
\<close>

fun child_ok :: "child \<Rightarrow> bool" where
  "child_ok (Ended f) = fate_ok f"
| "child_ok c = True"

fun event_ok :: "os_event \<Rightarrow> bool" where
  "event_ok (Child_ends p f) = fate_ok f"
| "event_ok e = True"

definition kernel_ok :: "children \<Rightarrow> os_event list \<Rightarrow> bool" where
  "kernel_ok cs es \<longleftrightarrow> (\<forall>c \<in> ran (map_of cs). child_ok c) \<and> (\<forall>e \<in> set es. event_ok e)"

definition table_ok :: "sub_process list option \<Rightarrow> int \<Rightarrow> int \<Rightarrow> bool" where
  "table_ok tab num room \<longleftrightarrow> (\<exists>ps. tab = Some ps \<and> num = int (length ps) \<and> num < room)"

definition ssp_ok :: "ssp \<Rightarrow> bool" where
  "ssp_ok s \<longleftrightarrow> table_ok (processes s) (process_num s) (arr_size_proc s) \<and>
     (unknown_processes s \<noteq> None \<longrightarrow>
       table_ok (unknown_processes s) (unknown_processes_num s) (arr_size_unknown s)) \<and>
     (\<forall>e \<in> set (the (processes s)). code_ok (status e)) \<and>
     kernel_ok (children s) (script s)"

definition denied :: "ssp \<Rightarrow> ssp \<Rightarrow> bool" where
  "denied s t \<longleftrightarrow> (\<exists>n. allocs s \<le> n \<and> n < allocs t \<and> \<not> malloc_ok s n)"

definition broken :: "ssp \<Rightarrow> bool" where
  "broken s \<longleftrightarrow> unknown_processes s = None \<or>
     (\<exists>e \<in> set (the (processes s)) \<union> set (the (unknown_processes s)). name e = None)"

definition allocates :: "ssp \<Rightarrow> ssp \<Rightarrow> bool" where
  "allocates s t \<longleftrightarrow> malloc_ok t = malloc_ok s \<and> allocs s \<le> allocs t \<and> (broken t \<longrightarrow> broken s \<or> denied s t)"

definition kept :: "sub_process \<Rightarrow> sub_process \<Rightarrow> bool" where
  "kept e f \<longleftrightarrow> pid f = pid e \<and> name f = name e \<and> (status e \<noteq> -1 \<longrightarrow> status f = status e)"

definition grows :: "ssp \<Rightarrow> ssp \<Rightarrow> bool" where
  "grows s t \<longleftrightarrow> (\<exists>qs rs. processes t = Some (qs @ rs) \<and> list_all2 kept (the (processes s)) qs)"

definition advances :: "ssp \<Rightarrow> ssp \<Rightarrow> bool" where
  "advances s t \<longleftrightarrow> ssp_ok t \<and> grows s t \<and> allocates s t"

lemma allocates_refl [simp]: "allocates s s"
  by (simp add: allocates_def)

lemma denied_mono:
  "denied s t \<Longrightarrow> allocs t \<le> allocs u \<Longrightarrow> denied s u"
  "denied t u \<Longrightarrow> allocs s \<le> allocs t \<Longrightarrow> malloc_ok t = malloc_ok s \<Longrightarrow> denied s u"
  unfolding denied_def by (force, metis order_trans)

lemma allocates_trans: "allocates s t \<Longrightarrow> allocates t u \<Longrightarrow> allocates s u"
  unfolding allocates_def by (metis denied_mono order_trans)

lemma allocates_frame:
  "malloc_ok t = malloc_ok s \<Longrightarrow> allocs s \<le> allocs t \<Longrightarrow> processes t = processes s \<Longrightarrow>
    unknown_processes t = unknown_processes s \<Longrightarrow> allocates s t"
  by (simp add: allocates_def broken_def)

lemma kept_refl [simp]: "kept e e"
  by (simp add: kept_def)

lemma kept_trans: "kept e f \<Longrightarrow> kept f g \<Longrightarrow> kept e g"
  by (auto simp: kept_def)

lemma grows_refl: "processes s = Some ps \<Longrightarrow> grows s s"
  unfolding grows_def by (intro exI [of _ ps] exI [of _ "[]"]) (simp add: list.rel_refl)

lemma grows_trans:
  assumes "grows s t" "grows t u"
  shows "grows s u"
proof -
  obtain qs rs where 1: "processes t = Some (qs @ rs)" "list_all2 kept (the (processes s)) qs"
    using assms(1) by (auto simp: grows_def)
  obtain qs' rs' where 2: "processes u = Some (qs' @ rs')" "list_all2 kept (qs @ rs) qs'"
    using assms(2) 1(1) by (auto simp: grows_def)
  from 2(2) obtain us vs where 3: "qs' = us @ vs" "list_all2 kept qs us"
    by (auto simp: list_all2_append1)
  have "list_all2 kept (the (processes s)) us"
    using list_all2_trans [of kept kept kept] kept_trans 1(2) 3(2) by blast
  then show ?thesis using 2(1) 3(1) by (auto simp: grows_def)
qed

lemma ssp_ok_table:
  assumes "ssp_ok s"
  obtains ps where "processes s = Some ps" "process_num s = int (length ps)"
    "process_num s < arr_size_proc s" "\<forall>e \<in> set ps. code_ok (status e)"
  using assms by (auto simp: ssp_ok_def table_ok_def)

lemma advances_refl: "ssp_ok s \<Longrightarrow> advances s s"
  by (auto simp: advances_def elim!: ssp_ok_table intro: grows_refl)

lemma advances_trans: "advances s t \<Longrightarrow> advances t u \<Longrightarrow> advances s u"
  unfolding advances_def by (blast intro: grows_trans allocates_trans)

lemma kernel_ok_update:
  "kernel_ok cs es \<Longrightarrow> child_ok c \<Longrightarrow> kernel_ok (AList.update p c cs) es"
  by (auto simp: kernel_ok_def update_conv' ran_def)

lemma kernel_ok_delete: "kernel_ok cs es \<Longrightarrow> kernel_ok (AList.delete p cs) es"
  by (auto simp: kernel_ok_def delete_conv' ran_def)

lemma kernel_ok_collect: "kernel_ok cs es \<Longrightarrow> kernel_ok (collect p c cs) es"
  by (cases c) (simp_all add: kernel_ok_update kernel_ok_delete)

lemma kernel_ok_tail: "kernel_ok cs (e # es) \<Longrightarrow> kernel_ok cs es \<and> event_ok e"
  by (simp add: kernel_ok_def)

lemma kernel_ok_happens: "kernel_ok cs (e # es) \<Longrightarrow> kernel_ok (happens e cs) es"
  using kernel_ok_tail [of cs e es]
  by (cases e) (auto simp: change_child_def kernel_ok_update split: option.split child.split)

lemma kernel_ok_elapse: "elapse es cs = (cs', es') \<Longrightarrow> kernel_ok cs es \<Longrightarrow> kernel_ok cs' es'"
proof (induction es cs rule: elapse.induct)
  case (2 e es cs)
  then show ?case
    using kernel_ok_tail [of cs e es] kernel_ok_happens [of cs e es] by (auto split: if_splits)
qed simp

lemma child_fate_ok: "kernel_ok cs es \<Longrightarrow> map_of cs p = Some (Ended f) \<Longrightarrow> fate_ok f"
  unfolding kernel_ok_def by (metis child_ok.simps(1) ranI)

lemma advances_kernel:
  "ssp_ok s \<Longrightarrow> kernel_ok cs es \<Longrightarrow> advances s (s\<lparr>children := cs, script := es\<rparr>)"
  "ssp_ok s \<Longrightarrow> kernel_ok cs es \<Longrightarrow> advances s (s\<lparr>script := es, children := cs\<rparr>)"
  using advances_refl [of s] by (simp_all add: advances_def grows_def ssp_ok_def allocates_frame)

lemma waitpid_nohang_advances:
  assumes "ssp_ok s" "waitpid_nohang target changes s = (r, s')"
  shows "advances s s'" "processes s' = processes s"
proof -
  obtain cs es where e: "elapse (script s) (children s) = (cs, es)" by fastforce
  have ok: "kernel_ok cs es" using kernel_ok_elapse [OF e] assms(1) by (simp add: ssp_ok_def)
  have "s' = s\<lparr>children := cs, script := es\<rparr> \<or> (\<exists>p c. s' = s\<lparr>script := es, children := collect p c cs\<rparr>)"
    using assms(2) by (simp add: waitpid_nohang_def e Let_def split: option.splits prod.splits) blast+
  moreover have "advances s (s\<lparr>script := es, children := collect p c cs\<rparr>)" for p c
    by (rule advances_kernel(2) [OF assms(1) kernel_ok_collect [OF ok]])
  ultimately show "advances s s'" "processes s' = processes s" using advances_kernel(1) [OF assms(1) ok] by auto
qed

lemma set_status_fields [simp]:
  "process_num (set_status i st s) = process_num s" "children (set_status i st s) = children s"
  "script (set_status i st s) = script s" "arr_size_proc (set_status i st s) = arr_size_proc s"
  "processes s = Some ps \<Longrightarrow> processes (set_status i st s) = Some (ps[nat i := (ps ! nat i)\<lparr>status := st\<rparr>])"
  by (simp_all add: set_status_def)

lemma set_status_twice:
  "i < length ps \<Longrightarrow> processes s = Some ps \<Longrightarrow>
    set_status (int i) a (set_status (int i) b s) = set_status (int i) a s"
  by (simp add: set_status_def)

lemma advances_set_status:
  assumes "ssp_ok s" "processes s = Some ps" "i < length ps" "status (ps ! i) = -1" "code_ok st"
  shows "advances s (set_status (int i) st s)"
proof -
  let ?qs = "ps[i := (ps ! i)\<lparr>status := st\<rparr>]"
  have "set ?qs \<subseteq> insert ((ps ! i)\<lparr>status := st\<rparr>) (set ps)" by (rule set_update_subset_insert)
  then have "\<forall>e \<in> set ?qs. code_ok (status e)" using assms by (auto simp: ssp_ok_def)
  then have "ssp_ok (set_status (int i) st s)"
    using assms(1,2) by (simp add: ssp_ok_def set_status_def table_ok_def)
  moreover have "list_all2 kept ps ?qs"
    using assms(3,4) by (auto simp: list_all2_conv_all_nth nth_list_update kept_def)
  then have "grows s (set_status (int i) st s)" using assms(2) by (auto simp: grows_def)
  moreover have n: "\<exists>d \<in> set ps. name d = None" if "e \<in> set ?qs" "name e = None" for e
  proof -
    have "e = (ps ! i)\<lparr>status := st\<rparr> \<or> e \<in> set ps"
      using that(1) \<open>set ?qs \<subseteq> insert ((ps ! i)\<lparr>status := st\<rparr>) (set ps)\<close> by blast
    then show ?thesis using that(2) nth_mem [OF assms(3)] by auto
  qed
  have "broken (set_status (int i) st s) \<Longrightarrow> broken s"
    unfolding broken_def using n assms(2) by (auto simp: set_status_def)
  then have "allocates s (set_status (int i) st s)" by (simp add: allocates_def set_status_def)
  ultimately show ?thesis by (simp add: advances_def)
qed

lemma entry_at_Some:
  "i < length ps \<Longrightarrow> entry_at (Some ps) (int i) = Inr (ps ! i)"
  by (simp add: entry_at_def)

section \<open>Every operation advances the table\<close>

lemma code_ok_simps [simp]: "code_ok (-1)" "code_ok (WEXITSTATUS st)" "code_ok (WTERMSIG st + 128)"
  by (simp_all add: code_ok_def exitstatus_less termsig_less)

lemma get_status_advances:
  assumes "ssp_ok s"
  shows "\<exists>st t. ssp_get_status i s = Inr (st, t) \<and> advances s t"
proof (cases "i \<ge> process_num s \<or> i < 0")
  case True
  then show ?thesis using advances_refl [OF assms] by (simp add: ssp_get_status_def)
next
  case False
  obtain ps where ps: "processes s = Some ps" "process_num s = int (length ps)"
    by (rule ssp_ok_table [OF assms])
  obtain k where k: "i = int k" "k < length ps" using False ps(2) by (metis int_nat_eq not_less of_nat_less_iff)
  note at = entry_at_Some [OF k(2)]
  show ?thesis
  proof (cases "status (ps ! k) = -1")
    case True
    obtain r s1 where w: "waitpid_nohang (Some (pid (ps ! k))) False s = (r, s1)" by fastforce
    note a = waitpid_nohang_advances [OF assms w]
    have ok1: "ssp_ok s1" "processes s1 = Some ps" using a ps(1) by (simp_all add: advances_def)
    define t where "t = (case r of None \<Rightarrow> s1 | Some (_, st) \<Rightarrow>
      if WIFEXITED st then set_status (int k) (WEXITSTATUS st) s1
      else if WIFSIGNALED st then set_status (int k) (WTERMSIG (status (ps ! k)) + 128) s1 else s1)"
    have set1: "advances s1 (set_status (int k) st s1)" if "code_ok st" for st
      by (rule advances_set_status [OF ok1 k(2) True that])
    have t: "advances s1 t" using advances_refl [OF ok1(1)] set1 by (auto simp: t_def split: option.split)
    obtain e where "entry_at (processes t) i = Inr e"
    proof -
      obtain qs where "processes t = Some qs" "length ps \<le> length qs"
        using t ok1(2) by (auto simp: advances_def grows_def dest: list_all2_lengthD)
      then show ?thesis using that k entry_at_Some [of k qs] by auto
    qed
    then have "ssp_get_status i s = Inr (status e, t)"
      using False True by (simp add: ssp_get_status_def ps(1) k(1) at w Let_def t_def [symmetric])
    then show ?thesis using advances_trans [OF a(1) t] by blast
  next
    case known: False
    then show ?thesis using False advances_refl [OF assms] by (simp add: ssp_get_status_def ps(1) k(1) at)
  qed
qed

lemma send_signal_advances:
  assumes "ssp_ok s" "0 \<le> i"
  shows "\<exists>t. ssp_send_signal i sig s = Inr t \<and> advances s t"
proof (cases "i \<ge> process_num s")
  case True
  then show ?thesis using advances_refl [OF assms(1)] by (simp add: ssp_send_signal_def)
next
  case False
  obtain ps where ps: "processes s = Some ps" "process_num s = int (length ps)"
    by (rule ssp_ok_table [OF assms(1)])
  obtain st t where g: "ssp_get_status i s = Inr (st, t)" "advances s t"
    using get_status_advances [OF assms(1)] by blast
  obtain qs where "processes t = Some qs" "length ps \<le> length qs"
    using g(2) ps(1) by (auto simp: advances_def grows_def dest: list_all2_lengthD)
  then obtain e where e: "entry_at (processes t) i = Inr e"
    using False assms(2) ps(2) by (auto simp: entry_at_def)
  have "advances t (t\<lparr>signals := signals t @ [(pid e, sig)]\<rparr>)"
    using g(2) advances_refl [of t] by (simp add: advances_def grows_def ssp_ok_def allocates_frame)
  then show ?thesis
    using False assms(2) g e advances_trans [OF g(2)] by (auto simp: ssp_send_signal_def)
qed

section \<open>Waiting\<close>

text \<open>How child \<open>p\<close> ends: it has ended, or the script holds its first end.\<close>

fun first_end :: "int \<Rightarrow> os_event list \<Rightarrow> fate option" where
  "first_end p [] = None"
| "first_end p (e # es) = (case e of
      Child_ends q f \<Rightarrow> if q = p then Some f else first_end p es
    | _ \<Rightarrow> first_end p es)"

definition fate_of :: "int \<Rightarrow> os_event list \<Rightarrow> children \<Rightarrow> fate option" where
  "fate_of p es cs = (case map_of cs p of
      None \<Rightarrow> None
    | Some (Ended f) \<Rightarrow> Some f
    | Some _ \<Rightarrow> first_end p es)"

lemma fate_of_happens:
  assumes "map_of cs p \<noteq> None"
  shows "map_of (happens e cs) p \<noteq> None" "fate_of p es (happens e cs) = fate_of p (e # es) cs"
  using assms
  by (cases e; fastforce simp: fate_of_def change_child_def update_conv' split: option.split child.split)+

lemma fate_of_ok:
  assumes "kernel_ok cs es" "fate_of p es cs = Some f"
  shows "fate_ok f"
proof -
  have "first_end p es = Some f \<Longrightarrow> \<forall>e \<in> set es. event_ok e \<Longrightarrow> fate_ok f"
    by (induction es) (auto split: os_event.splits if_splits)
  then show ?thesis
    using assms child_fate_ok [OF assms(1), of p]
    by (auto simp: fate_of_def kernel_ok_def split: option.splits child.splits)
qed

lemma fate_of_delete: "q \<noteq> p \<Longrightarrow> map_of (AList.delete p cs) q = map_of cs q"
    "q \<noteq> p \<Longrightarrow> fate_of q es (AList.delete p cs) = fate_of q es cs"
  by (simp_all add: fate_of_def delete_conv')

text \<open>
  \<open>waitpid\<close> for a child returns its fate if it has one and blocks otherwise; the other children are
  still there and have the same fate as before.
\<close>

lemma wait_for_child:
  assumes "map_of cs p \<noteq> None"
  shows "case fate_of p es cs of
      None \<Rightarrow> wait_for p es cs = Inl Blocks
    | Some f \<Rightarrow> \<exists>cs' es'. wait_for p es cs = Inr (Some (fate_status f), AList.delete p cs', es') \<and>
        (\<forall>q. map_of cs q \<noteq> None \<longrightarrow> map_of cs' q \<noteq> None \<and> fate_of q es' cs' = fate_of q es cs)"
  using assms
proof (induction es arbitrary: cs)
  case Nil
  then show ?case by (auto simp: fate_of_def split: option.splits child.splits)
next
  case (Cons e es)
  then obtain c where c: "map_of cs p = Some c" by auto
  show ?case
  proof (cases "\<exists>f. c = Ended f")
    case True
    then obtain f where "c = Ended f" by blast
    then have "fate_of p (e # es) cs = Some f"
      "wait_for p (e # es) cs = Inr (Some (fate_status f), AList.delete p cs, e # es)"
      using c by (simp_all add: fate_of_def)
    then show ?thesis by auto
  next
    case False
    then have w: "wait_for p (e # es) cs = wait_for p es (happens e cs)" using c by (cases c) simp_all
    note h = fate_of_happens [where e = e]
    have "map_of (happens e cs) p \<noteq> None" by (rule h(1) [OF Cons.prems])
    note IH = Cons.IH [OF this, unfolded h(2) [OF Cons.prems], folded w]
    show ?thesis
    proof (cases "fate_of p (e # es) cs")
      case (Some f)
      with IH obtain cs' es' where "wait_for p (e # es) cs = Inr (Some (fate_status f), AList.delete p cs', es')"
        and q: "\<And>q. map_of (happens e cs) q \<noteq> None \<Longrightarrow> map_of cs' q \<noteq> None"
          "\<And>q. map_of (happens e cs) q \<noteq> None \<Longrightarrow> fate_of q es' cs' = fate_of q es (happens e cs)" by auto
      moreover have "map_of cs' q \<noteq> None \<and> fate_of q es' cs' = fate_of q (e # es) cs" if "map_of cs q \<noteq> None" for q
        using q(1) [OF h(1) [OF that]] q(2) [OF h(1) [OF that]] h(2) [OF that] by simp
      ultimately show ?thesis unfolding Some option.case by blast
    qed (use IH in simp)
  qed
qed

lemma wait_for_result:
  assumes "kernel_ok cs es"
  shows "case wait_for p es cs of
      Inl e \<Rightarrow> e = Blocks
    | Inr (r, cs', es') \<Rightarrow> kernel_ok cs' es' \<and> (\<forall>st. r = Some st \<longrightarrow> (\<exists>f. fate_ok f \<and> st = fate_status f))"
  using assms
proof (induction es arbitrary: cs)
  case Nil
  then show ?case
    using child_fate_ok [OF Nil, of p] by (auto simp: kernel_ok_delete split: option.split child.split)
next
  case (Cons e es)
  then show ?case
    using child_fate_ok [OF Cons.prems, of p] Cons.IH [OF kernel_ok_happens [OF Cons.prems]]
    by (auto simp: kernel_ok_delete split: option.split child.split)
qed

text \<open>The status \<open>ssp_wait\<close> leaves in the table is the code of the fate, for killed children too.\<close>

lemma record_fate:
  assumes "fate_ok f" "processes s = Some ps" "k < length ps"
  shows "(let s = set_status (int k) (fate_status f) s in
      if WIFEXITED (fate_status f) then Inr (set_status (int k) (WEXITSTATUS (fate_status f)) s)
      else if WIFSIGNALED (fate_status f) then Inr (set_status (int k) (WTERMSIG (fate_status f) + 128) s)
      else Inr s) = (Inr (set_status (int k) (shell_code f) s) :: ssp ssp_result)"
proof (cases f)
  case (Exited c)
  then show ?thesis
    using exited_status [of c] set_status_twice [OF assms(3,2)] by (simp add: Let_def del: fate_status.simps)
next
  case (Killed sig core)
  then show ?thesis
    using killed_status [OF assms(1) [unfolded Killed]] set_status_twice [OF assms(3,2)]
    by (simp add: Let_def add.commute del: fate_status.simps)
qed

lemma wait_round_done:
  "processes s = Some ps \<Longrightarrow> k < length ps \<Longrightarrow> status (ps ! k) \<noteq> -1 \<Longrightarrow> wait_round k s = Inr s"
  by (simp add: wait_round_def entry_at_Some)

lemma wait_round_child:
  assumes "processes s = Some ps" "k < length ps" "status (ps ! k) = -1"
    and "wait_for (pid (ps ! k)) (script s) (children s) = Inr (Some (fate_status f), cs, es)" "fate_ok f"
  shows "wait_round k s = Inr (set_status (int k) (shell_code f) (s\<lparr>children := cs, script := es\<rparr>))"
  using assms(1-4) record_fate [OF assms(5), of "s\<lparr>children := cs, script := es\<rparr>" ps k]
  by (simp add: wait_round_def entry_at_Some waitpid_blocking_def)

lemma wait_round_blocks:
  "processes s = Some ps \<Longrightarrow> k < length ps \<Longrightarrow> status (ps ! k) = -1 \<Longrightarrow>
    wait_for (pid (ps ! k)) (script s) (children s) = Inl e \<Longrightarrow> wait_round k s = Inl e"
  by (simp add: wait_round_def entry_at_Some waitpid_blocking_def)

lemma wait_round_advances:
  assumes "ssp_ok s" "int k < process_num s"
  shows "outcome (\<lambda>e. e = Blocks) (advances s) (wait_round k s)"
proof -
  obtain ps where ps: "processes s = Some ps" "process_num s = int (length ps)"
    by (rule ssp_ok_table [OF assms(1)])
  have k: "k < length ps" using assms(2) ps(2) by simp
  show ?thesis
  proof (cases "status (ps ! k) = -1")
    case True
    have ok: "kernel_ok (children s) (script s)" using assms(1) by (simp add: ssp_ok_def)
    note r = wait_for_result [OF ok, of "pid (ps ! k)"]
    show ?thesis
    proof (cases "wait_for (pid (ps ! k)) (script s) (children s)")
      case (Inl e)
      then show ?thesis
        using r True wait_round_blocks [OF ps(1) k True] by simp
    next
      case (Inr x)
      obtain st cs es where x: "x = (st, cs, es)" by (cases x)
      let ?s = "s\<lparr>children := cs, script := es\<rparr>"
      have a: "advances s ?s" using r Inr x by (intro advances_kernel(1) [OF assms(1)]) simp
      show ?thesis
      proof (cases st)
        case None
        then show ?thesis
          using a True Inr x by (simp add: wait_round_def ps(1) entry_at_Some [OF k] waitpid_blocking_def)
      next
        case (Some w)
        then obtain f where f: "fate_ok f" "w = fate_status f" using r Inr x by auto
        have "code_ok (shell_code f)" using shell_code_less [OF f(1)] by (simp add: code_ok_def)
        then have "advances ?s (set_status (int k) (shell_code f) ?s)"
          using a ps(1) k True by (intro advances_set_status) (simp_all add: advances_def)
        then show ?thesis
          using wait_round_child [OF ps(1) k True _ f(1)] Inr x Some f(2) advances_trans [OF a] by simp
      qed
    qed
  next
    case False
    then show ?thesis using wait_round_done [OF ps(1) k] advances_refl [OF assms(1)] by simp
  qed
qed

lemma advances_num:
  assumes "ssp_ok s" "advances s t"
  shows "process_num s \<le> process_num t"
proof -
  obtain ps where ps: "processes s = Some ps" "process_num s = int (length ps)"
    by (rule ssp_ok_table [OF assms(1)])
  obtain qs where "processes t = Some qs" "process_num t = int (length qs)"
    using assms(2) unfolding advances_def by (meson ssp_ok_table)
  then show ?thesis using assms(2) ps by (auto simp: advances_def grows_def dest: list_all2_lengthD)
qed

lemma wait_advances:
  assumes "ssp_ok s"
  shows "outcome (\<lambda>e. e = Blocks) (advances s) (ssp_wait s)"
  unfolding ssp_wait_def
proof (rule for_each_upt_outcome [where I = "\<lambda>_. advances s"])
  show "advances s s" by (rule advances_refl [OF assms])
  fix i t assume i: "i < nat (process_num s)" and t: "advances s t"
  have "outcome (\<lambda>e. e = Blocks) (advances t) (wait_round i t)"
    using t i advances_num [OF assms t] by (intro wait_round_advances) (auto simp: advances_def)
  then show "outcome (\<lambda>e. e = Blocks) (advances s) (wait_round i t)"
    by (rule outcome_mono) (use advances_trans [OF t] in auto)
qed

text \<open>The entry \<open>ssp_wait\<close> leaves for an entry of the table.\<close>

definition finished :: "ssp \<Rightarrow> sub_process \<Rightarrow> sub_process" where
  "finished s e = (if status e \<noteq> -1 then e
     else e\<lparr>status := shell_code (the (fate_of (pid e) (script s) (children s)))\<rparr>)"

definition has_fate :: "ssp \<Rightarrow> sub_process \<Rightarrow> bool" where
  "has_fate s e \<longleftrightarrow> (status e = -1 \<longrightarrow> fate_of (pid e) (script s) (children s) \<noteq> None)"

text \<open>Every entry without a status is a child of the process, and no two of them have the same id.\<close>

definition tracked :: "ssp \<Rightarrow> bool" where
  "tracked s \<longleftrightarrow> distinct (map pid (filter (\<lambda>e. status e = -1) (the (processes s)))) \<and>
     (\<forall>e \<in> set (the (processes s)). status e = -1 \<longrightarrow> map_of (children s) (pid e) \<noteq> None)"

lemma tracked_other:
  assumes "distinct (map pid (filter (\<lambda>e. status e = -1) ps))" "k < length ps" "status (ps ! k) = -1"
    and "e \<in> set (drop (Suc k) ps)" "status e = -1"
  shows "pid e \<noteq> pid (ps ! k)"
proof -
  have "ps = take k ps @ ps ! k # drop (Suc k) ps" using assms(2) by (rule id_take_nth_drop)
  then have "distinct (map pid (filter (\<lambda>e. status e = -1) (take k ps @ ps ! k # drop (Suc k) ps)))"
    using assms(1) by simp
  then show ?thesis using assms(3-5) by (auto simp: image_iff)
qed

text \<open>
  \<open>rounds_done s ps k t\<close>: after \<open>k\<close> rounds of the loop that started in \<open>s\<close> with the entries \<open>ps\<close>, the first \<open>k\<close>
  entries have their final status and the fates of the children of the others are what they were.
\<close>

definition rounds_done :: "ssp \<Rightarrow> sub_process list \<Rightarrow> nat \<Rightarrow> ssp \<Rightarrow> bool" where
  "rounds_done s ps k t \<longleftrightarrow> (\<exists>cs es.
     t = s\<lparr>processes := Some (map (finished s) (take k ps) @ drop k ps), children := cs, script := es\<rparr> \<and>
     kernel_ok cs es \<and> (\<forall>e \<in> set (drop k ps). status e = -1 \<longrightarrow>
       map_of cs (pid e) \<noteq> None \<and> fate_of (pid e) es cs = fate_of (pid e) (script s) (children s)))"

lemma finished_prefix:
  assumes "k < length ps"
  shows "(map f (take k ps) @ drop k ps)[k := f (ps ! k)] = map f (take (Suc k) ps) @ drop (Suc k) ps"
    "(map f (take k ps) @ drop k ps) ! k = ps ! k" "k < length (map f (take k ps) @ drop k ps)"
    "drop k ps = ps ! k # drop (Suc k) ps"
  using assms by (simp_all add: Cons_nth_drop_Suc [symmetric] take_Suc_conv_app_nth list_update_append nth_append)

lemma round_finished:
  assumes "rounds_done s ps k t" "k < length ps" "status (ps ! k) \<noteq> -1"
  shows "wait_round k t = Inr t \<and> rounds_done s ps (Suc k) t"
proof -
  note F = finished_prefix [OF assms(2)]
  obtain cs es where t: "t = s\<lparr>processes := Some (map (finished s) (take k ps) @ drop k ps),
      children := cs, script := es\<rparr>" "kernel_ok cs es"
    and rest: "\<forall>e \<in> set (drop k ps). status e = -1 \<longrightarrow>
       map_of cs (pid e) \<noteq> None \<and> fate_of (pid e) es cs = fate_of (pid e) (script s) (children s)"
    using assms(1) unfolding rounds_done_def by blast
  have "wait_round k t = Inr t"
    using F(2,3) assms(3) t(1) by (intro wait_round_done [of _ "map (finished s) (take k ps) @ drop k ps"]) simp_all
  moreover have "finished s (ps ! k) = ps ! k" using assms(3) by (simp add: finished_def)
  then have same: "map (finished s) (take (Suc k) ps) @ drop (Suc k) ps = map (finished s) (take k ps) @ drop k ps"
    using F(1) [of "finished s"] F(2) [of "finished s"] by (metis list_update_id)
  moreover have "set (drop (Suc k) ps) \<subseteq> set (drop k ps)" unfolding F(4) by auto
  ultimately show ?thesis using t rest unfolding rounds_done_def same by blast
qed

lemma round_waits:
  assumes "ssp_ok s" "processes s = Some ps" "tracked s" "rounds_done s ps k t" "k < length ps"
    and e: "status (ps ! k) = -1" "has_fate s (ps ! k)"
  shows "\<exists>t'. wait_round k t = Inr t' \<and> rounds_done s ps (Suc k) t'"
proof -
  let ?e = "ps ! k" and ?qs = "map (finished s) (take k ps) @ drop k ps"
  note F = finished_prefix [OF assms(5)]
  obtain cs es where t: "t = s\<lparr>processes := Some ?qs, children := cs, script := es\<rparr>" and ok: "kernel_ok cs es"
    and rest: "\<And>e. e \<in> set (drop k ps) \<Longrightarrow> status e = -1 \<Longrightarrow> map_of cs (pid e) \<noteq> None \<and>
      fate_of (pid e) es cs = fate_of (pid e) (script s) (children s)"
    using assms(4) unfolding rounds_done_def by blast
  have c: "map_of cs (pid ?e) \<noteq> None" "fate_of (pid ?e) es cs = fate_of (pid ?e) (script s) (children s)"
    using rest [of ?e] e(1) F(4) by simp_all
  obtain f where f: "fate_of (pid ?e) es cs = Some f" using e c(2) by (auto simp: has_fate_def)
  from wait_for_child [OF c(1), of es, unfolded f] obtain cs' es' where
    w: "wait_for (pid ?e) es cs = Inr (Some (fate_status f), AList.delete (pid ?e) cs', es')"
    and o: "\<And>q. map_of cs q \<noteq> None \<Longrightarrow> map_of cs' q \<noteq> None \<and> fate_of q es' cs' = fate_of q es cs" by auto
  have fin: "finished s ?e = ?e\<lparr>status := shell_code f\<rparr>" using e(1) f c(2) by (simp add: finished_def)
  let ?t' = "s\<lparr>processes := Some (map (finished s) (take (Suc k) ps) @ drop (Suc k) ps),
      children := AList.delete (pid ?e) cs', script := es'\<rparr>"
  have "wait_round k t = Inr (set_status (int k) (shell_code f)
      (t\<lparr>children := AList.delete (pid ?e) cs', script := es'\<rparr>))"
    using F(2,3) e(1) w fate_of_ok [OF ok f] t by (intro wait_round_child [of _ ?qs]) simp_all
  also have "\<dots> = Inr ?t'"
    using F(1) [of "finished s"] F(2) [of "finished s"] t unfolding fin by (simp add: set_status_def)
  finally have run: "wait_round k t = Inr ?t'" .
  have "map_of (AList.delete (pid ?e) cs') (pid x) \<noteq> None \<and>
      fate_of (pid x) es' (AList.delete (pid ?e) cs') = fate_of (pid x) (script s) (children s)"
    if x: "x \<in> set (drop (Suc k) ps)" "status x = -1" for x
  proof -
    have "pid x \<noteq> pid ?e" using tracked_other [OF _ assms(5) e(1) x] assms(2,3) by (simp add: tracked_def)
    then show ?thesis using rest [of x] x F(4) o [of "pid x"] fate_of_delete [of "pid x" "pid ?e"] by simp
  qed
  moreover have "kernel_ok (AList.delete (pid ?e) cs') es'" using wait_for_result [OF ok, of "pid ?e"] w by simp
  ultimately have "rounds_done s ps (Suc k) ?t'" unfolding rounds_done_def by blast
  with run show ?thesis by blast
qed

lemma wait_rounds:
  assumes "ssp_ok s" "processes s = Some ps" "tracked s" "n \<le> length ps" "\<forall>e \<in> set (take n ps). has_fate s e"
  shows "\<exists>t. for_each wait_round [0..<n] s = Inr t \<and> rounds_done s ps n t"
  using assms(4,5)
proof (induction n)
  case 0
  show ?case
    using assms(1-3) unfolding rounds_done_def
    by (intro exI [of _ s] conjI exI [of _ "children s"] exI [of _ "script s"]) (simp_all add: ssp_ok_def tracked_def)
next
  case (Suc k)
  then have k: "k < length ps" and f: "has_fate s (ps ! k)" by (simp_all add: take_Suc_conv_app_nth)
  from Suc obtain t where t: "for_each wait_round [0..<k] s = Inr t" "rounds_done s ps k t"
    by (auto dest: in_set_takeD simp: take_Suc_conv_app_nth)
  have "\<exists>t'. wait_round k t = Inr t' \<and> rounds_done s ps (Suc k) t'"
    using round_finished [OF t(2) k] round_waits [OF assms(1-3) t(2) k _ f] by (cases "status (ps ! k) = -1") auto
  then show ?case using t(1) by (auto simp: for_each_append)
qed

lemma wait_rounds_block:
  assumes "ssp_ok s" "processes s = Some ps" "tracked s" "n \<le> length ps" "\<exists>e \<in> set (take n ps). \<not> has_fate s e"
  shows "for_each wait_round [0..<n] s = Inl Blocks"
  using assms(4,5)
proof (induction n)
  case (Suc k)
  have k: "k < length ps" using Suc.prems(1) by simp
  show ?case
  proof (cases "\<exists>e \<in> set (take k ps). \<not> has_fate s e")
    case True
    then show ?thesis using Suc by (simp add: for_each_append)
  next
    case False
    then obtain cs es where run: "for_each wait_round [0..<k] s =
        Inr (s\<lparr>processes := Some (map (finished s) (take k ps) @ drop k ps), children := cs, script := es\<rparr>)"
      and rest: "\<forall>e \<in> set (drop k ps). status e = -1 \<longrightarrow>
        map_of cs (pid e) \<noteq> None \<and> fate_of (pid e) es cs = fate_of (pid e) (script s) (children s)"
      using wait_rounds [OF assms(1-3), of k] k unfolding rounds_done_def by auto
    have "\<not> has_fate s (ps ! k)" using Suc.prems(2) False k by (auto simp: take_Suc_conv_app_nth)
    then have e: "status (ps ! k) = -1" "fate_of (pid (ps ! k)) (script s) (children s) = None"
      by (simp_all add: has_fate_def)
    have "ps ! k \<in> set (drop k ps)" using k by (metis Cons_nth_drop_Suc list.set_intros(1))
    with rest e have c: "map_of cs (pid (ps ! k)) \<noteq> None" "fate_of (pid (ps ! k)) es cs = None" by simp_all
    from wait_for_child [OF c(1), of es, unfolded c(2)]
    have "wait_for (pid (ps ! k)) es cs = Inl Blocks" by simp
    then have "wait_round k (s\<lparr>processes := Some (map (finished s) (take k ps) @ drop k ps), children := cs,
        script := es\<rparr>) = Inl Blocks"
      using e k by (intro wait_round_blocks [of _ "map (finished s) (take k ps) @ drop k ps"])
        (simp_all add: nth_append)
    then show ?thesis using run by (simp add: for_each_append)
  qed
qed simp

text \<open>
  C27: \<open>ssp_wait\<close> collects every child. If every process without a status is a child with an id of its
  own, the call returns exactly when each of them ends at some point, whatever the order, and then
  every entry holds the code a shell gives that end; entries that had a status keep it. If a child
  never ends the call blocks.
\<close>

theorem ssp_wait_collects:
  assumes "ssp_ok s" "tracked s" "processes s = Some ps"
  shows "if \<forall>e \<in> set ps. status e = -1 \<longrightarrow> fate_of (pid e) (script s) (children s) \<noteq> None
    then \<exists>t. ssp_wait s = Inr t \<and> processes t = Some (map (\<lambda>e. if status e \<noteq> -1 then e
      else e\<lparr>status := shell_code (the (fate_of (pid e) (script s) (children s)))\<rparr>) ps)
    else ssp_wait s = Inl Blocks"
proof -
  have n: "nat (process_num s) = length ps" using assms(1,3) by (auto simp: ssp_ok_def table_ok_def)
  have fin: "finished s = (\<lambda>e. if status e \<noteq> -1 then e
      else e\<lparr>status := shell_code (the (fate_of (pid e) (script s) (children s)))\<rparr>)"
    by (rule ext) (simp add: finished_def)
  show ?thesis
  proof (cases "\<forall>e \<in> set ps. has_fate s e")
    case True
    with wait_rounds [OF assms(1,3,2), of "length ps"] show ?thesis
      by (auto simp: ssp_wait_def n has_fate_def fin rounds_done_def)
  next
    case False
    with wait_rounds_block [OF assms(1,3,2), of "length ps"] show ?thesis
      by (auto simp: ssp_wait_def n has_fate_def)
  qed
qed

text \<open>
  C36: \<open>ssp_get_status\<close> for a process without a status: if the child has ended by the time of the call,
  it is reaped and its code recorded and returned, else -1 is returned. The code is the exit status of
  a child that exits, but 255 for every child killed by a signal, whatever the signal, because the
  table's old status -1 is decoded in place of the new one; \<open>ssp_wait\<close> records 128 and the signal.
\<close>

theorem ssp_get_status_result:
  assumes "ssp_ok s" "processes s = Some ps" "k < length ps" "status (ps ! k) = -1"
    and "elapse (script s) (children s) = (cs, es)"
  shows "ssp_get_status (int k) s = (case map_of cs (pid (ps ! k)) of
      Some (Ended (Exited c)) \<Rightarrow> Inr (ucast c, s\<lparr>processes := Some (ps[k := (ps ! k)\<lparr>status := ucast c\<rparr>]),
        children := AList.delete (pid (ps ! k)) cs, script := es\<rparr>)
    | Some (Ended (Killed sig core)) \<Rightarrow> Inr (255, s\<lparr>processes := Some (ps[k := (ps ! k)\<lparr>status := 255\<rparr>]),
        children := AList.delete (pid (ps ! k)) cs, script := es\<rparr>)
    | _ \<Rightarrow> Inr (-1, s\<lparr>children := cs, script := es\<rparr>))"
proof -
  have num: "process_num s = int (length ps)" using assms(1,2) by (auto simp: ssp_ok_def table_ok_def)
  have ok: "kernel_ok cs es" using kernel_ok_elapse [OF assms(5)] assms(1) by (simp add: ssp_ok_def)
  have lost: "WTERMSIG (-1) + 128 = 255" by (simp add: WTERMSIG_def)
  have upd: "entry_at (Some (ps[k := x])) (int k) = Inr x" for x
    using entry_at_Some [of k "ps[k := x]"] assms(3) by simp
  note d = ssp_get_status_def num assms(2,4) upd entry_at_Some [OF assms(3)] waitpid_nohang_def assms(5) Let_def
    set_status_def
  show ?thesis
  proof (cases "map_of cs (pid (ps ! k))")
    case None
    then show ?thesis using assms(3) by (simp add: d)
  next
    case (Some c)
    show ?thesis
    proof (cases c)
      case (Ended f)
      have f: "fate_ok f" using child_fate_ok [OF ok] Some Ended by simp
      show ?thesis
      proof (cases f)
        case (Exited x)
        then show ?thesis
          using assms(3) Some Ended exited_status [of x] by (simp add: d del: fate_status.simps)
      next
        case (Killed sig core)
        then show ?thesis
          using assms(3) Some Ended killed_status [OF f [unfolded Killed]] lost
          by (simp add: d del: fate_status.simps)
      qed
    qed (use Some assms(3) in \<open>simp_all add: d\<close>)
  qed
qed

end
