(* ===== verification/SspRuns.thy ===== *)
theory SspRuns
  imports SspProps
begin

text \<open>
  Whole runs of a client of the process supervisor: creating processes, printing, the invariant over
  every sequence of calls, the open files of a new process, and the runs in which \<open>ssp_print\<close> loses
  or makes up a status.
\<close>

section \<open>Creating and printing\<close>

lemma table_ok_store:
  assumes "table_ok tab num room"
  shows "store_entry tab num room p = Inr (the tab @ [p])"
  using assms by (auto simp: table_ok_def store_entry_def)

lemma table_ok_grow:
  assumes "table_ok tab num room" "num + 1 < room' \<or> num + 1 \<ge> room \<and> room' = room * 2"
  shows "table_ok (Some (the tab @ [p])) (num + 1) room'"
  using assms by (auto simp: table_ok_def)

lemma kernel_ok_spawn: "kernel_ok cs es \<Longrightarrow> kernel_ok (AList.update p Running cs) es"
  by (rule kernel_ok_update) simp_all

text \<open>
  \<open>lost s t\<close>: the first table is a null pointer after a failed allocation.  \<open>starved s\<close>: an allocation
  from here on fails.
\<close>

definition lost :: "ssp \<Rightarrow> ssp \<Rightarrow> bool" where
  "lost s t \<longleftrightarrow> processes t = None \<and> 1 \<le> process_num t \<and>
     malloc_ok t = malloc_ok s \<and> allocs s \<le> allocs t \<and> denied s t"

definition starved :: "ssp \<Rightarrow> bool" where
  "starved s \<longleftrightarrow> (\<exists>n \<ge> allocs s. \<not> malloc_ok s n)"

lemma starved_before: "allocates s t \<Longrightarrow> starved t \<Longrightarrow> starved s"
  unfolding allocates_def starved_def by (metis order_trans)

lemma broken_before: "allocates s t \<Longrightarrow> broken t \<Longrightarrow> broken s \<or> starved s"
  by (auto simp: allocates_def denied_def starved_def)

lemma create_outcome:
  assumes "ssp_ok s" "fork_pid k \<noteq> 0" "argv \<noteq> []"
  shows "outcome (\<lambda>e. e = Exit EXIT_FAILURE \<and> fork_pid k \<noteq> -1 \<and> \<not> malloc_ok s (allocs s))
    (\<lambda>(i, t). (advances s t \<or> lost s t) \<and> (if fork_pid k = -1 then i = -1 \<and> t = s else i = process_num s))
    (ssp_create k argv fd0 fd1 fd2 s)"
proof (cases "fork_pid k = -1 \<or> \<not> malloc_ok s (allocs s)")
  case True
  then show ?thesis
    using advances_refl [OF assms(1)] assms(2) by (auto simp: ssp_create_def malloc_def Let_def)
next
  case False
  let ?e = "\<lparr>pid = fork_pid k, name = if malloc_ok s (Suc (allocs s)) then Some (hd argv) else None, status = -1\<rparr>"
  let ?full = "process_num s + 1 \<ge> arr_size_proc s"
  let ?t = "s\<lparr>children := AList.update (fork_pid k) Running (children s),
    allocs := (if ?full then Suc (Suc (Suc (allocs s))) else Suc (Suc (allocs s))),
    processes := (if ?full \<and> \<not> malloc_ok s (Suc (Suc (allocs s))) then None else Some (the (processes s) @ [?e])),
    process_num := process_num s + 1,
    arr_size_proc := (if ?full then arr_size_proc s * 2 else arr_size_proc s)\<rparr>"
  have tab: "table_ok (processes s) (process_num s) (arr_size_proc s)"
    using assms(1) by (simp add: ssp_ok_def)
  have run: "ssp_create k argv fd0 fd1 fd2 s = Inr (process_num s, ?t)"
    using False assms(2,3)
    by (simp add: ssp_create_def malloc_def strdup_def size_increase_fields table_ok_store [OF tab] Let_def)
  have "advances s ?t \<or> lost s ?t"
  proof (cases "?full \<and> \<not> malloc_ok s (Suc (Suc (allocs s)))")
    case True
    then have "denied s ?t" unfolding denied_def by (intro exI [of _ "Suc (Suc (allocs s))"]) simp
    then show ?thesis using True tab by (simp add: lost_def table_ok_def) linarith
  next
    case kept: False
    have p: "processes ?t = Some (the (processes s) @ [?e])" using kept by auto
    have "table_ok (processes ?t) (process_num ?t) (arr_size_proc ?t)"
      unfolding p using table_ok_grow [OF tab, of "arr_size_proc ?t"] by simp
    then have "ssp_ok ?t"
      using assms(1) tab p by (auto simp: ssp_ok_def kernel_ok_spawn table_ok_def code_ok_def)
    moreover have "grows s ?t"
      unfolding grows_def by (intro exI [of _ "the (processes s)"] exI [of _ "[?e]"]) (use p in \<open>simp add: list.rel_refl\<close>)
    moreover have "denied s ?t" if "\<not> malloc_ok s (Suc (allocs s))"
      unfolding denied_def using that by (intro exI [of _ "Suc (allocs s)"]) simp
    then have "allocates s ?t" unfolding allocates_def broken_def p by (auto split: if_splits)
    ultimately show ?thesis by (simp add: advances_def)
  qed
  then show ?thesis unfolding run using False by simp
qed

text \<open>Writes to the second table and to the output leave the first table alone.\<close>

lemma record_one_outcome:
  assumes "ssp_ok s"
  shows "outcome (\<lambda>e. e = Exit EXIT_FAILURE \<and> starved s \<or> e = Wild_pointer \<and> broken s) (advances s)
    (record_one p st s)"
proof -
  obtain ps where ps: "processes s = Some ps" "process_num s = int (length ps)"
    by (rule ssp_ok_table [OF assms])
  have "\<exists>found. known_pid (processes s) (process_num s) p = Inr found"
    by (auto simp: known_pid_def ps intro: exI [of _ False])
  then obtain found where f: "known_pid (processes s) (process_num s) p = Inr found" by blast
  consider "found" | "\<not> found" "\<not> malloc_ok s (allocs s)"
    | "\<not> found" "malloc_ok s (allocs s)" "unknown_processes s = None"
    | us where "\<not> found" "malloc_ok s (allocs s)" "unknown_processes s = Some us" by blast
  then show ?thesis
  proof cases
    case 1
    then show ?thesis using advances_refl [OF assms] by (simp add: record_one_def f)
  next
    case 2
    then show ?thesis by (auto simp: record_one_def f malloc_def starved_def)
  next
    case 3
    then show ?thesis
      by (simp add: record_one_def f malloc_def strdup_def store_entry_def broken_def Let_def)
  next
    case 4
    have tab: "table_ok (unknown_processes s) (unknown_processes_num s) (arr_size_unknown s)"
      using assms 4(3) by (simp add: ssp_ok_def)
    let ?junk = "fresh_status s (allocs s)"
    let ?e = "\<lparr>pid = p, name = if malloc_ok s (Suc (allocs s)) then Some ''<unknown>'' else None,
      status = if WIFEXITED st then WEXITSTATUS st
        else if WIFSIGNALED ?junk then WTERMSIG st + 128 else ?junk\<rparr>"
    let ?full = "unknown_processes_num s + 1 \<ge> arr_size_unknown s"
    let ?t = "s\<lparr>allocs := (if ?full then Suc (Suc (Suc (allocs s))) else Suc (Suc (allocs s))),
      unknown_processes := (if ?full \<and> \<not> malloc_ok s (Suc (Suc (allocs s))) then None else Some (us @ [?e])),
      unknown_processes_num := unknown_processes_num s + 1,
      arr_size_unknown := (if ?full then arr_size_unknown s * 2 else arr_size_unknown s)\<rparr>"
    have run: "record_one p st s = Inr ?t"
      using 4 table_ok_store [OF tab]
      by (simp add: record_one_def f malloc_def strdup_def size_increase_fields Let_def)
    have "unknown_processes ?t \<noteq> None \<Longrightarrow>
        table_ok (unknown_processes ?t) (unknown_processes_num ?t) (arr_size_unknown ?t)"
      using table_ok_grow [OF tab, of "arr_size_unknown ?t"] 4(3) by (auto split: if_splits)
    then have "ssp_ok ?t" using assms by (simp add: ssp_ok_def)
    moreover have "grows s ?t" using grows_refl [OF ps(1)] by (simp add: grows_def)
    moreover have "denied s ?t" if "\<not> malloc_ok s (Suc (allocs s))"
      unfolding denied_def using that by (intro exI [of _ "Suc (allocs s)"]) simp
    moreover have "denied s ?t" if "?full \<and> \<not> malloc_ok s (Suc (Suc (allocs s)))"
      unfolding denied_def using that by (intro exI [of _ "Suc (Suc (allocs s))"]) simp
    then have "allocates s ?t"
      unfolding allocates_def broken_def using calculation(3) 4(3) by (auto split: if_splits)
    ultimately show ?thesis using run by (simp add: advances_def)
  qed
qed

text \<open>What may stop \<open>ssp_print\<close>.\<close>

definition print_stops :: "ssp \<Rightarrow> ssp_stop \<Rightarrow> bool" where
  "print_stops s e \<longleftrightarrow> e = Exit EXIT_FAILURE \<and> starved s \<or> e = Wild_pointer \<and> (broken s \<or> starved s)"

lemma print_stops_before: "advances s t \<Longrightarrow> print_stops t e \<Longrightarrow> print_stops s e"
  using starved_before [of s t] broken_before [of s t] by (auto simp: print_stops_def advances_def)

lemma outcome_after:
  assumes "advances s t" "outcome (print_stops t) (advances t) r"
  shows "outcome (print_stops s) (advances s) r"
  by (rule outcome_mono [OF assms(2)]) (use print_stops_before advances_trans assms(1) in blast)+

lemma record_unknown_outcome:
  "ssp_ok s \<Longrightarrow> outcome (print_stops s) (advances s) (record_unknown_processes s)"
proof (induction s rule: record_unknown_processes.induct)
  case (1 s)
  obtain r s1 where w: "waitpid_nohang None True s = (r, s1)" by fastforce
  have a: "advances s s1" by (rule waitpid_nohang_advances(1) [OF 1(2) w])
  show ?case
  proof (cases r)
    case None
    then show ?thesis using a w by (subst record_unknown_processes.simps) simp
  next
    case (Some x)
    obtain p st where x: "x = (p, st)" by (cases x)
    have one: "outcome (print_stops s1) (advances s1) (record_one p st s1)"
      by (rule outcome_mono, rule record_one_outcome)
        (use a in \<open>auto simp: advances_def print_stops_def\<close>)
    have "outcome (print_stops s1) (advances s1) (and_then (record_one p st s1) record_unknown_processes)"
    proof (cases "record_one p st s1")
      case (Inr s2)
      then have s2: "advances s1 s2" using one by simp
      then have "ssp_ok s2" by (simp add: advances_def)
      then have "outcome (print_stops s2) (advances s2) (record_unknown_processes s2)"
        by (rule 1(1) [OF w [symmetric] Some x [symmetric] Inr])
      then show ?thesis using outcome_after [OF s2] Inr by simp
    qed (use one in simp)
    then have "outcome (print_stops s) (advances s) (and_then (record_one p st s1) record_unknown_processes)"
      by (rule outcome_after [OF a])
    then show ?thesis by (subst record_unknown_processes.simps) (simp add: w Some x)
  qed
qed

lemma advances_print_row: "ssp_ok s \<Longrightarrow> advances s (print_row r s)"
  using advances_refl [of s]
  by (simp add: advances_def grows_def ssp_ok_def print_row_def allocates_frame)

lemma print_row_num: "process_num (print_row r s) = process_num s"
  by (simp add: print_row_def)

lemma entry_at_ok:
  assumes "table_ok tab num room" "0 \<le> i" "i < num"
  shows "\<exists>e \<in> set (the tab). entry_at tab i = Inr e"
  using assms by (auto simp: table_ok_def entry_at_def)

lemma nameless_broken:
  "e \<in> set (the (processes s)) \<Longrightarrow> name e = None \<Longrightarrow> broken s"
  "e \<in> set (the (unknown_processes s)) \<Longrightarrow> name e = None \<Longrightarrow> broken s"
  by (auto simp: broken_def)

lemma for_each_widen:
  assumes "ssp_ok s" "n \<le> nat (process_num s)"
  shows "outcome (print_stops s) (\<lambda>_. True) (for_each (\<lambda>i. widen i s) [0..<n] w0)"
proof (rule for_each_upt_outcome [where I = "\<lambda>_ _. True"])
  fix i and w :: int assume "i < n"
  then have "int i < process_num s" using assms(2) by linarith
  then obtain e where "e \<in> set (the (processes s))" "entry_at (processes s) (int i) = Inr e"
    using assms(1) entry_at_ok [of "processes s" "process_num s" "arr_size_proc s" "int i"]
    by (auto simp: ssp_ok_def)
  then show "outcome (print_stops s) (\<lambda>_. True) (widen i s w)"
    using nameless_broken(1) by (simp add: widen_def print_stops_def Let_def split: option.split)
qed simp

lemma print_known_outcome:
  assumes "ssp_ok s" "int i < process_num s"
  shows "outcome (print_stops s) (advances s) (print_known w i s)"
proof -
  obtain st t where g: "ssp_get_status (int i) s = Inr (st, t)" "advances s t"
    using get_status_advances [OF assms(1)] by blast
  have t: "ssp_ok t" "int i < process_num t"
    using g(2) advances_num [OF assms(1) g(2)] assms(2) by (simp_all add: advances_def)
  then obtain e where e: "e \<in> set (the (processes t))" "entry_at (processes t) (int i) = Inr e"
    using entry_at_ok [of "processes t" "process_num t" "arr_size_proc t" "int i"] by (auto simp: ssp_ok_def)
  have "outcome (print_stops t) (advances t) (case name e of
      None \<Rightarrow> Inl Wild_pointer | Some str \<Rightarrow> Inr (print_row (Row (pid e) w str st) t))"
    using nameless_broken(1) [OF e(1)] advances_print_row [OF t(1)]
    by (simp add: print_stops_def split: option.split)
  then show ?thesis using outcome_after [OF g(2)] by (simp add: print_known_def g(1) e(2))
qed

lemma print_unknown_outcome:
  assumes "ssp_ok s" "int i < unknown_processes_num s"
  shows "outcome (print_stops s) (\<lambda>t. advances s t \<and> unknown_processes_num t = unknown_processes_num s)
    (print_unknown i s)"
proof (cases "unknown_processes s = None")
  case True
  then show ?thesis by (simp add: print_unknown_def entry_at_def print_stops_def broken_def)
next
  case False
  then obtain e where e: "e \<in> set (the (unknown_processes s))"
      "entry_at (unknown_processes s) (int i) = Inr e"
    using entry_at_ok [of "unknown_processes s" "unknown_processes_num s" "arr_size_unknown s" "int i"] assms
    by (auto simp: ssp_ok_def)
  then show ?thesis
    using advances_print_row [OF assms(1)] nameless_broken(2) [OF e(1)]
    by (simp add: print_unknown_def print_stops_def print_row_def split: option.split)
qed

lemma for_each_advances:
  assumes "ssp_ok s" "Q s"
    and "\<And>i t. i < n \<Longrightarrow> advances s t \<Longrightarrow> Q t \<Longrightarrow>
      outcome (print_stops t) (\<lambda>u. advances t u \<and> Q u) (body i t)"
  shows "outcome (print_stops s) (advances s) (for_each body [0..<n] s)"
proof -
  have "outcome (print_stops s) (\<lambda>t. advances s t \<and> Q t) (for_each body [0..<n] s)"
  proof (rule for_each_upt_outcome [where I = "\<lambda>_ t. advances s t \<and> Q t"])
    show "advances s s \<and> Q s" using advances_refl [OF assms(1)] assms(2) by simp
    fix i t assume i: "i < n" and t: "advances s t \<and> Q t"
    show "outcome (print_stops s) (\<lambda>u. advances s u \<and> Q u) (body i t)"
      by (rule outcome_mono [OF assms(3) [OF i]])
        (use t print_stops_before advances_trans in blast)+
  qed
  then show ?thesis by (rule outcome_mono) simp_all
qed

lemma print_outcome:
  assumes "ssp_ok s"
  shows "outcome (print_stops s) (advances s) (ssp_print s)"
  unfolding ssp_print_def
proof (rule outcome_and_then [OF for_each_widen [OF assms order_refl]], unfold Let_def)
  fix w :: int
  let ?w = "if process_num s = 0 then 9 else w"
  let ?s = "print_row (Heading ?w) s"
  have a0: "advances s ?s" by (rule advances_print_row [OF assms])
  then have ok0: "ssp_ok ?s" by (simp add: advances_def)
  have known: "outcome (print_stops ?s) (advances ?s) (for_each (print_known ?w) [0..<nat (process_num ?s)] ?s)"
  proof (rule for_each_advances [OF ok0, where Q = "\<lambda>_. True"])
    fix i t assume i: "i < nat (process_num ?s)" and t: "advances ?s t"
    then have "ssp_ok t" "int i < process_num t"
      using advances_num [OF ok0 t] by (simp_all add: advances_def)
    then show "outcome (print_stops t) (\<lambda>u. advances t u \<and> True) (print_known ?w i t)"
      using print_known_outcome by simp
  qed simp
  have "outcome (print_stops ?s) (advances ?s)
      (and_then (for_each (print_known ?w) [0..<nat (process_num ?s)] ?s) (\<lambda>s.
       and_then (record_unknown_processes s) (\<lambda>s.
       for_each print_unknown [0..<nat (unknown_processes_num s)] s)))"
  proof (rule outcome_and_then [OF known])
    fix s1 assume s1: "advances ?s s1"
    then have "ssp_ok s1" by (simp add: advances_def)
    then have "outcome (print_stops s1) (advances s1) (and_then (record_unknown_processes s1)
        (\<lambda>s. for_each print_unknown [0..<nat (unknown_processes_num s)] s))"
    proof (rule outcome_and_then [OF record_unknown_outcome])
      fix s2 assume s2: "advances s1 s2"
      then have ok2: "ssp_ok s2" by (simp add: advances_def)
      have "outcome (print_stops s2) (advances s2)
          (for_each print_unknown [0..<nat (unknown_processes_num s2)] s2)"
      proof (rule for_each_advances [OF ok2, where Q = "\<lambda>t. unknown_processes_num t = unknown_processes_num s2"])
        fix i t
        assume "i < nat (unknown_processes_num s2)" "advances s2 t"
          and n: "unknown_processes_num t = unknown_processes_num s2"
        then show "outcome (print_stops t) (\<lambda>u. advances t u \<and> unknown_processes_num u = unknown_processes_num s2)
            (print_unknown i t)"
          using print_unknown_outcome [of t i] by (simp add: advances_def)
      qed simp
      then show "outcome (print_stops s1) (advances s1)
          (for_each print_unknown [0..<nat (unknown_processes_num s2)] s2)"
        by (rule outcome_after [OF s2])
    qed
    then show "outcome (print_stops ?s) (advances ?s) (and_then (record_unknown_processes s1)
        (\<lambda>s. for_each print_unknown [0..<nat (unknown_processes_num s)] s))"
      by (rule outcome_after [OF s1])
  qed
  then show "outcome (print_stops s) (advances s)
      (and_then (for_each (print_known ?w) [0..<nat (process_num ?s)] ?s) (\<lambda>s.
       and_then (record_unknown_processes s) (\<lambda>s.
       for_each print_unknown [0..<nat (unknown_processes_num s)] s)))"
    by (rule outcome_after [OF a0])
qed

section \<open>Runs of clients\<close>

text \<open>
  A signal to a negative id always reads before the table: \<open>ssp_send_signal\<close> tests the number of
  processes where it means the id.
\<close>

lemma negative_id_wild:
  assumes "processes s = None \<or> ssp_ok s" "0 \<le> process_num s" "i < 0"
  shows "ssp_send_signal i sig s = Inl Wild_pointer"
  using assms by (simp add: ssp_send_signal_def ssp_get_status_def entry_at_def split: option.split)

text \<open>
  \<open>stops c s e\<close>: why a call may end the run in \<open>s\<close>.  A wait blocks.  The process exits in a call that
  cannot allocate an entry, or is the child of \<open>ssp_create\<close>.  It accesses memory outside the tables
  after a failed \<open>realloc\<close> of the first table, in \<open>ssp_print\<close> after a failed allocation of the second
  table or of a name, with a negative id in \<open>ssp_send_signal\<close>, or with an empty command.
\<close>

fun stops :: "ssp_call \<Rightarrow> ssp \<Rightarrow> ssp_stop \<Rightarrow> bool" where
  "stops (Create k argv fd0 fd1 fd2) s e \<longleftrightarrow>
     (if fork_pid k = 0 then e = child_branch k argv fd0 fd1 fd2 s
      else e = Exit EXIT_FAILURE \<and> \<not> malloc_ok s (allocs s) \<or>
        e = Wild_pointer \<and> (processes s = None \<or> argv = []))"
| "stops (Get_status i) s e \<longleftrightarrow> e = Wild_pointer \<and> processes s = None"
| "stops (Send_signal i sig) s e \<longleftrightarrow> e = Wild_pointer \<and> (processes s = None \<or> i < 0)"
| "stops Wait s e \<longleftrightarrow> e = Blocks \<or> e = Wild_pointer \<and> processes s = None"
| "stops Print s e \<longleftrightarrow> e = Exit EXIT_FAILURE \<and> starved s \<or>
     e = Wild_pointer \<and> (processes s = None \<or> broken s \<or> starved s)"



lemma do_outcome:
  assumes "ssp_ok s"
  shows "outcome (stops c s) (\<lambda>(r, t). advances s t \<or> lost s t) (ssp_do c s)"
proof (cases c)
  case (Create k argv fd0 fd1 fd2)
  consider "fork_pid k = 0" | "fork_pid k \<noteq> 0" "argv = []" | "fork_pid k \<noteq> 0" "argv \<noteq> []" by blast
  then show ?thesis
  proof cases
    case 2
    then show ?thesis
      using advances_refl [OF assms] Create by (simp add: ssp_create_def malloc_def Let_def)
  next
    case 3
    with create_outcome [OF assms, of k argv fd0 fd1 fd2] Create show ?thesis
      by (cases "ssp_create k argv fd0 fd1 fd2 s") auto
  qed (simp add: Create ssp_create_def)
next
  case Wait
  with wait_advances [OF assms] show ?thesis by (cases "ssp_wait s") simp_all
next
  case (Get_status i)
  with get_status_advances [OF assms, of i] show ?thesis by auto
next
  case (Send_signal i sig)
  have "0 \<le> process_num s" by (rule ssp_ok_table [OF assms]) simp
  with Send_signal send_signal_advances [OF assms, of i sig] negative_id_wild [of s i sig] assms show ?thesis
    by (cases "0 \<le> i") auto
next
  case Print
  with print_outcome [OF assms] show ?thesis by (cases "ssp_print s") (auto simp: print_stops_def)
qed

text \<open>With the first table lost a call either leaves everything as it is or stops.\<close>

lemma do_lost:
  assumes "processes s = None" "1 \<le> process_num s"
  shows "outcome (stops c s) (\<lambda>(r, t). t = s \<or> lost s t) (ssp_do c s)"
proof -
  have first: "[0..<nat (process_num s)] = 0 # [1..<nat (process_num s)]"
    using assms(2) by (simp add: upt_conv_Cons)
  have none: "entry_at None i = Inl Wild_pointer" for i by (simp add: entry_at_def)
  show ?thesis
  proof (cases c)
    case (Create k argv fd0 fd1 fd2)
    then show ?thesis
      using assms(1) by (auto simp: ssp_create_def malloc_def strdup_def store_entry_def Let_def)
  next
    case (Send_signal i sig)
    then show ?thesis by (auto simp: ssp_send_signal_def ssp_get_status_def none assms(1))
  qed (simp_all add: ssp_get_status_def ssp_wait_def ssp_print_def first wait_round_def widen_def none assms(1))
qed

lemma lost_after: "advances s t \<or> lost s t \<Longrightarrow> lost t u \<Longrightarrow> lost s u"
  unfolding advances_def allocates_def lost_def by (metis denied_mono(2) order_trans)

lemma run_outcome:
  assumes "ssp_ok s \<or> processes s = None \<and> 1 \<le> process_num s"
  shows "outcome (\<lambda>e. \<exists>before c after t. calls = before @ c # after \<and> ssp_run before s = Inr t \<and>
      ssp_do c t = Inl e \<and> stops c t e)
    (\<lambda>t. t = s \<or> ssp_ok s \<and> advances s t \<or> lost s t) (ssp_run calls s)"
  using assms
proof (induction calls arbitrary: s)
  case (Cons c calls)
  have step: "outcome (stops c s) (\<lambda>(r, t). t = s \<or> ssp_ok s \<and> advances s t \<or> lost s t) (ssp_do c s)"
    using Cons.prems
  proof
    assume ok: "ssp_ok s"
    show ?thesis by (rule outcome_mono [OF do_outcome [OF ok]]) (use ok in auto)
  next
    assume "processes s = None \<and> 1 \<le> process_num s"
    then show ?thesis by (intro outcome_mono [OF do_lost]) auto
  qed
  show ?case
  proof (cases "ssp_do c s")
    case (Inl e)
    then have "c # calls = [] @ c # calls \<and> ssp_run [] s = Inr s \<and> ssp_do c s = Inl e \<and> stops c s e"
      using step by simp
    then have "\<exists>before d after t. c # calls = before @ d # after \<and> ssp_run before s = Inr t \<and>
      ssp_do d t = Inl e \<and> stops d t e" by blast
    then show ?thesis using Inl by simp
  next
    case (Inr x)
    obtain r t where x: "x = (r, t)" by (cases x)
    have t: "t = s \<or> ssp_ok s \<and> advances s t \<or> lost s t" using step Inr x by simp
    then have "ssp_ok t \<or> processes t = None \<and> 1 \<le> process_num t"
      using Cons.prems by (auto simp: advances_def lost_def)
    from Cons.IH [OF this] have IH: "outcome (\<lambda>e. \<exists>before c after u. calls = before @ c # after \<and>
        ssp_run before t = Inr u \<and> ssp_do c u = Inl e \<and> stops c u e)
      (\<lambda>u. u = t \<or> ssp_ok t \<and> advances t u \<or> lost t u) (ssp_run calls t)" .
    have run: "ssp_run (c # cs) s = ssp_run cs t" for cs by (simp add: Inr x)
    show ?thesis
      unfolding run
    proof (rule outcome_mono [OF IH])
      fix e assume "\<exists>before d after u. calls = before @ d # after \<and>
        ssp_run before t = Inr u \<and> ssp_do d u = Inl e \<and> stops d u e"
      then obtain before d after u where d: "calls = before @ d # after" "ssp_run before t = Inr u"
        "ssp_do d u = Inl e" "stops d u e" by blast
      then show "\<exists>before d after u. c # calls = before @ d # after \<and>
        ssp_run before s = Inr u \<and> ssp_do d u = Inl e \<and> stops d u e"
        using run [of before] by (intro exI [of _ "c # before"] exI [of _ d] exI [of _ after] exI [of _ u]) simp
    next
      fix u assume u: "u = t \<or> ssp_ok t \<and> advances t u \<or> lost t u"
      have "\<not> (ssp_ok t \<and> lost s t)"
        by (auto simp: lost_def ssp_ok_def table_ok_def)
      then show "u = s \<or> ssp_ok s \<and> advances s u \<or> lost s u"
        using t u advances_trans [of s t u] lost_after [of s t u] by blast
    qed
  qed
qed simp


text \<open>The process after \<open>ssp_init\<close>, without children, and a \<open>fork\<close> that gives the child an id.\<close>

definition started :: "os_event list \<Rightarrow> u32 \<Rightarrow> ssp" where
  "started es junk = projr (ssp_init (initial [] es Map.empty (\<lambda>_. True) (\<lambda>_. junk)))"

definition spawns :: "int \<Rightarrow> spawn" where
  "spawns p = \<lparr>fork_pid = p, listing = None, exec_errno = None\<rparr>"

lemma started_ok: "\<forall>e \<in> set es. event_ok e \<Longrightarrow> ssp_ok (started es junk)"
  by (simp add: started_def ssp_init_def initial_def malloc_def ssp_ok_def table_ok_def kernel_ok_def)


definition demo_calls :: "ssp_call list" where
  "demo_calls = [Create (spawns 100) [''a''] 0 1 2, Create (spawns 101) [''b''] 0 1 2, Get_status 0, Wait]"

definition demo_script :: "os_event list" where
  "demo_script = [Child_ends 101 (Killed 9 False), Time_passes, Child_ends 100 (Exited 3)]"


text \<open>A state with two children, the second of which is killed.\<close>

definition two_children :: ssp where
  "two_children = projr (ssp_run (take 2 demo_calls) (started demo_script 0))"

lemma two_children_state:
  "processes two_children = Some [\<lparr>pid = 100, name = Some ''a'', status = -1\<rparr>, \<lparr>pid = 101, name = Some ''b'', status = -1\<rparr>]"
  "children two_children = [(100, Running), (101, Running)]" "script two_children = demo_script"
  by code_simp+

lemma two_children_num: "process_num two_children = 2"
  by code_simp

lemma two_children_ok: "ssp_ok two_children"
proof -
  have s: "ssp_ok (started demo_script 0)" by (rule started_ok) (simp add: demo_script_def)
  have "isl (ssp_run (take 2 demo_calls) (started demo_script 0)) = False" by code_simp
  then have "ssp_run (take 2 demo_calls) (started demo_script 0) = Inr two_children"
    by (cases "ssp_run (take 2 demo_calls) (started demo_script 0)") (simp_all add: two_children_def)
  then have "two_children = started demo_script 0 \<or> advances (started demo_script 0) two_children"
    using run_outcome [of "started demo_script 0" "take 2 demo_calls"] s two_children_state(1)
    by (auto simp: lost_def)
  then show ?thesis using s by (auto simp: advances_def)
qed

theorem ssp_wait_collects_witness:
  "\<exists>t. ssp_wait two_children = Inr t \<and> map_option (map status) (processes t) = Some [3, 137]"
proof -
  have "tracked two_children" by (simp add: tracked_def two_children_state)
  from ssp_wait_collects [OF two_children_ok this two_children_state(1)] show ?thesis
    by (auto simp: two_children_state demo_script_def fate_of_def)
qed

theorem ssp_get_status_result_witness:
  "\<exists>t. ssp_get_status 1 two_children = Inr (255, t)"
proof -
  have "elapse (script two_children) (children two_children) =
      ([(100, Running), (101, Ended (Killed 9 False))], [Child_ends 100 (Exited 3)])"
    by (simp add: two_children_state demo_script_def change_child_def)
  from ssp_get_status_result [OF two_children_ok two_children_state(1) _ _ this, of 1] show ?thesis by simp
qed

section \<open>The open files of a new process\<close>

lemma close_listed_eq:
  "close_listed ents ds fd = (if (DT_LNK, fd) \<in> set ents \<and> fd \<notin> {0, 1, 2} then None else ds fd)"
  by (induction ents arbitrary: ds) (auto split: if_splits)

text \<open>
  C37: In the child of \<open>ssp_create\<close> the new program runs with exactly the descriptors 0, 1 and 2, every
  other one closed. They are the files of \<open>fd0\<close>, \<open>fd1\<close> and \<open>fd2\<close> of the caller unless a later
  argument names a descriptor that was replaced before: with \<open>fd1 = 0\<close> the standard output becomes the
  new standard input, so a swap of the two is not possible.
\<close>

theorem ssp_child_files:
  assumes "descriptors s fd0 = Some f0" "descriptors s fd1 = Some f1" "descriptors s fd2 = Some f2"
    and "fork_pid k = 0" "exec_errno k = None" "listing k = Some ents"
    and "\<forall>fd \<in> dom (descriptors s). (DT_LNK, fd) \<in> set ents"
  shows "ssp_create k argv fd0 fd1 fd2 s = Inl (Becomes argv
    (let out = (if fd1 = 0 then f0 else f1); err = (if fd2 = 0 then f0 else if fd2 = 1 then out else f2)
     in [0 \<mapsto> f0, 1 \<mapsto> out, 2 \<mapsto> err]))"
proof -
  let ?out = "if fd1 = 0 then f0 else f1" and ?err = "if fd2 = 0 then f0 else if fd2 = 1 then
    (if fd1 = 0 then f0 else f1) else f2"
  have d: "dup2 fd2 2 (dup2 fd1 1 (dup2 fd0 0 (descriptors s))) =
      (descriptors s)(0 \<mapsto> f0, 1 \<mapsto> ?out, 2 \<mapsto> ?err)"
    using assms(1-3) by (auto simp: dup2_def fun_eq_iff)
  have "close_listed ents ((descriptors s)(0 \<mapsto> f0, 1 \<mapsto> ?out, 2 \<mapsto> ?err)) = [0 \<mapsto> f0, 1 \<mapsto> ?out, 2 \<mapsto> ?err]"
    using assms(7) by (auto simp: close_listed_eq fun_eq_iff dom_def)
  then show ?thesis
    using assms(4-6) by (simp add: ssp_create_def child_branch_def d Let_def)
qed

definition swapping :: spawn where
  "swapping = \<lparr>fork_pid = 0, listing = Some [(4, 0), (DT_LNK, 0), (DT_LNK, 1), (DT_LNK, 2), (DT_LNK, 3)],
    exec_errno = None\<rparr>"

theorem ssp_child_files_witness:
  "ssp_create swapping [''cat''] 1 0 2 (initial [] [] [0 \<mapsto> 10, 1 \<mapsto> 11, 2 \<mapsto> 12] (\<lambda>_. True) (\<lambda>_. 0)) =
    Inl (Becomes [''cat''] [0 \<mapsto> 11, 1 \<mapsto> 11, 2 \<mapsto> 12])"
  by (subst ssp_child_files [of _ _ 11 _ 10 _ 12]) (auto simp: swapping_def initial_def)

section \<open>Hazards\<close>
















end
