(* ===== verification/Tps.thy ===== *)
theory Tps
  imports Main "HOL-Library.Sublist"
begin

text \<open>
  The process lister, \<^verbatim>\<open>src/tps/src/main.c\<close>: it walks a directory of processes and prints, for each
  entry that is a directory with a number for its name, the command name in its \<^verbatim>\<open>status\<close> file.

  A file is a list of characters read by \<open>fgets\<close> through a buffer of 256 bytes.  The directory is
  the list of its entries; the file system is a function from paths to contents, \<open>None\<close> where
  \<open>fopen\<close> or \<open>opendir\<close> fails.  A run gives the text printed and how it ends.  The local array \<open>name\<close>
  is uninitialised until a line with the label is found, and printing it before ends the run: C gives
  such a read no meaning.
\<close>

definition newline :: char where "newline = CHR 0x0A"

section \<open>The C library functions used\<close>

text \<open>A C string ends at the first null character.\<close>

definition c_str :: "string \<Rightarrow> string" where
  "c_str s = takeWhile (\<lambda>c. c \<noteq> CHR 0x00) s"

text \<open>
  \<open>fgets\<close> with room for \<open>n\<close> characters and the terminator: up to and including the first newline.
  \<open>None\<close> is the null pointer at the end of the file.
\<close>

fun fgets_chars :: "nat \<Rightarrow> string \<Rightarrow> string \<times> string" where
  "fgets_chars 0 rest = ([], rest)"
| "fgets_chars (Suc n) [] = ([], [])"
| "fgets_chars (Suc n) (c # cs) =
    (if c = newline then ([c], cs) else let (l, rest) = fgets_chars n cs in (c # l, rest))"

definition fgets :: "nat \<Rightarrow> string \<Rightarrow> (string \<times> string) option" where
  "fgets room f = (if f = [] then None else Some (fgets_chars (room - 1) f))"

definition strncmp_eq :: "string \<Rightarrow> string \<Rightarrow> nat \<Rightarrow> bool" where
  "strncmp_eq a b n = (take n (c_str a) = take n (c_str b))"

text \<open>\<open>name[strcspn(name, "\n")] = 0\<close> cuts the string at the first newline.\<close>

definition cut_newline :: "string \<Rightarrow> string" where
  "cut_newline s = takeWhile (\<lambda>c. c \<noteq> newline) s"

text \<open>
  \<open>atoi\<close> is \<open>strtol\<close> converted to \<open>int\<close>: white space, an optional sign, and digits; the value is
  bounded to 64 bits and then wraps to 32, as in the C library of the systems the program is for.
\<close>

definition is_digit :: "char \<Rightarrow> bool" where
  "is_digit c = (48 \<le> (of_char c :: nat) \<and> (of_char c :: nat) \<le> 57)"

definition is_space :: "char \<Rightarrow> bool" where
  "is_space c = (c = CHR '' '' \<or> 9 \<le> (of_char c :: nat) \<and> (of_char c :: nat) \<le> 13)"

definition digits_value :: "string \<Rightarrow> int" where
  "digits_value s = foldl (\<lambda>v c. 10 * v + (of_char c - 48)) 0 (takeWhile is_digit s)"

definition strtol :: "string \<Rightarrow> int" where
  "strtol s = max (- (2 ^ 63)) (min (2 ^ 63 - 1) (case dropWhile is_space s of
      [] \<Rightarrow> 0
    | c # cs \<Rightarrow> if c = CHR ''-'' then - digits_value cs
        else if c = CHR ''+'' then digits_value cs else digits_value (c # cs)))"

definition atoi :: "string \<Rightarrow> int" where
  "atoi s = (strtol s + 2 ^ 31) mod 2 ^ 32 - 2 ^ 31"

text \<open>The conversion \<open>%5s\<close> pads on the left.\<close>

definition pad_left :: "nat \<Rightarrow> string \<Rightarrow> string" where
  "pad_left n s = replicate (n - length s) (CHR '' '') @ s"

section \<open>The program\<close>

text \<open>\<open>char path[256]; snprintf(path, sizeof(path), ...)\<close> keeps 255 characters.\<close>

definition status_path :: "string \<Rightarrow> string" where
  "status_path pid = take 255 (''/proc/'' @ pid @ ''/status'')"

text \<open>
  The loop of \<open>print_process_info\<close>: the name in the first buffer that starts with the label;
  \<open>None\<close> if none does, and the array \<open>name\<close> stays uninitialised.
\<close>

definition label :: string where
  "label = ''Name:'' @ [CHR 0x09]"

lemma fgets_chars_shorter:
  "fgets_chars n f = (l, rest) \<Longrightarrow> length rest + length l = length f"
  by (induction n f arbitrary: l rest rule: fgets_chars.induct) (auto split: if_splits prod.splits)

lemma fgets_progress:
  assumes "fgets 256 f = Some (l, rest)"
  shows "length rest < length f"
proof (cases f)
  case (Cons c cs)
  have s: "fgets_chars (Suc 254) f = (l, rest)" using assms Cons by (simp add: fgets_def)
  then have "l \<noteq> []" unfolding Cons fgets_chars.simps by (auto split: if_splits prod.splits)
  then show ?thesis using fgets_chars_shorter [OF s] by (cases l) auto
qed (use assms in \<open>simp add: fgets_def\<close>)

function read_name :: "string \<Rightarrow> string option" where
  "read_name f = (case fgets 256 f of
      None \<Rightarrow> None
    | Some (buffer, f) \<Rightarrow>
        if strncmp_eq buffer label (length label)
        then Some (cut_newline (c_str (drop (length label) buffer)))
        else read_name f)"
  by pat_completeness auto
termination
  by (relation "measure length") (auto simp: fgets_progress)

declare read_name.simps [simp del]

text \<open>How a run ends before \<open>main\<close> returns.\<close>

datatype stop = Exit_status int | Uninitialised_read

definition process_line :: "string \<Rightarrow> string \<Rightarrow> string" where
  "process_line pid name = pad_left 5 pid @ '' '' @ name @ [newline]"

definition print_process_info ::
    "(string \<Rightarrow> string option) \<Rightarrow> string \<Rightarrow> string \<times> stop option" where
  "print_process_info fopen pid = (case fopen (status_path pid) of
      None \<Rightarrow> ('''', None)
    | Some f \<Rightarrow> (case read_name f of
        None \<Rightarrow> ('''', Some Uninitialised_read)
      | Some name \<Rightarrow> (process_line pid name, None)))"

text \<open>The loop of \<open>get_process_info\<close>; 4 is the type of a directory.\<close>

fun list_entries :: "(string \<Rightarrow> string option) \<Rightarrow> (nat \<times> string) list \<Rightarrow> string \<times> stop option" where
  "list_entries fopen [] = ('''', None)"
| "list_entries fopen ((d_type, d_name) # ents) =
    (case (if 4 = d_type \<and> 0 \<noteq> atoi d_name then print_process_info fopen d_name else ('''', None)) of
      (out, Some e) \<Rightarrow> (out, Some e)
    | (out, None) \<Rightarrow> (case list_entries fopen ents of (out', r) \<Rightarrow> (out @ out', r)))"

definition heading :: string where
  "heading = ''  PID CMD'' @ [newline]"

definition get_process_info ::
    "(string \<Rightarrow> (nat \<times> string) list option) \<Rightarrow> (string \<Rightarrow> string option) \<Rightarrow> string \<Rightarrow>
      string \<times> stop option" where
  "get_process_info opendir fopen dir = (case opendir dir of
      None \<Rightarrow> (heading, Some (Exit_status 1))
    | Some ents \<Rightarrow> (case list_entries fopen ents of (out, r) \<Rightarrow> (heading @ out, r)))"

text \<open>\<open>Inr\<close> is the value \<open>main\<close> returns.\<close>

definition tps_main ::
    "(string \<Rightarrow> (nat \<times> string) list option) \<Rightarrow> (string \<Rightarrow> string option) \<Rightarrow> string \<times> (stop + int)" where
  "tps_main opendir fopen = (case get_process_info opendir fopen ''/proc'' of
      (out, Some e) \<Rightarrow> (out, Inl e)
    | (out, None) \<Rightarrow> (out, Inr 0))"

section \<open>What the loop over the lines finds\<close>

text \<open>
  The name a status file states: the text after the label at the beginning of a line, up to the end
  of the line, of what fits the buffer.  Nothing is asked of the lines after it, nor of the length of
  the lines before it, only that the label does not occur in them.
\<close>

definition states_name :: "string \<Rightarrow> string \<Rightarrow> bool" where
  "states_name f name \<longleftrightarrow> (\<exists>before m after.
    f = before @ label @ m @ after \<and> (before = [] \<or> last before = newline) \<and> \<not> sublist label before \<and>
    newline \<notin> set m \<and> (after = [] \<or> hd after = newline) \<and> name = c_str (take 249 m))"

lemma label_chars: "CHR 0x00 \<notin> set label" "newline \<notin> set label" "length label = 6"
  by (simp_all add: label_def newline_def)

text \<open>A call of \<open>fgets\<close> splits off a piece of a line.\<close>

lemma fgets_chars_split:
  "fgets_chars n f = (l, rest) \<Longrightarrow> f = l @ rest"
  by (induction n f arbitrary: l rest rule: fgets_chars.induct) (auto split: if_splits prod.splits)

lemma fgets_chars_lines:
  "fgets_chars n (pre @ f) = (l, rest) \<Longrightarrow> pre \<noteq> [] \<Longrightarrow> last pre = newline \<Longrightarrow>
    \<exists>pre'. pre = l @ pre' \<and> rest = pre' @ f \<and> (pre' = [] \<or> last pre' = newline)"
proof (induction n pre arbitrary: l rest rule: fgets_chars.induct)
  case (3 n c cs)
  show ?case
  proof (cases "c = newline")
    case True
    then show ?thesis using 3 by (auto split: if_splits)
  next
    case False
    then have cs: "cs \<noteq> []" "last cs = newline" using "3.prems" by (auto split: if_splits)
    obtain l' where l': "fgets_chars n (cs @ f) = (l', rest)" "l = c # l'"
      using "3.prems"(1) False by (auto split: prod.splits)
    show ?thesis using "3.IH" [OF False l'(1) cs] l'(2) by auto
  qed
qed auto

lemma fgets_chars_line:
  "newline \<notin> set l \<Longrightarrow> (after = [] \<or> hd after = newline) \<Longrightarrow>
    \<exists>end rest. fgets_chars n (l @ after) = (take n l @ end, rest) \<and> (end = [] \<or> end = [newline])"
proof (induction l arbitrary: n)
  case Nil
  then show ?case by (cases n; cases after) auto
next
  case (Cons c l)
  show ?case
  proof (cases n)
    case (Suc k)
    obtain e rest where "fgets_chars k (l @ after) = (take k l @ e, rest)" "e = [] \<or> e = [newline]"
      using Cons.IH [of k] Cons.prems by auto
    then show ?thesis using Suc Cons.prems(1) by auto
  qed auto
qed

lemma strncmp_prefix:
  "strncmp_eq b label (length label) \<longleftrightarrow> prefix label (c_str b)"
proof -
  have "c_str label = label" using label_chars(1) by (simp add: c_str_def takeWhile_eq_all_conv) metis
  then show ?thesis
    by (simp add: strncmp_eq_def) (metis append_take_drop_id append_eq_conv_conj prefix_def)
qed

lemma c_str_prefix: "prefix (c_str b) b"
  by (simp add: c_str_def takeWhile_is_prefix)

lemma strncmp_sublist: "strncmp_eq b label (length label) \<Longrightarrow> sublist label b"
  unfolding strncmp_prefix
  using c_str_prefix prefix_order.trans prefix_imp_sublist by blast

lemma fgets_nonempty: "f \<noteq> [] \<Longrightarrow> fgets 256 f = Some (fgets_chars 255 f)"
  by (simp add: fgets_def)

text \<open>Lines without the label are read over.\<close>

lemma read_name_skip:
  "(pre = [] \<or> last pre = newline) \<Longrightarrow> \<not> sublist label pre \<Longrightarrow> read_name (pre @ f) = read_name f"
proof (induction pre rule: length_induct)
  case (1 pre)
  show ?case
  proof (cases "pre = []")
    case False
    obtain l rest where g: "fgets_chars 255 (pre @ f) = (l, rest)" by fastforce
    obtain pre' where p: "pre = l @ pre'" "rest = pre' @ f" "pre' = [] \<or> last pre' = newline"
      using fgets_chars_lines [OF g False] 1 False by auto
    have g': "fgets 256 (pre @ f) = Some (l, rest)" using False g by (simp add: fgets_def)
    have "length rest < length (pre @ f)" by (rule fgets_progress [OF g'])
    then have "length pre' < length pre" using p by simp
    moreover have n: "\<not> sublist label pre'" "\<not> sublist label l"
      using 1 p(1) by (auto simp: sublist_append)
    ultimately have "read_name (pre' @ f) = read_name f" using 1 p(3) by blast
    then show ?thesis
      using strncmp_sublist [of l] n(2) by (subst read_name.simps) (simp add: g' p(2), blast)
  qed simp
qed

lemma c_str_append: "CHR 0x00 \<notin> set s \<Longrightarrow> c_str (s @ t) = s @ c_str t"
  by (induction s) (auto simp: c_str_def)

lemma cut_newline_id:
  assumes "newline \<notin> set s" and "end = [] \<or> end = [newline]"
  shows "cut_newline (c_str (s @ end)) = c_str s"
  using assms by (induction s) (auto simp: c_str_def cut_newline_def newline_def)

lemma read_name_stated:
  assumes "states_name f name" shows "read_name f = Some name"
proof -
  obtain before m after where f: "f = before @ label @ m @ after"
      "before = [] \<or> last before = newline" "\<not> sublist label before" "newline \<notin> set m"
      "after = [] \<or> hd after = newline" "name = c_str (take 249 m)"
    using assms by (auto simp: states_name_def)
  have "newline \<notin> set (label @ m)" using f(4) label_chars(2) by simp
  then obtain e rest where g: "fgets_chars 255 ((label @ m) @ after) = (take 255 (label @ m) @ e, rest)"
      "e = [] \<or> e = [newline]"
    using fgets_chars_line [OF _ f(5)] by blast
  have t: "take 255 (label @ m) @ e = label @ take 249 m @ e" by (simp add: label_chars(3))
  have "label @ m @ after \<noteq> []" by (simp add: label_def)
  then have g': "fgets 256 (label @ m @ after) = Some (label @ take 249 m @ e, rest)"
    using g(1) t fgets_nonempty by simp
  have b: "strncmp_eq (label @ take 249 m @ e) label (length label)"
    unfolding strncmp_prefix by (simp add: c_str_append label_chars(1))
  have "newline \<notin> set (take 249 m)" using f(4) by (meson in_set_takeD)
  then have "cut_newline (c_str (take 249 m @ e)) = name"
    using cut_newline_id g(2) f(6) by simp
  then have "read_name (label @ m @ after) = Some name"
    using b by (subst read_name.simps) (simp add: g')
  then show ?thesis using read_name_skip [OF f(2,3)] f(1) by simp
qed

text \<open>Without the label anywhere the loop finds nothing.\<close>

lemma read_name_none:
  "\<not> sublist label f \<Longrightarrow> read_name f = None"
proof (induction f rule: length_induct)
  case (1 f)
  show ?case
  proof (cases "fgets 256 f")
    case None
    then show ?thesis by (subst read_name.simps) simp
  next
    case (Some r)
    obtain l rest where r: "fgets 256 f = Some (l, rest)" using Some by (cases r) auto
    then have "f = l @ rest" using fgets_chars_split by (auto simp: fgets_def split: if_splits)
    then have "\<not> sublist label l" "\<not> sublist label rest" using 1 by (auto simp: sublist_append)
    moreover have "length rest < length f" by (rule fgets_progress [OF r])
    ultimately show ?thesis
      using 1 strncmp_sublist [of l] by (subst read_name.simps) (simp add: r, blast)
  qed
qed

section \<open>What is printed\<close>

text \<open>The numbered directories whose status file opens, in the order of the directory.\<close>

definition listed :: "(string \<Rightarrow> string option) \<Rightarrow> (nat \<times> string) list \<Rightarrow> string list" where
  "listed fopen ents = filter (\<lambda>p. atoi p \<noteq> 0 \<and> fopen (status_path p) \<noteq> None)
    (map snd (filter (\<lambda>e. fst e = 4) ents))"

definition status_of :: "(string \<Rightarrow> string option) \<Rightarrow> string \<Rightarrow> string" where
  "status_of fopen p = the (fopen (status_path p))"

text \<open>The loop over the directory only depends on the processes listed.\<close>

fun print_listed :: "(string \<Rightarrow> string option) \<Rightarrow> string list \<Rightarrow> string \<times> stop option" where
  "print_listed fopen [] = ('''', None)"
| "print_listed fopen (p # ps) = (case read_name (status_of fopen p) of
      None \<Rightarrow> ('''', Some Uninitialised_read)
    | Some name \<Rightarrow> (case print_listed fopen ps of (out, r) \<Rightarrow> (process_line p name @ out, r)))"

lemma list_entries_listed:
  "list_entries fopen ents = print_listed fopen (listed fopen ents)"
proof (induction ents)
  case (Cons e ents)
  obtain t p where e: "e = (t, p)" by (cases e)
  show ?case
  proof (cases "t = 4 \<and> atoi p \<noteq> 0")
    case True
    then show ?thesis using Cons
      by (cases "fopen (status_path p)"; cases "read_name (the (fopen (status_path p)))")
        (simp_all add: e print_process_info_def listed_def status_of_def split: prod.split)
  next
    case False
    then show ?thesis using Cons by (auto simp: e listed_def split: prod.split)
  qed
qed (simp add: listed_def)

lemma print_listed_named:
  "\<forall>p \<in> set ps. states_name (status_of fopen p) (cmd p) \<Longrightarrow> print_listed fopen (ps @ qs) =
    (case print_listed fopen qs of (out, r) \<Rightarrow> (concat (map (\<lambda>p. process_line p (cmd p)) ps) @ out, r))"
proof (induction ps)
  case (Cons p ps)
  have "read_name (status_of fopen p) = Some (cmd p)" by (rule read_name_stated) (use Cons.prems in simp)
  moreover have "print_listed fopen (ps @ qs) =
    (case print_listed fopen qs of (out, r) \<Rightarrow> (concat (map (\<lambda>p. process_line p (cmd p)) ps) @ out, r))"
    by (rule Cons.IH) (use Cons.prems in simp)
  ultimately show ?case by (simp split: prod.split)
qed (simp split: prod.split)

text \<open>
  C40: The process lister prints the heading and then, in the order of the directory, one line for
  each directory whose name has a nonzero number at its start (by atoi) and whose status file opens:
  the name padded to five columns and the name the file states after its label. It then returns 0.
  If the file of one of them has no label anywhere, the run stops there after the lines of the
  processes before, because the array printed is uninitialised. If the directory does not open, the
  heading is printed and the exit status is 1. Lines may have any length, and nothing is asked of
  the contents after the labelled line.
\<close>

theorem tps_prints_names:
  assumes "opendir ''/proc'' = Some ents" and "listed fopen ents = ps @ qs"
    and "\<forall>p \<in> set ps. states_name (status_of fopen p) (cmd p)"
    and "qs = [] \<or> \<not> sublist label (status_of fopen (hd qs))"
  shows "tps_main opendir fopen =
      (heading @ concat (map (\<lambda>p. process_line p (cmd p)) ps),
       if qs = [] then Inr 0 else Inl Uninitialised_read)
    \<and> (closed ''/proc'' = None \<longrightarrow> tps_main closed fopen = (heading, Inl (Exit_status 1)))"
proof -
  have "print_listed fopen qs = ('''', if qs = [] then None else Some Uninitialised_read)"
    using assms(4) read_name_none by (cases qs) auto
  then have "list_entries fopen ents = (concat (map (\<lambda>p. process_line p (cmd p)) ps),
      if qs = [] then None else Some Uninitialised_read)"
    unfolding list_entries_listed assms(2) print_listed_named [OF assms(3)] by simp
  then show ?thesis by (simp add: tps_main_def get_process_info_def assms(1))
qed

definition demo_proc :: "(nat \<times> string) list" where
  "demo_proc = [(4, ''self''), (4, ''1''), (8, ''2''), (4, ''37''), (4, ''4294967296''), (4, ''40''), (4, ''41'')]"

definition demo_status :: "string \<Rightarrow> string option" where
  "demo_status path =
    (if path = status_path ''1'' then Some (label @ ''init'' @ [newline] @ replicate 300 (CHR ''f'') @ [newline])
     else if path = status_path ''40'' then Some (''State: R'' @ [newline])
     else if path = status_path ''4294967296'' then Some (label @ ''big'') else None)"

theorem tps_prints_names_witness:
  "tps_main (\<lambda>_. Some demo_proc) demo_status =
    (''  PID CMD'' @ [newline] @ ''    1 init'' @ [newline], Inl Uninitialised_read)"
proof -
  have a: "listed demo_status demo_proc = [''1''] @ [''40'']" by code_simp
  have s: "status_of demo_status ''1'' = [] @ label @ ''init'' @ ([newline] @ replicate 300 (CHR ''f'') @ [newline])"
    by (simp add: status_of_def demo_status_def)
  have n: "states_name (status_of demo_status ''1'') ''init''"
    unfolding states_name_def s
    by (rule exI [of _ "[]"], rule exI [of _ "''init''"], rule exI) (auto simp: newline_def c_str_def label_def)
  have l: "\<not> sublist label (status_of demo_status ''40'')" by code_simp
  show ?thesis
    using tps_prints_names [where opendir = "\<lambda>_. Some demo_proc" and fopen = demo_status
        and closed = "\<lambda>_. None" and cmd = "\<lambda>_. ''init''", OF _ a] n l
    by (simp add: heading_def process_line_def pad_left_def numeral_eq_Suc)
qed

end
