(* ===== verification/Exercises.thy ===== *)
theory Exercises
  imports Prelude
begin

text \<open>
  The two programs of a few lines: \<open>debugging-practice/src/example.c\<close>, with the lifetimes of its
  local objects, and the kernel module \<open>hello-kernel/hello.c\<close>, with the kernel log.
\<close>

section \<open>The debugging exercise\<close>

datatype c_stop = Signed_overflow | Null_pointer | Dead_object

datatype int_pointer = NULL | Address nat

text \<open>The \<open>int\<close> objects: \<open>None\<close> for those not yet created and those whose lifetime has ended.\<close>

record locals =
  object :: "nat \<Rightarrow> int option"
  created_objects :: nat

definition int_range :: "int \<Rightarrow> bool" where
  "int_range x \<longleftrightarrow> - (2 ^ 31) \<le> x \<and> x < 2 ^ 31"

definition read_int :: "int_pointer \<Rightarrow> locals \<Rightarrow> c_stop + int" where
  "read_int p m = (case p of NULL \<Rightarrow> Inl Null_pointer
     | Address a \<Rightarrow> (case object m a of None \<Rightarrow> Inl Dead_object | Some x \<Rightarrow> Inr x))"

text \<open>The local \<open>c\<close> is created by the call, and its lifetime ends when the call returns.\<close>

definition add_nonnegative :: "int \<Rightarrow> int \<Rightarrow> locals \<Rightarrow> c_stop + (int_pointer \<times> locals)" where
  "add_nonnegative a b m =
     (if \<not> int_range (a + b) then Inl Signed_overflow
      else let c = created_objects m;
               m = m\<lparr>object := (object m)(c \<mapsto> a + b), created_objects := c + 1\<rparr>;
               p = Address c;
               p = (if a < 0 \<or> b < 0 then NULL else p) in
           Inr (p, m\<lparr>object := (object m)(c := None)\<rparr>))"

text \<open>\<open>main\<close>, with the numbers it prints.\<close>

definition example_main :: "locals \<Rightarrow> c_stop + int list" where
  "example_main m =
     and_then (add_nonnegative 1 3 m) (\<lambda>(result_1, m).
     and_then (add_nonnegative (-1) 1 m) (\<lambda>(result_2, m).
     and_then (read_int result_1 m) (\<lambda>x.
     and_then (read_int result_2 m) (\<lambda>y. Inr [x, y]))))"

text \<open>No pointer the function returns can be dereferenced, then or after any further calls.\<close>

fun add_calls :: "(int \<times> int) list \<Rightarrow> locals \<Rightarrow> c_stop + locals" where
  "add_calls [] m = Inr m"
| "add_calls ((a, b) # cs) m = and_then (add_nonnegative a b m) (\<lambda>(p, m). add_calls cs m)"

lemma add_calls_dead:
  "add_calls cs m = Inr m' \<Longrightarrow> a < created_objects m \<Longrightarrow> object m a = None \<Longrightarrow> object m' a = None"
proof (induction cs arbitrary: m)
  case (Cons c cs)
  obtain x y where c: "c = (x, y)" by (cases c)
  then obtain p m1 where m1: "add_nonnegative x y m = Inr (p, m1)" "add_calls cs m1 = Inr m'"
    using Cons.prems(1) by (auto simp: and_then_eq_Inr)
  then have "a < created_objects m1" "object m1 a = None"
    using Cons.prems(2,3) by (auto simp: add_nonnegative_def Let_def split: if_splits)
  with Cons.IH m1(2) show ?case by blast
qed simp

lemma add_nonnegative_dangling:
  assumes "add_nonnegative a b m = Inr (p, m1)" "add_calls cs m1 = Inr m2"
  shows "read_int p m2 = Inl (if a < 0 \<or> b < 0 then Null_pointer else Dead_object)"
proof -
  have p: "p = (if a < 0 \<or> b < 0 then NULL else Address (created_objects m))"
    and m1: "object m1 (created_objects m) = None" "created_objects m < created_objects m1"
    using assms(1) by (auto simp: add_nonnegative_def Let_def split: if_splits)
  show ?thesis using p add_calls_dead [OF assms(2) m1(2,1)] by (simp add: read_int_def)
qed

text \<open>The exercise stops at its first \<open>printf\<close>, whose argument is the object of a call that has returned.\<close>

lemma example_main_stops: "example_main m = Inl Dead_object"
  by (simp add: example_main_def add_nonnegative_def int_range_def read_int_def Let_def)

section \<open>The kernel module\<close>

definition hello_init :: "string list \<Rightarrow> int \<times> string list" where
  "hello_init log = (0, log @ [''Hello kernel.'' @ [CHR 0x0A]])"

definition hello_exit :: "string list \<Rightarrow> string list" where
  "hello_exit log = log @ [''Goodbye kernel.'' @ [CHR 0x0A]]"

text \<open>The init function reports success, which keeps the module loaded until its exit function runs.\<close>

lemma hello_life:
  "fst (hello_init log) = 0"
  "hello_exit (snd (hello_init log)) = log @ [''Hello kernel.'' @ [CHR 0x0A], ''Goodbye kernel.'' @ [CHR 0x0A]]"
  by (simp_all add: hello_init_def hello_exit_def)

end
