(* ===== verification/Spec2Isabelle.thy ===== *)
theory Spec2Isabelle
  imports SpacesRun WutRuns Ext2Props PhtMain PhtReaders SspRuns Tps Exercises
begin

text \<open>
  A verification development for the C programs of the repository. The programs share no code: each
  directory under \<^verbatim>\<open>src\<close> is a program or library of its own, and each has its own group of theories
  here. All of them import \<open>Prelude\<close> (word types, results, sequencing, counted loops, byte encodings),
  except the process lister, which needs none of it.

  Reading the model. A C function becomes a function of the same name on an explicit state record
  whose fields are the globals it uses. A result type \<open>stop + 'a\<close> has \<open>Inl\<close> for the ways the process
  can stop: a failed \<open>assert\<close>, \<open>exit\<close>, an access outside every object, a null or freed pointer.
  \<open>and_then\<close> sequences two statements, and \<open>for_each body [0..<n]\<close> is a counted loop. Machine integers
  are words where the code does arithmetic on them; loop counters and array indices that cannot
  overflow are naturals. Loops without a static bound are recursive functions with a termination
  proof, so no fuel occurs: the fault loop of \<open>mmu\<close> retries once per level, \<open>read_name\<close> consumes the
  file, and \<open>record_unknown_processes\<close> consumes reports of children.

  Virtual memory simulator (\<^verbatim>\<open>src/vms/src\<close>).
  \<open>VmsState\<close> holds the statics of all files and the byte memory. \<open>Pte\<close> models \<^verbatim>\<open>pte.c\<close>, \<open>PageTable\<close>
  \<^verbatim>\<open>page_table.c\<close>, \<open>Pages\<close> the allocator \<^verbatim>\<open>pages.c\<close>, \<open>Mmu\<close> the translation \<^verbatim>\<open>mmu.c\<close> with the page
  fault handler of \<^verbatim>\<open>vms.c\<close>, \<open>Fork\<close> its two fork functions, and \<open>VmsMain\<close> the demonstration
  \<^verbatim>\<open>main.c\<close>. \<open>AddressSpace\<close> is the abstract specification: a tree of tables over data pages, and
  \<open>walk\<close>, the table an address is found in. The locale \<open>page_allocator\<close> states what the allocator
  promises its clients; it is interpreted on \<open>vms_new_page\<close> and \<open>vms_free_page\<close>. \<open>VmsProps\<close> shows
  that translation is the abstract walk, that a write is read back and changes nothing else, that
  forbidden accesses end in the fault report, that \<open>vms_fork_copy\<close> makes a disjoint copy with the same
  contents and when it runs out of pages, and what the demonstration prints. \<open>VmsCow\<close> shows how a
  write to a copy-on-write page is resolved, \<open>CowFork\<close> what \<open>vms_fork_copy_on_write\<close> leaves (shared
  data pages, marked entries, counts in \<open>ref_track\<close>), and \<open>CowIsolation\<close> that parent and child do not
  see each other's writes. \<open>VmsSpaces\<close>, \<open>SpacesFork\<close> and \<open>SpacesRun\<close> put the operations together: the
  invariant that \<open>ref_track\<close> counts the spaces that map a page, kept by writes and by both forks, and
  the refinement of a specification in which every space is a memory of its own. The pool has 256 pages, as \<open>MAX_PAGES\<close> says, and the
  address \<open>mmap\<close> returns is a parameter.

  User-level threads (\<^verbatim>\<open>src/wut/src/wut.c\<close>).
  \<open>Wut\<close> models every function on a heap of control blocks, a queue of nodes and stacks that are mapped
  or not; a saved context is the point at which the thread resumes. Which calls of \<open>mmap\<close> and
  \<open>munmap\<close> fail is part of the state, and \<open>die\<close> then ends the process. \<open>WutState\<close> has the invariant of
  the thread array and the queue, \<open>WutSched\<close> and \<open>WutOps\<close> show that every call keeps it, \<open>WutFrame\<close> what
  every call leaves alone and what \<open>wut_cancel\<close> does in every state, stale marks included. \<open>WutProps\<close>
  draws the conclusions for all runs: no call that the documentation permits reaches a bad pointer,
  threads run in turn, a joiner stays blocked until its target has finished, and join, exit, cancel
  and create do what they promise. \<open>WutRuns\<close> says for every reachable state when the code misbehaves:
  the effect of stale join marks, the joins that dereference a null pointer, the cancel that reads
  past the array; and it has a run that loses a wakeup. Ids and counts are unbounded integers, which
  is exact below \<open>2\<^sup>3\<^sup>0\<close> threads, where the size of the array can still be doubled.

  Image writer (\<^verbatim>\<open>src/hello-ext2/src/ext2-create.c\<close>).
  \<open>Ext2\<close> has the on-disk structures with their bytes, the file written to and its system calls, which
  may fail; \<open>Ext2Write\<close> the functions that fill the image; \<open>Ext2Props\<close> reads the image back as an ext2
  driver would and compares the free counts, link counts, directories and files with what they
  should be. The bytes \<open>write\<close> takes from beyond a structure are a parameter.
  A clock that returns \<open>-1\<close> is one of the calls that fail, as the code takes it to be.

  Hash tables (\<^verbatim>\<open>src/pht/src\<close>).
  \<open>Pht\<close> models the plain table and the reads of the concurrent ones, \<open>PhtLife\<close> the creation and
  destruction of the concurrent ones with their mutexes, whose initialisation and destruction may fail. \<open>PhtMap\<close> has the locales \<open>string_lookup\<close>
  and \<open>string_table\<close>, the contract of a table as a map from strings, interpreted on all three.
  \<open>PhtThreads\<close> models the two concurrent insertions as interleaved steps and shows that every
  execution finishes and leaves what some sequential order of the insertions leaves. \<open>PhtReaders\<close>
  lets the reads, which take no lock, run step by step among the insertions, and shows that each
  answers as the table would at some moment while it ran. \<open>PhtTester\<close>
  models the argument parser and the loops of \<^verbatim>\<open>pht-tester.c\<close>, \<open>PhtGen\<close> the random strings in the
  memory allocated for them, and \<open>PhtMain\<close> its \<open>main\<close> from the arguments to the exit status, with
  \<open>pthread_create\<close> and \<open>pthread_join\<close> that may fail.

  Process supervisor (\<^verbatim>\<open>src/ssp/src/ssp.c\<close>).
  \<open>Ssp\<close> models every function over a state with the two tables, the children the kernel knows and a
  script of what other processes will do; each allocation, those of \<open>strdup\<close> and \<open>realloc\<close> included, may
  fail. \<open>SspProps\<close> has the invariant of the tables and what \<open>ssp_get_status\<close> and \<open>ssp_wait\<close> report;
  \<open>SspRuns\<close> what holds over all sequences of calls and every way a run can stop, the open files of a
  new process, and the statuses that are lost or made up in any state. The descriptor that \<open>opendir\<close>
  takes in a new process is not in its table of open files; it is closed before \<open>execvp\<close>. Sizes and counts are unbounded integers,
  which is exact below \<open>2\<^sup>3\<^sup>0\<close> processes.

  Process lister (\<^verbatim>\<open>src/tps/src/main.c\<close>).
  \<open>Tps\<close> models the whole program over a file system given as functions, and the text it prints, for
  lines of any length and names with any number in them. Where the program would print its
  uninitialised array the run ends, since C gives that no meaning.

  Small programs (\<^verbatim>\<open>src/debugging-practice/src/example.c\<close>, \<^verbatim>\<open>src/hello-kernel/hello.c\<close>).
  \<open>Exercises\<close> models the exercise with the lifetimes of its locals, and shows that no pointer its
  function returns can be dereferenced, and the two functions of the kernel module.

  Not modelled. The text of messages (\<open>perror\<close>, \<open>printf\<close> formats) beyond the values in them; option
  parsing by \<open>argp\<close> and the timings of the hash table tester; failures of \<open>malloc\<close>
  and \<open>calloc\<close> except in the supervisor; failures of \<open>pthread_mutex_lock\<close>; memory models weaker than
  sequential consistency; what the program started by \<open>execvp\<close> does.
\<close>

end
